(* ===== verification/Prelude.thy ===== *)
theory Prelude
  imports Main "HOL-Library.Multiset" "HOL-Library.Word"
begin

text \<open>
  Shared vocabulary of the development: the faults a C++ operation of the
  framework can end in, the result type that carries them, and the generic
  lemmas on lists, counting and results that the component theories use.
\<close>

section \<open>Faults and results\<close>

text \<open>
  \<open>fault\<close> lists the ways an operation of the sources leaves its normal path:
  a failed \<^verbatim>\<open>assert\<close>, a failed \<^verbatim>\<open>RDDCHECK\<close>, a thrown standard exception or \<^verbatim>\<open>TypeError\<close>, the
  dereference of a null pointer, an access that the C++ standard leaves
  undefined (index or iterator out of range, \<^verbatim>\<open>top()\<close> of an empty stack, use
  of a deleted object), and a loop that never ends.
\<close>

datatype fault =
    Assert_Failed
  | Check_Failed
  | Runtime_Error
  | Out_Of_Range
  | Overflow_Error
  | Length_Error
  | Invalid_Argument
  | Range_Error
  | Type_Error
  | Logic_Error
  | Null_Deref
  | Undefined
  | Diverges

type_synonym 'a result = "fault + 'a"

text \<open>Sequencing: the rest of the operation runs only when the first part returned.\<close>

definition res_bind :: "'a result \<Rightarrow> ('a \<Rightarrow> 'b result) \<Rightarrow> 'b result" where
  "res_bind m f = (case m of Inl e \<Rightarrow> Inl e | Inr x \<Rightarrow> f x)"

definition ok :: "'a result \<Rightarrow> bool" where
  "ok m = (case m of Inl e \<Rightarrow> False | Inr x \<Rightarrow> True)"

definition guard :: "bool \<Rightarrow> fault \<Rightarrow> 'a result \<Rightarrow> 'a result" where
  "guard b e m = (if b then m else Inl e)"

named_theorems result_simps \<open>evaluation rules for results\<close>

lemma res_bind_Inl [simp, result_simps]: "res_bind (Inl e) f = Inl e"
  by (simp add: res_bind_def)

lemma res_bind_Inr [simp, result_simps]: "res_bind (Inr x) f = f x"
  by (simp add: res_bind_def)

lemma res_bind_eq_Inr [result_simps]:
  "res_bind m f = Inr y \<longleftrightarrow> (\<exists>x. m = Inr x \<and> f x = Inr y)"
  by (cases m) (auto simp: res_bind_def)

lemma res_bind_eq_Inl [result_simps]:
  "res_bind m f = Inl e \<longleftrightarrow> m = Inl e \<or> (\<exists>x. m = Inr x \<and> f x = Inl e)"
  by (cases m) (auto simp: res_bind_def)

lemma res_bind_assoc: "res_bind (res_bind m f) g = res_bind m (\<lambda>x. res_bind (f x) g)"
  by (cases m) auto

lemma ok_simps [simp, result_simps]: "ok (Inr x)" "\<not> ok (Inl e)"
  by (simp_all add: ok_def)

lemma ok_iff: "ok m \<longleftrightarrow> (\<exists>x. m = Inr x)"
  by (cases m) auto

lemma guard_True [simp, result_simps]: "guard True e m = m"
  by (simp add: guard_def)

lemma guard_False [simp, result_simps]: "guard False e m = Inl e"
  by (simp add: guard_def)

lemma guard_eq_Inr [result_simps]: "guard b e m = Inr y \<longleftrightarrow> b \<and> m = Inr y"
  by (simp add: guard_def)

section \<open>Lists\<close>

lemma sum_list_update_nat:
  fixes xs :: "nat list"
  assumes "i < length xs"
  shows "sum_list (xs[i := v]) + xs ! i = sum_list xs + v"
  using assms
proof (induction xs arbitrary: i)
  case (Cons a xs)
  then show ?case by (cases i) (auto simp: algebra_simps)
qed simp

lemma count_list_pos_iff: "0 < count_list xs x \<longleftrightarrow> x \<in> set xs"
  by (induction xs) auto

lemma count_list_butlast:
  "xs \<noteq> [] \<Longrightarrow> count_list xs x = count_list (butlast xs) x + (if last xs = x then 1 else 0)"
  by (induction xs) auto

lemma count_list_update:
  assumes "i < length xs"
  shows "count_list (xs[i := y]) x + (if xs ! i = x then 1 else 0) =
    count_list xs x + (if y = x then 1 else 0)"
  using assms
proof (induction xs arbitrary: i)
  case (Cons a xs)
  show ?case
  proof (cases i)
    case (Suc j)
    then show ?thesis using Cons.IH [of j] Cons.prems by (simp split: if_splits)
  qed auto
qed simp

lemma set_upt_Suc_eq: "set [a..<Suc b] = {a..b}"
  by auto

lemma nth_append_same [simp]: "(xs @ [x]) ! length xs = x"
  by simp

lemma count_list_concat_update:
  assumes "i < length xss"
  shows "count_list (concat (xss[i := ys])) x + count_list (xss ! i) x
       = count_list (concat xss) x + count_list ys x"
  using assms
proof (induction xss arbitrary: i)
  case (Cons a xss)
  then show ?case by (cases i) (auto simp: algebra_simps)
qed simp

lemma sum_length_update:
  assumes "i < length xss"
  shows "sum_list (map length (xss[i := ys])) + length (xss ! i)
       = sum_list (map length xss) + length ys"
  using assms
proof (induction xss arbitrary: i)
  case (Cons a xss)
  then show ?case by (cases i) (auto simp: algebra_simps)
qed simp

lemma count_list_le_concat: "i < length xss \<Longrightarrow> count_list (xss ! i) x \<le> count_list (concat xss) x"
  using count_list_concat_update [of i xss "[]" x] by simp

lemma snoc_eq_append_Cons:
  "tr @ [e] = xs @ x # ys \<longleftrightarrow>
   (ys = [] \<and> e = x \<and> xs = tr) \<or> (\<exists>ys'. ys = ys' @ [e] \<and> tr = xs @ x # ys')"
  by (cases ys rule: rev_cases) auto

section \<open>Unsigned 64-bit arithmetic on \<open>size_t\<close> counters\<close>

definition size_inc :: "nat \<Rightarrow> nat" where
  "size_inc n = (n + 1) mod 2 ^ 64"

definition size_dec :: "nat \<Rightarrow> nat" where
  "size_dec n = (if n = 0 then 2 ^ 64 - 1 else n - 1)"

lemma size_inc_small: "n < 2 ^ 64 - 1 \<Longrightarrow> size_inc n = Suc n"
  by (simp add: size_inc_def)

lemma size_dec_pos [simp]: "0 < n \<Longrightarrow> size_dec n = n - 1"
  by (simp add: size_dec_def)

section \<open>Finite relations\<close>

text \<open>In a finite relation, a non-empty set closed under some predecessor contains a cycle.\<close>

lemma pred_closed_not_acyclic:
  assumes fin: "finite R" and ne: "k \<in> S"
    and pred: "\<And>k. k \<in> S \<Longrightarrow> \<exists>p \<in> S. (p, k) \<in> R"
  shows "\<not> acyclic R"
proof
  assume "acyclic R"
  with fin have "wf R" by (rule finite_acyclic_wf)
  then obtain m where "m \<in> S" and "\<And>p. (p, m) \<in> R \<Longrightarrow> p \<notin> S"
    using ne by (rule wfE_min) blast
  with pred show False by blast
qed

lemma not_acyclic_pred_closed:
  assumes "\<not> acyclic R"
  obtains S where "S \<noteq> {}" and "\<forall>k \<in> S. \<exists>p \<in> S. (p, k) \<in> R"
proof -
  from assms obtain x where x: "(x, x) \<in> R\<^sup>+" by (auto simp: acyclic_def)
  have "\<exists>p. (p, k) \<in> R \<and> (x, p) \<in> R\<^sup>* \<and> (p, x) \<in> R\<^sup>*"
    if k: "(x, k) \<in> R\<^sup>+" "(k, x) \<in> R\<^sup>*" for k
  proof -
    from k(1) obtain p where "(x, p) \<in> R\<^sup>*" "(p, k) \<in> R" by (auto dest: tranclD2)
    with k(2) show ?thesis by (meson converse_rtrancl_into_rtrancl)
  qed
  note step = this
  let ?S = "{k. (x, k) \<in> R\<^sup>+ \<and> (k, x) \<in> R\<^sup>*}"
  show thesis
  proof (rule that [of ?S])
    show "?S \<noteq> {}" using x by auto
    show "\<forall>k \<in> ?S. \<exists>p \<in> ?S. (p, k) \<in> R"
    proof
      fix k assume "k \<in> ?S"
      with step [of k] obtain p where p: "(p, k) \<in> R" "(x, p) \<in> R\<^sup>*" "(p, x) \<in> R\<^sup>*" by auto
      from x p(2) have "(x, p) \<in> R\<^sup>+" by (rule trancl_rtrancl_trancl)
      with p show "\<exists>p \<in> ?S. (p, k) \<in> R" by auto
    qed
  qed
qed

end
