(* ===== verification/Wait_Group.thy ===== *)
theory Wait_Group
  imports Prelude
begin

text \<open>
  The wait groups of \<^verbatim>\<open>src/raster/parallel/Group.h\<close>: a pool of group keys, each
  with the number of members that have not finished. \<^verbatim>\<open>Actor::waitGroup\<close>
  creates a group for the requests a fiber sends in parallel, and
  \<^verbatim>\<open>Actor::execute\<close> finishes one member per response; the last one resumes the
  fiber. The reader/writer lock makes each operation atomic, so an operation is
  one function on the state.
\<close>

section \<open>State and operations\<close>

text \<open>\<open>groupKeys\<close> is the stack of free keys, its top first.\<close>

record group =
  capacity :: nat
  groupKeys :: "nat list"
  groupCounts :: "nat list"

text \<open>
  The loop \<^verbatim>\<open>for (Key i = capacity_; i >= bound; --i) groupKeys_.push(i)\<close>. The
  index is unsigned, so with \<open>bound = 0\<close> the loop never ends; the loop is only
  entered with \<open>0 < bound\<close>.
\<close>

function pushKeys :: "nat \<Rightarrow> nat \<Rightarrow> nat list \<Rightarrow> nat list" where
  "pushKeys i bound ks =
     (if 0 < i \<and> bound \<le> i then pushKeys (i - 1) bound (i # ks) else ks)"
  by pat_completeness auto
termination
  by (relation "measure (\<lambda>(i, _, _). i)") auto

declare pushKeys.simps [simp del]

text \<open>\<^verbatim>\<open>vector::resize(n, 0)\<close>: truncates or pads with zeros.\<close>

definition resize0 :: "nat \<Rightarrow> nat list \<Rightarrow> nat list" where
  "resize0 n xs = take n xs @ replicate (n - length xs) 0"

definition increase :: "nat \<Rightarrow> group \<Rightarrow> group result" where
  "increase bound g =
     guard (0 < bound) Diverges
       (Inr (g\<lparr>groupKeys := pushKeys (capacity g) bound (groupKeys g),
              groupCounts := resize0 (capacity g + 1) (groupCounts g)\<rparr>))"

definition newGroup :: "nat \<Rightarrow> group result" where
  "newGroup cap = increase 1 \<lparr>capacity = cap, groupKeys = [], groupCounts = []\<rparr>"

text \<open>
  \<^verbatim>\<open>Group::create\<close>. \<^verbatim>\<open>top()\<close> of an empty stack and an index outside
  \<^verbatim>\<open>groupCounts_\<close> are undefined behaviour.
\<close>

definition createGroup :: "nat \<Rightarrow> group \<Rightarrow> (nat \<times> group) result" where
  "createGroup groupSize g =
     res_bind
       (if groupKeys g = []
        then increase (length (groupCounts g)) (g\<lparr>capacity := capacity g * 2\<rparr>)
        else Inr g)
       (\<lambda>g1. guard (0 < groupSize) Assert_Failed
          (case groupKeys g1 of
             [] \<Rightarrow> Inl Undefined
           | key # ks \<Rightarrow>
               guard (key < length (groupCounts g1)) Undefined
                 (Inr (key, g1\<lparr>groupKeys := ks,
                              groupCounts := (groupCounts g1)[key := groupSize]\<rparr>))))"

text \<open>\<^verbatim>\<open>Group::finish\<close>: key 0 stands for no group.\<close>

definition finishGroup :: "nat \<Rightarrow> group \<Rightarrow> (bool \<times> group) result" where
  "finishGroup key g =
     (if key = 0 then Inr (True, g)
      else guard (key < length (groupCounts g)) Undefined
        (guard (0 < groupCounts g ! key) Assert_Failed
          (let n = groupCounts g ! key - 1;
               g1 = g\<lparr>groupCounts := (groupCounts g)[key := n]\<rparr>
           in if n \<le> 0 then Inr (True, g1\<lparr>groupKeys := key # groupKeys g1\<rparr>)
              else Inr (False, g1))))"

definition countGroups :: "group \<Rightarrow> nat" where
  "countGroups g = capacity g - length (groupKeys g)"

section \<open>Well-formedness and abstraction\<close>

text \<open>
  The free keys are distinct keys of \<open>1..capacity\<close>, and a key is free exactly
  when no member is outstanding.
\<close>

definition group_inv :: "group \<Rightarrow> bool" where
  "group_inv g \<longleftrightarrow>
     0 < capacity g \<and> length (groupCounts g) = capacity g + 1 \<and>
     distinct (groupKeys g) \<and>
     set (groupKeys g) = {k. 1 \<le> k \<and> k \<le> capacity g \<and> groupCounts g ! k = 0}"

text \<open>The abstract state: the active groups with their outstanding members.\<close>

definition active :: "group \<Rightarrow> nat \<rightharpoonup> nat" where
  "active g = (\<lambda>k. if 1 \<le> k \<and> k \<le> capacity g \<and> 0 < groupCounts g ! k
                   then Some (groupCounts g ! k) else None)"

lemma pushKeys_eq: "0 < bound \<Longrightarrow> pushKeys i bound ks = [bound..<Suc i] @ ks"
proof (induction i bound ks rule: pushKeys.induct)
  case (1 i bound ks)
  show ?case
  proof (cases "bound \<le> i")
    case True
    then obtain j where i: "i = Suc j" using 1(2) by (cases i) auto
    with True 1 have "pushKeys j bound (i # ks) = [bound..<Suc j] @ i # ks" by simp
    with True i show ?thesis by (simp add: pushKeys.simps [of "Suc j"])
  next
    case False
    then show ?thesis by (simp add: pushKeys.simps [of i])
  qed
qed

lemma resize0_grow [simp]:
  "length xs \<le> n \<Longrightarrow> resize0 n xs = xs @ replicate (n - length xs) 0"
  by (simp add: resize0_def)

lemma group_inv_new:
  assumes "0 < cap"
  obtains g where "newGroup cap = Inr g" and "group_inv g" and "active g = Map.empty"
    and "capacity g = cap"
proof
  let ?g = "\<lparr>capacity = cap, groupKeys = [1..<Suc cap], groupCounts = replicate (cap + 1) 0\<rparr>"
  show "newGroup cap = Inr ?g"
    by (simp add: newGroup_def increase_def pushKeys_eq)
  show "group_inv ?g"
    using assms by (auto simp: group_inv_def nth_Cons')
  show "active ?g = Map.empty"
    by (auto simp: active_def fun_eq_iff nth_Cons')
  show "capacity ?g = cap" by simp
qed

text \<open>Growing an exhausted pool adds the fresh keys and keeps the active groups.\<close>

lemma increase_exhausted:
  assumes inv: "group_inv g" and empty: "groupKeys g = []"
  obtains g1 where "increase (length (groupCounts g)) (g\<lparr>capacity := capacity g * 2\<rparr>) = Inr g1"
    and "group_inv g1" and "active g1 = active g" and "groupKeys g1 \<noteq> []"
    and "capacity g1 = 2 * capacity g"
proof
  let ?c = "capacity g"
  let ?g1 = "g\<lparr>capacity := ?c * 2, groupKeys := [Suc ?c..<Suc (?c * 2)],
              groupCounts := groupCounts g @ replicate ?c 0\<rparr>"
  from inv have len: "length (groupCounts g) = Suc ?c" and pos: "0 < ?c"
    by (auto simp: group_inv_def)
  have full: "groupCounts g ! k \<noteq> 0" if "1 \<le> k" "k \<le> ?c" for k
    using inv empty that by (auto simp: group_inv_def)
  show "increase (length (groupCounts g)) (g\<lparr>capacity := ?c * 2\<rparr>) = Inr ?g1"
    using len by (simp add: increase_def pushKeys_eq empty)
  have "groupCounts ?g1 ! k = 0 \<longleftrightarrow> Suc ?c \<le> k" if "1 \<le> k" "k \<le> ?c * 2" for k
    using len full [of k] that by (simp add: nth_append)
  then show "group_inv ?g1"
    using len pos by (auto simp: group_inv_def)
  show "active ?g1 = active g"
    using len by (auto simp: active_def fun_eq_iff nth_append)
  show "groupKeys ?g1 \<noteq> []" using pos by simp
  show "capacity ?g1 = 2 * ?c" by simp
qed

text \<open>Taking the top key of a non-empty pool.\<close>

lemma create_nonempty:
  assumes inv: "group_inv g" and keys: "groupKeys g = key # ks" and n: "0 < n"
  shows "createGroup n g =
      Inr (key, g\<lparr>groupKeys := ks, groupCounts := (groupCounts g)[key := n]\<rparr>)"
    and "group_inv (g\<lparr>groupKeys := ks, groupCounts := (groupCounts g)[key := n]\<rparr>)"
    and "active (g\<lparr>groupKeys := ks, groupCounts := (groupCounts g)[key := n]\<rparr>)
         = (active g)(key \<mapsto> n)"
    and "active g key = None" and "0 < key"
proof -
  from inv keys have key: "1 \<le> key" "key \<le> capacity g" "groupCounts g ! key = 0"
    and len: "length (groupCounts g) = capacity g + 1"
    by (auto simp: group_inv_def)
  from len key keys n show "createGroup n g =
      Inr (key, g\<lparr>groupKeys := ks, groupCounts := (groupCounts g)[key := n]\<rparr>)"
    by (simp add: createGroup_def)
  from inv keys have "set ks = set (groupKeys g) - {key}" and d: "distinct ks"
    by (auto simp: group_inv_def)
  then have "set ks = {k. 1 \<le> k \<and> k \<le> capacity g \<and> groupCounts g ! k = 0} - {key}"
    using inv by (simp add: group_inv_def)
  then have "set ks = {k. 1 \<le> k \<and> k \<le> capacity g \<and> (groupCounts g)[key := n] ! k = 0}"
    using n key len by (auto simp: nth_list_update)
  with d show "group_inv (g\<lparr>groupKeys := ks, groupCounts := (groupCounts g)[key := n]\<rparr>)"
    using inv by (simp add: group_inv_def)
  show "active (g\<lparr>groupKeys := ks, groupCounts := (groupCounts g)[key := n]\<rparr>)
        = (active g)(key \<mapsto> n)"
    using key n len by (auto simp: active_def fun_eq_iff nth_list_update)
  show "active g key = None" and "0 < key"
    using key by (auto simp: active_def)
qed

lemma createGroup_spec:
  assumes inv: "group_inv g" and n: "0 < n"
  obtains key g' where "createGroup n g = Inr (key, g')" and "group_inv g'"
    and "0 < key" and "active g key = None" and "active g' = (active g)(key \<mapsto> n)"
proof (cases "groupKeys g")
  case Nil
  from increase_exhausted [OF inv Nil] obtain g1
    where g1: "increase (length (groupCounts g)) (g\<lparr>capacity := capacity g * 2\<rparr>) = Inr g1"
      "group_inv g1" "active g1 = active g" "groupKeys g1 \<noteq> []" by blast
  then obtain key ks where k: "groupKeys g1 = key # ks" by (cases "groupKeys g1") auto
  have "createGroup n g = createGroup n g1"
    using Nil g1(1) k by (simp add: createGroup_def)
  show thesis
    using that [OF _ create_nonempty(2) [OF g1(2) k n] create_nonempty(5) [OF g1(2) k n]]
      create_nonempty(1,3,4) [OF g1(2) k n] g1(3) \<open>createGroup n g = _\<close> by simp
next
  case (Cons key ks)
  from that [OF create_nonempty(1,2,5,4,3) [OF inv this n]] show thesis .
qed

lemma createGroup_empty:
  assumes inv: "group_inv g"
  shows "createGroup 0 g = Inl Assert_Failed"
proof (cases "groupKeys g = []")
  case True
  from increase_exhausted [OF inv True] obtain g1
    where "increase (length (groupCounts g)) (g\<lparr>capacity := capacity g * 2\<rparr>) = Inr g1" .
  with True show ?thesis by (simp add: createGroup_def)
next
  case False
  then show ?thesis by (simp add: createGroup_def)
qed

lemma finishGroup_spec:
  assumes inv: "group_inv g" and act: "active g key = Some n"
  obtains g' where "finishGroup key g = Inr (n = 1, g')" and "group_inv g'"
    and "active g' = (active g)(key := if n = 1 then None else Some (n - 1))"
proof -
  let ?c = "(groupCounts g)[key := n - 1]"
  let ?g' = "if n = 1 then g\<lparr>groupCounts := ?c, groupKeys := key # groupKeys g\<rparr>
             else g\<lparr>groupCounts := ?c\<rparr>"
  from act have key: "1 \<le> key" "key \<le> capacity g" "groupCounts g ! key = n" "0 < n"
    by (auto simp: active_def split: if_splits)
  from inv have len: "length (groupCounts g) = capacity g + 1"
    and ks: "set (groupKeys g) = {k. 1 \<le> k \<and> k \<le> capacity g \<and> groupCounts g ! k = 0}"
    by (auto simp: group_inv_def)
  have "finishGroup key g = Inr (n = 1, ?g')"
    using key len by (auto simp: finishGroup_def Let_def)
  moreover have "?c ! k = 0 \<longleftrightarrow> (if k = key then n = 1 else groupCounts g ! k = 0)"
    if "k \<le> capacity g" for k
    using that key len by (auto simp: nth_list_update)
  then have "{k. 1 \<le> k \<and> k \<le> capacity g \<and> ?c ! k = 0}
      = (if n = 1 then insert key (set (groupKeys g)) else set (groupKeys g))"
    using key by (auto simp: ks split: if_splits)
  then have "group_inv ?g'"
    using inv key len ks by (cases "n = 1") (simp_all add: group_inv_def)
  moreover have "active ?g' = (active g)(key := if n = 1 then None else Some (n - 1))"
    using key len by (auto simp: active_def fun_eq_iff nth_list_update)
  ultimately show thesis by (rule that)
qed

lemma dom_active: "dom (active g) = {k. 1 \<le> k \<and> k \<le> capacity g \<and> 0 < groupCounts g ! k}"
  by (auto simp: active_def split: if_splits)

lemma countGroups_active: "group_inv g \<Longrightarrow> countGroups g = card (dom (active g))"
proof -
  assume inv: "group_inv g"
  then have ks: "set (groupKeys g) = {k. 1 \<le> k \<and> k \<le> capacity g \<and> groupCounts g ! k = 0}"
    by (simp add: group_inv_def)
  have "dom (active g) = {1..capacity g} - set (groupKeys g)"
    unfolding dom_active ks by auto
  moreover have "set (groupKeys g) \<subseteq> {1..capacity g}"
    unfolding ks by auto
  ultimately have "card (dom (active g)) = capacity g - card (set (groupKeys g))"
    by (simp add: card_Diff_subset)
  moreover from inv have "card (set (groupKeys g)) = length (groupKeys g)"
    unfolding group_inv_def by (blast intro: distinct_card)
  ultimately show ?thesis by (simp add: countGroups_def)
qed

section \<open>The interface its clients rely on\<close>

text \<open>
  A client run is a sequence of calls; its trace records what each call
  returned. \<open>groupRun\<close> stops at the first fault.
\<close>

datatype group_call = Create nat | Finish nat

datatype group_event = Created nat | Finished nat bool

fun groupCall ::
  "(nat \<Rightarrow> 'g \<Rightarrow> (nat \<times> 'g) result) \<Rightarrow> (nat \<Rightarrow> 'g \<Rightarrow> (bool \<times> 'g) result)
   \<Rightarrow> group_call \<Rightarrow> 'g \<Rightarrow> (group_event \<times> 'g) result" where
  "groupCall cr fin (Create n) g = res_bind (cr n g) (\<lambda>(k, g'). Inr (Created k, g'))"
| "groupCall cr fin (Finish k) g = res_bind (fin k g) (\<lambda>(b, g'). Inr (Finished k b, g'))"

fun groupRun ::
  "(nat \<Rightarrow> 'g \<Rightarrow> (nat \<times> 'g) result) \<Rightarrow> (nat \<Rightarrow> 'g \<Rightarrow> (bool \<times> 'g) result)
   \<Rightarrow> group_call list \<Rightarrow> 'g \<Rightarrow> (group_event list \<times> 'g) result" where
  "groupRun cr fin [] g = Inr ([], g)"
| "groupRun cr fin (c # cs) g =
     res_bind (groupCall cr fin c g) (\<lambda>(e, g').
       res_bind (groupRun cr fin cs g') (\<lambda>(es, g''). Inr (e # es, g'')))"

text \<open>
  What the providers of wait groups promise: \<open>create\<close> returns a key that no
  active group has, \<open>finish\<close> reports the last outstanding member, and neither
  touches another group. A call outside the contract (an empty group, a key
  that is not active) does not return.
\<close>

locale wait_groups =
  fixes inv :: "'g \<Rightarrow> bool"
    and act :: "'g \<Rightarrow> nat \<rightharpoonup> nat"
    and create :: "nat \<Rightarrow> 'g \<Rightarrow> (nat \<times> 'g) result"
    and finish :: "nat \<Rightarrow> 'g \<Rightarrow> (bool \<times> 'g) result"
  assumes create_law: "inv g \<Longrightarrow> create n g = Inr (k, g') \<Longrightarrow>
      inv g' \<and> act g k = None \<and> act g' = (act g)(k \<mapsto> n)"
    and finish_law: "inv g \<Longrightarrow> act g k = Some n \<Longrightarrow> finish k g = Inr (b, g') \<Longrightarrow>
      inv g' \<and> b = (n = 1) \<and> 0 < n \<and> act g' = (act g)(k := if n = 1 then None else Some (n - 1))"
    and finish_inactive: "inv g \<Longrightarrow> act g k = None \<Longrightarrow> finish k g = Inr (b, g') \<Longrightarrow> g' = g"
begin

lemma call_other:
  assumes "inv g" and "act g k = Some n" and "c \<noteq> Finish k"
    and "groupCall create finish c g = Inr (e, g')"
  shows "inv g' \<and> act g' k = Some n \<and> e \<noteq> Created k \<and> (\<forall>b. e \<noteq> Finished k b)"
proof (cases c)
  case (Create m)
  with assms(4) obtain j where "create m g = Inr (j, g')" and "e = Created j"
    by (auto simp: res_bind_eq_Inr)
  with create_law [OF assms(1) this(1)] assms(2) show ?thesis by auto
next
  case (Finish j)
  with assms(4) obtain b where f: "finish j g = Inr (b, g')" and e: "e = Finished j b"
    by (auto simp: res_bind_eq_Inr)
  show ?thesis
  proof (cases "act g j")
    case None
    with finish_inactive [OF assms(1) None f] Finish assms e show ?thesis by auto
  next
    case (Some m)
    with finish_law [OF assms(1) Some f] Finish assms e show ?thesis by auto
  qed
qed

lemma run_before_last:
  assumes "inv g" and "act g k = Some n" and "count_list cs (Finish k) < n"
    and "groupRun create finish cs g = Inr (es, g')"
  shows "inv g' \<and> act g' k = Some (n - count_list cs (Finish k)) \<and>
         Finished k True \<notin> set es \<and> Created k \<notin> set es"
  using assms
proof (induction cs arbitrary: g n es)
  case (Cons c cs)
  from Cons.prems(4) obtain e g1 es1
    where c: "groupCall create finish c g = Inr (e, g1)"
      and r: "groupRun create finish cs g1 = Inr (es1, g')" and es: "es = e # es1"
    by (auto simp: res_bind_eq_Inr)
  show ?case
  proof (cases "c = Finish k")
    case True
    with c obtain b where f: "finish k g = Inr (b, g1)" and e: "e = Finished k b"
      by (auto simp: res_bind_eq_Inr)
    from True Cons.prems(3) have n: "count_list cs (Finish k) < n - 1" "n \<noteq> 1" by auto
    from finish_law [OF Cons.prems(1,2) f] n(2)
    have g1: "inv g1" "act g1 k = Some (n - 1)" "\<not> b" by auto
    from Cons.IH [OF g1(1,2) n(1) r] es e g1(3) True show ?thesis by auto
  next
    case False
    from call_other [OF Cons.prems(1,2) False c]
    have g1: "inv g1" "act g1 k = Some n" "e \<noteq> Created k" "e \<noteq> Finished k True" by auto
    from False Cons.prems(3) have n: "count_list cs (Finish k) < n" by simp
    from Cons.IH [OF g1(1,2) n r] es g1(3,4) False show ?thesis by auto
  qed
qed simp

text \<open>The last outstanding member is the one that is told so, and it frees the key.\<close>

lemma last_finish:
  assumes "inv g" and "act g k = Some n" and "count_list cs (Finish k) = n - 1" and "0 < n"
    and "groupRun create finish cs g = Inr (es, g')" and "finish k g' = Inr (b, g'')"
  shows "Finished k True \<notin> set es \<and> Created k \<notin> set es \<and> b \<and> act g'' k = None \<and> inv g''"
proof -
  from assms(3,4) have lt: "count_list cs (Finish k) < n" by simp
  from run_before_last [OF assms(1,2) lt assms(5)] assms(3,4)
  have g': "inv g'" "act g' k = Some 1" "Finished k True \<notin> set es" "Created k \<notin> set es"
    by auto
  from finish_law [OF g'(1,2) assms(6)] g'(3,4) show ?thesis by simp
qed

end

lemma finish_inactive_key:
  assumes "group_inv g" and "active g k = None" and "finishGroup k g = Inr (b, g')"
  shows "g' = g"
proof (cases "k = 0")
  case True
  with assms(3) show ?thesis by (simp add: finishGroup_def)
next
  case False
  with assms(3) have "k < length (groupCounts g)" "0 < groupCounts g ! k"
    by (auto simp: finishGroup_def guard_def split: if_splits)
  moreover from assms(1) have "length (groupCounts g) = capacity g + 1"
    unfolding group_inv_def by blast
  ultimately have "active g k \<noteq> None" using False by (simp add: active_def)
  with assms(2) show ?thesis by simp
qed

interpretation wg: wait_groups group_inv active createGroup finishGroup
proof unfold_locales
  fix g n k g'
  assume inv: "group_inv g" and c: "createGroup n g = Inr (k, g')"
  then have "0 < n" using createGroup_empty by (cases n) auto
  from createGroup_spec [OF inv this] obtain k1 g1
    where "createGroup n g = Inr (k1, g1)" "group_inv g1" "active g k1 = None"
      "active g1 = (active g)(k1 \<mapsto> n)" .
  with c show "group_inv g' \<and> active g k = None \<and> active g' = (active g)(k \<mapsto> n)" by simp
next
  fix g k n b g'
  assume inv: "group_inv g" and act: "active g k = Some n" and f: "finishGroup k g = Inr (b, g')"
  from act have "0 < n" by (auto simp: active_def split: if_splits)
  from finishGroup_spec [OF inv act] obtain g1
    where "finishGroup k g = Inr (n = 1, g1)" "group_inv g1"
      "active g1 = (active g)(k := if n = 1 then None else Some (n - 1))" .
  with f \<open>0 < n\<close> show "group_inv g' \<and> b = (n = 1) \<and> 0 < n \<and>
      active g' = (active g)(k := if n = 1 then None else Some (n - 1))" by simp
qed (rule finish_inactive_key)

section \<open>Properties\<close>

text \<open>
  C6: a wait group is a barrier. Take an active group \<open>k\<close> with \<open>n\<close> outstanding
  members and any interleaving \<open>cs\<close> of calls on this and other groups that
  finishes \<open>n - 1\<close> members of \<open>k\<close>. None of these is told to be the last, the key
  is not handed out again in between, and the next \<open>finish k\<close> is told to be the
  last and releases the key.
\<close>

theorem group_barrier:
  assumes "group_inv g" and "active g k = Some n" and "count_list cs (Finish k) = n - 1"
    and "groupRun createGroup finishGroup cs g = Inr (es, g')"
  shows "Finished k True \<notin> set es \<and> Created k \<notin> set es \<and>
    (\<exists>g''. finishGroup k g' = Inr (True, g'') \<and> active g'' k = None \<and> group_inv g'')"
proof -
  from assms(2) have n: "0 < n" by (auto simp: active_def split: if_splits)
  with assms(3) have lt: "count_list cs (Finish k) < n" by simp
  from wg.run_before_last [OF assms(1,2) lt assms(4)] assms(3) n
  have g': "group_inv g'" "active g' k = Some 1" by auto
  from finishGroup_spec [OF g'] obtain g'' where f: "finishGroup k g' = Inr (True, g'')" by auto
  from wg.last_finish [OF assms(1,2,3) n assms(4) f] f show ?thesis by blast
qed

definition group_example :: group where
  "group_example = \<lparr>capacity = 2, groupKeys = [2], groupCounts = [0, 2, 0]\<rparr>"

lemma group_example_inv: "group_inv group_example"
proof -
  have "k = 0 \<or> k = 1 \<or> k = 2" if "k \<le> 2" for k :: nat using that by arith
  then show ?thesis by (auto simp: group_inv_def group_example_def nth_Cons')
qed

theorem group_barrier_witness:
  "\<exists>es g'. groupRun createGroup finishGroup [Create 1, Finish 1, Finish 2] group_example = Inr (es, g') \<and>
     es = [Created 2, Finished 1 False, Finished 2 True] \<and>
     (\<exists>g''. finishGroup 1 g' = Inr (True, g'') \<and> active g'' 1 = None \<and> group_inv g'')"
proof -
  define r where "r = groupRun createGroup finishGroup [Create 1, Finish 1, Finish 2] group_example"
  have r: "r = Inr ([Created 2, Finished 1 False, Finished 2 True],
      \<lparr>capacity = 2, groupKeys = [2], groupCounts = [0, 1, 0]\<rparr>)"
    unfolding r_def by (simp add: group_example_def createGroup_def finishGroup_def Let_def)
  have "active group_example 1 = Some 2" by (simp add: active_def group_example_def)
  from group_barrier [OF group_example_inv this _ r [unfolded r_def]] r [unfolded r_def]
  show ?thesis by auto
qed

text \<open>
  \<open>create\<close> never faults on a well-formed pool and a non-empty group, even
  when every key is taken (the pool then doubles); it returns a positive key
  that no active group has, records the group size for it and changes no other
  group.
\<close>

theorem create_fresh:
  assumes "group_inv g" and "0 < n"
  shows "\<exists>key g'. createGroup n g = Inr (key, g') \<and> group_inv g' \<and> 0 < key \<and>
    active g key = None \<and> active g' = (active g)(key \<mapsto> n) \<and>
    countGroups g' = countGroups g + 1"
proof -
  from createGroup_spec [OF assms] obtain key g'
    where g': "createGroup n g = Inr (key, g')" "group_inv g'" "0 < key" "active g key = None"
      "active g' = (active g)(key \<mapsto> n)" .
  have "finite (dom (active g))" by (simp add: dom_active)
  with g'(4,5) have "card (dom (active g')) = card (dom (active g)) + 1" by (simp add: domIff)
  with g' assms(1) show ?thesis by (auto simp: countGroups_active)
qed

theorem create_fresh_witness:
  "\<exists>key g'. createGroup 3 group_example = Inr (key, g') \<and> active group_example key = None \<and>
    active g' = (active group_example)(key \<mapsto> 3)"
  using create_fresh [OF group_example_inv, of 3] by auto

end
