(* ===== verification/Task_Graph.thy ===== *)
theory Task_Graph
  imports Prelude
begin

text \<open>
  The task graph of \<^verbatim>\<open>src/raster/parallel/DAG.h\<close>: nodes with an executor, their
  successors and an atomic count of predecessors still to finish; \<^verbatim>\<open>add\<close>,
  \<^verbatim>\<open>dependency\<close>, \<^verbatim>\<open>hasCycle\<close> and \<^verbatim>\<open>go\<close>. The cycle check is Kahn's algorithm
  on explicit stacks; here it is proved to decide acyclicity.
\<close>

section \<open>Nodes and graphs\<close>

text \<open>
  Executors are shared objects, so they are identified by values of a type
  \<open>'e\<close>; a null pointer is \<open>None\<close>. The part of an executor's state that the graph
  writes, the list \<^verbatim>\<open>schedules_\<close> of bound calls \<^verbatim>\<open>DAG::schedule(i)\<close>, is kept in
  \<open>schedules\<close>.
\<close>

record 'e node =
  executor :: "'e option"
  nexts :: "nat list"
  hasPrev :: bool
  waitCount :: nat

record 'e dag =
  nodes :: "'e node list"
  schedules :: "'e \<Rightarrow> nat list"

definition emptyDag :: "'e dag" where
  "emptyDag = \<lparr>nodes = [], schedules = (\<lambda>_. [])\<rparr>"

definition newNode :: "'e option \<Rightarrow> 'e node" where
  "newNode e = \<lparr>executor = e, nexts = [], hasPrev = False, waitCount = 0\<rparr>"

definition addNode :: "'e option \<Rightarrow> 'e dag \<Rightarrow> nat \<times> 'e dag" where
  "addNode e d = (length (nodes d), d\<lparr>nodes := nodes d @ [newNode e]\<rparr>)"

text \<open>\<^verbatim>\<open>DAG::add\<close> binds \<^verbatim>\<open>schedule(nodes_.size())\<close> to the executor, then adds the node.\<close>

definition addExecutor :: "'e \<Rightarrow> 'e dag \<Rightarrow> nat \<times> 'e dag" where
  "addExecutor e d =
     addNode (Some e)
       (d\<lparr>schedules := (schedules d)(e := schedules d e @ [length (nodes d)])\<rparr>)"

definition updNode :: "nat \<Rightarrow> ('e node \<Rightarrow> 'e node) \<Rightarrow> 'e dag \<Rightarrow> 'e dag" where
  "updNode i f d = d\<lparr>nodes := (nodes d)[i := f (nodes d ! i)]\<rparr>"

text \<open>\<^verbatim>\<open>DAG::dependency\<close>: \<open>a -> b\<close>. Indexing the vector out of range is undefined.\<close>

definition dependency :: "nat \<Rightarrow> nat \<Rightarrow> 'e dag \<Rightarrow> 'e dag result" where
  "dependency a b d =
     guard (a < length (nodes d) \<and> b < length (nodes d)) Undefined
       (Inr (updNode b (\<lambda>n. n\<lparr>waitCount := size_inc (waitCount n), hasPrev := True\<rparr>)
              (updNode a (\<lambda>n. n\<lparr>nexts := nexts n @ [b]\<rparr>) d)))"

section \<open>Cycle detection\<close>

text \<open>
  \<^verbatim>\<open>targets[key]++\<close> over all edges, on a vector of \<open>n\<close> zeros. A key outside the
  vector is undefined behaviour.
\<close>

fun countTargets :: "nat list \<Rightarrow> nat list \<Rightarrow> nat list result" where
  "countTargets [] targets = Inr targets"
| "countTargets (key # ks) targets =
     guard (key < length targets) Undefined
       (countTargets ks (targets[key := size_inc (targets ! key)]))"

text \<open>
  The inner loop over \<^verbatim>\<open>nexts[key]\<close>, which is consumed from its back: \<open>es\<close> are the
  remaining edges, back first. \<open>keys\<close> is the stack of nodes without remaining
  predecessors, its back first.
\<close>

fun drainEdges :: "nat list \<Rightarrow> nat list \<Rightarrow> nat list \<Rightarrow> (nat list \<times> nat list) result" where
  "drainEdges [] targets keys = Inr (targets, keys)"
| "drainEdges (next # es) targets keys =
     guard (next < length targets) Undefined
       (let t = size_dec (targets ! next)
        in drainEdges es (targets[next := t]) (if t = 0 then next # keys else keys))"

lemma drainEdges_length:
  "drainEdges es targets keys = Inr (targets', keys') \<Longrightarrow>
   length targets' = length targets \<and> length keys' \<le> length keys + length es"
proof (induction es targets keys arbitrary: targets' keys' rule: drainEdges.induct)
  case (2 k es targets keys)
  then have lt: "k < length targets" by (simp add: guard_def split: if_splits)
  with 2 show ?case by (fastforce simp: Let_def split: if_splits)
qed simp

text \<open>The outer loop \<^verbatim>\<open>while (!keys.empty())\<close>.\<close>

function kahnLoop :: "nat list list \<Rightarrow> nat list \<Rightarrow> nat list \<Rightarrow> nat list list result" where
  "kahnLoop nss targets [] = Inr nss"
| "kahnLoop nss targets (key # keys) =
     (if key < length nss
      then (case drainEdges (rev (nss ! key)) targets keys of
              Inl e \<Rightarrow> Inl e
            | Inr (targets', keys') \<Rightarrow> kahnLoop (nss[key := []]) targets' keys')
      else Inl Undefined)"
  by pat_completeness auto
termination
proof (relation "measure (\<lambda>(nss, _, keys). sum_list (map length nss) + length keys)")
  fix nss targets key keys x targets' keys'
  assume lt: "key < length (nss :: nat list list)"
    and dr: "drainEdges (rev (nss ! key)) targets keys = Inr x" and x: "(targets', keys') = x"
  from drainEdges_length dr x have "length keys' \<le> length keys + length (nss ! key)" by fastforce
  moreover have "sum_list (map length (nss[key := []])) + length (nss ! key)
      = sum_list (map length nss)"
    using sum_length_update [OF lt, of "[]"] by simp
  ultimately show "((nss[key := []], targets', keys'), nss, targets, key # keys)
      \<in> measure (\<lambda>(nss, _, keys). sum_list (map length nss) + length keys)"
    by simp
qed simp

definition rootKeys :: "'e dag \<Rightarrow> nat list" where
  "rootKeys d = filter (\<lambda>k. \<not> hasPrev (nodes d ! k)) [0..<length (nodes d)]"

definition leafKeys :: "'e dag \<Rightarrow> nat list" where
  "leafKeys d = filter (\<lambda>k. nexts (nodes d ! k) = []) [0..<length (nodes d)]"

definition hasCycle :: "'e dag \<Rightarrow> bool result" where
  "hasCycle d =
     (let nss = map nexts (nodes d)
      in res_bind (countTargets (concat nss) (replicate (length (nodes d)) 0)) (\<lambda>targets.
         res_bind (kahnLoop nss targets (rev (rootKeys d))) (\<lambda>nss'.
           Inr (list_ex (\<lambda>edges. edges \<noteq> []) nss'))))"

section \<open>Preparing a run\<close>

fun dependFrom :: "nat \<Rightarrow> nat list \<Rightarrow> 'e dag \<Rightarrow> 'e dag result" where
  "dependFrom a [] d = Inr d"
| "dependFrom a (b # bs) d = res_bind (dependency a b d) (dependFrom a bs)"

fun dependTo :: "nat list \<Rightarrow> nat \<Rightarrow> 'e dag \<Rightarrow> 'e dag result" where
  "dependTo [] b d = Inr d"
| "dependTo (a # as) b d = res_bind (dependency a b d) (dependTo as b)"

text \<open>
  \<^verbatim>\<open>DAG::go\<close>: refuses a cyclic graph, then adds a source before every root and a
  sink, running the given executor, after every leaf. It returns the source.
\<close>

definition goDag :: "'e option \<Rightarrow> 'e dag \<Rightarrow> (nat \<times> 'e dag) result" where
  "goDag e d =
     res_bind (hasCycle d) (\<lambda>cyclic.
       if cyclic then Inl Runtime_Error
       else
         let roots = rootKeys d; leaves = leafKeys d;
             (sourceKey, d1) = addNode None d
         in res_bind (dependFrom sourceKey roots d1) (\<lambda>d2.
              let (sinkKey, d3) = addNode e d2
              in res_bind (dependTo leaves sinkKey d3) (\<lambda>d4. Inr (sourceKey, d4))))"

section \<open>Well-formed graphs\<close>

definition edges :: "'e dag \<Rightarrow> (nat \<times> nat) set" where
  "edges d = {(a, b). a < length (nodes d) \<and> b \<in> set (nexts (nodes d ! a))}"

definition indegree :: "'e dag \<Rightarrow> nat \<Rightarrow> nat" where
  "indegree d k = count_list (concat (map nexts (nodes d))) k"

text \<open>
  What \<open>addExecutor\<close> and \<open>dependency\<close> keep of a graph that has not run yet: edges
  stay inside the graph, the wait count of a node is its in-degree, and
  \<open>hasPrev\<close> says whether it is positive. The number of edges fits in a
  \<^verbatim>\<open>size_t\<close>, as they are stored in memory.
\<close>

definition dag_wf :: "'e dag \<Rightarrow> bool" where
  "dag_wf d \<longleftrightarrow>
     (\<forall>a < length (nodes d). set (nexts (nodes d ! a)) \<subseteq> {..<length (nodes d)}) \<and>
     (\<forall>k < length (nodes d). waitCount (nodes d ! k) = indegree d k \<and>
        (hasPrev (nodes d ! k) \<longleftrightarrow> 0 < indegree d k)) \<and>
     length (concat (map nexts (nodes d))) < 2 ^ 64 - 1"

lemma dag_wf_empty: "dag_wf emptyDag"
  by (simp add: dag_wf_def emptyDag_def)

lemma indegree_addNode [simp]: "indegree (snd (addNode e d)) = indegree d"
  by (simp add: indegree_def addNode_def newNode_def fun_eq_iff)

lemma dag_wf_edge:
  "dag_wf d \<Longrightarrow> a < length (nodes d) \<Longrightarrow> b \<in> set (nexts (nodes d ! a)) \<Longrightarrow> b < length (nodes d)"
  unfolding dag_wf_def by blast

lemma indegree_outside:
  assumes "dag_wf d" and "length (nodes d) \<le> k"
  shows "indegree d k = 0"
proof -
  have "k \<notin> set (nexts n)" if "n \<in> set (nodes d)" for n
    using that assms(2) dag_wf_edge [OF assms(1)] by (fastforce simp: in_set_conv_nth)
  then show ?thesis by (auto simp: indegree_def)
qed

lemma dag_wf_addNode: "dag_wf d \<Longrightarrow> dag_wf (snd (addNode e d))"
proof -
  assume wf: "dag_wf d"
  let ?d = "snd (addNode e d)"
  have nodes: "nodes ?d = nodes d @ [newNode e]" by (simp add: addNode_def)
  have "waitCount (nodes ?d ! k) = indegree d k \<and> (hasPrev (nodes ?d ! k) \<longleftrightarrow> 0 < indegree d k)"
    if "k < length (nodes ?d)" for k
    using that wf indegree_outside [OF wf, of "length (nodes d)"]
    by (cases "k = length (nodes d)") (auto simp: nodes nth_append newNode_def dag_wf_def)
  moreover have "set (nexts (nodes ?d ! a)) \<subseteq> {..<length (nodes ?d)}"
    if "a < length (nodes ?d)" for a
    using that dag_wf_edge [OF wf, of a]
    by (cases "a = length (nodes d)") (auto simp: nodes nth_append newNode_def less_Suc_eq)
  moreover have "length (concat (map nexts (nodes ?d))) < 2 ^ 64 - 1"
    using wf by (simp add: nodes newNode_def dag_wf_def)
  ultimately show ?thesis by (simp add: dag_wf_def)
qed

lemma dependency_ok:
  "a < length (nodes d) \<Longrightarrow> b < length (nodes d) \<Longrightarrow>
   dependency a b d = Inr (updNode b (\<lambda>n. n\<lparr>waitCount := size_inc (waitCount n), hasPrev := True\<rparr>)
              (updNode a (\<lambda>n. n\<lparr>nexts := nexts n @ [b]\<rparr>) d))"
  by (simp add: dependency_def)

lemma dependency_nexts:
  assumes "dependency a b d = Inr d'"
  shows "length (nodes d') = length (nodes d)"
    and "map nexts (nodes d') = (map nexts (nodes d))[a := nexts (nodes d ! a) @ [b]]"
    and "a < length (nodes d)" and "b < length (nodes d)" and "schedules d' = schedules d"
proof -
  from assms show a: "a < length (nodes d)" and b: "b < length (nodes d)"
    by (auto simp: dependency_def guard_def split: if_splits)
  with assms have d': "d' = updNode b (\<lambda>n. n\<lparr>waitCount := size_inc (waitCount n), hasPrev := True\<rparr>)
              (updNode a (\<lambda>n. n\<lparr>nexts := nexts n @ [b]\<rparr>) d)"
    by (simp add: dependency_ok)
  show "length (nodes d') = length (nodes d)" by (simp add: d' updNode_def)
  show "schedules d' = schedules d" by (simp add: d' updNode_def)
  show "map nexts (nodes d') = (map nexts (nodes d))[a := nexts (nodes d ! a) @ [b]]"
    by (rule nth_equalityI) (use a b in \<open>auto simp: d' updNode_def nth_list_update\<close>)
qed

lemma dependency_counts:
  assumes "dependency a b d = Inr d'" and "k < length (nodes d)"
  shows "waitCount (nodes d' ! k)
       = (if k = b then size_inc (waitCount (nodes d ! k)) else waitCount (nodes d ! k))"
    and "hasPrev (nodes d' ! k) = (k = b \<or> hasPrev (nodes d ! k))"
    and "executor (nodes d' ! k) = executor (nodes d ! k)"
  using assms
  by (auto simp: dependency_def guard_def updNode_def nth_list_update split: if_splits)

lemma indegree_dependency:
  assumes "dependency a b d = Inr d'"
  shows "indegree d' k = indegree d k + (if k = b then 1 else 0)"
proof -
  have a: "a < length (map nexts (nodes d))" using dependency_nexts(3) [OF assms] by simp
  from count_list_concat_update [OF a, of "nexts (nodes d ! a) @ [b]" k] a
  show ?thesis by (simp add: indegree_def dependency_nexts(2) [OF assms])
qed

lemma length_concat_update:
  "i < length xss \<Longrightarrow> length (concat (xss[i := ys])) + length (xss ! i) = length (concat xss) + length ys"
  using sum_length_update [of i xss ys] by (simp add: length_concat)

lemma nexts_nth_map: "k < length (nodes d) \<Longrightarrow> nexts (nodes d ! k) = map nexts (nodes d) ! k"
  by simp

lemma nexts_dependency:
  assumes "dependency a b d = Inr d'" and "k < length (nodes d)"
  shows "nexts (nodes d' ! k) = nexts (nodes d ! k) @ (if k = a then [b] else [])"
proof -
  have "nexts (nodes d' ! k) = map nexts (nodes d') ! k"
    using assms(2) dependency_nexts(1) [OF assms(1)] by simp
  then show ?thesis
    using assms(2) by (simp add: dependency_nexts(2) [OF assms(1)] nth_list_update)
qed

lemma dag_wf_dependency:
  assumes wf: "dag_wf d" and dep: "dependency a b d = Inr d'"
    and room: "length (concat (map nexts (nodes d))) + 1 < 2 ^ 64 - 1"
  shows "dag_wf d'"
proof -
  note len = dependency_nexts(1) [OF dep] and ab = dependency_nexts(3,4) [OF dep]
  have le: "indegree d k < 2 ^ 64 - 1" for k
    using count_le_length [of "concat (map nexts (nodes d))" k] wf
    by (simp add: indegree_def dag_wf_def)
  have "set (nexts (nodes d' ! k)) \<subseteq> {..<length (nodes d')}" if "k < length (nodes d')" for k
    using that ab dag_wf_edge [OF wf, of k] by (auto simp: len nexts_dependency [OF dep])
  moreover have "waitCount (nodes d' ! k) = indegree d' k \<and>
      (hasPrev (nodes d' ! k) \<longleftrightarrow> 0 < indegree d' k)" if "k < length (nodes d')" for k
  proof -
    from that have k: "k < length (nodes d)" by (simp add: len)
    with wf have "waitCount (nodes d ! k) = indegree d k" "hasPrev (nodes d ! k) \<longleftrightarrow> 0 < indegree d k"
      by (auto simp: dag_wf_def)
    with size_inc_small [OF le [of k]] show ?thesis
      by (auto simp: dependency_counts [OF dep k] indegree_dependency [OF dep])
  qed
  moreover have "length (concat (map nexts (nodes d'))) < 2 ^ 64 - 1"
    using room length_concat_update [of a "map nexts (nodes d)" "nexts (nodes d ! a) @ [b]"] ab
    by (simp add: dependency_nexts(2) [OF dep])
  ultimately show ?thesis by (simp add: dag_wf_def)
qed

section \<open>Correctness of the cycle check\<close>

lemma countTargets_spec:
  assumes "set ks \<subseteq> {..<length ts}" and "\<forall>k < length ts. ts ! k + length ks < 2 ^ 64"
  obtains ts' where "countTargets ks ts = Inr ts'" and "length ts' = length ts"
    and "\<forall>k < length ts. ts' ! k = ts ! k + count_list ks k"
  using assms
proof (induction ks arbitrary: ts thesis)
  case (Cons a ks)
  let ?ts = "ts[a := size_inc (ts ! a)]"
  from Cons.prems(2) have a: "a < length ts" by simp
  with Cons.prems(3) have "ts ! a < 2 ^ 64 - 1" by fastforce
  then have inc: "size_inc (ts ! a) = ts ! a + 1" by (simp add: size_inc_small)
  have nth: "?ts ! k = ts ! k + (if k = a then 1 else 0)" if "k < length ts" for k
    using that a inc by (simp add: nth_list_update)
  have "?ts ! k + length ks < 2 ^ 64" if "k < length ?ts" for k
    using that Cons.prems(3) [rule_format, of k] nth [of k] by (cases "k = a") auto
  with Cons.IH [of ?ts] Cons.prems(2) obtain ts'
    where "countTargets ks ?ts = Inr ts'" "length ts' = length ?ts"
      "\<forall>k < length ?ts. ts' ! k = ?ts ! k + count_list ks k" by auto
  with Cons.prems(1) [of ts'] a nth show ?case by auto
qed auto

lemma drainEdges_spec:
  assumes "set es \<subseteq> {..<length ts}" and "\<forall>k < length ts. count_list es k \<le> ts ! k"
  obtains ts' keys' where "drainEdges es ts keys = Inr (ts', keys')" and "length ts' = length ts"
    and "\<forall>k < length ts. ts' ! k = ts ! k - count_list es k"
    and "set keys' = set keys \<union> {k \<in> set es. ts ! k = count_list es k}"
  using assms
proof (induction es arbitrary: ts keys thesis)
  case (Cons a es)
  let ?ts = "ts[a := ts ! a - 1]" and ?keys = "if ts ! a - 1 = 0 then a # keys else keys"
  from Cons.prems(2) have a: "a < length ts" by simp
  with Cons.prems(3) have pos: "0 < ts ! a" "count_list es a \<le> ts ! a - 1" by fastforce+
  have nth: "?ts ! k = ts ! k - (if k = a then 1 else 0)" if "k < length ts" for k
    using that a by (simp add: nth_list_update)
  have le: "\<forall>k < length ?ts. count_list es k \<le> ?ts ! k"
  proof (intro allI impI)
    fix k assume "k < length ?ts"
    then show "count_list es k \<le> ?ts ! k"
      using Cons.prems(3) [rule_format, of k] pos nth [of k] by (simp split: if_splits)
  qed
  from Cons.IH [OF _ _ le, of ?keys] Cons.prems(2) obtain ts' keys'
    where r: "drainEdges es ?ts ?keys = Inr (ts', keys')" "length ts' = length ?ts"
      "\<forall>k < length ?ts. ts' ! k = ?ts ! k - count_list es k"
      "set keys' = set ?keys \<union> {k \<in> set es. ?ts ! k = count_list es k}" by auto
  show ?case
  proof (rule Cons.prems(1))
    show "drainEdges (a # es) ts keys = Inr (ts', keys')"
      using a pos r(1) by (simp add: Let_def)
    show "length ts' = length ts" using r(2) by simp
    show "\<forall>k < length ts. ts' ! k = ts ! k - count_list (a # es) k"
      using r(3) by (auto simp: nth)
    have eq: "?ts ! k = count_list es k \<longleftrightarrow> ts ! k = count_list (a # es) k" if "k < length ts" for k
      using nth [OF that] pos by (cases "k = a") auto
    have a0: "ts ! a - 1 = 0 \<longleftrightarrow> ts ! a = 1" using pos by auto
    have "ts ! a = 1 \<Longrightarrow> count_list es a = 0" using pos(2) by simp
    moreover have "a \<in> set es \<longleftrightarrow> 0 < count_list es a" by (simp add: count_list_pos_iff)
    ultimately have hd: "(a \<in> set es \<and> ts ! a = count_list (a # es) a) \<or> ts ! a = 1
        \<longleftrightarrow> ts ! a = count_list (a # es) a" by auto
    have "k \<in> set keys' \<longleftrightarrow> k \<in> set keys \<or> k \<in> set (a # es) \<and> ts ! k = count_list (a # es) k" for k
    proof -
      have "k \<in> set keys' \<longleftrightarrow> k \<in> set keys \<or> (k = a \<and> ts ! a = 1) \<or>
          (k \<in> set es \<and> ?ts ! k = count_list es k)"
        unfolding r(4) a0 by auto
      also have "(k \<in> set es \<and> ?ts ! k = count_list es k)
          \<longleftrightarrow> k \<in> set es \<and> ts ! k = count_list (a # es) k"
        using eq [of k] Cons.prems(2) by auto
      finally show ?thesis using hd by (cases "k = a") auto
    qed
    then show "set keys' = set keys \<union> {k \<in> set (a # es). ts ! k = count_list (a # es) k}" by blast
  qed
qed auto

text \<open>
  The loop invariant of Kahn's algorithm, over the remaining edges \<open>nss\<close> of the
  original lists \<open>oss\<close>: the target counts are the remaining in-degrees, a list
  is untouched or consumed, and a node with remaining edges is either on the
  stack or still has a remaining predecessor.
\<close>

definition kahn_inv :: "nat list list \<Rightarrow> nat list list \<Rightarrow> nat list \<Rightarrow> nat list \<Rightarrow> bool" where
  "kahn_inv oss nss ts keys \<longleftrightarrow>
     length nss = length oss \<and> length ts = length oss \<and>
     (\<forall>ns \<in> set nss. set ns \<subseteq> {..<length oss}) \<and>
     (\<forall>k < length oss. nss ! k = oss ! k \<or> nss ! k = []) \<and>
     (\<forall>k < length oss. ts ! k = count_list (concat nss) k) \<and>
     set keys \<subseteq> {..<length oss} \<and>
     (\<forall>k < length oss. nss ! k = [] \<or> k \<in> set keys \<or> 0 < ts ! k)"

lemma kahn_inv_step:
  assumes inv: "kahn_inv oss nss ts (key # keys)"
  obtains ts' keys' where "drainEdges (rev (nss ! key)) ts keys = Inr (ts', keys')"
    and "kahn_inv oss (nss[key := []]) ts' keys'" and "key < length nss"
    and "set keys' \<subseteq> set keys \<union> {k. k < length oss \<and> ts' ! k = 0}"
proof -
  let ?n = "length oss" and ?es = "rev (nss ! key)" and ?nss = "nss[key := []]"
  from inv have len: "length nss = ?n" "length ts = ?n" and key: "key < ?n"
    and keys: "set keys \<subseteq> {..<?n}" and rng: "\<And>ns. ns \<in> set nss \<Longrightarrow> set ns \<subseteq> {..<?n}"
    and kept: "\<And>k. k < ?n \<Longrightarrow> nss ! k = oss ! k \<or> nss ! k = []"
    and ts: "\<And>k. k < ?n \<Longrightarrow> ts ! k = count_list (concat nss) k"
    and front: "\<And>k. k < ?n \<Longrightarrow> nss ! k = [] \<or> k \<in> set (key # keys) \<or> 0 < ts ! k"
    by (auto simp: kahn_inv_def)
  have cnt: "count_list (concat nss) k = count_list (concat ?nss) k + count_list ?es k" for k
    using count_list_concat_update [of key nss "[]" k] key len by simp
  have es: "set ?es \<subseteq> {..<length ts}" using rng [of "nss ! key"] key len by simp
  have le: "\<forall>k < length ts. count_list ?es k \<le> ts ! k" using cnt ts len by simp
  obtain ts' keys'
    where dr: "drainEdges ?es ts keys = Inr (ts', keys')" and len': "length ts' = length ts"
      and ts': "\<forall>k < length ts. ts' ! k = ts ! k - count_list ?es k"
      and keys': "set keys' = set keys \<union> {k \<in> set ?es. ts ! k = count_list ?es k}"
    by (rule drainEdges_spec [OF es le, of keys])
  have t0: "ts' ! k = count_list (concat ?nss) k" if "k < ?n" for k
    using that ts' ts [of k] cnt [of k] len by simp
  have "kahn_inv oss ?nss ts' keys'"
    unfolding kahn_inv_def
  proof (intro conjI allI impI ballI)
    show "length ?nss = ?n" "length ts' = ?n" using len len' by simp_all
    show "set ns \<subseteq> {..<?n}" if "ns \<in> set ?nss" for ns
      using that rng [of ns] set_update_subset_insert [of nss key "[]"] by (cases "ns = []") auto
    show "?nss ! k = oss ! k \<or> ?nss ! k = []" if "k < ?n" for k
      using kept [OF that] that len key by (simp add: nth_list_update)
    show "ts' ! k = count_list (concat ?nss) k" if "k < ?n" for k by (rule t0 [OF that])
    show "set keys' \<subseteq> {..<?n}" using keys keys' es len by auto
    show "?nss ! k = [] \<or> k \<in> set keys' \<or> 0 < ts' ! k" if k: "k < ?n" for k
    proof (cases "k = key \<or> k \<in> set keys \<or> nss ! k = []")
      case True
      then show ?thesis
      proof (elim disjE)
        assume "k \<in> set keys"
        then show ?thesis unfolding keys' by blast
      qed (use k key len in \<open>simp_all add: nth_list_update\<close>)
    next
      case False
      with front [OF k] have "0 < ts ! k" by auto
      then have "ts' ! k = 0 \<Longrightarrow> k \<in> set keys'"
        using ts' k len le keys' count_list_pos_iff [of ?es k] by auto
      then show ?thesis by auto
    qed
  qed
  moreover have "set keys' \<subseteq> set keys \<union> {k. k < ?n \<and> ts' ! k = 0}"
    using keys' ts' es len by auto
  ultimately show thesis using that dr key len by simp
qed

lemma kahnLoop_inv:
  assumes "kahn_inv oss nss ts keys"
  shows "\<exists>nss' ts'. kahnLoop nss ts keys = Inr nss' \<and> kahn_inv oss nss' ts' []"
  using assms
proof (induction nss ts keys rule: kahnLoop.induct)
  case (1 nss ts)
  then show ?case by auto
next
  case (2 nss ts key keys)
  from kahn_inv_step [OF 2(2)] obtain ts' keys'
    where dr: "drainEdges (rev (nss ! key)) ts keys = Inr (ts', keys')"
      and inv: "kahn_inv oss (nss[key := []]) ts' keys'" and key: "key < length nss" .
  from 2(1) [OF key dr refl inv] show ?case using dr key by simp
qed

text \<open>A set of nodes closed under predecessors is never touched.\<close>

lemma kahnLoop_untouched:
  assumes "kahn_inv oss nss ts keys" and "C \<inter> set keys = {}"
    and "\<And>k. k \<in> C \<Longrightarrow> k < length oss" and "\<And>k. k \<in> C \<Longrightarrow> nss ! k = oss ! k"
    and "\<And>k. k \<in> C \<Longrightarrow> \<exists>p \<in> C. k \<in> set (oss ! p)"
    and "kahnLoop nss ts keys = Inr nss'" and "k \<in> C"
  shows "nss' ! k = oss ! k"
  using assms
proof (induction nss ts keys rule: kahnLoop.induct)
  case (2 nss ts key keys)
  from kahn_inv_step [OF 2(2)] obtain ts' keys'
    where dr: "drainEdges (rev (nss ! key)) ts keys = Inr (ts', keys')"
      and inv: "kahn_inv oss (nss[key := []]) ts' keys'" and key: "key < length nss"
      and keys': "set keys' \<subseteq> set keys \<union> {k. k < length oss \<and> ts' ! k = 0}" .
  have keyC: "key \<notin> C" using 2(3) by auto
  then have same: "nss[key := []] ! k = oss ! k" if "k \<in> C" for k
    using that 2(5) by (metis nth_list_update_neq)
  have "ts' ! k \<noteq> 0" if k: "k \<in> C" for k
  proof -
    from 2(6) [OF k] obtain p where p: "p \<in> C" "k \<in> set (oss ! p)" by blast
    let ?nss = "nss[key := []]"
    have "p < length ?nss" using 2(4) [OF p(1)] inv by (simp add: kahn_inv_def)
    moreover have "k \<in> set (?nss ! p)" using p same by simp
    ultimately have "k \<in> set (concat ?nss)" by (metis UN_I nth_mem set_concat)
    then have "0 < count_list (concat ?nss) k" by (simp only: count_list_pos_iff)
    with inv 2(4) [OF k] show ?thesis by (simp add: kahn_inv_def)
  qed
  with 2(3) keys' have disj: "C \<inter> set keys' = {}" by fastforce
  have "kahnLoop (nss[key := []]) ts' keys' = Inr nss'" using 2(7) dr key by simp
  from 2(1) [OF key dr refl inv disj 2(4) same 2(6) this 2(8)] show ?case by simp
qed simp

lemma kahn_inv_start:
  assumes wf: "dag_wf d" and ts: "\<And>k. k < length (nodes d) \<Longrightarrow> ts ! k = indegree d k"
    and len: "length ts = length (nodes d)"
  shows "kahn_inv (map nexts (nodes d)) (map nexts (nodes d)) ts (rev (rootKeys d))"
  using wf ts len unfolding kahn_inv_def
  by (fastforce simp: rootKeys_def indegree_def dag_wf_def in_set_conv_nth)

lemma finite_edges: "dag_wf d \<Longrightarrow> finite (edges d)"
  by (rule finite_subset [of _ "{..<length (nodes d)} \<times> {..<length (nodes d)}"])
     (auto simp: edges_def dest: dag_wf_edge)

text \<open>Remaining edges at the end of the loop lie on or behind a cycle.\<close>

lemma kahn_complete:
  assumes wf: "dag_wf d" and fin: "kahn_inv (map nexts (nodes d)) nss ts []"
    and acyc: "acyclic (edges d)"
  shows "\<forall>k < length (nodes d). nss ! k = []"
proof -
  let ?S = "{k. k < length (nodes d) \<and> nss ! k \<noteq> []}"
  have "\<exists>p \<in> ?S. (p, k) \<in> edges d" if k: "k \<in> ?S" for k
  proof -
    from k fin have "0 < count_list (concat nss) k" by (auto simp: kahn_inv_def)
    then have "k \<in> set (concat nss)" by (simp only: count_list_pos_iff)
    then obtain p where p: "p < length nss" "k \<in> set (nss ! p)"
      unfolding set_concat by (metis UN_E in_set_conv_nth)
    with fin have "p < length (nodes d)" "nss ! p = map nexts (nodes d) ! p"
      by (auto simp: kahn_inv_def)
    with p show ?thesis by (auto simp: edges_def)
  qed
  with acyc finite_edges [OF wf] show ?thesis
    using pred_closed_not_acyclic [of "edges d" _ ?S] by blast
qed

lemma kahn_sound:
  assumes wf: "dag_wf d"
    and start: "kahn_inv (map nexts (nodes d)) (map nexts (nodes d)) ts (rev (rootKeys d))"
    and kl: "kahnLoop (map nexts (nodes d)) ts (rev (rootKeys d)) = Inr nss"
    and empty: "\<forall>k < length (nodes d). nss ! k = []"
  shows "acyclic (edges d)"
proof (rule ccontr)
  let ?oss = "map nexts (nodes d)" and ?n = "length (nodes d)"
  assume "\<not> acyclic (edges d)"
  then obtain C where "C \<noteq> {}" and "\<forall>k \<in> C. \<exists>p \<in> C. (p, k) \<in> edges d"
    by (rule not_acyclic_pred_closed)
  then have C: "C \<noteq> {}" "\<And>k. k \<in> C \<Longrightarrow> \<exists>p \<in> C. (p, k) \<in> edges d" by blast+
  have rngC: "k < ?n" if "k \<in> C" for k
    using C(2) [OF that] dag_wf_edge [OF wf] by (auto simp: edges_def)
  have preds: "\<exists>p \<in> C. k \<in> set (?oss ! p)" if "k \<in> C" for k
    using C(2) [OF that] by (force simp: edges_def)
  have "0 < indegree d k" if "k \<in> C" for k
  proof -
    from C(2) [OF that] have "k \<in> set (concat ?oss)" by (auto simp: edges_def)
    then show ?thesis by (simp only: indegree_def count_list_pos_iff)
  qed
  with wf rngC have "C \<inter> set (rev (rootKeys d)) = {}" by (auto simp: rootKeys_def dag_wf_def)
  from kahnLoop_untouched [OF start this _ _ preds kl] rngC
  have same: "nss ! k = ?oss ! k" if "k \<in> C" for k using that by simp
  from C(1) obtain k where k: "k \<in> C" by blast
  from preds [OF k] obtain p where "p \<in> C" "k \<in> set (?oss ! p)" by blast
  with same [of p] rngC [of p] empty show False by auto
qed

text \<open>The check returns on every well-formed graph, and it decides acyclicity.\<close>

lemma hasCycle_spec:
  assumes wf: "dag_wf d"
  shows "hasCycle d = Inr (\<not> acyclic (edges d))"
proof -
  let ?oss = "map nexts (nodes d)" and ?n = "length (nodes d)"
  have rng: "set (concat ?oss) \<subseteq> {..<length (replicate ?n (0::nat))}"
    using dag_wf_edge [OF wf] by (fastforce simp: in_set_conv_nth)
  have "\<forall>k < length (replicate ?n (0::nat)). replicate ?n 0 ! k + length (concat ?oss) < 2 ^ 64"
    using wf by (simp add: dag_wf_def)
  then obtain ts where ct: "countTargets (concat ?oss) (replicate ?n 0) = Inr ts"
      and len0: "length ts = length (replicate ?n (0::nat))"
      and ts0: "\<forall>k < length (replicate ?n (0::nat)).
        ts ! k = replicate ?n 0 ! k + count_list (concat ?oss) k"
    by (rule countTargets_spec [OF rng])
  from len0 ts0 have len: "length ts = ?n" and ts: "\<And>k. k < ?n \<Longrightarrow> ts ! k = indegree d k"
    by (simp_all add: indegree_def)
  note start = kahn_inv_start [OF wf ts len]
  from kahnLoop_inv [OF start] obtain nss ts'
    where kl: "kahnLoop ?oss ts (rev (rootKeys d)) = Inr nss" and fin: "kahn_inv ?oss nss ts' []"
    by blast
  have "acyclic (edges d) \<longleftrightarrow> (\<forall>k < ?n. nss ! k = [])"
    using kahn_complete [OF wf fin] kahn_sound [OF wf start kl] by blast
  moreover have "length nss = ?n" using fin by (simp add: kahn_inv_def)
  ultimately have "list_ex (\<lambda>es. es \<noteq> []) nss = (\<not> acyclic (edges d))"
    unfolding list_ex_iff by (metis in_set_conv_nth)
  then show ?thesis using ct kl by (simp add: hasCycle_def Let_def)
qed

end
