(* ===== verification/Task_Run.thy ===== *)
theory Task_Run
  imports Task_Graph
begin

text \<open>
  Running a prepared task graph: \<^verbatim>\<open>DAG::schedule\<close> and \<^verbatim>\<open>DAG::execute\<close> of
  \<^verbatim>\<open>src/raster/parallel/DAG.h\<close> as they call each other in one thread, and the
  concurrent runs of \<^verbatim>\<open>ActorDAG\<close> (\<^verbatim>\<open>src/raster/parallel/Scheduler.h\<close>), where
  executors run in the thread pool, as a step relation. The sequential run is
  shown to be one of the concurrent ones, so the ordering theorems are proved
  once, for every interleaving.
\<close>

section \<open>Concurrent runs\<close>

text \<open>
  The state of a run over the successor lists \<open>succ\<close>: the atomic wait counts,
  the edges fired but not yet counted down (\<open>pend\<close>: the remaining keys of all
  \<^verbatim>\<open>schedule\<close> loops under way), the executors handed to the pool (\<open>ready\<close>), those
  running, and the history.
\<close>

datatype task_event = Start nat | Done nat

record task_run =
  wc :: "nat \<Rightarrow> nat"
  pend :: "nat multiset"
  ready :: "nat multiset"
  running :: "nat multiset"
  trace :: "task_event list"

definition succOf :: "'e dag \<Rightarrow> nat \<Rightarrow> nat list" where
  "succOf d k = (if k < length (nodes d) then nexts (nodes d ! k) else [])"

text \<open>
  \<^verbatim>\<open>executor->schedule()\<close> for the executor of node \<open>k\<close>: it runs every \<^verbatim>\<open>schedule(i)\<close> that
  \<^verbatim>\<open>add\<close> has bound to this executor, for all nodes it was added as, and none if it was never added.
\<close>

definition firedBy :: "'e dag \<Rightarrow> nat \<Rightarrow> nat list" where
  "firedBy d k = (case executor (nodes d ! k) of None \<Rightarrow> [] | Some e \<Rightarrow> concat (map (succOf d) (schedules d e)))"

text \<open>
  One step: some loop counts a successor down, and hands it to the pool when it
  was the last predecessor (\<^verbatim>\<open>if (--nodes_[key].waitCount == 0) execute(...)\<close>);
  a pool thread picks an executor, which must not be null; an executor returns and its
  \<^verbatim>\<open>schedule()\<close> fires the edges bound to it. The loops are taken apart, so that they
  interleave in any order.
\<close>

inductive task_step :: "'e dag \<Rightarrow> task_run \<Rightarrow> task_run \<Rightarrow> bool"
  for d :: "'e dag" where
  deliver: "k \<in># pend s \<Longrightarrow> w = size_dec (wc s k) \<Longrightarrow>
    task_step d s (s\<lparr>wc := (wc s)(k := w), pend := pend s - {#k#},
                       ready := ready s + (if w = 0 then {#k#} else {#})\<rparr>)"
| start: "k \<in># ready s \<Longrightarrow> executor (nodes d ! k) \<noteq> None \<Longrightarrow>
    task_step d s (s\<lparr>ready := ready s - {#k#}, running := running s + {#k#},
                       trace := trace s @ [Start k]\<rparr>)"
| finish: "k \<in># running s \<Longrightarrow>
    task_step d s (s\<lparr>running := running s - {#k#}, pend := pend s + mset (firedBy d k),
                       trace := trace s @ [Done k]\<rparr>)"

text \<open>The state in which \<^verbatim>\<open>schedule(src)\<close> starts.\<close>

definition startRun :: "'e dag \<Rightarrow> nat \<Rightarrow> task_run" where
  "startRun d src = \<lparr>wc = (\<lambda>k. waitCount (nodes d ! k)), pend = mset (succOf d src),
     ready = {#}, running = {#}, trace = []\<rparr>"

text \<open>
  A graph ready to run: edges stay inside and never enter the source, every
  other node has a predecessor, and there is no cycle.
\<close>

definition prepared :: "(nat \<Rightarrow> nat list) \<Rightarrow> nat \<Rightarrow> nat \<Rightarrow> bool" where
  "prepared succ n src \<longleftrightarrow> src < n \<and>
     (\<forall>p < n. set (succ p) \<subseteq> {..<n} - {src}) \<and>
     (\<forall>k < n. k \<noteq> src \<longrightarrow> (\<exists>p < n. k \<in> set (succ p))) \<and>
     acyclic {(p, k). p < n \<and> k \<in> set (succ p)}"

text \<open>Executing a node fires exactly its own edges.\<close>

definition firesOwn :: "'e dag \<Rightarrow> nat \<Rightarrow> bool" where
  "firesOwn d k \<longleftrightarrow> (\<exists>e. executor (nodes d ! k) = Some e \<and>
     (schedules d e = [k] \<or> schedules d e = [] \<and> nexts (nodes d ! k) = []))"

definition runnable :: "'e dag \<Rightarrow> nat \<Rightarrow> bool" where
  "runnable d src \<longleftrightarrow> prepared (succOf d) (length (nodes d)) src \<and>
     (\<forall>k < length (nodes d). k \<noteq> src \<longrightarrow> firesOwn d k)"

lemma firesOwn_fires:
  assumes "firesOwn d k" and "k < length (nodes d)"
  shows "firedBy d k = succOf d k" and "executor (nodes d ! k) \<noteq> None"
  using assms by (auto simp: firesOwn_def firedBy_def succOf_def)

lemma runnableD:
  assumes "runnable d src"
  shows "prepared (succOf d) (length (nodes d)) src" and "src < length (nodes d)"
    and "k < length (nodes d) \<Longrightarrow> k \<noteq> src \<Longrightarrow> firedBy d k = succOf d k"
    and "k < length (nodes d) \<Longrightarrow> k \<noteq> src \<Longrightarrow> executor (nodes d ! k) \<noteq> None"
  using assms firesOwn_fires [of d k] by (auto simp: runnable_def prepared_def)

definition undone :: "nat \<Rightarrow> nat \<Rightarrow> task_event list \<Rightarrow> nat set" where
  "undone n src tr = {p. p < n \<and> p \<noteq> src \<and> Done p \<notin> set tr}"

definition waiting :: "(nat \<Rightarrow> nat list) \<Rightarrow> nat \<Rightarrow> nat \<Rightarrow> task_event list \<Rightarrow> nat \<Rightarrow> nat" where
  "waiting succ n src tr k = (\<Sum>p \<in> undone n src tr. count_list (succ p) k)"

text \<open>A trace in dependency order: no node starts before its predecessors are done.\<close>

definition ordered :: "(nat \<Rightarrow> nat list) \<Rightarrow> nat \<Rightarrow> nat \<Rightarrow> task_event list \<Rightarrow> bool" where
  "ordered succ n src tr \<longleftrightarrow>
     (\<forall>xs b ys. tr = xs @ Start b # ys \<longrightarrow>
        (\<forall>a < n. a \<noteq> src \<and> b \<in> set (succ a) \<longrightarrow> Done a \<in> set xs)) \<and>
     (\<forall>xs b ys. tr = xs @ Done b # ys \<longrightarrow> Start b \<in> set xs)"

definition run_inv :: "(nat \<Rightarrow> nat list) \<Rightarrow> nat \<Rightarrow> nat \<Rightarrow> task_run \<Rightarrow> bool" where
  "run_inv succ n src s \<longleftrightarrow>
     (\<forall>k < n. wc s k = count (pend s) k + waiting succ n src (trace s) k) \<and>
     set_mset (pend s) \<union> set_mset (ready s) \<union> set_mset (running s) \<subseteq> {..<n} - {src} \<and>
     (\<forall>k < n. k \<noteq> src \<longrightarrow>
        count (ready s) k + count (running s) k + count_list (trace s) (Done k)
        = (if wc s k = 0 then 1 else 0)) \<and>
     (\<forall>k. count_list (trace s) (Start k) = count (running s) k + count_list (trace s) (Done k)) \<and>
     (\<forall>k. Start k \<in> set (trace s) \<longrightarrow> k < n \<and> k \<noteq> src) \<and>
     ordered succ n src (trace s)"

lemma finite_undone [simp]: "finite (undone n src tr)"
  by (simp add: undone_def)

lemma waiting_snoc_Start [simp]: "waiting succ n src (tr @ [Start k]) = waiting succ n src tr"
  by (simp add: waiting_def undone_def fun_eq_iff)

lemma undone_snoc_Done: "undone n src (tr @ [Done k]) = undone n src tr - {k}"
  by (auto simp: undone_def)

lemma waiting_snoc_Done:
  "k \<in> undone n src tr \<Longrightarrow>
   waiting succ n src tr j = waiting succ n src (tr @ [Done k]) j + count_list (succ k) j"
  by (simp add: waiting_def undone_snoc_Done sum.remove add.commute)

lemma waiting_0_iff:
  "waiting succ n src tr k = 0 \<longleftrightarrow> (\<forall>p \<in> undone n src tr. k \<notin> set (succ p))"
  by (auto simp: waiting_def count_list_0_iff)

lemma ordered_snoc_Start:
  assumes "ordered succ n src tr"
    and "\<And>a. a < n \<Longrightarrow> a \<noteq> src \<Longrightarrow> k \<in> set (succ a) \<Longrightarrow> Done a \<in> set tr"
  shows "ordered succ n src (tr @ [Start k])"
  using assms unfolding ordered_def snoc_eq_append_Cons by blast

lemma ordered_snoc_Done:
  assumes "ordered succ n src tr" and "Start k \<in> set tr"
  shows "ordered succ n src (tr @ [Done k])"
  using assms unfolding ordered_def snoc_eq_append_Cons by blast

lemma run_invD:
  assumes "run_inv succ n src s"
  shows "\<And>k. k < n \<Longrightarrow> wc s k = count (pend s) k + waiting succ n src (trace s) k"
    and "\<And>k. k \<in># pend s \<Longrightarrow> k < n \<and> k \<noteq> src"
    and "\<And>k. k \<in># ready s \<Longrightarrow> k < n \<and> k \<noteq> src"
    and "\<And>k. k \<in># running s \<Longrightarrow> k < n \<and> k \<noteq> src"
    and "\<And>k. k < n \<Longrightarrow> k \<noteq> src \<Longrightarrow>
        count (ready s) k + count (running s) k + count_list (trace s) (Done k)
        = (if wc s k = 0 then 1 else 0)"
    and "\<And>k. count_list (trace s) (Start k) = count (running s) k + count_list (trace s) (Done k)"
    and "\<And>k. Start k \<in> set (trace s) \<Longrightarrow> k < n \<and> k \<noteq> src"
    and "ordered succ n src (trace s)"
  using assms unfolding run_inv_def by blast+

lemma in_mset_count: "x \<in># M \<Longrightarrow> \<exists>c. count M x = Suc c"
  by (metis count_eq_zero_iff not0_implies_Suc)

lemma in_ready:
  assumes inv: "run_inv succ n src s" and k: "k \<in># ready s"
  shows "k < n" "k \<noteq> src" "wc s k = 0" "count (ready s) k = 1" "count (running s) k = 0"
    "count_list (trace s) (Done k) = 0"
proof -
  from run_invD(3) [OF inv k] show kn: "k < n" "k \<noteq> src" by auto
  from in_mset_count [OF k] obtain c where "count (ready s) k = Suc c" ..
  with run_invD(5) [OF inv kn] show "wc s k = 0" "count (ready s) k = 1" "count (running s) k = 0"
      "count_list (trace s) (Done k) = 0"
    by (auto split: if_splits)
qed

lemma in_running:
  assumes inv: "run_inv succ n src s" and k: "k \<in># running s"
  shows "k < n" "k \<noteq> src" "wc s k = 0" "count (running s) k = 1" "count (ready s) k = 0"
    "count_list (trace s) (Done k) = 0" "k \<in> undone n src (trace s)" "Start k \<in> set (trace s)"
proof -
  from run_invD(4) [OF inv k] show kn: "k < n" "k \<noteq> src" by auto
  from in_mset_count [OF k] obtain c where "count (running s) k = Suc c" ..
  with run_invD(5) [OF inv kn] show c: "wc s k = 0" "count (running s) k = 1" "count (ready s) k = 0"
      "count_list (trace s) (Done k) = 0"
    by (auto split: if_splits)
  from c(4) kn show "k \<in> undone n src (trace s)" by (simp add: undone_def count_list_0_iff)
  from c(2,4) run_invD(6) [OF inv, of k] have "count_list (trace s) (Start k) = 1" by simp
  then show "Start k \<in> set (trace s)" by (simp flip: count_list_pos_iff)
qed

lemma in_pend:
  assumes inv: "run_inv succ n src s" and k: "k \<in># pend s"
  shows "k < n" "k \<noteq> src" "0 < wc s k" "count (ready s) k = 0" "count (running s) k = 0"
    "count_list (trace s) (Done k) = 0"
proof -
  from run_invD(2) [OF inv k] show kn: "k < n" "k \<noteq> src" by auto
  from in_mset_count [OF k] obtain c where "count (pend s) k = Suc c" ..
  with run_invD(1) [OF inv kn(1)] show pos: "0 < wc s k" by simp
  with run_invD(5) [OF inv kn] show "count (ready s) k = 0" "count (running s) k = 0"
    "count_list (trace s) (Done k) = 0" by auto
qed

lemma run_inv_deliver:
  assumes inv: "run_inv succ n src s" and k: "k \<in># pend s" and w: "w = size_dec (wc s k)"
  shows "run_inv succ n src (s\<lparr>wc := (wc s)(k := w), pend := pend s - {#k#},
                       ready := ready s + (if w = 0 then {#k#} else {#})\<rparr>)" (is "run_inv _ _ _ ?t")
proof -
  note I = run_invD [OF inv] and K = in_pend [OF inv k]
  from in_mset_count [OF k] obtain c where c: "count (pend s) k = Suc c" ..
  from K(3) w have w': "w = wc s k - 1" by simp
  have "wc ?t j = count (pend ?t) j + waiting succ n src (trace ?t) j" if "j < n" for j
    using I(1) [OF that] c w' by (cases "j = k") auto
  moreover have "count (ready ?t) j + count (running ?t) j + count_list (trace ?t) (Done j)
      = (if wc ?t j = 0 then 1 else 0)" if "j < n" "j \<noteq> src" for j
    using I(5) [OF that] K by (cases "j = k") auto
  moreover have "set_mset (pend ?t) \<union> set_mset (ready ?t) \<union> set_mset (running ?t) \<subseteq> {..<n} - {src}"
    using I(2-4) K by (auto dest: in_diffD split: if_splits)
  ultimately show ?thesis
    unfolding run_inv_def using I(6-8) by simp
qed

lemma run_inv_start:
  assumes inv: "run_inv succ n src s" and k: "k \<in># ready s"
  shows "run_inv succ n src (s\<lparr>ready := ready s - {#k#}, running := running s + {#k#},
                       trace := trace s @ [Start k]\<rparr>)" (is "run_inv _ _ _ ?t")
proof -
  note I = run_invD [OF inv] and K = in_ready [OF inv k]
  from I(1) [OF K(1)] K(3) have "waiting succ n src (trace s) k = 0" by simp
  then have "Done a \<in> set (trace s)" if "a < n" "a \<noteq> src" "k \<in> set (succ a)" for a
    using that by (auto simp: waiting_0_iff undone_def)
  with I(8) have "ordered succ n src (trace ?t)" by (simp add: ordered_snoc_Start)
  moreover have "count (ready ?t) j + count (running ?t) j + count_list (trace ?t) (Done j)
      = (if wc ?t j = 0 then 1 else 0)" if "j < n" "j \<noteq> src" for j
    using I(5) [OF that] K by (cases "j = k") auto
  moreover have "set_mset (pend ?t) \<union> set_mset (ready ?t) \<union> set_mset (running ?t) \<subseteq> {..<n} - {src}"
    using I(2-4) K by (auto dest: in_diffD)
  ultimately show ?thesis
    unfolding run_inv_def using I(1,6,7) K by auto
qed

lemma run_inv_finish:
  assumes prep: "prepared succ n src" and inv: "run_inv succ n src s" and k: "k \<in># running s"
  shows "run_inv succ n src (s\<lparr>running := running s - {#k#}, pend := pend s + mset (succ k),
                       trace := trace s @ [Done k]\<rparr>)" (is "run_inv _ _ _ ?t")
proof -
  note I = run_invD [OF inv] and K = in_running [OF inv k]
  from I(8) K(8) have "ordered succ n src (trace ?t)" by (simp add: ordered_snoc_Done)
  moreover have "wc ?t j = count (pend ?t) j + waiting succ n src (trace ?t) j" if "j < n" for j
    using I(1) [OF that] waiting_snoc_Done [OF K(7), of succ j]
    by (simp add: count_mset)
  moreover have "count (ready ?t) j + count (running ?t) j + count_list (trace ?t) (Done j)
      = (if wc ?t j = 0 then 1 else 0)" if "j < n" "j \<noteq> src" for j
    using I(5) [OF that] K by (cases "j = k") auto
  moreover have "set (succ k) \<subseteq> {..<n} - {src}" using prep K(1) by (simp add: prepared_def)
  then have "set_mset (pend ?t) \<union> set_mset (ready ?t) \<union> set_mset (running ?t) \<subseteq> {..<n} - {src}"
    using I(2-4) by (fastforce dest: in_diffD)
  moreover have "count_list (trace ?t) (Start j) = count (running ?t) j + count_list (trace ?t) (Done j)" for j
    using I(6) [of j] K by (cases "j = k") auto
  ultimately show ?thesis
    unfolding run_inv_def using I(7) by simp
qed

lemma run_inv_step:
  assumes run: "runnable d src" and "task_step d s t" and "run_inv (succOf d) (length (nodes d)) src s"
  shows "run_inv (succOf d) (length (nodes d)) src t"
  using assms(2,3)
proof (induction rule: task_step.induct)
  case (finish k s)
  then have "firedBy d k = succOf d k" using runnableD(3) [OF run in_running(1,2)] by blast
  with run_inv_finish [OF runnableD(1) [OF run] finish(2,1)] show ?case by simp
qed (simp_all only: run_inv_deliver run_inv_start)

lemma run_inv_steps:
  assumes "runnable d src" and "(task_step d)\<^sup>*\<^sup>* s t" and "run_inv (succOf d) (length (nodes d)) src s"
  shows "run_inv (succOf d) (length (nodes d)) src t"
  using assms(2,3) by (induction rule: rtranclp_induct) (auto intro: run_inv_step [OF assms(1)])

text \<open>A run that can make no step has finished every node, exactly once.\<close>

lemma stuck_all_done:
  fixes d :: "'e dag"
  defines "succ \<equiv> succOf d" and "n \<equiv> length (nodes d)"
  assumes run: "runnable d src" and inv: "run_inv succ n src s"
    and stuck: "\<And>t. \<not> task_step d s t" and k: "k < n" "k \<noteq> src"
  shows "count_list (trace s) (Done k) = 1 \<and> count_list (trace s) (Start k) = 1"
proof -
  note I = run_invD [OF inv] and prep = runnableD(1) [OF run, folded succ_def n_def]
  have "executor (nodes d ! j) \<noteq> None" if "j \<in># ready s" for j
    using runnableD(4) [OF run] I(3) [OF that] by (simp add: n_def)
  then have empty: "pend s = {#}" "ready s = {#}" "running s = {#}"
    using stuck task_step.intros by (metis multiset_nonemptyE)+
  let ?R = "{(p, k). p < n \<and> k \<in> set (succ p)}"
  have "finite ?R"
    by (rule finite_subset [of _ "{..<n} \<times> {..<n}"]) (use prep in \<open>auto simp: prepared_def\<close>)
  moreover have "\<exists>p \<in> undone n src (trace s). (p, j) \<in> ?R" if j: "j \<in> undone n src (trace s)" for j
  proof -
    from j have jn: "j < n" "j \<noteq> src" "Done j \<notin> set (trace s)" by (auto simp: undone_def)
    then have "count_list (trace s) (Done j) = 0" by (simp add: count_list_0_iff)
    with I(5) [OF jn(1,2)] empty have "wc s j \<noteq> 0" by (simp split: if_splits)
    with I(1) [OF jn(1)] empty have "waiting succ n src (trace s) j \<noteq> 0" by simp
    then show ?thesis by (auto simp: waiting_0_iff undone_def)
  qed
  ultimately have "undone n src (trace s) = {}"
    using pred_closed_not_acyclic [of ?R _ "undone n src (trace s)"] prep
    by (auto simp: prepared_def)
  with k have "count_list (trace s) (Done k) \<noteq> 0" by (auto simp: undone_def count_list_0_iff)
  with I(5) [OF k] I(6) [of k] empty show ?thesis by (simp split: if_splits)
qed

text \<open>Every step uses up a part of a finite amount of work.\<close>

definition work :: "(nat \<Rightarrow> nat list) \<Rightarrow> nat \<Rightarrow> nat \<Rightarrow> task_run \<Rightarrow> nat" where
  "work succ n src s =
     size (pend s) + (\<Sum>p \<in> undone n src (trace s). length (succ p)) +
     3 * card {k. k < n \<and> 0 < wc s k} + 2 * size (ready s) + size (running s)"

lemma size_remove: "x \<in># M \<Longrightarrow> size M = Suc (size (M - {#x#}))"
  by (metis size_Suc_Diff1)

lemma work_deliver:
  assumes inv: "run_inv succ n src s" and k: "k \<in># pend s"
  shows "work succ n src (s\<lparr>wc := (wc s)(k := w), pend := pend s - {#k#},
            ready := ready s + (if w = 0 then {#k#} else {#})\<rparr>) < work succ n src s"
proof -
  note kn = in_pend(1,3) [OF inv k]
  let ?A = "{j. j < n \<and> 0 < wc s j}"
  have "{j. j < n \<and> 0 < ((wc s)(k := w)) j} = (if w = 0 then ?A - {k} else ?A)"
    using kn by auto
  moreover have "card ?A = Suc (card (?A - {k}))"
    using kn by (intro card.remove) auto
  ultimately show ?thesis
    using size_remove [OF k] by (simp add: work_def)
qed

lemma work_step:
  fixes d :: "'e dag"
  defines "succ \<equiv> succOf d" and "n \<equiv> length (nodes d)"
  assumes run: "runnable d src" and inv: "run_inv succ n src s" and step: "task_step d s t"
  shows "work succ n src t < work succ n src s"
  using step
proof (cases rule: task_step.cases)
  case (deliver k w)
  with work_deliver [OF inv deliver(2)] show ?thesis by simp
next
  case (start k)
  have "undone n src (trace s @ [Start k]) = undone n src (trace s)" by (auto simp: undone_def)
  with start size_remove [OF start(2)] show ?thesis by (simp add: work_def)
next
  case (finish k)
  note un = in_running(7) [OF inv finish(2)]
  have "firedBy d k = succ k"
    using runnableD(3) [OF run] in_running(1,2) [OF inv finish(2)] by (simp add: succ_def n_def)
  moreover have "(\<Sum>p \<in> undone n src (trace s). length (succ p))
      = length (succ k) + (\<Sum>p \<in> undone n src (trace s @ [Done k]). length (succ p))"
    using un by (simp add: undone_snoc_Done sum.remove)
  ultimately show ?thesis using finish(1) size_remove [OF finish(2)] by (simp add: work_def)
qed

lemma run_length_bound:
  assumes run: "runnable d src" and inv: "run_inv (succOf d) (length (nodes d)) src s"
    and "(task_step d ^^ m) s t"
  shows "m + work (succOf d) (length (nodes d)) src t \<le> work (succOf d) (length (nodes d)) src s"
  using assms(3)
proof (induction m arbitrary: t)
  case (Suc m)
  from Suc.prems obtain u where u: "(task_step d ^^ m) s u" and st: "task_step d u t" by auto
  have "run_inv (succOf d) (length (nodes d)) src u"
    using run_inv_steps [OF run _ inv] relpowp_imp_rtranclp [OF u] by blast
  from Suc.IH [OF u] work_step [OF run this st] show ?case by simp
qed simp

section \<open>Preparing a graph for its run\<close>

definition edgeCount :: "'e dag \<Rightarrow> nat" where
  "edgeCount d = length (concat (map nexts (nodes d)))"

lemma edgeCount_dependency: "dependency a b d = Inr d' \<Longrightarrow> edgeCount d' = Suc (edgeCount d)"
  using length_concat_update [of a "map nexts (nodes d)" "nexts (nodes d ! a) @ [b]"]
    dependency_nexts(3) [of a b d d']
  by (simp add: edgeCount_def dependency_nexts(2))

lemma edgeCount_addNode [simp]: "edgeCount (snd (addNode e d)) = edgeCount d"
  by (simp add: edgeCount_def addNode_def newNode_def)

text \<open>What adding edges keeps.\<close>

definition extends :: "'e dag \<Rightarrow> 'e dag \<Rightarrow> bool" where
  "extends d d' \<longleftrightarrow> length (nodes d') = length (nodes d) \<and> schedules d' = schedules d \<and>
     (\<forall>k < length (nodes d). executor (nodes d' ! k) = executor (nodes d ! k))"

lemma extends_refl [simp]: "extends d d"
  by (simp add: extends_def)

lemma extends_trans: "extends d d1 \<Longrightarrow> extends d1 d2 \<Longrightarrow> extends d d2"
  by (simp add: extends_def)

lemma extends_dependency: "dependency a b d = Inr d' \<Longrightarrow> extends d d'"
  by (simp add: extends_def dependency_nexts(1,5) dependency_counts(3))

lemma dependency_total:
  assumes "dag_wf d" and "a < length (nodes d)" and "b < length (nodes d)"
    and "edgeCount d + 1 < 2 ^ 64 - 1"
  obtains d' where "dependency a b d = Inr d'" and "dag_wf d'" and "extends d d'"
    and "edgeCount d' = edgeCount d + 1"
    and "\<forall>k < length (nodes d). nexts (nodes d' ! k) = nexts (nodes d ! k) @ (if k = a then [b] else [])"
proof -
  from assms(2,3) obtain d' where d': "dependency a b d = Inr d'" by (simp add: dependency_ok)
  show thesis
    using that [OF d' _ extends_dependency [OF d']] dag_wf_dependency [OF assms(1) d'] assms(4)
      edgeCount_dependency [OF d'] nexts_dependency [OF d'] by (simp add: edgeCount_def)
qed

lemma dependFrom_spec:
  assumes "dag_wf d" and "a < length (nodes d)" and "set bs \<subseteq> {..<length (nodes d)}"
    and "edgeCount d + length bs < 2 ^ 64 - 1"
  shows "\<exists>d'. dependFrom a bs d = Inr d' \<and> dag_wf d' \<and> extends d d' \<and>
     edgeCount d' = edgeCount d + length bs \<and>
     (\<forall>k < length (nodes d). nexts (nodes d' ! k) = nexts (nodes d ! k) @ (if k = a then bs else []))"
  using assms
proof (induction bs arbitrary: d)
  case (Cons b bs)
  have ab: "a < length (nodes d)" "b < length (nodes d)" "edgeCount d + 1 < 2 ^ 64 - 1"
    using Cons.prems(2-4) by auto
  obtain d1 where d1: "dependency a b d = Inr d1" "dag_wf d1" "extends d d1"
      "edgeCount d1 = edgeCount d + 1"
      "\<forall>k < length (nodes d). nexts (nodes d1 ! k) = nexts (nodes d ! k) @ (if k = a then [b] else [])"
    by (rule dependency_total [OF Cons.prems(1) ab])
  have len: "length (nodes d1) = length (nodes d)" using d1(3) by (simp add: extends_def)
  from Cons.IH [OF d1(2)] Cons.prems(3,4) ab len d1(4) obtain d'
    where "dependFrom a bs d1 = Inr d'" "dag_wf d'" "extends d1 d'"
      "edgeCount d' = edgeCount d1 + length bs"
      "\<forall>k < length (nodes d1). nexts (nodes d' ! k) = nexts (nodes d1 ! k) @ (if k = a then bs else [])"
    by auto
  with d1 len extends_trans [OF d1(3)] show ?case by auto
qed simp

lemma dependTo_spec:
  assumes "dag_wf d" and "b < length (nodes d)" and "set as \<subseteq> {..<length (nodes d)}"
    and "edgeCount d + length as < 2 ^ 64 - 1" and "distinct as"
  shows "\<exists>d'. dependTo as b d = Inr d' \<and> dag_wf d' \<and> extends d d' \<and>
     edgeCount d' = edgeCount d + length as \<and>
     (\<forall>k < length (nodes d). nexts (nodes d' ! k) = nexts (nodes d ! k) @ (if k \<in> set as then [b] else []))"
  using assms
proof (induction as arbitrary: d)
  case (Cons a as)
  have ab: "a < length (nodes d)" "b < length (nodes d)" "edgeCount d + 1 < 2 ^ 64 - 1"
    using Cons.prems(2-4) by auto
  obtain d1 where d1: "dependency a b d = Inr d1" "dag_wf d1" "extends d d1"
      "edgeCount d1 = edgeCount d + 1"
      "\<forall>k < length (nodes d). nexts (nodes d1 ! k) = nexts (nodes d ! k) @ (if k = a then [b] else [])"
    by (rule dependency_total [OF Cons.prems(1) ab])
  have len: "length (nodes d1) = length (nodes d)" using d1(3) by (simp add: extends_def)
  from Cons.IH [OF d1(2)] Cons.prems(3-5) ab len d1(4) obtain d'
    where "dependTo as b d1 = Inr d'" "dag_wf d'" "extends d1 d'"
      "edgeCount d' = edgeCount d1 + length as"
      "\<forall>k < length (nodes d1). nexts (nodes d' ! k) = nexts (nodes d1 ! k) @ (if k \<in> set as then [b] else [])"
    by auto
  with d1 len extends_trans [OF d1(3)] Cons.prems(5) show ?case by auto
qed simp

text \<open>
  The result of \<open>goDag\<close> on an acyclic graph of \<open>n\<close> nodes: node \<open>n\<close> is the source,
  before the roots, and node \<open>n + 1\<close> the sink, after the leaves.
\<close>

definition gone :: "'e dag \<Rightarrow> 'e option \<Rightarrow> 'e dag \<Rightarrow> bool" where
  "gone d e d' \<longleftrightarrow> (let n = length (nodes d) in
     length (nodes d') = n + 2 \<and> dag_wf d' \<and> schedules d' = schedules d \<and>
     (\<forall>k < n. executor (nodes d' ! k) = executor (nodes d ! k) \<and>
        nexts (nodes d' ! k) = nexts (nodes d ! k) @ (if nexts (nodes d ! k) = [] then [n + 1] else [])) \<and>
     executor (nodes d' ! n) = None \<and> nexts (nodes d' ! n) = rootKeys d \<and>
     executor (nodes d' ! (n + 1)) = e \<and> nexts (nodes d' ! (n + 1)) = [])"

lemma length_rootKeys: "length (rootKeys d) \<le> length (nodes d)"
  by (metis diff_zero length_filter_le length_upt rootKeys_def)

lemma length_leafKeys: "length (leafKeys d) \<le> length (nodes d)"
  by (metis diff_zero length_filter_le length_upt leafKeys_def)

lemma goDag_spec:
  assumes wf: "dag_wf d" and acyc: "acyclic (edges d)"
    and room: "edgeCount d + 2 * length (nodes d) < 2 ^ 64 - 1"
  shows "\<exists>d'. goDag e d = Inr (length (nodes d), d') \<and> gone d e d'"
proof -
  let ?n = "length (nodes d)" and ?d1 = "snd (addNode None d)"
  have d1: "dag_wf ?d1" "nodes ?d1 = nodes d @ [newNode None]" "schedules ?d1 = schedules d"
    using dag_wf_addNode [OF wf] by (auto simp: addNode_def)
  have roots: "set (rootKeys d) \<subseteq> {..<length (nodes ?d1)}" "?n < length (nodes ?d1)"
    "edgeCount ?d1 + length (rootKeys d) < 2 ^ 64 - 1"
    using length_rootKeys [of d] room by (auto simp: rootKeys_def d1(2))
  from dependFrom_spec [OF d1(1) roots(2,1,3)] obtain d2
    where d2: "dependFrom ?n (rootKeys d) ?d1 = Inr d2" "dag_wf d2" "extends ?d1 d2"
      "edgeCount d2 = edgeCount d + length (rootKeys d)"
      "\<forall>k < length (nodes ?d1). nexts (nodes d2 ! k) = nexts (nodes ?d1 ! k) @ (if k = ?n then rootKeys d else [])"
    by auto
  let ?d3 = "snd (addNode e d2)"
  have len2: "length (nodes d2) = ?n + 1" using d2(3) by (simp add: extends_def d1(2))
  have d3: "dag_wf ?d3" "nodes ?d3 = nodes d2 @ [newNode e]" "schedules ?d3 = schedules d2"
    using dag_wf_addNode [OF d2(2)] by (auto simp: addNode_def)
  have leaves: "set (leafKeys d) \<subseteq> {..<length (nodes ?d3)}" "?n + 1 < length (nodes ?d3)"
    "edgeCount ?d3 + length (leafKeys d) < 2 ^ 64 - 1" "distinct (leafKeys d)"
    using length_rootKeys [of d] length_leafKeys [of d] room d2(4)
    by (auto simp: leafKeys_def d3(2) len2)
  from dependTo_spec [OF d3(1) leaves(2,1,3,4)] obtain d4
    where d4: "dependTo (leafKeys d) (?n + 1) ?d3 = Inr d4" "dag_wf d4" "extends ?d3 d4"
      "\<forall>k < length (nodes ?d3). nexts (nodes d4 ! k)
         = nexts (nodes ?d3 ! k) @ (if k \<in> set (leafKeys d) then [?n + 1] else [])"
    by auto
  have "goDag e d = Inr (?n, d4)"
    using hasCycle_spec [OF wf] acyc d2(1) d4(1) len2
    by (simp add: goDag_def Let_def addNode_def)
  moreover have "gone d e d4"
    using d2(3,5) d4(2-4) len2
    by (auto simp: gone_def Let_def extends_def d1(2,3) d3(2,3) nth_append newNode_def leafKeys_def)
  ultimately show ?thesis by blast
qed

lemma gone_succ:
  assumes "gone d e d'"
  shows "k < length (nodes d) \<Longrightarrow> succOf d' k
      = nexts (nodes d ! k) @ (if nexts (nodes d ! k) = [] then [length (nodes d) + 1] else [])"
    and "succOf d' (length (nodes d)) = rootKeys d"
    and "succOf d' (length (nodes d) + 1) = []"
  using assms by (auto simp: gone_def Let_def succOf_def)

lemma gone_acyclic:
  assumes g: "gone d e d'" and wf: "dag_wf d" and acyc: "acyclic (edges d)"
  shows "acyclic {(p, k). p < length (nodes d) + 2 \<and> k \<in> set (succOf d' p)}" (is "acyclic ?R")
proof -
  let ?n = "length (nodes d)"
  have sub: "?R \<subseteq> edges d \<union> ({?n} \<times> {..<?n} \<union> {..<?n} \<times> {?n + 1})"
  proof
    fix x assume "x \<in> ?R"
    then obtain p k where x: "x = (p, k)" and p: "p < ?n + 2" and k: "k \<in> set (succOf d' p)" by auto
    from p consider "p < ?n" | "p = ?n" | "p = ?n + 1" by linarith
    then show "x \<in> edges d \<union> ({?n} \<times> {..<?n} \<union> {..<?n} \<times> {?n + 1})"
    proof cases
      case 1
      with k show ?thesis by (auto simp: gone_succ(1) [OF g] x edges_def split: if_splits)
    next
      case 2
      with k show ?thesis by (auto simp: gone_succ(2) [OF g] x rootKeys_def)
    next
      case 3
      with k show ?thesis using gone_succ(3) [OF g] by simp
    qed
  qed
  let ?f = "\<lambda>k. if k = ?n then 0 else if k = ?n + 1 then 2 else (1::nat)"
  have "wf (edges d)" using finite_edges [OF wf] acyc by (rule finite_acyclic_wf)
  then have "wf (inv_image (less_than <*lex*> edges d) (\<lambda>k. (?f k, k)))"
    by (intro wf_inv_image wf_lex_prod wf_less_than)
  moreover have "?R \<subseteq> inv_image (less_than <*lex*> edges d) (\<lambda>k. (?f k, k))"
  proof
    fix x assume "x \<in> ?R"
    with sub have "x \<in> edges d \<or> x \<in> {?n} \<times> {..<?n} \<or> x \<in> {..<?n} \<times> {?n + 1}" by blast
    moreover have "a < ?n \<and> b < ?n" if "(a, b) \<in> edges d" for a b
      using that dag_wf_edge [OF wf, of a b] by (simp add: edges_def)
    ultimately show "x \<in> inv_image (less_than <*lex*> edges d) (\<lambda>k. (?f k, k))"
      by (cases x) fastforce
  qed
  ultimately have "wf ?R" by (rule wf_subset)
  then show ?thesis by (rule wf_acyclic)
qed

text \<open>A non-empty graph without cycles has a leaf.\<close>

lemma acyclic_has_leaf:
  assumes wf: "dag_wf d" and acyc: "acyclic (edges d)" and ne: "nodes d \<noteq> []"
  obtains p where "p < length (nodes d)" and "nexts (nodes d ! p) = []"
proof (rule ccontr)
  let ?n = "length (nodes d)"
  assume "\<not> thesis"
  with that have leafless: "nexts (nodes d ! p) \<noteq> []" if "p < ?n" for p using that by blast
  have "\<exists>q \<in> {..<?n}. (q, p) \<in> (edges d)\<inverse>" if p: "p \<in> {..<?n}" for p
  proof -
    from p leafless obtain q where "q \<in> set (nexts (nodes d ! p))" by (meson lessThan_iff list.set_sel(1))
    with p dag_wf_edge [OF wf] show ?thesis by (auto simp: edges_def)
  qed
  moreover have "finite ((edges d)\<inverse>)" "acyclic ((edges d)\<inverse>)"
    using finite_edges [OF wf] acyc by simp_all
  moreover have "0 \<in> {..<?n}" using ne by simp
  ultimately show False
    using pred_closed_not_acyclic [of "(edges d)\<inverse>" 0 "{..<?n}"] by blast
qed

lemma has_pred:
  assumes wf: "dag_wf d" and k: "k < length (nodes d)" "hasPrev (nodes d ! k)"
  obtains p where "p < length (nodes d)" and "k \<in> set (nexts (nodes d ! p))"
proof -
  from wf k have "0 < indegree d k" by (simp add: dag_wf_def)
  then have "k \<in> set (concat (map nexts (nodes d)))" by (simp only: indegree_def count_list_pos_iff)
  then show thesis using that by (auto simp: in_set_conv_nth [of _ "nodes d"])
qed

lemma gone_prepared:
  assumes g: "gone d e d'" and wf: "dag_wf d" and acyc: "acyclic (edges d)" and ne: "nodes d \<noteq> []"
  shows "prepared (succOf d') (length (nodes d) + 2) (length (nodes d))"
proof -
  let ?n = "length (nodes d)"
  have "set (succOf d' p) \<subseteq> {..<?n + 2} - {?n}" if "p < ?n + 2" for p
  proof -
    from that consider "p < ?n" | "p = ?n" | "p = ?n + 1" by linarith
    then show ?thesis
      using dag_wf_edge [OF wf] gone_succ [OF g] by cases (fastforce simp: rootKeys_def)+
  qed
  moreover have "\<exists>p < ?n + 2. k \<in> set (succOf d' p)" if k: "k < ?n + 2" "k \<noteq> ?n" for k
  proof -
    from k consider "k = ?n + 1" | "k < ?n" "hasPrev (nodes d ! k)" | "k < ?n" "\<not> hasPrev (nodes d ! k)"
      by linarith
    then show ?thesis
    proof cases
      case 1
      obtain p where p: "p < ?n" "nexts (nodes d ! p) = []" by (rule acyclic_has_leaf [OF wf acyc ne])
      with gone_succ(1) [OF g p(1)] 1 have "k \<in> set (succOf d' p)" by simp
      with p(1) show ?thesis by (metis trans_less_add1)
    next
      case 2
      obtain p where p: "p < ?n" "k \<in> set (nexts (nodes d ! p))" by (rule has_pred [OF wf 2])
      with gone_succ(1) [OF g p(1)] have "k \<in> set (succOf d' p)" by simp
      with p(1) show ?thesis by (metis trans_less_add1)
    next
      case 3
      then have "k \<in> set (succOf d' ?n)" by (simp add: gone_succ(2) [OF g] rootKeys_def)
      then show ?thesis by (metis less_add_same_cancel1 zero_less_numeral)
    qed
  qed
  ultimately show ?thesis
    using gone_acyclic [OF g wf acyc] by (simp add: prepared_def)
qed

lemma count_list_concat_sum:
  "count_list (concat xss) k = (\<Sum>p < length xss. count_list (xss ! p) k)"
proof (induction xss rule: rev_induct)
  case (snoc xs xss)
  have "(\<Sum>p < length xss. count_list ((xss @ [xs]) ! p) k) = (\<Sum>p < length xss. count_list (xss ! p) k)"
    by (rule sum.cong) (simp_all add: nth_append)
  with snoc show ?case by simp
qed simp

lemma indegree_succOf:
  "indegree d k = (\<Sum>p < length (nodes d). count_list (succOf d p) k)"
  unfolding indegree_def count_list_concat_sum by (rule sum.cong) (simp_all add: succOf_def)

lemma startRun_inv:
  assumes wf: "dag_wf d" and prep: "prepared (succOf d) (length (nodes d)) src"
  shows "run_inv (succOf d) (length (nodes d)) src (startRun d src)"
proof -
  let ?n = "length (nodes d)" and ?s = "startRun d src"
  have src: "src < ?n" using prep by (simp add: prepared_def)
  have un: "undone ?n src [] = {..<?n} - {src}" by (auto simp: undone_def)
  have wc: "wc ?s k = count (pend ?s) k + waiting (succOf d) ?n src (trace ?s) k" if "k < ?n" for k
    using wf that src by (simp add: startRun_def dag_wf_def waiting_def un indegree_succOf count_mset
        sum.remove [of "{..<?n}" src])
  have "0 < wc ?s k" if k: "k < ?n" "k \<noteq> src" for k
  proof -
    from prep k obtain p where p: "p < ?n" "k \<in> set (succOf d p)" by (auto simp: prepared_def)
    then have "0 < count_list (succOf d p) k" by (simp only: count_list_pos_iff)
    also have "\<dots> \<le> indegree d k"
      unfolding indegree_succOf by (rule member_le_sum) (use p in auto)
    finally show ?thesis using wf k by (simp add: startRun_def dag_wf_def)
  qed
  moreover have "set_mset (pend ?s) \<subseteq> {..<?n} - {src}"
    using prep src by (simp add: startRun_def prepared_def)
  ultimately show ?thesis
    using wc by (simp add: run_inv_def) (fastforce simp: startRun_def ordered_def)
qed

text \<open>In a prefix of an ordered trace, whatever precedes a finished node has finished.\<close>

lemma ordered_prefix_pred:
  assumes ord: "ordered succ n src (xs @ ys)" and b: "Done b \<in> set xs"
    and a: "a < n" "a \<noteq> src" "b \<in> set (succ a)"
  shows "Done a \<in> set xs"
proof -
  from b obtain us vs where xs: "xs = us @ Done b # vs" by (meson split_list)
  with ord have "Start b \<in> set us" unfolding ordered_def by (metis append_assoc append_Cons)
  then obtain ps qs where us: "us = ps @ Start b # qs" by (meson split_list)
  with ord xs a have "Done a \<in> set ps" unfolding ordered_def by (metis append_assoc append_Cons)
  with us xs show ?thesis by simp
qed

lemma sink_after_all:
  assumes g: "gone d e d'" and wf: "dag_wf d" and acyc: "acyclic (edges d)"
    and ord: "ordered (succOf d') (length (nodes d) + 2) (length (nodes d))
                (xs @ Start (length (nodes d) + 1) # ys)"
    and k: "k < length (nodes d)"
  shows "Done k \<in> set xs"
proof (rule ccontr)
  let ?n = "length (nodes d)"
  let ?S = "{k. k < ?n \<and> Done k \<notin> set xs}"
  assume "Done k \<notin> set xs"
  with k have ne: "k \<in> ?S" by simp
  have "\<exists>b \<in> ?S. (b, a) \<in> (edges d)\<inverse>" if a: "a \<in> ?S" for a
  proof -
    from a have an: "a < ?n" "Done a \<notin> set xs" by auto
    have "nexts (nodes d ! a) \<noteq> []"
    proof
      assume "nexts (nodes d ! a) = []"
      with an gone_succ(1) [OF g an(1)] have "?n + 1 \<in> set (succOf d' a)" by simp
      with ord an have "Done a \<in> set xs" unfolding ordered_def by (metis nat_neq_iff trans_less_add1)
      with an show False by simp
    qed
    then obtain b where b: "b \<in> set (nexts (nodes d ! a))" by (metis list.set_sel(1))
    with gone_succ(1) [OF g an(1)] have "b \<in> set (succOf d' a)" by simp
    with ordered_prefix_pred [OF ord, of b a] an have "Done b \<notin> set xs" by fastforce
    with b an dag_wf_edge [OF wf an(1) b] show ?thesis by (auto simp: edges_def)
  qed
  with ne have "\<not> acyclic ((edges d)\<inverse>)"
    using finite_edges [OF wf] by (intro pred_closed_not_acyclic [of _ k ?S]) simp_all
  with acyc show False by simp
qed

section \<open>Running in one thread\<close>

text \<open>
  \<^verbatim>\<open>DAG::schedule\<close> counts the successors of a node down in order and executes
  each one whose count reaches zero before it goes on; \<^verbatim>\<open>DAG::execute\<close> runs the
  executor and then its bound \<^verbatim>\<open>schedule\<close> calls. The log lists the executors in
  the order they run. \<open>fuel\<close> bounds the depth of the recursion.
\<close>

type_synonym 'e exec_state = "'e dag \<times> 'e list"

function scheduleKeys :: "nat \<Rightarrow> nat list \<Rightarrow> 'e exec_state \<Rightarrow> 'e exec_state result"
  and executeDag :: "nat \<Rightarrow> 'e option \<Rightarrow> 'e exec_state \<Rightarrow> 'e exec_state result"
  and runSchedules :: "nat \<Rightarrow> nat list \<Rightarrow> 'e exec_state \<Rightarrow> 'e exec_state result" where
  "scheduleKeys fuel [] s = Inr s"
| "scheduleKeys fuel (key # ks) s =
     (if key < length (nodes (fst s))
      then
        let n = nodes (fst s) ! key;
            w = size_dec (waitCount n);
            s1 = (updNode key (\<lambda>n. n\<lparr>waitCount := w\<rparr>) (fst s), snd s)
        in if w = 0
           then (case fuel of
                   0 \<Rightarrow> Inl Diverges
                 | Suc f \<Rightarrow>
                     (case executeDag f (executor n) s1 of
                        Inl e \<Rightarrow> Inl e
                      | Inr s2 \<Rightarrow> scheduleKeys fuel ks s2))
           else scheduleKeys fuel ks s1
      else Inl Undefined)"
| "executeDag fuel None s = Inl Null_Deref"
| "executeDag fuel (Some e) s = runSchedules fuel (schedules (fst s) e) (fst s, snd s @ [e])"
| "runSchedules fuel [] s = Inr s"
| "runSchedules fuel (i # is) s =
     (if i < length (nodes (fst s))
      then (case scheduleKeys fuel (nexts (nodes (fst s) ! i)) s of
              Inl e \<Rightarrow> Inl e
            | Inr s1 \<Rightarrow> runSchedules fuel is s1)
      else Inl Undefined)"
  by pat_completeness auto
termination
  by (relation "measures [
        \<lambda>x. case x of Inl (f, _, _) \<Rightarrow> f | Inr (Inl (f, _, _)) \<Rightarrow> f | Inr (Inr (f, _, _)) \<Rightarrow> f,
        \<lambda>x. case x of Inl _ \<Rightarrow> 0 | Inr (Inl _) \<Rightarrow> 2 | Inr (Inr _) \<Rightarrow> 1,
        \<lambda>x. case x of Inl (_, ks, _) \<Rightarrow> length ks | Inr (Inl _) \<Rightarrow> 0 | Inr (Inr (_, is, _)) \<Rightarrow> length is]")
     auto

definition scheduleDag :: "nat \<Rightarrow> nat \<Rightarrow> 'e exec_state \<Rightarrow> 'e exec_state result" where
  "scheduleDag fuel i s =
     guard (i < length (nodes (fst s))) Undefined
       (scheduleKeys fuel (nexts (nodes (fst s) ! i)) s)"

text \<open>The parts of a graph that a run does not change.\<close>

definition static :: "'e dag \<Rightarrow> ('e option \<times> nat list) list \<times> ('e \<Rightarrow> nat list)" where
  "static d = (map (\<lambda>n. (executor n, nexts n)) (nodes d), schedules d)"

lemma static_updNode_wait [simp]: "static (updNode k (\<lambda>n. n\<lparr>waitCount := w\<rparr>) d) = static d"
proof -
  have "(map (\<lambda>n. (executor n, nexts n)) (nodes d))[k := (executor (nodes d ! k), nexts (nodes d ! k))]
      = map (\<lambda>n. (executor n, nexts n)) (nodes d)"
    by (cases "k < length (nodes d)") (simp_all add: list_update_same_conv list_update_beyond)
  then show ?thesis by (simp add: static_def updNode_def map_update)
qed

lemma static_nodes:
  assumes "static d = static d0"
  shows "length (nodes d) = length (nodes d0)" and "schedules d = schedules d0"
    and "k < length (nodes d0) \<Longrightarrow> executor (nodes d ! k) = executor (nodes d0 ! k)"
    and "k < length (nodes d0) \<Longrightarrow> nexts (nodes d ! k) = nexts (nodes d0 ! k)"
    and "succOf d = succOf d0"
proof -
  let ?f = "\<lambda>n. (executor n, nexts n)"
  from assms have m: "map ?f (nodes d) = map ?f (nodes d0)" by (simp add: static_def)
  from assms show "schedules d = schedules d0" by (simp add: static_def)
  from m show l: "length (nodes d) = length (nodes d0)" by (rule map_eq_imp_length_eq)
  have nth: "?f (nodes d ! k) = ?f (nodes d0 ! k)" if "k < length (nodes d0)" for k
    using arg_cong [OF m, of "\<lambda>xs. xs ! k"] that l by simp
  show "k < length (nodes d0) \<Longrightarrow> executor (nodes d ! k) = executor (nodes d0 ! k)"
    "k < length (nodes d0) \<Longrightarrow> nexts (nodes d ! k) = nexts (nodes d0 ! k)"
    using nth [of k] by simp_all
  show "succOf d = succOf d0"
  proof
    fix j show "succOf d j = succOf d0 j" using nth [of j] l by (simp add: succOf_def)
  qed
qed

definition runState :: "'e dag \<Rightarrow> nat multiset \<Rightarrow> task_event list \<Rightarrow> task_run" where
  "runState d P tr = \<lparr>wc = (\<lambda>k. waitCount (nodes d ! k)), pend = P, ready = {#}, running = {#}, trace = tr\<rparr>"

definition execOf :: "'e dag \<Rightarrow> nat \<Rightarrow> 'e" where
  "execOf d k = the (executor (nodes d ! k))"

abbreviation runEvents :: "nat list \<Rightarrow> task_event list" where
  "runEvents order \<equiv> concat (map (\<lambda>k. [Start k, Done k]) order)"

lemma wc_updNode:
  "k < length (nodes d) \<Longrightarrow>
   (\<lambda>j. waitCount (nodes (updNode k (\<lambda>n. n\<lparr>waitCount := w\<rparr>) d) ! j))
   = (\<lambda>j. waitCount (nodes d ! j))(k := w)"
  by (auto simp: updNode_def fun_eq_iff nth_list_update)

lemma step_deliver:
  assumes "k < length (nodes d)" and "w = size_dec (waitCount (nodes d ! k))" and "w \<noteq> 0"
  shows "task_step d0 (runState d (add_mset k P) tr)
           (runState (updNode k (\<lambda>n. n\<lparr>waitCount := w\<rparr>) d) P tr)"
proof -
  have "k \<in># pend (runState d (add_mset k P) tr)" by (simp add: runState_def)
  from task_step.deliver [OF this refl, of d0] assms show ?thesis
    by (simp add: runState_def wc_updNode)
qed

lemma steps_execute:
  assumes "k < length (nodes d)" and "size_dec (waitCount (nodes d ! k)) = 0"
    and own: "firesOwn d0 k" "k < length (nodes d0)"
  shows "(task_step d0)\<^sup>*\<^sup>* (runState d (add_mset k P) tr)
           (runState (updNode k (\<lambda>n. n\<lparr>waitCount := 0\<rparr>) d) (P + mset (succOf d0 k)) (tr @ [Start k, Done k]))"
proof -
  let ?d = "updNode k (\<lambda>n. n\<lparr>waitCount := 0\<rparr>) d"
  let ?s0 = "runState d (add_mset k P) tr"
  let ?s1 = "(runState ?d P tr)\<lparr>ready := {#k#}\<rparr>"
  let ?s2 = "(runState ?d P (tr @ [Start k]))\<lparr>running := {#k#}\<rparr>"
  let ?s3 = "runState ?d (P + mset (succOf d0 k)) (tr @ [Start k, Done k])"
  note F = firesOwn_fires [OF own]
  have "k \<in># pend ?s0" by (simp add: runState_def)
  from task_step.deliver [OF this refl, of d0] assms have "task_step d0 ?s0 ?s1"
    by (simp add: runState_def wc_updNode)
  moreover have "k \<in># ready ?s1" by (simp add: runState_def)
  from task_step.start [OF this F(2)] have "task_step d0 ?s1 ?s2" by (simp add: runState_def)
  moreover have "k \<in># running ?s2" by (simp add: runState_def)
  from task_step.finish [OF this, of d0] have "task_step d0 ?s2 ?s3" by (simp add: runState_def F(1))
  ultimately show ?thesis by (meson converse_rtranclp_into_rtranclp rtranclp.rtrancl_refl)
qed

lemma undone_runEvents_subset: "undone n src (tr @ tr') \<subseteq> undone n src tr"
  by (auto simp: undone_def)

text \<open>Executing a node that fires its own edges is logging it and scheduling them.\<close>

lemma executeDag_own:
  assumes "firesOwn d0 k" and st: "static d = static d0" and k: "k < length (nodes d0)"
    and run: "scheduleKeys f (succOf d0 k) (d, log @ [execOf d0 k]) = Inr r"
  shows "executeDag f (executor (nodes d ! k)) (d, log) = Inr r"
proof -
  from assms(1) obtain e where e: "executor (nodes d0 ! k) = Some e" "execOf d0 k = e"
    "schedules d0 e = [k] \<or> schedules d0 e = [] \<and> nexts (nodes d0 ! k) = []"
    by (auto simp: firesOwn_def execOf_def)
  note S = static_nodes [OF st]
  from run k e(2) S(4) [OF k] have "scheduleKeys f (nexts (nodes d ! k)) (d, log @ [e]) = Inr r"
    by (simp add: succOf_def)
  with e(3) k S(1,2) S(4) [OF k] show ?thesis by (auto simp: S(3) [OF k] e(1))
qed

text \<open>
  One sequential run of a scheduling loop, with what it leaves behind: \<open>simulates\<close>
  says that the loop returns, logging the executors of \<open>order\<close>, and that the
  concurrent system can run the same nodes in that order.
\<close>

definition simulates ::
  "'e dag \<Rightarrow> nat \<Rightarrow> nat list \<Rightarrow> nat multiset \<Rightarrow> 'e dag \<Rightarrow> 'e list \<Rightarrow> task_event list \<Rightarrow>
   'e dag \<Rightarrow> nat list \<Rightarrow> bool" where
  "simulates d0 fuel ks P d log tr d' order \<longleftrightarrow>
     scheduleKeys fuel ks (d, log) = Inr (d', log @ map (execOf d0) order) \<and>
     static d' = static d0 \<and>
     (task_step d0)\<^sup>*\<^sup>* (runState d (mset ks + P) tr) (runState d' P (tr @ runEvents order))"

lemma simulates_Nil: "static d = static d0 \<Longrightarrow> simulates d0 fuel [] P d log tr d []"
  by (simp add: simulates_def)

lemma simulates_skip:
  assumes k: "k < length (nodes d)" and w: "w = size_dec (waitCount (nodes d ! k))" "w \<noteq> 0"
    and sim: "simulates d0 fuel ks P (updNode k (\<lambda>n. n\<lparr>waitCount := w\<rparr>) d) log tr d' order"
  shows "simulates d0 fuel (k # ks) P d log tr d' order"
proof -
  from step_deliver [OF k w, of d0 "mset ks + P" tr]
  have "task_step d0 (runState d (mset (k # ks) + P) tr)
      (runState (updNode k (\<lambda>n. n\<lparr>waitCount := w\<rparr>) d) (mset ks + P) tr)" by simp
  moreover have "(task_step d0)\<^sup>*\<^sup>*
      (runState (updNode k (\<lambda>n. n\<lparr>waitCount := w\<rparr>) d) (mset ks + P) tr)
      (runState d' P (tr @ runEvents order))"
    using sim by (simp add: simulates_def)
  ultimately have "(task_step d0)\<^sup>*\<^sup>* (runState d (mset (k # ks) + P) tr)
      (runState d' P (tr @ runEvents order))" by (rule converse_rtranclp_into_rtranclp)
  with sim k w show ?thesis by (simp add: simulates_def Let_def)
qed

lemma simulates_execute:
  assumes k: "k < length (nodes d0)" "firesOwn d0 k" and st: "static d = static d0"
    and w: "size_dec (waitCount (nodes d ! k)) = 0"
    and sim: "simulates d0 f (succOf d0 k) (mset ks + P) (updNode k (\<lambda>n. n\<lparr>waitCount := 0\<rparr>) d)
        (log @ [execOf d0 k]) (tr @ [Start k, Done k]) d2 order2"
    and sim': "simulates d0 (Suc f) ks P d2 (log @ map (execOf d0) (k # order2))
        (tr @ runEvents (k # order2)) d3 order3"
  shows "simulates d0 (Suc f) (k # ks) P d log tr d3 (k # order2 @ order3)"
proof -
  let ?d1 = "updNode k (\<lambda>n. n\<lparr>waitCount := 0\<rparr>) d"
  have kd: "k < length (nodes d)" using static_nodes(1) [OF st] k by simp
  have st1: "static ?d1 = static d0" using st by simp
  have "scheduleKeys f (succOf d0 k) (?d1, log @ [execOf d0 k])
      = Inr (d2, log @ map (execOf d0) (k # order2))"
    using sim by (simp add: simulates_def)
  from executeDag_own [OF k(2) st1 k(1) this]
  have exec: "executeDag f (executor (nodes d ! k)) (?d1, log) = Inr (d2, log @ map (execOf d0) (k # order2))"
    using kd by (simp add: updNode_def)
  have "(task_step d0)\<^sup>*\<^sup>* (runState d (mset (k # ks) + P) tr)
      (runState ?d1 (mset (succOf d0 k) + (mset ks + P)) (tr @ [Start k, Done k]))"
    using steps_execute [OF kd w k(2,1), of "mset ks + P" tr] by (simp add: ac_simps)
  also have "(task_step d0)\<^sup>*\<^sup>* \<dots> (runState d2 (mset ks + P) (tr @ runEvents (k # order2)))"
    using sim by (simp add: simulates_def)
  also have "(task_step d0)\<^sup>*\<^sup>* \<dots> (runState d3 P (tr @ runEvents (k # order2 @ order3)))"
    using sim' by (simp add: simulates_def)
  finally show ?thesis using exec sim' kd w by (simp add: simulates_def Let_def)
qed

lemma undone_of_pend:
  assumes "run_inv succ n src (runState d P tr)" and "k \<in># P"
  shows "k < n" "k \<noteq> src" "k \<in> undone n src tr"
  using in_pend [OF assms(1), of k] assms(2) by (simp_all add: runState_def undone_def count_list_0_iff)

lemma scheduleKeys_simulates:
  assumes run: "runnable d0 src"
    and st: "static d = static d0"
    and inv: "run_inv (succOf d0) (length (nodes d0)) src (runState d (mset ks + P) tr)"
    and fuel: "card (undone (length (nodes d0)) src tr) \<le> fuel"
  shows "\<exists>d' order. simulates d0 fuel ks P d log tr d' order"
  using st inv fuel
proof (induction fuel arbitrary: ks d log tr P)
  case (0 ks d log tr P)
  then have "ks = []"
    using undone_of_pend(3) [OF 0(2), of "hd ks"] by (cases ks) auto
  with simulates_Nil [OF 0(1)] show ?case by blast
next
  case (Suc f ks d log tr P)
  note outer = Suc.IH
  from Suc.prems show ?case
  proof (induction ks arbitrary: d log tr)
    case Nil
    with simulates_Nil show ?case by blast
  next
    case (Cons k ks d log tr)
    let ?N = "length (nodes d0)" and ?succ = "succOf d0"
    let ?w = "size_dec (waitCount (nodes d ! k))"
    let ?d1 = "updNode k (\<lambda>n. n\<lparr>waitCount := ?w\<rparr>) d"
    note K = undone_of_pend [OF Cons.prems(2), of k, simplified]
    have kd: "k < length (nodes d)" using K(1) static_nodes(1) [OF Cons.prems(1)] by simp
    have own: "firesOwn d0 k" using run K(1,2) by (simp add: runnable_def)
    have st1: "static ?d1 = static d0" using Cons.prems(1) by simp
    show ?case
    proof (cases "?w = 0")
      case False
      from step_deliver [OF kd refl False, of d0 "mset ks + P" tr]
      have "task_step d0 (runState d (mset (k # ks) + P) tr) (runState ?d1 (mset ks + P) tr)"
        by simp
      from Cons.IH [OF st1 run_inv_step [OF run this Cons.prems(2)] Cons.prems(3)]
      show ?thesis using simulates_skip [OF kd refl False] by blast
    next
      case True
      let ?tr1 = "tr @ [Start k, Done k]"
      have "(task_step d0)\<^sup>*\<^sup>* (runState d (mset (k # ks) + P) tr)
          (runState ?d1 (mset (?succ k) + (mset ks + P)) ?tr1)"
        using steps_execute [OF kd True own K(1), of "mset ks + P" tr] True by (simp add: ac_simps)
      note inv1 = run_inv_steps [OF run this Cons.prems(2)]
      have "undone ?N src ?tr1 = undone ?N src tr - {k}" by (auto simp: undone_def)
      with K(3) Cons.prems(3) have card1: "card (undone ?N src ?tr1) \<le> f" by simp
      from outer [OF st1 inv1 card1, of "log @ [execOf d0 k]"] obtain d2 order2
        where sim: "simulates d0 f (?succ k) (mset ks + P) ?d1 (log @ [execOf d0 k]) ?tr1 d2 order2"
        by blast
      then have st2: "static d2 = static d0" and "(task_step d0)\<^sup>*\<^sup>*
            (runState ?d1 (mset (?succ k) + (mset ks + P)) ?tr1)
            (runState d2 (mset ks + P) (tr @ runEvents (k # order2)))"
        by (simp_all add: simulates_def)
      note inv2 = run_inv_steps [OF run this(2) inv1]
      have "undone ?N src (tr @ runEvents (k # order2)) \<subseteq> undone ?N src ?tr1"
        by (auto simp: undone_def)
      with card1 have "card (undone ?N src (tr @ runEvents (k # order2))) \<le> Suc f"
        by (meson card_mono finite_undone le_SucI le_trans)
      from Cons.IH [OF st2 inv2 this] obtain d3 order3
        where "simulates d0 (Suc f) ks P d2 (log @ map (execOf d0) (k # order2))
          (tr @ runEvents (k # order2)) d3 order3" by blast
      from simulates_execute [OF K(1) own Cons.prems(1) True _ this] sim True
      show ?thesis by auto
    qed
  qed
qed

section \<open>Building and running a graph\<close>

fun addAll :: "'e list \<Rightarrow> 'e dag \<Rightarrow> 'e dag" where
  "addAll [] d = d"
| "addAll (e # es) d = addAll es (snd (addExecutor e d))"

fun dependAll :: "(nat \<times> nat) list \<Rightarrow> 'e dag \<Rightarrow> 'e dag result" where
  "dependAll [] d = Inr d"
| "dependAll ((a, b) # ps) d = res_bind (dependency a b d) (dependAll ps)"

text \<open>A client of \<^verbatim>\<open>DAG\<close>: it adds executors, declares dependencies between them, and runs.\<close>

definition buildDag :: "'e list \<Rightarrow> (nat \<times> nat) list \<Rightarrow> 'e dag result" where
  "buildDag es deps = dependAll deps (addAll es emptyDag)"

definition runDag :: "nat \<Rightarrow> 'e list \<Rightarrow> (nat \<times> nat) list \<Rightarrow> 'e \<Rightarrow> 'e list result" where
  "runDag fuel es deps sink =
     res_bind (buildDag es deps) (\<lambda>d.
     res_bind (goDag (Some sink) d) (\<lambda>(src, d').
     res_bind (scheduleDag fuel src (d', [])) (\<lambda>(d'', log). Inr log)))"

lemmas dag_exec = runDag_def buildDag_def emptyDag_def newNode_def addNode_def addExecutor_def updNode_def
  dependency_def rootKeys_def leafKeys_def hasCycle_def goDag_def scheduleDag_def guard_def
  size_inc_def size_dec_def Let_def

lemma addAll_nodes: "nodes (addAll es d) = nodes d @ map (\<lambda>e. newNode (Some e)) es"
  by (induction es arbitrary: d) (simp_all add: addExecutor_def addNode_def)

lemma dag_wf_addExecutor: "dag_wf d \<Longrightarrow> dag_wf (snd (addExecutor e d))"
proof -
  assume "dag_wf d"
  then have "dag_wf (d\<lparr>schedules := s\<rparr>)" for s by (simp add: dag_wf_def indegree_def)
  then show ?thesis unfolding addExecutor_def by (rule dag_wf_addNode)
qed

lemma addAll_wf: "dag_wf d \<Longrightarrow> dag_wf (addAll es d)"
  by (induction es arbitrary: d) (simp_all add: dag_wf_addExecutor)

lemma addAll_schedules:
  "distinct es \<Longrightarrow>
   schedules (addAll es d) e = schedules d e @
     (if e \<in> set es then [length (nodes d) + length (takeWhile (\<lambda>x. x \<noteq> e) es)] else [])"
  by (induction es arbitrary: d) (auto simp: addExecutor_def addNode_def)

lemma length_takeWhile_distinct:
  "distinct es \<Longrightarrow> k < length es \<Longrightarrow> length (takeWhile (\<lambda>x. x \<noteq> es ! k) es) = k"
proof (induction es arbitrary: k)
  case (Cons e es)
  then show ?case by (cases k) auto
qed simp

lemma dependAll_spec:
  assumes "dag_wf d" and "set ps \<subseteq> {..<length (nodes d)} \<times> {..<length (nodes d)}"
    and "edgeCount d + length ps < 2 ^ 64 - 1"
  shows "\<exists>d'. dependAll ps d = Inr d' \<and> dag_wf d' \<and> extends d d' \<and>
     edgeCount d' = edgeCount d + length ps \<and>
     (\<forall>k < length (nodes d). nexts (nodes d' ! k) = nexts (nodes d ! k) @ map snd (filter (\<lambda>p. fst p = k) ps))"
  using assms
proof (induction ps arbitrary: d)
  case (Cons p ps)
  obtain a b where p: "p = (a, b)" by (cases p)
  have ab: "a < length (nodes d)" "b < length (nodes d)" "edgeCount d + 1 < 2 ^ 64 - 1"
    using Cons.prems(2,3) p by auto
  obtain d1 where d1: "dependency a b d = Inr d1" "dag_wf d1" "extends d d1"
      "edgeCount d1 = edgeCount d + 1"
      "\<forall>k < length (nodes d). nexts (nodes d1 ! k) = nexts (nodes d ! k) @ (if k = a then [b] else [])"
    by (rule dependency_total [OF Cons.prems(1) ab])
  have len: "length (nodes d1) = length (nodes d)" using d1(3) by (simp add: extends_def)
  from Cons.IH [OF d1(2)] Cons.prems(2,3) len d1(4) obtain d'
    where "dependAll ps d1 = Inr d'" "dag_wf d'" "extends d1 d'"
      "edgeCount d' = edgeCount d1 + length ps"
      "\<forall>k < length (nodes d1). nexts (nodes d' ! k) = nexts (nodes d1 ! k) @ map snd (filter (\<lambda>p. fst p = k) ps)"
    by auto
  with d1 len extends_trans [OF d1(3)] p show ?case by auto
qed simp

text \<open>What a client builds: the given executors and exactly the declared edges.\<close>

lemma buildDag_spec:
  assumes "set deps \<subseteq> {..<length es} \<times> {..<length es}" and "length deps < 2 ^ 64 - 1"
    and "distinct es"
  obtains d where "buildDag es deps = Inr d" and "dag_wf d" and "length (nodes d) = length es"
    and "edgeCount d = length deps" and "edges d = set deps"
    and "\<forall>k < length es. executor (nodes d ! k) = Some (es ! k) \<and> schedules d (es ! k) = [k]"
    and "\<forall>e. e \<notin> set es \<longrightarrow> schedules d e = []"
proof -
  let ?d0 = "addAll es emptyDag"
  have n0: "nodes ?d0 = map (\<lambda>e. newNode (Some e)) es" by (simp add: addAll_nodes emptyDag_def)
  have ec0: "edgeCount ?d0 = 0" by (simp add: edgeCount_def n0 newNode_def)
  have sch: "schedules ?d0 (es ! k) = [k]" if "k < length es" for k
    using that addAll_schedules [OF assms(3), of emptyDag "es ! k"] assms(3)
    by (simp add: emptyDag_def length_takeWhile_distinct)
  have out: "schedules ?d0 e = []" if "e \<notin> set es" for e
    using that addAll_schedules [OF assms(3), of emptyDag e] by (simp add: emptyDag_def)
  from dependAll_spec [OF addAll_wf [OF dag_wf_empty], of deps es] assms ec0 n0 obtain d
    where d: "dependAll deps ?d0 = Inr d" "dag_wf d" "extends ?d0 d" "edgeCount d = length deps"
      "\<forall>k < length es. nexts (nodes d ! k) = nexts (nodes ?d0 ! k) @ map snd (filter (\<lambda>p. fst p = k) deps)"
    by auto
  have len: "length (nodes d) = length es" using d(3) n0 by (simp add: extends_def)
  have "nexts (nodes d ! k) = map snd (filter (\<lambda>p. fst p = k) deps)" if "k < length es" for k
    using d(5) that by (simp add: n0 newNode_def)
  then have "edges d = set deps" using assms(1) len by (force simp: edges_def)
  with d len sch out n0 show thesis
    by (intro that [of d]) (simp_all add: buildDag_def extends_def newNode_def)
qed


section \<open>What a run does\<close>

lemma runState_start: "runState d (mset (succOf d src)) [] = startRun d src"
  by (simp add: runState_def startRun_def)

lemma runState_stuck: "\<not> task_step d0 (runState d {#} tr) t"
  by (auto simp: runState_def elim: task_step.cases)

lemma count_runEvents: "count_list (runEvents order) (Start k) = count_list order k"
  by (induction order) auto

lemma Start_runEvents: "Start k \<in> set (runEvents order) \<longleftrightarrow> k \<in> set order"
  by (induction order) auto

lemma Done_runEvents: "Done k \<in> set (runEvents order) \<longleftrightarrow> k \<in> set order"
  by (induction order) auto

lemma runEvents_split:
  "order = us @ k # vs \<Longrightarrow> runEvents order = runEvents us @ Start k # Done k # runEvents vs"
  by simp

text \<open>A sequential run from the source visits every other node once, in dependency order.\<close>

lemma scheduleDag_order:
  assumes wf: "dag_wf d" and rb: "runnable d src"
    and fuel: "length (nodes d) - 1 \<le> fuel"
  obtains d' order where "scheduleDag fuel src (d, []) = Inr (d', map (execOf d) order)"
    and "distinct order" and "set order = {..<length (nodes d)} - {src}"
    and "ordered (succOf d) (length (nodes d)) src (runEvents order)"
    and "(task_step d)\<^sup>*\<^sup>* (startRun d src) (runState d' {#} (runEvents order))"
proof -
  let ?n = "length (nodes d)"
  note prep = runnableD(1) [OF rb] and src = runnableD(2) [OF rb]
  have "undone ?n src [] = {..<?n} - {src}" by (auto simp: undone_def)
  with src fuel have card: "card (undone ?n src []) \<le> fuel" by simp
  have inv: "run_inv (succOf d) ?n src (runState d (mset (succOf d src) + {#}) [])"
    using startRun_inv [OF wf prep] by (simp add: runState_start)
  from scheduleKeys_simulates [OF rb refl inv card, of "[]"] obtain d' order
    where "simulates d fuel (succOf d src) {#} d [] [] d' order" by blast
  then have run: "scheduleKeys fuel (succOf d src) (d, []) = Inr (d', map (execOf d) order)"
    and steps: "(task_step d)\<^sup>*\<^sup>* (runState d (mset (succOf d src) + {#}) [])
        (runState d' {#} (runEvents order))"
    by (simp_all add: simulates_def)
  note inv' = run_inv_steps [OF rb steps inv]
  have tr: "trace (runState d' {#} (runEvents order)) = runEvents order" by (simp add: runState_def)
  have once: "count_list order k = 1" if "k < ?n" "k \<noteq> src" for k
    using stuck_all_done [OF rb inv' runState_stuck that] unfolding tr count_runEvents by simp
  have rng: "k < ?n \<and> k \<noteq> src" if "k \<in> set order" for k
    using run_invD(7) [OF inv', of k, unfolded tr Start_runEvents] that by blast
  have mem: "k \<in> set order" if "k < ?n" "k \<noteq> src" for k
    using once [OF that] by (simp flip: count_list_pos_iff)
  have set: "set order = {..<?n} - {src}"
    by (rule set_eqI) (use mem rng in blast)
  have "count (mset order) k = (if k \<in> set order then 1 else 0)" for k
    using once [of k] rng [of k] by (simp add: count_mset count_list_0_iff)
  then have "distinct order" unfolding distinct_count_atmost_1 by blast
  moreover note set
  moreover have "ordered (succOf d) ?n src (runEvents order)" using run_invD(8) [OF inv'] tr by simp
  moreover have "(task_step d)\<^sup>*\<^sup>* (startRun d src) (runState d' {#} (runEvents order))"
    using steps by (simp add: runState_start)
  moreover have "scheduleDag fuel src (d, []) = Inr (d', map (execOf d) order)"
    using run src by (simp add: scheduleDag_def succOf_def)
  ultimately show thesis using that by blast
qed

lemma ordered_runEvents:
  assumes "ordered succ n src (runEvents (us @ b # vs))" and "a < n" "a \<noteq> src" "b \<in> set (succ a)"
  shows "a \<in> set us"
proof -
  have "Done a \<in> set (runEvents us)"
    using assms unfolding ordered_def runEvents_split [OF refl] by blast
  then show ?thesis by (simp only: Done_runEvents)
qed


definition before :: "'a list \<Rightarrow> 'a \<Rightarrow> 'a \<Rightarrow> bool" where
  "before xs x y \<longleftrightarrow> x \<in> set (takeWhile (\<lambda>z. z \<noteq> y) xs)"

lemma before_split: "xs = us @ y # vs \<Longrightarrow> y \<notin> set us \<Longrightarrow> before xs x y \<longleftrightarrow> x \<in> set us"
proof -
  assume "y \<notin> set us"
  then have "takeWhile (\<lambda>z. z \<noteq> y) (us @ y # vs) = us"
    by (subst takeWhile_append2) auto
  then show "xs = us @ y # vs \<Longrightarrow> ?thesis" by (simp add: before_def)
qed

lemma before_map:
  assumes "inj_on f (set xs)" and "y \<in> set xs" and "distinct xs" and "before xs x y"
  shows "before (map f xs) (f x) (f y)"
proof -
  from assms(2) obtain us vs where xs: "xs = us @ y # vs" by (meson split_list)
  with assms(3,4) have "x \<in> set us" by (simp add: before_split)
  moreover have "f y \<notin> f ` set us"
  proof
    assume "f y \<in> f ` set us"
    then obtain z where "z \<in> set us" "f y = f z" by auto
    with assms(1,3) xs show False by (auto simp: inj_on_def)
  qed
  ultimately show ?thesis by (subst before_split [of _ "map f us" _ "map f vs"]) (auto simp: xs)
qed

text \<open>Every node has an executor, which was added as this node only.\<close>

definition ownExecutors :: "'e dag \<Rightarrow> bool" where
  "ownExecutors d \<longleftrightarrow> (\<forall>k < length (nodes d). \<exists>e. executor (nodes d ! k) = Some e \<and> schedules d e = [k])"

lemma gone_runnable:
  assumes g: "gone d (Some sink) d'" and wf: "dag_wf d" and acyc: "acyclic (edges d)" and ne: "nodes d \<noteq> []"
    and own: "ownExecutors d" and sink: "schedules d sink = []"
  shows "runnable d' (length (nodes d))"
proof -
  from g have n: "length (nodes d') = length (nodes d) + 2" by (simp add: gone_def Let_def)
  have "firesOwn d' k" if k: "k < length (nodes d')" "k \<noteq> length (nodes d)" for k
  proof -
    from k n consider "k < length (nodes d)" | "k = length (nodes d) + 1" by linarith
    then show ?thesis
      using g own sink by cases (auto simp: gone_def Let_def firesOwn_def ownExecutors_def)
  qed
  with gone_prepared [OF g wf acyc ne] n show ?thesis by (simp add: runnable_def)
qed

text \<open>The last node of an ordered run is the sink.\<close>

lemma order_sink_last:
  assumes g: "gone d e d'" and wf: "dag_wf d" and acyc: "acyclic (edges d)"
    and ord: "ordered (succOf d') (length (nodes d) + 2) (length (nodes d)) (runEvents order)"
    and dist: "distinct order" and set: "set order = {..<length (nodes d) + 2} - {length (nodes d)}"
  shows "last order = length (nodes d) + 1"
proof -
  let ?n = "length (nodes d)"
  have "?n + 1 \<in> set order" unfolding set by simp
  then obtain us vs where order: "order = us @ (?n + 1) # vs" by (meson split_list)
  have all: "k \<in> set us" if "k < ?n" for k
    using sink_after_all [OF g wf acyc _ that, of "runEvents us"] ord
    unfolding runEvents_split [OF order] Done_runEvents by blast
  have "vs = []"
  proof (cases vs)
    case (Cons v ws)
    then have "v \<in> set order" unfolding order by simp
    then have "v < ?n + 2" "v \<noteq> ?n" unfolding set by auto
    with dist all [of v] show ?thesis unfolding order Cons by (cases "v < ?n") auto
  qed simp
  then show ?thesis by (simp add: order)
qed


lemma gone_execOf:
  assumes g: "gone d (Some sink) d'"
    and own: "\<forall>k < length (nodes d). executor (nodes d ! k) = Some (es ! k) \<and> schedules d (es ! k) = [k]"
  shows "k < length (nodes d) \<Longrightarrow> execOf d' k = es ! k"
    and "execOf d' (Suc (length (nodes d))) = sink"
  using g own by (auto simp: gone_def Let_def execOf_def)

text \<open>
  The executors of an order that visits nodes \<open>0..<n\<close> and the sink \<open>n + 1\<close> once each.
\<close>

lemma mset_execs:
  assumes "distinct order" and "set order = {..<n + 2} - {n}" and "n = length es"
    and "\<forall>k < n. f k = es ! k" and "f (Suc n) = sink"
  shows "mset (map f order) = mset (es @ [sink])"
proof -
  have d: "distinct ([0..<n] @ [Suc n])" by simp
  have s: "set order = set ([0..<n] @ [Suc n])" unfolding assms(2) by auto
  have "mset order = mset ([0..<n] @ [Suc n])"
    by (rule set_eq_iff_mset_eq_distinct [OF assms(1) d, THEN iffD1, OF s])
  then have "mset (map f order) = mset (map f ([0..<n] @ [Suc n]))" by (simp only: mset_map)
  also have "map f [0..<n] = es"
    by (rule nth_equalityI) (use assms(3,4) in simp_all)
  then have "map f ([0..<n] @ [Suc n]) = es @ [sink]" using assms(5) by simp
  finally show ?thesis .
qed

lemma order_before:
  assumes ord: "ordered succ n src (runEvents order)" and dist: "distinct order"
    and "b \<in> set order" and a: "a < n" "a \<noteq> src" "b \<in> set (succ a)"
  shows "before order a b"
proof -
  from assms(3) obtain us vs where order: "order = us @ b # vs" by (meson split_list)
  with dist have "b \<notin> set us" by simp
  from before_split [OF order this] ordered_runEvents [OF ord [unfolded order] a]
  show ?thesis by blast
qed

text \<open>A client's graph after \<^verbatim>\<open>go\<close>, ready to run.\<close>

lemma client_ready:
  assumes dist: "distinct es" "sink \<notin> set es" and ne: "es \<noteq> []"
    and rng: "set deps \<subseteq> {..<length es} \<times> {..<length es}" and acyc: "acyclic (set deps)"
    and room: "length deps + 2 * length es < 2 ^ 64 - 1"
  obtains d d' where "buildDag es deps = Inr d" and "goDag (Some sink) d = Inr (length es, d')"
    and "gone d (Some sink) d'" and "dag_wf d" and "acyclic (edges d)" and "edges d = set deps"
    and "length (nodes d) = length es" and "length (nodes d') = length es + 2" and "dag_wf d'"
    and "runnable d' (length es)"
    and "\<forall>k < length es. execOf d' k = es ! k" and "execOf d' (Suc (length es)) = sink"
proof -
  let ?n = "length es"
  have "length deps < 2 ^ 64 - 1" using room by auto
  with dist(1) obtain d where d: "buildDag es deps = Inr d" "dag_wf d" "length (nodes d) = ?n"
    "edgeCount d = length deps" "edges d = set deps"
    "\<forall>k < ?n. executor (nodes d ! k) = Some (es ! k) \<and> schedules d (es ! k) = [k]"
    "\<forall>e. e \<notin> set es \<longrightarrow> schedules d e = []" using rng by (metis buildDag_spec)
  have acyc': "acyclic (edges d)" and ne': "nodes d \<noteq> []" using acyc d(3,5) ne by auto
  from goDag_spec [OF d(2) acyc', of "Some sink"] room d(3,4) obtain d'
    where go: "goDag (Some sink) d = Inr (?n, d')" and g: "gone d (Some sink) d'" by auto
  have n': "length (nodes d') = ?n + 2" and wf': "dag_wf d'"
    using g d(3) by (simp_all add: gone_def Let_def)
  have "ownExecutors d" "schedules d sink = []" using d(3,6,7) dist by (simp_all add: ownExecutors_def)
  from gone_runnable [OF g d(2) acyc' ne' this] have rb: "runnable d' ?n" by (simp add: d(3))
  note ex = gone_execOf [OF g, of es, unfolded d(3), OF d(6)]
  show thesis
    by (rule that [OF d(1) go g d(2) acyc' d(5,3) n' wf' rb]) (use ex in auto)
qed

lemma length_concat_sum: "length (concat xss) = (\<Sum>p < length xss. length (xss ! p))"
proof (induction xss rule: rev_induct)
  case (snoc xs xss)
  have "(\<Sum>p < length xss. length ((xss @ [xs]) ! p)) = (\<Sum>p < length xss. length (xss ! p))"
    by (rule sum.cong) (simp_all add: nth_append)
  with snoc show ?case by simp
qed simp

lemma work_startRun:
  assumes "src < length (nodes d)"
  shows "work (succOf d) (length (nodes d)) src (startRun d src) \<le> edgeCount d + 3 * length (nodes d)"
proof -
  let ?n = "length (nodes d)"
  have un: "undone ?n src [] = {..<?n} - {src}" by (auto simp: undone_def)
  have "edgeCount d = (\<Sum>p < ?n. length (succOf d p))"
    unfolding edgeCount_def length_concat_sum by (rule sum.cong) (simp_all add: succOf_def)
  also have "\<dots> = length (succOf d src) + (\<Sum>p \<in> {..<?n} - {src}. length (succOf d p))"
    using assms by (simp add: sum.remove)
  finally have "work (succOf d) ?n src (startRun d src)
      = edgeCount d + 3 * card {k. k < ?n \<and> 0 < waitCount (nodes d ! k)}"
    by (simp add: work_def startRun_def un)
  moreover have "card {k. k < ?n \<and> 0 < waitCount (nodes d ! k)} \<le> card {..<?n}"
    by (rule card_mono) auto
  ultimately show ?thesis by simp
qed

text \<open>
  C1: a client that adds distinct executors, declares acyclic dependencies
  between them and calls \<^verbatim>\<open>schedule(go(sink))\<close> gets back a finished run: every
  executor and the sink has run exactly once, the sink last, and no executor
  ran before one it depends on. A recursion depth of the number of executors
  plus one is enough.
\<close>

theorem runDag_topological:
  assumes dist: "distinct (es @ [sink])" and ne: "es \<noteq> []"
    and rng: "set deps \<subseteq> {..<length es} \<times> {..<length es}" and acyc: "acyclic (set deps)"
    and room: "length deps + 2 * length es < 2 ^ 64 - 1" and fuel: "length es + 1 \<le> fuel"
  shows "\<exists>log. runDag fuel es deps sink = Inr log \<and> mset log = mset (es @ [sink]) \<and>
    last log = sink \<and> (\<forall>(a, b) \<in> set deps. before log (es ! a) (es ! b))"
proof -
  let ?n = "length es"
  have "distinct es" "sink \<notin> set es" using dist by auto
  then obtain d d' where d: "buildDag es deps = Inr d" "goDag (Some sink) d = Inr (?n, d')"
    "gone d (Some sink) d'" "dag_wf d" "acyclic (edges d)" "edges d = set deps"
    and len: "length (nodes d) = ?n" "length (nodes d') = ?n + 2" and wf': "dag_wf d'"
    and rb: "runnable d' ?n"
    and ex: "\<forall>k < ?n. execOf d' k = es ! k" "execOf d' (Suc ?n) = sink"
    by (rule client_ready [OF _ _ ne rng acyc room])
  have "length (nodes d') - 1 \<le> fuel" using len fuel by simp
  then obtain d'' order where sch: "scheduleDag fuel ?n (d', []) = Inr (d'', map (execOf d') order)"
    and order: "distinct order" "set order = {..<length (nodes d')} - {?n}"
      "ordered (succOf d') (length (nodes d')) ?n (runEvents order)"
    by (rule scheduleDag_order [OF wf' rb])
  let ?log = "map (execOf d') order"
  have mset: "mset ?log = mset (es @ [sink])"
    by (rule mset_execs [OF order(1,2) [unfolded len] refl]) (use ex in auto)
  have inj: "inj_on (execOf d') (set order)"
    using mset_eq_imp_distinct_iff [OF mset] dist by (simp add: distinct_map)
  have "last order = ?n + 1"
    using order_sink_last [OF d(3,4,5) _ order(1)] order len by simp
  moreover have "order \<noteq> []" using mset by auto
  ultimately have "last ?log = sink" using ex(2) by (simp add: last_map)
  moreover have "before ?log (es ! a) (es ! b)" if ab: "(a, b) \<in> set deps" for a b
  proof -
    have an: "a < ?n" "b < ?n" using ab rng by auto
    have "b \<in> set (nexts (nodes d ! a))" using ab d(6) by (auto simp: edges_def)
    with gone_succ(1) [OF d(3)] an len have "b \<in> set (succOf d' a)" by simp
    moreover have b: "b \<in> set order" using an order(2) len by simp
    ultimately have "before order a b" using order_before [OF order(3,1)] an len by simp
    from before_map [OF inj b order(1) this] ex(1) an show ?thesis by simp
  qed
  ultimately show ?thesis using d(1,2) sch mset by (auto simp: runDag_def)
qed


theorem runDag_topological_witness:
  "runDag 6 [0, 1, 2, 3, 4] [(0, 3), (1, 3), (2, 4), (3, 4)] (5 :: nat) = Inr [0, 1, 3, 2, 4, 5] \<and>
   (\<exists>log. runDag 6 [0, 1, 2, 3, 4] [(0, 3), (1, 3), (2, 4), (3, 4)] (5 :: nat) = Inr log \<and>
     mset log = mset ([0, 1, 2, 3, 4] @ [5]) \<and> last log = 5 \<and>
     (\<forall>(a, b) \<in> set [(0, 3), (1, 3), (2, 4), (3, 4)]. before log ([0, 1, 2, 3, 4] ! a) ([0, 1, 2, 3, 4] ! b)))"
proof
  show "runDag 6 [0, 1, 2, 3, 4] [(0, 3), (1, 3), (2, 4), (3, 4)] (5 :: nat) = Inr [0, 1, 3, 2, 4, 5]"
    by (simp add: dag_exec)
  have acyc: "acyclic (set [(0, 3), (1, 3), (2, 4), (3, 4 :: nat)])"
    by (rule acyclicI_order [of _ "\<lambda>x. 4 - x"]) auto
  show "\<exists>log. runDag 6 [0, 1, 2, 3, 4] [(0, 3), (1, 3), (2, 4), (3, 4)] (5 :: nat) = Inr log \<and>
     mset log = mset ([0, 1, 2, 3, 4] @ [5]) \<and> last log = 5 \<and>
     (\<forall>(a, b) \<in> set [(0, 3), (1, 3), (2, 4), (3, 4)]. before log ([0, 1, 2, 3, 4] ! a) ([0, 1, 2, 3, 4] ! b))"
    by (rule runDag_topological [OF _ _ _ acyc]) simp_all
qed

text \<open>
  C4: \<^verbatim>\<open>hasCycle\<close> returns on every well-formed graph, and it answers true exactly
  when the dependencies have a cycle.
\<close>

theorem hasCycle_decides:
  assumes "dag_wf d"
  shows "hasCycle d = Inr (\<not> acyclic (edges d))"
  by (rule hasCycle_spec [OF assms])

theorem hasCycle_decides_witness:
  "\<exists>d. buildDag [10 :: nat, 11, 12] [(0, 1), (1, 2), (2, 1)] = Inr d \<and> dag_wf d \<and>
     hasCycle d = Inr True \<and> \<not> acyclic (edges d)"
proof -
  obtain d where d: "buildDag [10 :: nat, 11, 12] [(0, 1), (1, 2), (2, 1)] = Inr d" "dag_wf d"
    by (rule buildDag_spec [of "[(0, 1), (1, 2), (2, 1)]" "[10 :: nat, 11, 12]"]) auto
  have "res_bind (buildDag [10 :: nat, 11, 12] [(0, 1), (1, 2), (2, 1)]) hasCycle = Inr True"
    by (simp add: dag_exec)
  with d hasCycle_decides [OF d(2)] show ?thesis by auto
qed

lemma rootKeys_Range:
  assumes wf: "dag_wf d"
  shows "rootKeys d = filter (\<lambda>k. k \<notin> Range (edges d)) [0..<length (nodes d)]"
proof -
  have "hasPrev (nodes d ! k) \<longleftrightarrow> k \<in> Range (edges d)" if k: "k < length (nodes d)" for k
  proof
    assume "hasPrev (nodes d ! k)"
    then show "k \<in> Range (edges d)" by (rule has_pred [OF wf k]) (auto simp: edges_def)
  next
    assume "k \<in> Range (edges d)"
    then obtain p where "p < length (nodes d)" "k \<in> set (nexts (nodes d ! p))" by (auto simp: edges_def)
    then have "k \<in> set (concat (map nexts (nodes d)))" by (auto intro: bexI [OF _ nth_mem])
    then have "0 < indegree d k" by (simp only: indegree_def count_list_pos_iff)
    then show "hasPrev (nodes d ! k)" using wf k by (simp add: dag_wf_def)
  qed
  then show ?thesis unfolding rootKeys_def by (intro filter_cong) auto
qed

lemma gone_lists:
  assumes "gone d e d'"
  shows "map executor (nodes d') = map executor (nodes d) @ [None, e]"
    and "map nexts (nodes d') = map (\<lambda>x. if nexts x = [] then [length (nodes d) + 1] else nexts x) (nodes d) @ [rootKeys d, []]"
proof -
  let ?n = "length (nodes d)"
  have split: "k < ?n \<or> k = ?n \<or> k = ?n + 1" if "k < ?n + 2" for k using that by linarith
  have len: "length (nodes d') = ?n + 2" using assms by (simp add: gone_def Let_def)
  show "map executor (nodes d') = map executor (nodes d) @ [None, e]"
  proof (rule nth_equalityI)
    fix k assume "k < length (map executor (nodes d'))"
    with split [of k] assms len show "map executor (nodes d') ! k = (map executor (nodes d) @ [None, e]) ! k"
      by (fastforce simp: gone_def Let_def nth_append)
  qed (simp add: len)
  show "map nexts (nodes d') = map (\<lambda>x. if nexts x = [] then [?n + 1] else nexts x) (nodes d) @ [rootKeys d, []]"
    (is "_ = ?r")
  proof (rule nth_equalityI)
    fix k assume "k < length (map nexts (nodes d'))"
    with split [of k] assms len show "map nexts (nodes d') ! k = ?r ! k"
      by (auto simp: gone_def Let_def nth_append)
  qed (simp add: len)
qed

text \<open>
  C5: \<^verbatim>\<open>go\<close> throws \<^verbatim>\<open>std::runtime_error\<close> exactly on cyclic graphs. On the others it
  returns the key of a new node, the source, whose edges lead to exactly the
  nodes without a predecessor, in their order; it appends a sink with the given
  executor, to which exactly the nodes without a successor get an edge; every other
  executor and edge stays as it was, and the result is well formed (the wait counts
  are the numbers of predecessors) and has no cycle.
\<close>

theorem goDag_rejects_cycles:
  assumes wf: "dag_wf d" and room: "edgeCount d + 2 * length (nodes d) < 2 ^ 64 - 1"
  shows "if acyclic (edges d)
    then \<exists>d'. goDag e d = Inr (length (nodes d), d') \<and> dag_wf d' \<and> hasCycle d' = Inr False \<and>
           map executor (nodes d') = map executor (nodes d) @ [None, e] \<and> schedules d' = schedules d \<and>
           map nexts (nodes d') =
             map (\<lambda>x. if nexts x = [] then [length (nodes d) + 1] else nexts x) (nodes d) @
             [filter (\<lambda>k. k \<notin> Range (edges d)) [0..<length (nodes d)], []]
    else goDag e d = Inl Runtime_Error"
proof (cases "acyclic (edges d)")
  case True
  from goDag_spec [OF wf True room] obtain d'
    where d': "goDag e d = Inr (length (nodes d), d')" "gone d e d'" by blast
  then have wf': "dag_wf d'" "length (nodes d') = length (nodes d) + 2" "schedules d' = schedules d"
    by (simp_all add: gone_def Let_def)
  have "edges d' = {(p, k). p < length (nodes d) + 2 \<and> k \<in> set (succOf d' p)}"
    using wf'(2) by (auto simp: edges_def succOf_def)
  with gone_acyclic [OF d'(2) wf True] have "acyclic (edges d')" by simp
  with hasCycle_spec [OF wf'(1)] have "hasCycle d' = Inr False" by simp
  with True d'(1) wf' gone_lists [OF d'(2)] rootKeys_Range [OF wf] show ?thesis by simp
next
  case False
  with hasCycle_spec [OF wf] show ?thesis by (simp add: goDag_def)
qed

theorem goDag_rejects_cycles_witness:
  "(\<exists>d. buildDag [10 :: nat, 11] [(0, 1), (1, 0)] = Inr d \<and> goDag (Some 7) d = Inl Runtime_Error) \<and>
   (\<exists>d d'. buildDag [10 :: nat, 11] [(0, 1)] = Inr d \<and> goDag (Some 7) d = Inr (2, d') \<and>
      map nexts (nodes d') = [[1], [3], [0], []])"
proof
  obtain d where d: "buildDag [10 :: nat, 11] [(0, 1), (1, 0)] = Inr d" "dag_wf d"
    "length (nodes d) = length [10 :: nat, 11]" "edgeCount d = length [(0 :: nat, 1 :: nat), (1, 0)]"
    "edges d = set [(0, 1), (1, 0)]"
    by (rule buildDag_spec [of "[(0, 1), (1, 0)]" "[10 :: nat, 11]"]) auto
  have "(0, 0) \<in> (edges d)\<^sup>+" unfolding d(5) by (rule trancl_into_trancl [of _ 1]) auto
  then have "\<not> acyclic (edges d)" by (auto simp: acyclic_def)
  with goDag_rejects_cycles [OF d(2), of "Some 7"] d
  show "\<exists>d. buildDag [10 :: nat, 11] [(0, 1), (1, 0)] = Inr d \<and> goDag (Some 7) d = Inl Runtime_Error" by auto
next
  obtain d where d: "buildDag [10 :: nat, 11] [(0, 1)] = Inr d" "dag_wf d"
    "length (nodes d) = length [10 :: nat, 11]" "edgeCount d = length [(0 :: nat, 1 :: nat)]"
    "edges d = set [(0, 1)]"
    by (rule buildDag_spec [of "[(0, 1)]" "[10 :: nat, 11]"]) auto
  have "acyclic (edges d)" unfolding d(5) by (rule acyclicI_order [of _ "\<lambda>x. 4 - x"]) auto
  with goDag_rejects_cycles [OF d(2), of "Some 7"] d(3,4) obtain d'
    where "goDag (Some 7) d = Inr (2, d')" by auto
  moreover from d(1) have "map nexts (nodes d') = [[1], [3], [0], []]"
    using calculation by (auto simp: dag_exec)
  ultimately show "\<exists>d d'. buildDag [10 :: nat, 11] [(0, 1)] = Inr d \<and> goDag (Some 7) d = Inr (2, d') \<and>
      map nexts (nodes d') = [[1], [3], [0], []]" using d(1) by (intro exI conjI)
qed

text \<open>
  An executor that is added as two nodes fires the edges of both each time it runs: the
  sink starts before the second node has run.
\<close>

lemma shared_executor_runs_sink_early: "runDag 3 [0, 0] [] (1 :: nat) = Inr [0, 1, 0]"
  by (simp add: dag_exec)

lemma two_tasks:
  obtains d d' d'' order where "buildDag [7 :: nat, 8] [(0, 1)] = Inr d" and "dag_wf d"
    and "acyclic (edges d)" and "nodes d \<noteq> []" and "ownExecutors d" and "schedules d 9 = []"
    and "edgeCount d + 2 * length (nodes d) < 2 ^ 64 - 1" and "length (nodes d) = 2"
    and "goDag (Some 9) d = Inr (2, d')" and "length (nodes d') = 4"
    and "(task_step d')\<^sup>*\<^sup>* (startRun d' 2) (runState (d'' :: nat dag) {#} (runEvents order))"
    and "3 \<in> set order"
proof -
  obtain d0 where d0: "buildDag [7 :: nat, 8] [(0, 1)] = Inr d0" "edgeCount d0 = length [(0::nat, 1::nat)]"
    "\<forall>k < length [7 :: nat, 8]. executor (nodes d0 ! k) = Some ([7, 8] ! k) \<and> schedules d0 ([7, 8] ! k) = [k]"
    "\<forall>e. e \<notin> set [7, 8] \<longrightarrow> schedules d0 e = []"
    by (rule buildDag_spec [of "[(0, 1)]" "[7 :: nat, 8]"]) auto
  have acyc: "acyclic (set [(0, 1 :: nat)])" by (rule acyclicI_order [of _ "\<lambda>x. 4 - x"]) auto
  obtain d d' where d: "buildDag [7 :: nat, 8] [(0, 1)] = Inr d" "goDag (Some 9) d = Inr (length [7 :: nat, 8], d')"
    "gone d (Some 9) d'" "dag_wf d" "acyclic (edges d)" "edges d = set [(0, 1)]"
    "length (nodes d) = length [7 :: nat, 8]" "length (nodes d') = length [7 :: nat, 8] + 2" "dag_wf d'"
    "runnable d' (length [7 :: nat, 8])"
    by (rule client_ready [of "[7 :: nat, 8]" 9 "[(0, 1)]"]) (use acyc in simp_all)
  obtain d'' order where "scheduleDag (length (nodes d') - 1) (length [7 :: nat, 8]) (d', [])
      = Inr (d'', map (execOf d') order)" "distinct order"
    "ordered (succOf d') (length (nodes d')) (length [7 :: nat, 8]) (runEvents order)"
    and set: "set order = {..<length (nodes d')} - {length [7 :: nat, 8]}"
    and run: "(task_step d')\<^sup>*\<^sup>* (startRun d' (length [7 :: nat, 8])) (runState d'' {#} (runEvents order))"
    by (rule scheduleDag_order [OF d(9,10) order_refl])
  have "3 \<in> set order" unfolding set using d(8) by simp
  moreover have "length [7 :: nat, 8] = 2" by simp
  note run [unfolded this]
  moreover have "ownExecutors d" using d0 d(1,7) by (auto simp: ownExecutors_def)
  moreover have "schedules d 9 = []" using d0(1,4) d(1) by simp
  ultimately show thesis using d(1,2,4,5,7,8) d0(1,2)
    by (intro that [of d d' d'' order]) auto
qed

text \<open>
  C2: when every node of a non-empty acyclic graph has an executor of its own and the sink is
  none of them, then in every run in which the executors of the started graph run concurrently, in
  any order and interleaving the pool chooses, each node is handed out at most
  once, a node starts only after all its predecessors are done, and the sink
  starts only after every node of the original graph is done.
\<close>

theorem concurrent_order:
  assumes wf: "dag_wf d" and acyc: "acyclic (edges d)" and ne: "nodes d \<noteq> []"
    and own: "ownExecutors d" and sink: "schedules d sink = []"
    and room: "edgeCount d + 2 * length (nodes d) < 2 ^ 64 - 1"
    and go: "goDag (Some sink) d = Inr (src, d')"
    and run: "(task_step d')\<^sup>*\<^sup>* (startRun d' src) t"
  shows "(\<forall>k. count_list (trace t) (Start k) \<le> 1 \<and> count_list (trace t) (Done k) \<le> 1) \<and>
    (\<forall>xs b ys a. trace t = xs @ Start b # ys \<and> (a, b) \<in> edges d \<longrightarrow> Done a \<in> set xs) \<and>
    (\<forall>xs ys k. trace t = xs @ Start (length (nodes d) + 1) # ys \<and> k < length (nodes d) \<longrightarrow>
       Done k \<in> set xs)"
proof -
  let ?n = "length (nodes d)"
  from goDag_spec [OF wf acyc room, of "Some sink"] go have src: "src = ?n" and g: "gone d (Some sink) d'" by auto
  have n': "length (nodes d') = ?n + 2" and wf': "dag_wf d'" using g by (simp_all add: gone_def Let_def)
  note rb = gone_runnable [OF g wf acyc ne own sink, folded src] and prep = runnableD(1) [OF rb]
  note inv = run_inv_steps [OF rb run startRun_inv [OF wf' prep]]
  note I = run_invD [OF inv]
  have "count_list (trace t) (Start k) \<le> 1 \<and> count_list (trace t) (Done k) \<le> 1" for k
    using I(5) [of k] I(6) [of k] I(7) [of k]
    by (cases "Start k \<in> set (trace t)") (auto simp: count_list_0_iff split: if_splits)
  moreover have "Done a \<in> set xs" if "trace t = xs @ Start b # ys" "(a, b) \<in> edges d" for xs b ys a
  proof -
    from that(2) have a: "a < ?n" "b \<in> set (succOf d' a)"
      by (auto simp: edges_def gone_succ(1) [OF g])
    with I(8) that(1) n' src show ?thesis unfolding ordered_def by fastforce
  qed
  moreover have "Done k \<in> set xs" if "trace t = xs @ Start (?n + 1) # ys" "k < ?n" for xs ys k
    using sink_after_all [OF g wf acyc _ that(2)] I(8) that(1) n' src by simp
  ultimately show ?thesis by blast
qed

theorem concurrent_order_witness:
  "\<exists>d d' t xs ys. buildDag [7 :: nat, 8] [(0, 1)] = Inr d \<and> goDag (Some 9) d = Inr (2, d') \<and>
     (task_step d')\<^sup>*\<^sup>* (startRun d' 2) t \<and> trace t = xs @ Start 3 # ys \<and>
     Done 0 \<in> set xs \<and> Done 1 \<in> set xs"
proof -
  obtain d d' and d'' :: "nat dag" and order where d: "buildDag [7 :: nat, 8] [(0, 1)] = Inr d" "dag_wf d"
    "acyclic (edges d)" "nodes d \<noteq> []" "ownExecutors d" "schedules d 9 = []"
    "edgeCount d + 2 * length (nodes d) < 2 ^ 64 - 1" "length (nodes d) = 2" "goDag (Some 9) d = Inr (2, d')"
    "length (nodes d') = 4"
    and run: "(task_step d')\<^sup>*\<^sup>* (startRun d' 2) (runState d'' {#} (runEvents order))"
    and "3 \<in> set order"
    by (rule two_tasks)
  let ?t = "runState d'' {#} (runEvents order)"
  from \<open>3 \<in> set order\<close> have "Start 3 \<in> set (trace ?t)" by (simp add: runState_def)
  then obtain xs ys where tr: "trace ?t = xs @ Start 3 # ys" by (meson split_list)
  note concurrent_order [OF d(2-7,9) run]
  then have "Done k \<in> set xs" if "k < 2" for k using tr that d(8) by simp
  from this [of 0] this [of 1] have "Done 0 \<in> set xs" "Done 1 \<in> set xs" by simp_all
  with d(1,9) run tr show ?thesis by blast
qed

text \<open>
  C3: when every node of a non-empty acyclic graph has an executor of its own and the sink is
  none of them, then every concurrent run of the started graph ends after a number of steps
  bounded by the size of the graph, and a run that cannot go on has run every
  node of the graph and the sink exactly once. No schedule loses or blocks a task.
\<close>

theorem concurrent_complete:
  assumes wf: "dag_wf d" and acyc: "acyclic (edges d)" and ne: "nodes d \<noteq> []"
    and own: "ownExecutors d" and sink: "schedules d sink = []"
    and room: "edgeCount d + 2 * length (nodes d) < 2 ^ 64 - 1"
    and go: "goDag (Some sink) d = Inr (src, d')"
    and run: "(task_step d' ^^ m) (startRun d' src) t"
  shows "m \<le> edgeCount d' + 3 * length (nodes d') \<and>
    ((\<forall>u. \<not> task_step d' t u) \<longrightarrow>
      (\<forall>k < length (nodes d'). k \<noteq> src \<longrightarrow>
        count_list (trace t) (Start k) = 1 \<and> count_list (trace t) (Done k) = 1))"
proof -
  let ?n = "length (nodes d)"
  from goDag_spec [OF wf acyc room, of "Some sink"] go have src: "src = ?n" and g: "gone d (Some sink) d'" by auto
  have n': "length (nodes d') = ?n + 2" and wf': "dag_wf d'" using g by (simp_all add: gone_def Let_def)
  note rb = gone_runnable [OF g wf acyc ne own sink, folded src] and prep = runnableD(1) [OF rb]
  note inv0 = startRun_inv [OF wf' prep]
  have "m \<le> work (succOf d') (length (nodes d')) src (startRun d' src)"
    using run_length_bound [OF rb inv0 run] by simp
  also have "\<dots> \<le> edgeCount d' + 3 * length (nodes d')"
    using src n' by (intro work_startRun) simp
  finally have "m \<le> edgeCount d' + 3 * length (nodes d')" .
  moreover have inv: "run_inv (succOf d') (length (nodes d')) src t"
    using run_inv_steps [OF rb relpowp_imp_rtranclp [OF run] inv0] .
  note stuck_all_done [OF rb inv]
  ultimately show ?thesis by blast
qed

theorem concurrent_complete_witness:
  "\<exists>d d' m t. buildDag [7 :: nat, 8] [(0, 1)] = Inr d \<and> goDag (Some 9) d = Inr (2, d') \<and>
     (task_step d' ^^ m) (startRun d' 2) t \<and> m \<le> edgeCount d' + 12 \<and>
     count_list (trace t) (Done 0) = 1 \<and> count_list (trace t) (Done 1) = 1 \<and>
     count_list (trace t) (Done 3) = 1"
proof -
  obtain d d' and d'' :: "nat dag" and order where d: "buildDag [7 :: nat, 8] [(0, 1)] = Inr d" "dag_wf d"
    "acyclic (edges d)" "nodes d \<noteq> []" "ownExecutors d" "schedules d 9 = []"
    "edgeCount d + 2 * length (nodes d) < 2 ^ 64 - 1" "length (nodes d) = 2" "goDag (Some 9) d = Inr (2, d')" and len: "length (nodes d') = 4"
    and run: "(task_step d')\<^sup>*\<^sup>* (startRun d' 2) (runState d'' {#} (runEvents order))"
    and "3 \<in> set order"
    by (rule two_tasks)
  let ?t = "runState d'' {#} (runEvents order)"
  from run obtain m where m: "(task_step d' ^^ m) (startRun d' 2) ?t"
    by (metis rtranclp_imp_relpowp)
  note concurrent_complete [OF d(2-7,9) m]
  then have "m \<le> edgeCount d' + 12 \<and> (\<forall>k < 4. k \<noteq> 2 \<longrightarrow> count_list (trace ?t) (Done k) = 1)"
    using len runState_stuck [of d' d'' "runEvents order"] by auto
  then have "m \<le> edgeCount d' + 12 \<and> count_list (trace ?t) (Done 0) = 1 \<and>
      count_list (trace ?t) (Done 1) = 1 \<and> count_list (trace ?t) (Done 3) = 1" by simp
  with d(1,9) m show ?thesis by blast
qed

end
