(* ===== verification/Job_Scheduler.thy ===== *)
theory Job_Scheduler
  imports Task_Run
begin

text \<open>
  Named jobs on top of the task graph: \<^verbatim>\<open>Graph\<close> and \<^verbatim>\<open>GraphManager\<close> of
  \<^verbatim>\<open>src/raster/parallel/Graph.h\<close>, and \<^verbatim>\<open>Scheduler\<close> of
  \<^verbatim>\<open>src/raster/parallel/Scheduler.h\<close>, which resolves names to nodes and starts the
  graph behind the calling fiber. The registry of job classes
  (\<^verbatim>\<open>src/raster/util/ReflectObject.h\<close>) is the set of names it creates objects for.
\<close>

section \<open>Named graphs\<close>

type_synonym name = string
type_synonym edge = "name \<times> name list"
type_synonym graph = "edge list"

definition addEdge :: "name \<Rightarrow> name list \<Rightarrow> graph \<Rightarrow> graph" where
  "addEdge node next g = g @ [(node, next)]"

fun getEdge :: "graph \<Rightarrow> name \<Rightarrow> edge result" where
  "getEdge [] node = Inl Overflow_Error"
| "getEdge (p # ps) node = (if fst p = node then Inr p else getEdge ps node)"

text \<open>\<^verbatim>\<open>graphs_[key]\<close> creates the graph when the key is new.\<close>

definition getGraph :: "name \<Rightarrow> (name \<rightharpoonup> graph) \<Rightarrow> graph \<times> (name \<rightharpoonup> graph)" where
  "getGraph key gs = (case gs key of Some g \<Rightarrow> (g, gs) | None \<Rightarrow> ([], gs(key \<mapsto> [])))"

section \<open>The scheduler\<close>

text \<open>
  Executors are the caller's objects, or jobs the scheduler created: \<open>Job i\<close> is the
  \<open>i\<close>-th object it allocated, with the name and the context it was given.
\<close>

datatype 'x task_exec = Given 'x | Job nat

record 'c job =
  jobClass :: name
  jobName :: name
  jobContext :: 'c

record ('x, 'c) scheduler =
  dag :: "'x task_exec dag"
  graph :: graph
  keyMap :: "name \<rightharpoonup> nat"
  isSetup :: bool
  jobs :: "'c job list"

definition newScheduler :: "('x, 'c) scheduler" where
  "newScheduler = \<lparr>dag = emptyDag, graph = [], keyMap = Map.empty, isSetup = False, jobs = []\<rparr>"

definition schedulerAdd ::
  "'x task_exec \<Rightarrow> name \<Rightarrow> name list \<Rightarrow> ('x, 'c) scheduler \<Rightarrow> ('x, 'c) scheduler" where
  "schedulerAdd e name next s =
     (let (key, d) = addExecutor e (dag s)
      in s\<lparr>dag := d, keyMap := (keyMap s)(name \<mapsto> key), graph := addEdge name next (graph s)\<rparr>)"

text \<open>\<^verbatim>\<open>name.substr(0, name.find(':'))\<close> and \<^verbatim>\<open>makeReflectObject\<close>: an unregistered class gives a null pointer.\<close>

definition classOf :: "name \<Rightarrow> name" where
  "classOf name = takeWhile (\<lambda>c. c \<noteq> CHR '':'') name"

definition schedulerAddJob ::
  "name set \<Rightarrow> 'c \<Rightarrow> name \<Rightarrow> name list \<Rightarrow> ('x, 'c) scheduler \<Rightarrow> ('x, 'c) scheduler result" where
  "schedulerAddJob registry ctx name next s =
     (let cls = classOf name
      in guard (cls \<in> registry) Null_Deref
           (let i = length (jobs s);
                s1 = s\<lparr>jobs := jobs s @ [\<lparr>jobClass = cls, jobName = name, jobContext = ctx\<rparr>]\<rparr>
            in Inr (schedulerAdd (Job i) name next s1)))"

fun schedulerInit ::
  "name set \<Rightarrow> 'c \<Rightarrow> graph \<Rightarrow> ('x, 'c) scheduler \<Rightarrow> ('x, 'c) scheduler result" where
  "schedulerInit registry ctx [] s = Inr s"
| "schedulerInit registry ctx ((node, next) # ps) s =
     res_bind (schedulerAddJob registry ctx node next s) (schedulerInit registry ctx ps)"

text \<open>\<^verbatim>\<open>map_[name]\<close>: an unknown name is inserted with key 0.\<close>

definition lookupKey :: "name \<Rightarrow> (name \<rightharpoonup> nat) \<Rightarrow> nat \<times> (name \<rightharpoonup> nat)" where
  "lookupKey name m = (case m name of Some k \<Rightarrow> (k, m) | None \<Rightarrow> (0, m(name \<mapsto> 0)))"

text \<open>
  \<^verbatim>\<open>dag_.dependency(map_[p.node], map_[q])\<close>: the order in which the two lookups
  are evaluated is left open by the language and does not matter, as both
  insert the same value.
\<close>

fun dependNext ::
  "name \<Rightarrow> name list \<Rightarrow> ('x, 'c) scheduler \<Rightarrow> ('x, 'c) scheduler result" where
  "dependNext node [] s = Inr s"
| "dependNext node (q # qs) s =
     (let (a, m1) = lookupKey node (keyMap s);
          (b, m2) = lookupKey q m1
      in res_bind (dependency a b (dag s)) (\<lambda>d.
           dependNext node qs (s\<lparr>dag := d, keyMap := m2\<rparr>)))"

fun dependEdges :: "graph \<Rightarrow> ('x, 'c) scheduler \<Rightarrow> ('x, 'c) scheduler result" where
  "dependEdges [] s = Inr s"
| "dependEdges ((node, next) # ps) s = res_bind (dependNext node next s) (dependEdges ps)"

definition setDependency :: "('x, 'c) scheduler \<Rightarrow> ('x, 'c) scheduler result" where
  "setDependency s = res_bind (dependEdges (graph s) s) (\<lambda>s1. Inr (s1\<lparr>isSetup := True\<rparr>))"

text \<open>
  \<^verbatim>\<open>Scheduler::run\<close>: the result is the key the current fiber's executor gets as a
  callback \<^verbatim>\<open>schedule(key)\<close> before the fiber yields, or \<open>None\<close> when there is nothing to do.
\<close>

definition schedulerRun ::
  "'x task_exec \<Rightarrow> ('x, 'c) scheduler \<Rightarrow> (nat option \<times> ('x, 'c) scheduler) result" where
  "schedulerRun current s =
     (if nodes (dag s) = [] then Inr (None, s)
      else res_bind (setDependency s) (\<lambda>s1.
           res_bind (goDag (Some current) (dag s1)) (\<lambda>(src, d).
             Inr (Some src, s1\<lparr>dag := d\<rparr>))))"

section \<open>Lookup of edges\<close>

lemma getEdge_spec:
  "getEdge g node = (case map_of g node of None \<Rightarrow> Inl Overflow_Error | Some next \<Rightarrow> Inr (node, next))"
  by (induction g) auto

lemma getEdge_addEdge:
  "node \<notin> fst ` set g \<Longrightarrow> getEdge (addEdge node next g) node = Inr (node, next)"
  using map_of_eq_None_iff [of g node] by (simp add: getEdge_spec addEdge_def map_add_def)

section \<open>Schedulers built from distinct jobs\<close>

text \<open>The index of a named job, in the order the jobs were added.\<close>

definition indexOf :: "name list \<Rightarrow> name \<Rightarrow> nat" where
  "indexOf names q = length (takeWhile (\<lambda>x. x \<noteq> q) names)"

lemma indexOf_nth: "distinct names \<Longrightarrow> k < length names \<Longrightarrow> indexOf names (names ! k) = k"
  by (simp add: indexOf_def length_takeWhile_distinct)

lemma indexOf_less: "q \<in> set names \<Longrightarrow> indexOf names q < length names"
  by (induction names) (auto simp: indexOf_def)

lemma indexOf_snoc: "indexOf (names @ [x]) q = (if q \<in> set names then indexOf names q else
    length names + (if x = q then 0 else 1))"
  by (induction names) (auto simp: indexOf_def)

text \<open>
  The scheduler holds the jobs of graph \<open>g\<close>, whose names are distinct: node \<open>k\<close> is
  the \<open>k\<close>-th job, bound to an executor of its own, and no edge has been added.
\<close>

definition holds :: "'x task_exec list \<Rightarrow> graph \<Rightarrow> ('x, 'c) scheduler \<Rightarrow> bool" where
  "holds es g s \<longleftrightarrow>
     graph s = g \<and> dag s = addAll es emptyDag \<and> length es = length g \<and>
     keyMap s = (\<lambda>q. if q \<in> fst ` set g then Some (indexOf (map fst g) q) else None)"

lemma holds_new: "holds [] [] newScheduler"
  by (simp add: holds_def newScheduler_def fun_eq_iff)

lemma addAll_snoc: "addAll (es @ [e]) d = snd (addExecutor e (addAll es d))"
  by (induction es arbitrary: d) simp_all

lemma fst_addExecutor: "fst (addExecutor e d) = length (nodes d)"
  by (simp add: addExecutor_def addNode_def)

lemma holds_add:
  assumes h: "holds es g s" and new: "name \<notin> fst ` set g"
  shows "holds (es @ [e]) (g @ [(name, nxt)]) (schedulerAdd e name nxt s)"
proof -
  have len: "length (nodes (addAll es (emptyDag :: 'a task_exec dag))) = length g"
    using h by (simp add: holds_def addAll_nodes emptyDag_def)
  have split: "addExecutor e (dag s) = (length g, addAll (es @ [e]) emptyDag)"
    using h len fst_addExecutor [of e "dag s"] by (simp add: holds_def addAll_snoc prod_eq_iff)
  have "(keyMap s)(name \<mapsto> length g)
      = (\<lambda>q. if q \<in> fst ` set (g @ [(name, nxt)])
              then Some (indexOf (map fst (g @ [(name, nxt)])) q) else None)"
    using h new by (auto simp: holds_def fun_eq_iff indexOf_snoc)
  then show ?thesis
    using h split by (simp add: holds_def schedulerAdd_def Let_def addEdge_def)
qed

text \<open>The dependencies by name, as pairs of node keys.\<close>

definition namedDeps :: "name list \<Rightarrow> graph \<Rightarrow> (nat \<times> nat) list" where
  "namedDeps names g =
     concat (map (\<lambda>(p, nxt). map (\<lambda>q. (indexOf names p, indexOf names q)) nxt) g)"

definition closedGraph :: "graph \<Rightarrow> bool" where
  "closedGraph g \<longleftrightarrow> distinct (map fst g) \<and> (\<forall>(p, nxt) \<in> set g. set nxt \<subseteq> fst ` set g)"

lemma namedDeps_range:
  assumes "closedGraph g"
  shows "set (namedDeps (map fst g) g) \<subseteq> {..<length g} \<times> {..<length g}"
proof -
  have "indexOf (map fst g) q < length g" if "q \<in> fst ` set g" for q
    using indexOf_less [of q "map fst g"] that by simp
  with assms show ?thesis by (force simp: namedDeps_def closedGraph_def)
qed

lemma dependNext_eq:
  assumes "\<forall>q \<in> insert p (set nxt). keyMap s q = Some (indexOf names q)"
  shows "dependNext p nxt s
    = res_bind (dependAll (map (\<lambda>q. (indexOf names p, indexOf names q)) nxt) (dag s))
        (\<lambda>d. Inr (s\<lparr>dag := d\<rparr>))"
  using assms
proof (induction nxt arbitrary: s)
  case (Cons q qs)
  have same: "s\<lparr>dag := d, keyMap := keyMap s\<rparr> = s\<lparr>dag := d\<rparr>" for d by simp
  from Cons.prems have "keyMap s p = Some (indexOf names p)" "keyMap s q = Some (indexOf names q)"
    by auto
  then have "dependNext p (q # qs) s
      = res_bind (dependency (indexOf names p) (indexOf names q) (dag s)) (\<lambda>d. dependNext p qs (s\<lparr>dag := d\<rparr>))"
    by (simp add: lookupKey_def same)
  moreover have "dependNext p qs (s\<lparr>dag := d\<rparr>)
      = res_bind (dependAll (map (\<lambda>q. (indexOf names p, indexOf names q)) qs) d) (\<lambda>d. Inr (s\<lparr>dag := d\<rparr>))" for d
    using Cons.IH [of "s\<lparr>dag := d\<rparr>"] Cons.prems by simp
  ultimately show ?case by (simp add: res_bind_assoc)
qed simp

lemma dependAll_append:
  "dependAll (ps @ qs) d = res_bind (dependAll ps d) (dependAll qs)"
proof (induction ps arbitrary: d)
  case (Cons p ps)
  note IH = ext [OF Cons.IH]
  show ?case by (cases p) (simp add: res_bind_assoc IH)
qed simp

lemma dependEdges_eq:
  assumes "\<forall>(p, nxt) \<in> set ps. \<forall>q \<in> insert p (set nxt). keyMap s q = Some (indexOf names q)"
  shows "dependEdges ps s = res_bind (dependAll (namedDeps names ps) (dag s)) (\<lambda>d. Inr (s\<lparr>dag := d\<rparr>))"
  using assms
proof (induction ps arbitrary: s)
  case (Cons e ps)
  obtain p nxt where e: "e = (p, nxt)" by (cases e)
  have "dependEdges ps (s\<lparr>dag := d\<rparr>)
      = res_bind (dependAll (namedDeps names ps) d) (\<lambda>d. Inr (s\<lparr>dag := d\<rparr>))" for d
    using Cons.IH [of "s\<lparr>dag := d\<rparr>"] Cons.prems by simp
  with dependNext_eq [of p nxt s names] Cons.prems e show ?case
    by (simp add: namedDeps_def dependAll_append res_bind_assoc)
qed (simp add: namedDeps_def)

lemma setDependency_eq:
  assumes h: "holds es g s" and "closedGraph g"
  shows "setDependency s
    = res_bind (buildDag es (namedDeps (map fst g) g)) (\<lambda>d. Inr (s\<lparr>dag := d, isSetup := True\<rparr>))"
proof -
  have keys: "keyMap s q = Some (indexOf (map fst g) q)" if "q \<in> fst ` set g" for q
    using h that by (simp add: holds_def)
  have "\<forall>(p, nxt) \<in> set g. \<forall>q \<in> insert p (set nxt). keyMap s q = Some (indexOf (map fst g) q)"
    using assms(2) by (force simp: closedGraph_def intro!: keys)
  from dependEdges_eq [OF this] h show ?thesis
    by (simp add: setDependency_def buildDag_def holds_def res_bind_assoc)
qed

text \<open>
  \<open>run\<close> on a scheduler that holds a closed graph: an exception for a cycle, or a
  prepared graph with exactly the named edges.
\<close>

lemma schedulerRun_spec:
  assumes h: "holds es g s" and cl: "closedGraph g" and ne: "g \<noteq> []"
    and dist: "distinct es" and room: "length (namedDeps (map fst g) g) + 2 * length g < 2 ^ 64 - 1"
  shows "if acyclic (set (namedDeps (map fst g) g))
    then \<exists>d s'. buildDag es (namedDeps (map fst g) g) = Inr d \<and>
           edges d = set (namedDeps (map fst g) g) \<and>
           goDag (Some current) d = Inr (length g, dag s') \<and> isSetup s' \<and>
           schedulerRun current s = Inr (Some (length g), s')
    else schedulerRun current s = Inl Runtime_Error"
proof -
  let ?deps = "namedDeps (map fst g) g"
  have len: "length es = length g" "nodes (dag s) \<noteq> []"
    using h ne by (auto simp: holds_def addAll_nodes)
  have "set ?deps \<subseteq> {..<length es} \<times> {..<length es}"
    using namedDeps_range [OF cl] len by simp
  moreover have "length ?deps < 2 ^ 64 - 1" using room by simp
  ultimately obtain d where d: "buildDag es ?deps = Inr d" "dag_wf d" "length (nodes d) = length es"
    "edgeCount d = length ?deps" "edges d = set ?deps"
    "\<forall>k < length es. executor (nodes d ! k) = Some (es ! k) \<and> schedules d (es ! k) = [k]"
    "\<forall>e. e \<notin> set es \<longrightarrow> schedules d e = []"
    using dist by (rule buildDag_spec)
  have sd: "setDependency s = Inr (s\<lparr>dag := d, isSetup := True\<rparr>)"
    using setDependency_eq [OF h cl] d(1) by simp
  have room': "edgeCount d + 2 * length (nodes d) < 2 ^ 64 - 1" using room d(3,4) len by simp
  show ?thesis
  proof (cases "acyclic (set ?deps)")
    case True
    then have ac: "acyclic (edges d)" by (simp only: d(5))
    from goDag_spec [OF d(2) ac room', of "Some current"] obtain d'
      where go: "goDag (Some current) d = Inr (length g, d')" using d(3) len by auto
    let ?s = "s\<lparr>dag := d', isSetup := True\<rparr>"
    have "schedulerRun current s = Inr (Some (length g), ?s)"
      using len(2) sd go by (simp add: schedulerRun_def)
    then show ?thesis using True d(1,5) go by auto
  next
    case False
    then have "\<not> acyclic (edges d)" by (simp only: d(5) not_False_eq_True)
    with hasCycle_spec [OF d(2)] have "goDag (Some current) d = Inl Runtime_Error"
      by (simp add: goDag_def)
    with False len(2) sd show ?thesis by (simp add: schedulerRun_def)
  qed
qed

text \<open>Jobs created from a stored graph.\<close>

lemma schedulerInit_holds:
  assumes "holds es g s" and "distinct (map fst (g @ ps))"
    and "es = map Job [0..<length g]" and "length (jobs s) = length g"
    and "map jobName (jobs s) = map fst g"
    and "\<forall>p \<in> fst ` set ps. classOf p \<in> registry"
  shows "\<exists>s'. schedulerInit registry ctx ps s = Inr s' \<and>
     holds (map Job [0..<length (g @ ps)]) (g @ ps) s' \<and> map jobName (jobs s') = map fst (g @ ps)"
  using assms
proof (induction ps arbitrary: es g s)
  case (Cons e ps)
  obtain p nxt where e: "e = (p, nxt)" by (cases e)
  let ?j = "\<lparr>jobClass = classOf p, jobName = p, jobContext = ctx\<rparr>"
  let ?t = "s\<lparr>jobs := jobs s @ [?j]\<rparr>"
  let ?s = "schedulerAdd (Job (length g)) p nxt ?t"
  have add: "schedulerAddJob registry ctx p nxt s = Inr ?s"
    using Cons.prems(4,6) e by (simp add: schedulerAddJob_def Let_def)
  have "holds es g ?t" using Cons.prems(1) by (simp add: holds_def)
  moreover have "p \<notin> fst ` set g" using Cons.prems(2) e by auto
  ultimately have "holds (es @ [Job (length g)]) (g @ [(p, nxt)]) ?s" by (rule holds_add)
  moreover have "jobs ?s = jobs s @ [?j]" by (simp add: schedulerAdd_def split: prod.splits)
  ultimately show ?case
    using Cons.IH [of _ "g @ [(p, nxt)]" ?s] Cons.prems add e by simp
qed simp

lemma schedulerInit_unregistered:
  assumes "\<exists>p \<in> fst ` set ps. classOf p \<notin> registry"
  shows "schedulerInit registry ctx ps s = Inl Null_Deref"
  using assms
proof (induction ps arbitrary: s)
  case (Cons e ps)
  obtain p nxt where e: "e = (p, nxt)" by (cases e)
  show ?case
  proof (cases "classOf p \<in> registry")
    case True
    with Cons e show ?thesis by (auto simp: schedulerAddJob_def Let_def)
  qed (simp add: e schedulerAddJob_def Let_def)
qed simp

text \<open>
  C7: a scheduler initialised from a stored graph with distinct job names, whose
  successors are jobs of the graph, dereferences a null pointer when some job
  class is not registered. Otherwise it creates the named jobs in order, and
  \<^verbatim>\<open>run\<close> throws exactly when the named dependencies have a cycle; when they have
  none it prepares the graph whose edges are exactly the named ones and hands
  back the source node, with the caller as the sink.
\<close>

theorem scheduler_runs_named_graph:
  fixes current :: "'x task_exec" and ctx :: 'c
  assumes cl: "closedGraph g" and ne: "g \<noteq> []"
    and room: "length (namedDeps (map fst g) g) + 2 * length g < 2 ^ 64 - 1"
  shows "if \<exists>p \<in> fst ` set g. classOf p \<notin> registry
    then schedulerInit registry ctx g (newScheduler :: ('x, 'c) scheduler) = Inl Null_Deref
    else \<exists>s :: ('x, 'c) scheduler. schedulerInit registry ctx g newScheduler = Inr s \<and>
      map jobName (jobs s) = map fst g \<and>
      (if acyclic (set (namedDeps (map fst g) g))
       then \<exists>d s'. buildDag (map Job [0..<length g]) (namedDeps (map fst g) g) = Inr d \<and>
              edges d = set (namedDeps (map fst g) g) \<and>
              goDag (Some current) d = Inr (length g, dag s') \<and> isSetup s' \<and>
              schedulerRun current s = Inr (Some (length g), s')
       else schedulerRun current s = Inl Runtime_Error)"
proof (cases "\<exists>p \<in> fst ` set g. classOf p \<notin> registry")
  case False
  have "distinct (map fst ([] @ g))" using cl by (simp add: closedGraph_def)
  with schedulerInit_holds [OF holds_new this, of registry ctx] False
  obtain s :: "('x, 'c) scheduler"
    where s: "schedulerInit registry ctx g newScheduler = Inr s"
      "holds (map Job [0..<length g]) g s" "map jobName (jobs s) = map fst g"
    by (auto simp: newScheduler_def)
  have "distinct (map Job [0..<length g])" by (simp add: distinct_map inj_on_def)
  from schedulerRun_spec [OF s(2) cl ne this room, of current] s False show ?thesis by auto
qed (simp add: schedulerInit_unregistered)

theorem scheduler_runs_named_graph_witness:
  "\<exists>(s :: (unit, unit) scheduler) s'.
     schedulerInit {''fetch'', ''rank''} () [(''fetch:1'', [''rank'']), (''rank'', [])] newScheduler = Inr s \<and>
     schedulerRun (Given ()) s = Inr (Some 2, s')"
proof -
  let ?g = "[(''fetch:1'', [''rank'']), (''rank'', [])]"
  have "indexOf [''fetch:1'', ''rank''] ''fetch:1'' = 0" "indexOf [''fetch:1'', ''rank''] ''rank'' = 1"
    by (simp_all add: indexOf_def)
  then have deps: "namedDeps (map fst ?g) ?g = [(0, 1)]" by (simp add: namedDeps_def)
  have ac: "acyclic (set [(0, 1 :: nat)])" by (rule acyclicI_order [of _ "\<lambda>x. 4 - x"]) auto
  have cl: "closedGraph ?g" by (auto simp: closedGraph_def)
  have reg: "\<not> (\<exists>p \<in> fst ` set ?g. classOf p \<notin> {''fetch'', ''rank''})"
    by (simp add: classOf_def)
  have ne: "?g \<noteq> []" and len: "length ?g = 2" by simp_all
  have "length (namedDeps (map fst ?g) ?g) + 2 * length ?g < 2 ^ 64 - 1" unfolding deps by simp
  from scheduler_runs_named_graph [OF cl ne this, of "{''fetch'', ''rank''}" "()" "Given () :: unit task_exec",
      unfolded deps if_not_P [OF reg] if_P [OF ac] len]
  show ?thesis by blast
qed

text \<open>
  A successor name that no job has is taken for the first job: its key is
  inserted as 0, so a dependency on the first job is added silently.
\<close>

theorem unknown_successor_is_first_job:
  assumes "keyMap s node = Some a" and "keyMap s q = None"
  shows "dependNext node [q] s
    = res_bind (dependency a 0 (dag s)) (\<lambda>d. Inr (s\<lparr>dag := d, keyMap := (keyMap s)(q \<mapsto> 0)\<rparr>))"
  using assms by (simp add: lookupKey_def)

theorem unknown_successor_is_first_job_witness:
  "dependNext ''b'' [''typo''] (schedulerAdd (Given ()) ''b'' [''typo'']
       (schedulerAdd (Given ()) ''a'' [] (newScheduler :: (unit, unit) scheduler)))
    = res_bind (dependency 1 0 (addAll [Given (), Given ()] emptyDag))
        (\<lambda>d. Inr (schedulerAdd (Given ()) ''b'' [''typo'']
           (schedulerAdd (Given ()) ''a'' [] newScheduler)\<lparr>dag := d,
             keyMap := [''a'' \<mapsto> 0, ''b'' \<mapsto> 1, ''typo'' \<mapsto> 0]\<rparr>))"
  by (subst unknown_successor_is_first_job)
     (simp_all add: schedulerAdd_def newScheduler_def addExecutor_def addNode_def emptyDag_def addEdge_def)

end
