(* ===== verification/Timed_Heap.thy ===== *)
theory Timed_Heap
  imports Prelude
begin

text \<open>
  The deadline queue of \<^verbatim>\<open>src/raster/util/TimedHeap.h\<close> with the \<^verbatim>\<open>Timeout\<close> values of
  \<^verbatim>\<open>src/raster/util/Time.h\<close>. A push leaves earlier entries of the same key in the
  heap; an entry is stale unless the map still holds its deadline, and stale
  entries are dropped when they reach the top. The standard priority queue
  promises an entry of least deadline at the top and no order among equals, so
  the choice of the top is a parameter with that promise.
\<close>

section \<open>State and operations\<close>

text \<open>A null data pointer is \<open>None\<close>. Comparison looks at the deadline only.\<close>

record 'k timeout =
  data :: "'k option"
  deadline :: nat
  repeat :: bool

definition timeout_eq :: "'k timeout \<Rightarrow> 'k timeout \<Rightarrow> bool" where
  "timeout_eq l r \<longleftrightarrow> deadline l = deadline r"

definition timeout_less :: "'k timeout \<Rightarrow> 'k timeout \<Rightarrow> bool" where
  "timeout_less l r \<longleftrightarrow> deadline l < deadline r"

definition noTimeout :: "'k timeout" where
  "noTimeout = \<lparr>data = None, deadline = 0, repeat = False\<rparr>"

definition get_default :: "('k \<rightharpoonup> 'v) \<Rightarrow> 'k \<Rightarrow> 'v \<Rightarrow> 'v" where
  "get_default m k dflt = (case m k of Some v \<Rightarrow> v | None \<Rightarrow> dflt)"

record 'k timed_heap =
  timerMap :: "'k \<rightharpoonup> 'k timeout"
  timerHeap :: "'k timeout list"

definition emptyHeap :: "'k timed_heap" where
  "emptyHeap = \<lparr>timerMap = Map.empty, timerHeap = []\<rparr>"

definition pushTimeout :: "'k timeout \<Rightarrow> 'k timed_heap \<Rightarrow> 'k timed_heap" where
  "pushTimeout v h =
     (case data v of
        None \<Rightarrow> h
      | Some k \<Rightarrow> h\<lparr>timerMap := (timerMap h)(k \<mapsto> v), timerHeap := v # timerHeap h\<rparr>)"

definition eraseKey :: "'k option \<Rightarrow> 'k timed_heap \<Rightarrow> 'k timed_heap" where
  "eraseKey k h = (case k of None \<Rightarrow> h | Some k \<Rightarrow> h\<lparr>timerMap := (timerMap h)(k := None)\<rparr>)"

definition isCurrent :: "'k timeout \<Rightarrow> 'k timed_heap \<Rightarrow> bool" where
  "isCurrent t h =
     (case data t of
        None \<Rightarrow> timeout_eq noTimeout t
      | Some k \<Rightarrow> timeout_eq (get_default (timerMap h) k noTimeout) t)"

text \<open>
  \<^verbatim>\<open>pop\<close>: every turn of the loop that goes on removes an entry, so the number of
  entries bounds the number of turns.
\<close>

fun popLoop ::
  "('k timeout list \<Rightarrow> 'k timeout) \<Rightarrow> nat \<Rightarrow> nat \<Rightarrow> 'k timed_heap \<Rightarrow> 'k timeout \<times> 'k timed_heap" where
  "popLoop pick now 0 h = (noTimeout, h)"
| "popLoop pick now (Suc n) h =
     (if timerHeap h = [] then (noTimeout, h)
      else
        let t = pick (timerHeap h);
            rest = remove1 t (timerHeap h)
        in if isCurrent t h
           then if deadline t \<le> now
                then (t, (eraseKey (data t) h)\<lparr>timerHeap := rest\<rparr>)
                else (noTimeout, h)
           else popLoop pick now n (h\<lparr>timerHeap := rest\<rparr>))"

definition popTimeout ::
  "('k timeout list \<Rightarrow> 'k timeout) \<Rightarrow> nat \<Rightarrow> 'k timed_heap \<Rightarrow> 'k timeout \<times> 'k timed_heap" where
  "popTimeout pick now h = popLoop pick now (length (timerHeap h)) h"

section \<open>The contract of the queue\<close>

text \<open>What the standard library promises of \<^verbatim>\<open>priority_queue::top\<close>.\<close>

locale least_top =
  fixes pick :: "'k timeout list \<Rightarrow> 'k timeout"
  assumes top_in: "hs \<noteq> [] \<Longrightarrow> pick hs \<in> set hs"
    and top_least: "x \<in> set hs \<Longrightarrow> \<not> timeout_less x (pick hs)"

text \<open>
  Deadlines are points in time after the epoch, so they are positive; entries have
  a key; and the current deadline of every key is in the heap.
\<close>

definition heap_inv :: "'k timed_heap \<Rightarrow> bool" where
  "heap_inv h \<longleftrightarrow>
     (\<forall>t \<in> set (timerHeap h). data t \<noteq> None \<and> 0 < deadline t) \<and>
     (\<forall>k v. timerMap h k = Some v \<longrightarrow> v \<in> set (timerHeap h) \<and> data v = Some k)"

text \<open>The abstract state: the armed keys with their deadlines.\<close>

definition armed :: "'k timed_heap \<Rightarrow> 'k \<rightharpoonup> nat" where
  "armed h = (\<lambda>k. map_option deadline (timerMap h k))"

lemma heap_inv_empty: "heap_inv emptyHeap"
  by (simp add: heap_inv_def emptyHeap_def)

lemma heap_inv_push: "heap_inv h \<Longrightarrow> 0 < deadline v \<Longrightarrow> heap_inv (pushTimeout v h)"
  by (auto simp: heap_inv_def pushTimeout_def split: option.splits)

lemma heap_inv_erase: "heap_inv h \<Longrightarrow> heap_inv (eraseKey k h)"
  by (auto simp: heap_inv_def eraseKey_def split: option.splits)

lemma armed_empty [simp]: "armed emptyHeap = Map.empty"
  by (simp add: armed_def emptyHeap_def fun_eq_iff)

lemma armed_push: "data v = Some k \<Longrightarrow> armed (pushTimeout v h) = (armed h)(k \<mapsto> deadline v)"
  by (auto simp: armed_def pushTimeout_def fun_eq_iff)

lemma armed_push_null [simp]: "data v = None \<Longrightarrow> pushTimeout v h = h"
  by (simp add: pushTimeout_def)

lemma armed_erase: "armed (eraseKey (Some k) h) = (armed h)(k := None)"
  by (auto simp: armed_def eraseKey_def fun_eq_iff)

lemma isCurrent_armed:
  assumes "heap_inv h" and "t \<in> set (timerHeap h)" and "data t = Some k"
  shows "isCurrent t h \<longleftrightarrow> armed h k = Some (deadline t)"
  using assms
  by (auto simp: heap_inv_def isCurrent_def armed_def get_default_def timeout_eq_def noTimeout_def
      split: option.splits)

text \<open>Dropping a stale top keeps the invariant and the armed keys.\<close>

lemma heap_inv_drop_stale:
  assumes inv: "heap_inv h" and stale: "\<not> isCurrent t h" and t: "t \<in> set (timerHeap h)"
  shows "heap_inv (h\<lparr>timerHeap := remove1 t (timerHeap h)\<rparr>)"
proof -
  have "v \<in> set (remove1 t (timerHeap h))" if "timerMap h k = Some v" for k v
  proof -
    have v: "v \<in> set (timerHeap h)" "data v = Some k" using inv that by (auto simp: heap_inv_def)
    moreover have "armed h k = Some (deadline v)" using that by (simp add: armed_def)
    ultimately have "v \<noteq> t" using isCurrent_armed [OF inv v] stale by auto
    with v show ?thesis by simp
  qed
  with inv show ?thesis by (auto simp: heap_inv_def dest: notin_set_remove1 set_remove1_subset [THEN subsetD])
qed

text \<open>So does removing the top together with its key.\<close>

lemma heap_inv_disarm:
  assumes inv: "heap_inv h" and k: "data t = Some k"
  shows "heap_inv ((eraseKey (Some k) h)\<lparr>timerHeap := remove1 t (timerHeap h)\<rparr>)"
proof -
  have "v \<in> set (remove1 t (timerHeap h)) \<and> data v = Some j"
    if "timerMap h j = Some v" "j \<noteq> k" for j v
  proof -
    have v: "v \<in> set (timerHeap h)" "data v = Some j" using inv that by (auto simp: heap_inv_def)
    with k \<open>j \<noteq> k\<close> have "v \<noteq> t" by auto
    with v show ?thesis by simp
  qed
  with inv show ?thesis
    by (auto simp: heap_inv_def eraseKey_def dest: set_remove1_subset [THEN subsetD])
qed

context least_top
begin

text \<open>
  What \<open>pop\<close> returns: an armed key whose deadline has passed and is least among
  all, which it disarms; or nothing, when no armed deadline has passed.
\<close>

lemma popLoop_spec:
  assumes "heap_inv h" and "length (timerHeap h) \<le> n" and "popLoop pick now n h = (t, h')"
  shows "heap_inv h' \<and>
    (case data t of
       None \<Rightarrow> t = noTimeout \<and> armed h' = armed h \<and> (\<forall>k d. armed h k = Some d \<longrightarrow> now < d)
     | Some k \<Rightarrow> armed h k = Some (deadline t) \<and> deadline t \<le> now \<and> t \<in> set (timerHeap h) \<and>
         (\<forall>j d. armed h j = Some d \<longrightarrow> deadline t \<le> d) \<and> armed h' = (armed h)(k := None))"
  using assms
proof (induction n arbitrary: h)
  case 0
  then have "timerMap h k = None" for k by (auto simp: heap_inv_def)
  with 0 show ?case by (auto simp: noTimeout_def armed_def)
next
  case (Suc n)
  note inv = Suc.prems(1)
  show ?case
  proof (cases "timerHeap h = []")
    case True
    then have "timerMap h k = None" for k using inv by (auto simp: heap_inv_def)
    with True Suc.prems show ?thesis by (auto simp: noTimeout_def armed_def)
  next
    case ne: False
    let ?t = "pick (timerHeap h)"
    let ?rest = "remove1 ?t (timerHeap h)"
    have tin: "?t \<in> set (timerHeap h)" using ne by (rule top_in)
    then obtain k where k: "data ?t = Some k" using inv by (auto simp: heap_inv_def)
    have least: "deadline ?t \<le> d" if "armed h j = Some d" for j d
    proof -
      from that obtain v where "timerMap h j = Some v" "d = deadline v" by (auto simp: armed_def)
      with inv top_least [of v "timerHeap h"] show ?thesis by (auto simp: heap_inv_def timeout_less_def)
    qed
    note cur = isCurrent_armed [OF inv tin k]
    consider "isCurrent ?t h" "deadline ?t \<le> now" | "isCurrent ?t h" "now < deadline ?t"
      | "\<not> isCurrent ?t h" by linarith
    then show ?thesis
    proof cases
      case 1
      have "heap_inv ((eraseKey (Some k) h)\<lparr>timerHeap := ?rest\<rparr>)"
        by (rule heap_inv_disarm [OF inv k])
      moreover have "armed ((eraseKey (Some k) h)\<lparr>timerHeap := ?rest\<rparr>) = (armed h)(k := None)"
        by (auto simp: armed_def eraseKey_def fun_eq_iff)
      moreover have "t = ?t" "h' = (eraseKey (Some k) h)\<lparr>timerHeap := ?rest\<rparr>"
        using 1 k ne Suc.prems(3) by (auto simp: Let_def)
      ultimately show ?thesis using 1 k cur least tin by auto
    next
      case 2
      then have "t = noTimeout" "h' = h" using ne Suc.prems(3) by (simp_all add: Let_def)
      with 2 least inv show ?thesis by (fastforce simp: noTimeout_def)
    next
      case 3
      let ?h = "h\<lparr>timerHeap := ?rest\<rparr>"
      have "popLoop pick now n ?h = (t, h')" using 3 ne Suc.prems(3) by (simp add: Let_def)
      moreover have "length (timerHeap ?h) \<le> n" using Suc.prems(2) tin by (simp add: length_remove1)
      ultimately have "heap_inv h' \<and> (case data t of
          None \<Rightarrow> t = noTimeout \<and> armed h' = armed ?h \<and> (\<forall>k d. armed ?h k = Some d \<longrightarrow> now < d)
        | Some k \<Rightarrow> armed ?h k = Some (deadline t) \<and> deadline t \<le> now \<and> t \<in> set (timerHeap ?h) \<and>
            (\<forall>j d. armed ?h j = Some d \<longrightarrow> deadline t \<le> d) \<and> armed h' = (armed ?h)(k := None))"
        using Suc.IH [OF heap_inv_drop_stale [OF inv 3 tin]] by simp
      moreover have "armed ?h = armed h" by (simp add: armed_def)
      ultimately show ?thesis by (auto split: option.splits dest: set_remove1_subset [THEN subsetD])
    qed
  qed
qed

lemmas pop_spec = popLoop_spec [OF _ order_refl, folded popTimeout_def]

end

lemma popLoop_heap: "popLoop pick now n h = (t, h') \<Longrightarrow> set (timerHeap h') \<subseteq> set (timerHeap h)"
proof (induction n arbitrary: h)
  case (Suc n)
  from Suc show ?case
    by (auto simp: Let_def eraseKey_def split: if_splits option.splits dest!: set_remove1_subset [THEN subsetD])
       (metis (no_types, lifting) Suc.IH set_remove1_subset subsetD timed_heap.select_convs(2) timed_heap.surjective timed_heap.update_convs(2))
qed simp

section \<open>Histories\<close>

text \<open>
  Commands to the queue and what they show: a key armed with a deadline, a key
  erased, and what a \<open>pop\<close> at a given time returned.
\<close>

datatype 'k timer_cmd = Push 'k nat bool | Erase 'k | Pop nat

datatype 'k timer_event = Pushed 'k nat | Erased 'k | Popped nat 'k nat | Idle nat

fun timerStep ::
  "('k timeout list \<Rightarrow> 'k timeout) \<Rightarrow> 'k timer_cmd \<Rightarrow> 'k timed_heap \<Rightarrow> 'k timer_event \<times> 'k timed_heap" where
  "timerStep pick (Push k d r) h = (Pushed k d, pushTimeout \<lparr>data = Some k, deadline = d, repeat = r\<rparr> h)"
| "timerStep pick (Erase k) h = (Erased k, eraseKey (Some k) h)"
| "timerStep pick (Pop now) h =
     (let (t, h') = popTimeout pick now h
      in (case data t of None \<Rightarrow> Idle now | Some k \<Rightarrow> Popped now k (deadline t), h'))"

fun timerRun ::
  "('k timeout list \<Rightarrow> 'k timeout) \<Rightarrow> 'k timer_cmd list \<Rightarrow> 'k timed_heap \<Rightarrow> 'k timer_event list" where
  "timerRun pick [] h = []"
| "timerRun pick (c # cs) h = (let (e, h') = timerStep pick c h in e # timerRun pick cs h')"

text \<open>
  The abstract queue is the map of armed keys. A \<open>pop\<close> may return a key only when
  it is armed, its deadline has passed and no armed deadline is earlier; it may
  return nothing only when no armed deadline has passed.
\<close>

fun legalHistory :: "('k \<rightharpoonup> nat) \<Rightarrow> 'k timer_event list \<Rightarrow> bool" where
  "legalHistory m [] \<longleftrightarrow> True"
| "legalHistory m (Pushed k d # es) \<longleftrightarrow> legalHistory (m(k \<mapsto> d)) es"
| "legalHistory m (Erased k # es) \<longleftrightarrow> legalHistory (m(k := None)) es"
| "legalHistory m (Popped now k d # es) \<longleftrightarrow>
     m k = Some d \<and> d \<le> now \<and> (\<forall>j d'. m j = Some d' \<longrightarrow> d \<le> d') \<and> legalHistory (m(k := None)) es"
| "legalHistory m (Idle now # es) \<longleftrightarrow> (\<forall>j d. m j = Some d \<longrightarrow> now < d) \<and> legalHistory m es"

fun positive :: "'k timer_cmd \<Rightarrow> bool" where
  "positive (Push k d r) = (0 < d)"
| "positive (Erase k) = True"
| "positive (Pop now) = True"

context least_top
begin

lemma timerRun_legal:
  assumes "heap_inv h" and "\<forall>c \<in> set cs. positive c"
  shows "legalHistory (armed h) (timerRun pick cs h)"
  using assms
proof (induction cs arbitrary: h)
  case (Cons c cs)
  show ?case
  proof (cases c)
    case (Push k d r)
    let ?h = "pushTimeout \<lparr>data = Some k, deadline = d, repeat = r\<rparr> h"
    have "heap_inv ?h" using Cons.prems Push by (intro heap_inv_push) simp_all
    with Cons.IH [of ?h] Cons.prems(2) have "legalHistory (armed ?h) (timerRun pick cs ?h)" by simp
    moreover have arm: "armed ?h = (armed h)(k \<mapsto> d)" by (rule trans [OF armed_push]) simp_all
    ultimately show ?thesis unfolding arm by (simp add: Push)
  next
    case (Erase k)
    have "legalHistory (armed (eraseKey (Some k) h)) (timerRun pick cs (eraseKey (Some k) h))"
      using Cons.IH [OF heap_inv_erase [OF Cons.prems(1)]] Cons.prems(2) by fastforce
    then show ?thesis unfolding armed_erase by (simp add: Erase)
  next
    case (Pop now)
    obtain t h' where pop: "popTimeout pick now h = (t, h')" by fastforce
    note spec = pop_spec [OF Cons.prems(1) pop]
    then have IH: "legalHistory (armed h') (timerRun pick cs h')"
      using Cons.IH [of h'] Cons.prems(2) by simp
    show ?thesis
    proof (cases "data t")
      case None
      with spec have "armed h' = armed h" "\<forall>k d. armed h k = Some d \<longrightarrow> now < d" by simp_all
      with IH None Pop pop show ?thesis by simp
    next
      case (Some k)
      then have "legalHistory (armed h) (timerRun pick (c # cs) h) \<longleftrightarrow>
          legalHistory ((armed h)(k := None)) (timerRun pick cs h')"
        using spec Pop pop by simp
      moreover have arm: "armed h' = (armed h)(k := None)" using spec Some by simp
      ultimately show ?thesis using IH unfolding arm by blast
    qed
  qed
qed simp

end

section \<open>A top that keeps the promise\<close>

fun leastTimeout :: "'k timeout list \<Rightarrow> 'k timeout" where
  "leastTimeout [] = noTimeout"
| "leastTimeout [t] = t"
| "leastTimeout (t # ts) = (let m = leastTimeout ts in if timeout_less m t then m else t)"

lemma leastTimeout_in: "hs \<noteq> [] \<Longrightarrow> leastTimeout hs \<in> set hs"
  by (induction hs rule: leastTimeout.induct) (auto simp: Let_def)

lemma leastTimeout_least: "x \<in> set hs \<Longrightarrow> \<not> timeout_less x (leastTimeout hs)"
  by (induction hs rule: leastTimeout.induct) (auto simp: Let_def timeout_less_def)

interpretation lt: least_top leastTimeout
  by unfold_locales (auto simp: leastTimeout_in leastTimeout_least)

text \<open>
  C16: whichever entry of least deadline the heap shows first, every history of
  pushes, erasures and pops from an empty queue is one of the abstract queue:
  a pop returns an armed key whose deadline has passed and is the earliest, and
  returns nothing only when no armed deadline has passed. Re-armed and erased
  keys never fire on an old deadline.
\<close>

theorem timer_history_legal:
  assumes "least_top pick" and "\<forall>c \<in> set cmds. positive c"
  shows "legalHistory Map.empty (timerRun pick cmds emptyHeap)"
  using least_top.timerRun_legal [OF assms(1) heap_inv_empty assms(2)] by simp

theorem timer_history_legal_witness:
  "timerRun leastTimeout [Push (1 :: nat) 30 False, Push 2 10 False, Push 2 20 True, Pop 15, Pop 25, Erase 1, Pop 40] emptyHeap
     = [Pushed 1 30, Pushed 2 10, Pushed 2 20, Idle 15, Popped 25 2 20, Erased 1, Idle 40] \<and>
   legalHistory Map.empty
     (timerRun leastTimeout [Push (1 :: nat) 30 False, Push 2 10 False, Push 2 20 True, Pop 15, Pop 25, Erase 1, Pop 40] emptyHeap)"
proof
  show "legalHistory Map.empty
     (timerRun leastTimeout [Push (1 :: nat) 30 False, Push 2 10 False, Push 2 20 True, Pop 15, Pop 25, Erase 1, Pop 40] emptyHeap)"
    by (rule timer_history_legal [OF lt.least_top_axioms]) simp
qed code_simp

text \<open>
  An entry with deadline 0 fires even after its key was erased, because a
  missing key compares as the default timeout, whose deadline is 0.
\<close>

lemma zero_deadline_fires_after_erase:
  "fst (popTimeout leastTimeout now
     (eraseKey (Some k) (pushTimeout \<lparr>data = Some k, deadline = 0, repeat = r\<rparr> emptyHeap)))
   = \<lparr>data = Some k, deadline = 0, repeat = r\<rparr>"
  by (simp add: emptyHeap_def pushTimeout_def eraseKey_def popTimeout_def isCurrent_def timeout_eq_def
      get_default_def noTimeout_def)

end
