(* ===== verification/Event_Loop.thy ===== *)
theory Event_Loop
  imports Timed_Heap
begin

text \<open>
  The event loop: \<^verbatim>\<open>Event\<close> (\<^verbatim>\<open>src/raster/io/event/Event.h\<close>, \<^verbatim>\<open>Event.cpp\<close>), \<^verbatim>\<open>EventLoop\<close>
  (\<^verbatim>\<open>EventLoop.cpp\<close>), \<^verbatim>\<open>EventHandler\<close> (\<^verbatim>\<open>EventHandler.cpp\<close>) and the interest set of
  \<^verbatim>\<open>Poll\<close> (\<^verbatim>\<open>Poll.h\<close>, \<^verbatim>\<open>Poll.cpp\<close>). Event objects live in a store, so a use of a deleted
  one is a fault. Logging and monitoring counters are left out; sockets, the
  protocol of a channel and the clock are parameters.
\<close>

section \<open>Events\<close>

datatype event_type =
    INIT | FAIL | LISTEN | TIMEOUT | ERROR | TOREAD | READING | READED
  | TOWRITE | WRITING | WRITED | NEXT | CONNECT | WAKER

datatype role = ROLE_NONE | LISTENER | SERVER | CLIENT

record timeout_option =
  ctimeout :: nat
  rtimeout :: nat
  wtimeout :: nat

record event =
  seqid :: int
  etype :: event_type
  egroup :: nat
  forward :: bool
  efd :: int
  erole :: role
  channelId :: int
  eexecutor :: "nat option"
  rbuf :: "8 word list"
  wbuf :: "8 word list"
  rlen :: nat
  wlen :: nat
  timestamps :: "(event_type \<times> nat) list"
  timeoutOpt :: timeout_option

text \<open>Unsigned 64-bit arithmetic on microseconds.\<close>

definition u64_add :: "nat \<Rightarrow> nat \<Rightarrow> nat" where
  "u64_add a b = (a + b) mod 2 ^ 64"

definition u64_sub :: "nat \<Rightarrow> nat \<Rightarrow> nat" where
  "u64_sub a b = (a + (2 ^ 64 - b mod 2 ^ 64)) mod 2 ^ 64"

definition LTIMEOUT :: nat where "LTIMEOUT = 600000000"
definition LCOUNT :: nat where "LCOUNT = 80000"

definition starttime :: "event \<Rightarrow> nat" where
  "starttime e = (case timestamps e of [] \<Rightarrow> 0 | (_, t) # _ \<Rightarrow> t)"

definition cost :: "nat \<Rightarrow> event \<Rightarrow> nat" where
  "cost now e = (if timestamps e = [] then 0 else u64_sub now (starttime e))"

definition record_stamp :: "event_type \<Rightarrow> nat \<Rightarrow> event \<Rightarrow> event" where
  "record_stamp stage now e =
     (let stamp = (if timestamps e = [] then now else u64_sub now (starttime e))
      in e\<lparr>timestamps := timestamps e @ [(stage, stamp)]\<rparr>)"

definition setTypeAt :: "event_type \<Rightarrow> nat \<Rightarrow> event \<Rightarrow> event" where
  "setTypeAt t now e = record_stamp t now (e\<lparr>etype := t\<rparr>)"

definition restart :: "nat \<Rightarrow> event \<Rightarrow> event" where
  "restart now e = e\<lparr>timestamps := [(INIT, now)]\<rparr>"

text \<open>Incrementing the largest \<^verbatim>\<open>int\<close> is undefined.\<close>

definition reset :: "nat \<Rightarrow> event \<Rightarrow> event result" where
  "reset now e =
     guard (seqid e < 2 ^ 31 - 1) Undefined
       (Inr ((restart now e)\<lparr>seqid := max (seqid e + 1) 1, etype := INIT, egroup := 0,
          forward := False, eexecutor := None, rbuf := [], wbuf := [], rlen := 0, wlen := 0\<rparr>))"

definition newEvent :: "int \<Rightarrow> timeout_option \<Rightarrow> int \<Rightarrow> role \<Rightarrow> nat \<Rightarrow> event" where
  "newEvent cid opt fd r now =
     \<lparr>seqid = 1, etype = INIT, egroup = 0, forward = False, efd = fd, erole = r, channelId = cid,
      eexecutor = None, rbuf = [], wbuf = [], rlen = 0, wlen = 0,
      timestamps = [(INIT, now)], timeoutOpt = opt\<rparr>"

definition isConnectTimeout :: "nat \<Rightarrow> event \<Rightarrow> bool" where
  "isConnectTimeout now e \<longleftrightarrow> cost now e > ctimeout (timeoutOpt e)"

definition isReadTimeout :: "nat \<Rightarrow> event \<Rightarrow> bool" where
  "isReadTimeout now e \<longleftrightarrow> cost now e > rtimeout (timeoutOpt e)"

definition isWriteTimeout :: "nat \<Rightarrow> event \<Rightarrow> bool" where
  "isWriteTimeout now e \<longleftrightarrow> cost now e > wtimeout (timeoutOpt e)"

definition edeadline :: "nat \<Rightarrow> event \<Rightarrow> nat timeout" where
  "edeadline i e = \<lparr>data = Some i, deadline = u64_add (starttime e) LTIMEOUT, repeat = True\<rparr>"

definition rdeadline :: "nat \<Rightarrow> event \<Rightarrow> nat timeout" where
  "rdeadline i e =
     \<lparr>data = Some i, deadline = u64_add (starttime e) (rtimeout (timeoutOpt e)), repeat = False\<rparr>"

definition wdeadline :: "nat \<Rightarrow> event \<Rightarrow> nat timeout" where
  "wdeadline i e =
     \<lparr>data = Some i, deadline = u64_add (starttime e) (wtimeout (timeoutOpt e)), repeat = False\<rparr>"

section \<open>The loop\<close>

text \<open>
  The environment of a loop: the successive readings of the clock, the top of
  the timer heap, the outcome of the socket calls, and the protocol of a channel.
  \<open>readData\<close> and \<open>writeData\<close> return the code of \<^verbatim>\<open>Protocol::readData\<close> and the event as
  they leave it.
\<close>

record env =
  clock :: "nat \<Rightarrow> nat"
  heapTop :: "nat timeout list \<Rightarrow> nat timeout"
  readData :: "event \<Rightarrow> int \<times> event"
  writeData :: "event \<Rightarrow> int \<times> event"
  acceptSocket :: "event \<Rightarrow> int option"
  socketError :: "event \<Rightarrow> int"
  exceedLimit :: bool
  socketCount :: nat

datatype interest = EPOLLIN | EPOLLOUT

record event_loop =
  store :: "nat \<rightharpoonup> event"
  nextId :: nat
  poll :: "int \<rightharpoonup> interest \<times> nat"
  deadlineHeap :: "nat timed_heap"
  pendingEvents :: "nat list"
  executed :: "nat list"
  tick :: nat

text \<open>\<open>executed\<close> lists the events handed to \<^verbatim>\<open>Actor::execute\<close>, in order.\<close>

definition withEvent :: "nat \<Rightarrow> event_loop \<Rightarrow> (event \<Rightarrow> 'a result) \<Rightarrow> 'a result" where
  "withEvent i s f = (case store s i of None \<Rightarrow> Inl Undefined | Some e \<Rightarrow> f e)"

definition putEvent :: "nat \<Rightarrow> event \<Rightarrow> event_loop \<Rightarrow> event_loop" where
  "putEvent i e s = s\<lparr>store := (store s)(i \<mapsto> e)\<rparr>"

definition readClock :: "env \<Rightarrow> event_loop \<Rightarrow> nat \<times> event_loop" where
  "readClock en s = (clock en (tick s), s\<lparr>tick := tick s + 1\<rparr>)"

definition setType :: "env \<Rightarrow> event_type \<Rightarrow> nat \<Rightarrow> event_loop \<Rightarrow> event_loop result" where
  "setType en t i s = withEvent i s (\<lambda>e.
     let (now, s1) = readClock en s in Inr (putEvent i (setTypeAt t now e) s1))"

text \<open>\<^verbatim>\<open>epoll_ctl\<close>: adding a registered descriptor fails and is only logged, as is removing an unknown one.\<close>

definition pollAdd :: "int \<Rightarrow> interest \<Rightarrow> nat \<Rightarrow> event_loop \<Rightarrow> event_loop" where
  "pollAdd fd m i s =
     (case poll s fd of None \<Rightarrow> s\<lparr>poll := (poll s)(fd \<mapsto> (m, i))\<rparr> | Some _ \<Rightarrow> s)"

definition pollRemove :: "int \<Rightarrow> event_loop \<Rightarrow> event_loop" where
  "pollRemove fd s = s\<lparr>poll := (poll s)(fd := None)\<rparr>"

definition pushDeadline :: "nat timeout \<Rightarrow> event_loop \<Rightarrow> event_loop" where
  "pushDeadline t s = s\<lparr>deadlineHeap := pushTimeout t (deadlineHeap s)\<rparr>"

definition eraseDeadline :: "nat \<Rightarrow> event_loop \<Rightarrow> event_loop" where
  "eraseDeadline i s = s\<lparr>deadlineHeap := eraseKey (Some i) (deadlineHeap s)\<rparr>"

definition addListenEvent :: "nat \<Rightarrow> event_loop \<Rightarrow> event_loop result" where
  "addListenEvent i s = withEvent i s (\<lambda>e.
     guard (etype e = LISTEN) Assert_Failed (Inr (pollAdd (efd e) EPOLLIN i s)))"

definition addReadEvent :: "nat \<Rightarrow> event_loop \<Rightarrow> event_loop result" where
  "addReadEvent i s = withEvent i s (\<lambda>e.
     guard (etype e = NEXT \<or> etype e = TOREAD) Assert_Failed
       (Inr (pollAdd (efd e) EPOLLIN i
          (pushDeadline (if etype e = NEXT then edeadline i e else rdeadline i e) s))))"

definition addWriteEvent :: "nat \<Rightarrow> event_loop \<Rightarrow> event_loop result" where
  "addWriteEvent i s = withEvent i s (\<lambda>e.
     guard (etype e = CONNECT \<or> etype e = TOWRITE) Assert_Failed
       (Inr (pollAdd (efd e) EPOLLOUT i (pushDeadline (wdeadline i e) s))))"

definition dispatchEvent :: "nat \<Rightarrow> event_loop \<Rightarrow> event_loop result" where
  "dispatchEvent i s = withEvent i s (\<lambda>e.
     case etype e of
       LISTEN \<Rightarrow> addListenEvent i s
     | NEXT \<Rightarrow> addReadEvent i s
     | TOREAD \<Rightarrow> addReadEvent i s
     | CONNECT \<Rightarrow> addWriteEvent i s
     | TOWRITE \<Rightarrow> addWriteEvent i s
     | _ \<Rightarrow> Inr s)"

definition removeEvent :: "nat \<Rightarrow> event_loop \<Rightarrow> event_loop result" where
  "removeEvent i s = withEvent i s (\<lambda>e. Inr (pollRemove (efd e) (eraseDeadline i s)))"

definition restartEvent :: "env \<Rightarrow> nat \<Rightarrow> event_loop \<Rightarrow> event_loop result" where
  "restartEvent en i s = withEvent i s (\<lambda>e.
     let (now, s1) = readClock en (eraseDeadline i s);
         e1 = restart now e
     in Inr (pushDeadline (rdeadline i e1) (putEvent i e1 s1)))"

definition addEvent :: "nat \<Rightarrow> event_loop \<Rightarrow> event_loop" where
  "addEvent i s = s\<lparr>pendingEvents := pendingEvents s @ [i]\<rparr>"

section \<open>The handler\<close>

definition deleteEvent :: "nat \<Rightarrow> event_loop \<Rightarrow> event_loop result" where
  "deleteEvent i s = withEvent i s (\<lambda>_. Inr (s\<lparr>store := (store s)(i := None)\<rparr>))"

definition actorExecute :: "nat \<Rightarrow> event_loop \<Rightarrow> event_loop result" where
  "actorExecute i s = withEvent i s (\<lambda>_. Inr (s\<lparr>executed := executed s @ [i]\<rparr>))"

definition closePeer :: "env \<Rightarrow> nat \<Rightarrow> event_loop \<Rightarrow> event_loop result" where
  "closePeer en i s =
     res_bind (removeEvent i s) (\<lambda>s1. withEvent i s1 (\<lambda>e.
       if erole e = CLIENT
       then res_bind (setType en FAIL i s1) (actorExecute i)
       else deleteEvent i s1))"

definition onTimeout :: "env \<Rightarrow> nat \<Rightarrow> event_loop \<Rightarrow> event_loop result" where
  "onTimeout en i s = withEvent i s (\<lambda>e. guard (etype e = TIMEOUT) Assert_Failed (closePeer en i s))"

definition onError :: "env \<Rightarrow> nat \<Rightarrow> event_loop \<Rightarrow> event_loop result" where
  "onError en i s = withEvent i s (\<lambda>e. guard (etype e = ERROR) Assert_Failed (closePeer en i s))"

text \<open>\<^verbatim>\<open>setType(TIMEOUT)\<close> or \<^verbatim>\<open>setType(ERROR)\<close> followed by the handler for it.\<close>

definition timeoutEvent :: "env \<Rightarrow> nat \<Rightarrow> event_loop \<Rightarrow> event_loop result" where
  "timeoutEvent en i s = res_bind (setType en TIMEOUT i s) (onTimeout en i)"

definition errorEvent :: "env \<Rightarrow> nat \<Rightarrow> event_loop \<Rightarrow> event_loop result" where
  "errorEvent en i s = res_bind (setType en ERROR i s) (onError en i)"

definition completeRead :: "nat \<Rightarrow> event_loop \<Rightarrow> event_loop result" where
  "completeRead i s = withEvent i s (\<lambda>e.
     res_bind (if erole e = CLIENT \<and> forward e then deleteEvent i s else Inr s) (actorExecute i))"

definition completeWrite :: "env \<Rightarrow> nat \<Rightarrow> event_loop \<Rightarrow> event_loop result" where
  "completeWrite en i s = withEvent i s (\<lambda>e.
     res_bind
       (if erole e = SERVER
        then let (now, s1) = readClock en s
             in res_bind (reset now e) (\<lambda>e1. setType en NEXT i (putEvent i e1 s1))
        else setType en TOREAD i s)
       (dispatchEvent i))"

definition onComplete :: "env \<Rightarrow> nat \<Rightarrow> event_loop \<Rightarrow> event_loop result" where
  "onComplete en i s = withEvent i s (\<lambda>e.
     let (now, s1) = readClock en s
     in if etype e = READED \<and> isReadTimeout now e then timeoutEvent en i s1
        else if etype e = WRITED \<and> isWriteTimeout now e then timeoutEvent en i s1
        else res_bind (removeEvent i s1) (\<lambda>s2.
          case etype e of
            READED \<Rightarrow> completeRead i s2
          | WRITED \<Rightarrow> completeWrite en i s2
          | _ \<Rightarrow> Inr s2))"

definition onConnect :: "env \<Rightarrow> nat \<Rightarrow> event_loop \<Rightarrow> event_loop result" where
  "onConnect en i s = withEvent i s (\<lambda>e.
     guard (etype e = CONNECT) Assert_Failed
       (let (now, s1) = readClock en s
        in if isConnectTimeout now e then timeoutEvent en i s1
           else if socketError en e \<noteq> 0 then errorEvent en i s1
           else setType en TOWRITE i s1))"

definition onRead :: "env \<Rightarrow> nat \<Rightarrow> event_loop \<Rightarrow> event_loop result" where
  "onRead en i s =
     res_bind (setType en READING i s) (\<lambda>s1. withEvent i s1 (\<lambda>e.
       let (r, e1) = readData en e; s2 = putEvent i e1 s1
       in if r = -1 then (if etype e1 = TIMEOUT then onTimeout en i s2 else errorEvent en i s2)
          else if r = 0 then res_bind (setType en READED i s2) (onComplete en i)
          else if r = 2 then closePeer en i s2
          else Inr s2))"

definition onWrite :: "env \<Rightarrow> nat \<Rightarrow> event_loop \<Rightarrow> event_loop result" where
  "onWrite en i s =
     res_bind (setType en WRITING i s) (\<lambda>s1. withEvent i s1 (\<lambda>e.
       let (r, e1) = writeData en e; s2 = putEvent i e1 s1
       in if r = -1 then (if etype e1 = TIMEOUT then onTimeout en i s2 else errorEvent en i s2)
          else if r = 0 then res_bind (setType en WRITED i s2) (onComplete en i)
          else Inr s2))"

text \<open>
  \<^verbatim>\<open>onListen\<close>: \<open>acceptSocket\<close> is the descriptor of an accepted connection on which all
  options could be set, or \<open>None\<close>. The new event is allocated at a fresh address.
\<close>

definition onListen :: "env \<Rightarrow> nat \<Rightarrow> event_loop \<Rightarrow> event_loop result" where
  "onListen en i s = withEvent i s (\<lambda>e.
     guard (etype e = LISTEN) Assert_Failed
       (case acceptSocket en e of
          None \<Rightarrow> Inr s
        | Some fd \<Rightarrow>
            if exceedLimit en then Inr s
            else
              let (now, s1) = readClock en s;
                  j = nextId s1;
                  s2 = putEvent j (newEvent (channelId e) (timeoutOpt e) fd SERVER now)
                         (s1\<lparr>nextId := j + 1\<rparr>);
                  (now', s3) = readClock en s2
              in withEvent j s3 (\<lambda>e1.
                   if isConnectTimeout now' e1 then timeoutEvent en j s3
                   else res_bind (setType en NEXT j s3) (dispatchEvent j))))"

definition handleEvent :: "env \<Rightarrow> nat \<Rightarrow> event_loop \<Rightarrow> event_loop result" where
  "handleEvent en i s = withEvent i s (\<lambda>e.
     case etype e of
       LISTEN \<Rightarrow> onListen en i s
     | CONNECT \<Rightarrow> onConnect en i s
     | NEXT \<Rightarrow> res_bind (restartEvent en i s) (onRead en i)
     | TOREAD \<Rightarrow> onRead en i s
     | READING \<Rightarrow> onRead en i s
     | TOWRITE \<Rightarrow> onWrite en i s
     | WRITING \<Rightarrow> onWrite en i s
     | TIMEOUT \<Rightarrow> onTimeout en i s
     | _ \<Rightarrow> closePeer en i s)"

section \<open>Timeouts\<close>

text \<open>
  \<^verbatim>\<open>checkTimeoutEvent\<close>: a repeating deadline is put back while there are few
  connections. Every other turn closes an event; \<open>fuel\<close> bounds the turns.
\<close>

fun checkTimeouts :: "nat \<Rightarrow> env \<Rightarrow> nat \<Rightarrow> event_loop \<Rightarrow> event_loop result" where
  "checkTimeouts 0 en now s = Inl Diverges"
| "checkTimeouts (Suc fuel) en now s =
     (let (t, h) = popTimeout (heapTop en) now (deadlineHeap s); s1 = s\<lparr>deadlineHeap := h\<rparr>
      in case data t of
           None \<Rightarrow> Inr s1
         | Some i \<Rightarrow>
             if repeat t \<and> socketCount en < LCOUNT
             then checkTimeouts fuel en now
                    (pushDeadline (t\<lparr>deadline := u64_add (deadline t) LTIMEOUT\<rparr>) s1)
             else res_bind (timeoutEvent en i s1) (checkTimeouts fuel en now))"

definition checkTimeoutEvent :: "nat \<Rightarrow> env \<Rightarrow> event_loop \<Rightarrow> event_loop result" where
  "checkTimeoutEvent fuel en s =
     (let (now, s1) = readClock en s in checkTimeouts fuel en now s1)"

fun dispatchAll :: "nat list \<Rightarrow> event_loop \<Rightarrow> event_loop result" where
  "dispatchAll [] s = Inr s"
| "dispatchAll (i # is) s = res_bind (dispatchEvent i s) (dispatchAll is)"

fun handleAll :: "env \<Rightarrow> nat list \<Rightarrow> event_loop \<Rightarrow> event_loop result" where
  "handleAll en [] s = Inr s"
| "handleAll en (i # is) s = res_bind (handleEvent en i s) (handleAll en is)"

text \<open>
  One turn of \<^verbatim>\<open>loopBody\<close>: the events added by other threads are dispatched, due
  deadlines are checked, and the events that \<^verbatim>\<open>epoll_wait\<close> reports of the registered
  ones are handled. The callbacks of other components, which run between the
  first two steps, and the waker, which only interrupts \<^verbatim>\<open>epoll_wait\<close>, are not part
  of the state.
\<close>

definition loopTurn ::
  "nat \<Rightarrow> env \<Rightarrow> ((int \<rightharpoonup> interest \<times> nat) \<Rightarrow> nat list) \<Rightarrow> event_loop \<Rightarrow> event_loop result" where
  "loopTurn fuel en report s =
     res_bind (dispatchAll (pendingEvents s) (s\<lparr>pendingEvents := []\<rparr>)) (\<lambda>s1.
     res_bind (checkTimeoutEvent fuel en s1) (\<lambda>s2. handleAll en (report (poll s2)) s2))"

section \<open>Well-formed loops\<close>

text \<open>
  Times stay far from the end of the 64-bit range: readings of the clock are
  positive and below \<open>2 ^ 62\<close> microseconds, and so are the configured timeouts.
\<close>

definition event_ok :: "event \<Rightarrow> bool" where
  "event_ok e \<longleftrightarrow> timestamps e \<noteq> [] \<and> 0 < starttime e \<and> starttime e < 2 ^ 62 \<and>
     rtimeout (timeoutOpt e) < 2 ^ 62 \<and> wtimeout (timeoutOpt e) < 2 ^ 62"

text \<open>What a handler may not change of an event while it is at work on it.\<close>

definition like :: "event \<Rightarrow> event \<Rightarrow> bool" where
  "like e e' \<longleftrightarrow> efd e' = efd e \<and> erole e' = erole e \<and> forward e' = forward e \<and>
     seqid e' = seqid e \<and> timeoutOpt e' = timeoutOpt e \<and> channelId e' = channelId e \<and>
     timestamps e' \<noteq> [] \<and> starttime e' = starttime e"

text \<open>
  A protocol works on the buffers of the event, and marks it as timed out only
  when it returns -1.
\<close>

definition protocol_ok :: "(event \<Rightarrow> int \<times> event) \<Rightarrow> bool" where
  "protocol_ok io \<longleftrightarrow> (\<forall>e. timestamps e \<noteq> [] \<longrightarrow> like e (snd (io e)) \<and>
     (etype (snd (io e)) = etype e \<or> fst (io e) = -1 \<and> etype (snd (io e)) = TIMEOUT))"

definition env_ok :: "env \<Rightarrow> bool" where
  "env_ok en \<longleftrightarrow> (\<forall>n. 0 < clock en n \<and> clock en n < 2 ^ 62) \<and> least_top (heapTop en) \<and>
     protocol_ok (readData en) \<and> protocol_ok (writeData en)"

text \<open>
  The loop holds no dangling pointer: what is registered for polling is a live
  event with that descriptor, what has a deadline is live, and the addresses to
  come are free.
\<close>

definition loop_inv :: "event_loop \<Rightarrow> bool" where
  "loop_inv s \<longleftrightarrow>
     (\<forall>fd m i. poll s fd = Some (m, i) \<longrightarrow> (\<exists>e. store s i = Some e \<and> efd e = fd)) \<and>
     (\<forall>i d. armed (deadlineHeap s) i = Some d \<longrightarrow> store s i \<noteq> None) \<and>
     heap_inv (deadlineHeap s) \<and>
     (\<forall>i e. store s i = Some e \<longrightarrow> event_ok e \<and> i < nextId s)"

text \<open>The loop refers to the event no more.\<close>

definition released :: "nat \<Rightarrow> event_loop \<Rightarrow> bool" where
  "released i s \<longleftrightarrow> (\<forall>fd m. poll s fd \<noteq> Some (m, i)) \<and> armed (deadlineHeap s) i = None"

text \<open>
  The three ways a handler can leave an event: still with the loop, handed to its
  fiber, or deleted. In the last two the loop no longer refers to it.
\<close>

definition typeOf :: "event_loop \<Rightarrow> nat \<Rightarrow> event_type option" where
  "typeOf s i = map_option etype (store s i)"

definition kept :: "event_type set \<Rightarrow> nat \<Rightarrow> event_loop \<Rightarrow> event_loop \<Rightarrow> bool" where
  "kept K i s s' \<longleftrightarrow> executed s' = executed s \<and> (\<exists>t \<in> K. typeOf s' i = Some t)"

definition handed :: "event_type set \<Rightarrow> nat \<Rightarrow> event_loop \<Rightarrow> event_loop \<Rightarrow> bool" where
  "handed H i s s' \<longleftrightarrow> executed s' = executed s @ [i] \<and> (\<exists>t \<in> H. typeOf s' i = Some t) \<and> released i s'"

definition deleted :: "nat \<Rightarrow> event_loop \<Rightarrow> event_loop \<Rightarrow> bool" where
  "deleted i s s' \<longleftrightarrow> executed s' = executed s \<and> store s' i = None \<and> released i s'"

text \<open>An operation that returns without a fault, keeps the invariant and leaves the event in one of these ways.\<close>

text \<open>Registrations for polling made between two states are of event \<open>i\<close> only.\<close>

definition onlyAdds :: "nat \<Rightarrow> (int \<rightharpoonup> interest \<times> nat) \<Rightarrow> (int \<rightharpoonup> interest \<times> nat) \<Rightarrow> bool" where
  "onlyAdds i p p' \<longleftrightarrow> (\<forall>f m k. k \<noteq> i \<longrightarrow> p' f = Some (m, k) \<longrightarrow> p f = Some (m, k))"

definition others :: "nat \<Rightarrow> int \<Rightarrow> event_loop \<Rightarrow> event_loop \<Rightarrow> bool" where
  "others i fd s s' \<longleftrightarrow> nextId s' = nextId s \<and> (\<forall>f. f \<noteq> fd \<longrightarrow> poll s' f = poll s f) \<and>
     onlyAdds i (poll s) (poll s') \<and>
     (\<forall>k. k \<noteq> i \<longrightarrow> store s' k = store s k \<and> armed (deadlineHeap s') k = armed (deadlineHeap s) k)"

definition settles ::
  "event_type set \<Rightarrow> event_type set \<Rightarrow> bool \<Rightarrow> int \<Rightarrow> nat \<Rightarrow> event_loop \<Rightarrow> event_loop result \<Rightarrow> bool" where
  "settles K H D fd i s r \<longleftrightarrow>
     (\<exists>s'. r = Inr s' \<and> loop_inv s' \<and> others i fd s s' \<and>
        (kept K i s s' \<or> handed H i s s' \<or> D \<and> deleted i s s'))"

lemmas outcome_defs = kept_def handed_def deleted_def typeOf_def

named_theorems loop_simps \<open>evaluation of the loop's operations on a live event\<close>

lemma withEvent_Some [simp, loop_simps]: "store s i = Some e \<Longrightarrow> withEvent i s f = f e"
  by (simp add: withEvent_def)

lemma putEvent_simps [simp]:
  "store (putEvent i e s) = (store s)(i \<mapsto> e)" "poll (putEvent i e s) = poll s"
  "deadlineHeap (putEvent i e s) = deadlineHeap s" "executed (putEvent i e s) = executed s"
  "nextId (putEvent i e s) = nextId s" "tick (putEvent i e s) = tick s"
  by (simp_all add: putEvent_def)

lemma onlyAdds_refl [simp]: "onlyAdds i p p"
  by (simp add: onlyAdds_def)

lemma onlyAdds_trans: "onlyAdds i p p1 \<Longrightarrow> onlyAdds i p1 p2 \<Longrightarrow> onlyAdds i p p2"
  unfolding onlyAdds_def by blast

lemma onlyAdds_update [simp, intro]:
  "onlyAdds i p p' \<Longrightarrow> onlyAdds i p (p'(fd := None))"
  "onlyAdds i p p' \<Longrightarrow> onlyAdds i p (p'(fd \<mapsto> (m, i)))"
  by (simp_all add: onlyAdds_def)

lemma others_refl [simp]: "others i fd s s"
  by (simp add: others_def)

lemma others_trans: "others i fd s s1 \<Longrightarrow> others i fd s1 s2 \<Longrightarrow> others i fd s s2"
  unfolding others_def by (auto intro: onlyAdds_trans)

lemma others_update [simp]:
  "others i fd s (s'\<lparr>executed := es\<rparr>) = others i fd s s'"
  "others i fd s (s'\<lparr>tick := n\<rparr>) = others i fd s s'"
  "others i fd (s\<lparr>tick := n\<rparr>) s' = others i fd s s'"
  "others i fd s (s'\<lparr>store := (store s')(i := None)\<rparr>) = others i fd s s'"
  "others i fd s (putEvent i e s') = others i fd s s'"
  "others i fd (putEvent i e s) s' = others i fd s s'"
  by (simp_all add: others_def putEvent_def)

lemma like_refl: "timestamps e \<noteq> [] \<Longrightarrow> like e e"
  by (simp add: like_def)

lemma like_trans: "like e e1 \<Longrightarrow> like e1 e2 \<Longrightarrow> like e e2"
  by (simp add: like_def)

lemma like_ok: "like e e' \<Longrightarrow> event_ok e \<Longrightarrow> event_ok e'"
  by (simp add: like_def event_ok_def)

lemma starttime_snoc: "timestamps e \<noteq> [] \<Longrightarrow> timestamps e' = timestamps e @ xs \<Longrightarrow> starttime e' = starttime e"
  by (cases "timestamps e") (auto simp: starttime_def)

lemma like_setTypeAt: "timestamps e \<noteq> [] \<Longrightarrow> like e (setTypeAt t now e)"
  using starttime_snoc [of e "setTypeAt t now e"]
  by (simp add: like_def setTypeAt_def record_stamp_def Let_def starttime_def)

lemma etype_setTypeAt [simp]: "etype (setTypeAt t now e) = t"
  by (simp add: setTypeAt_def record_stamp_def Let_def)

lemma loop_inv_live: "loop_inv s \<Longrightarrow> store s i = Some e \<Longrightarrow> event_ok e \<and> i < nextId s"
  by (simp add: loop_inv_def)

lemma live_stamps: "loop_inv s \<Longrightarrow> store s i = Some e \<Longrightarrow> timestamps e \<noteq> []"
  by (drule (1) loop_inv_live) (simp add: event_ok_def)

lemma loop_inv_tick [simp]: "loop_inv (s\<lparr>tick := n\<rparr>) = loop_inv s"
  by (simp add: loop_inv_def)

lemma loop_inv_put:
  assumes inv: "loop_inv s" and e: "store s i = Some e" and "like e e'"
  shows "loop_inv (putEvent i e' s)"
proof -
  have "event_ok e'" "efd e' = efd e" using assms loop_inv_live [OF inv e]
    by (auto simp: like_ok like_def)
  with inv e show ?thesis by (fastforce simp: loop_inv_def)
qed

lemma setType_eq [loop_simps]:
  "store s i = Some e \<Longrightarrow>
   setType en t i s = Inr (putEvent i (setTypeAt t (clock en (tick s)) e) (s\<lparr>tick := tick s + 1\<rparr>))"
  by (simp add: setType_def readClock_def)

text \<open>Setting the type of a live event: a state like the old one, with that type.\<close>

lemma setType_ok:
  assumes inv: "loop_inv s" and e: "store s i = Some e"
  obtains s' e' where "setType en t i s = Inr s'" and "loop_inv s'" and "store s' i = Some e'"
    and "like e e'" and "etype e' = t" and "executed s' = executed s"
    and "poll s' = poll s" and "deadlineHeap s' = deadlineHeap s" and "others i (efd e) s s'"
proof -
  let ?e = "setTypeAt t (clock en (tick s)) e"
  let ?s = "putEvent i ?e (s\<lparr>tick := tick s + 1\<rparr>)"
  have like: "like e ?e" using live_stamps [OF inv e] by (rule like_setTypeAt)
  have inv': "loop_inv (s\<lparr>tick := tick s + 1\<rparr>)" using inv by simp
  from e have "store (s\<lparr>tick := tick s + 1\<rparr>) i = Some e" by simp
  from loop_inv_put [OF inv' this like] have "loop_inv ?s" .
  with like e show thesis by (intro that [of ?s ?e]) (simp_all add: setType_eq)
qed

lemma removeEvent_ok:
  assumes inv: "loop_inv s" and e: "store s i = Some e"
  obtains s' where "removeEvent i s = Inr s'" and "loop_inv s'" and "released i s'"
    and "store s' = store s" and "executed s' = executed s" and "others i (efd e) s s'"
    and "tick s' = tick s"
proof -
  let ?s = "pollRemove (efd e) (eraseDeadline i s)"
  have armed: "armed (deadlineHeap ?s) = (armed (deadlineHeap s))(i := None)"
    by (simp add: pollRemove_def eraseDeadline_def armed_erase)
  have "heap_inv (deadlineHeap ?s)"
    using inv by (simp add: pollRemove_def eraseDeadline_def heap_inv_erase loop_inv_def)
  moreover have "poll ?s = (poll s)(efd e := None)" "store ?s = store s" "nextId ?s = nextId s"
    by (simp_all add: pollRemove_def eraseDeadline_def)
  ultimately have "loop_inv ?s" using inv armed by (auto simp: loop_inv_def)
  moreover have "released i ?s"
    using inv e armed by (fastforce simp: released_def loop_inv_def pollRemove_def eraseDeadline_def)
  moreover have "others i (efd e) s ?s"
    using armed by (simp add: others_def pollRemove_def eraseDeadline_def)
  ultimately show thesis using e
    by (intro that [of ?s]) (simp_all add: removeEvent_def pollRemove_def eraseDeadline_def)
qed

lemma loop_inv_delete:
  "loop_inv s \<Longrightarrow> released i s \<Longrightarrow> loop_inv (s\<lparr>store := (store s)(i := None)\<rparr>)"
  by (auto simp: loop_inv_def released_def split: if_splits)

lemma loop_inv_executed [simp]: "loop_inv (s\<lparr>executed := es\<rparr>) = loop_inv s"
  by (simp add: loop_inv_def)

lemma released_update [simp]:
  "released i (s\<lparr>executed := es\<rparr>) = released i s" "released i (s\<lparr>store := st\<rparr>) = released i s"
  "released i (putEvent j e s) = released i s"
  by (simp_all add: released_def)

text \<open>
  After a complete write a server waits for the next request, a client for the
  response. What a fiber is handed is a complete read or, on a client, a failure.
\<close>

definition afterWrite :: "role \<Rightarrow> event_type" where
  "afterWrite r = (if r = SERVER then NEXT else TOREAD)"

definition failTypes :: "role \<Rightarrow> event_type set" where
  "failTypes r = (if r = CLIENT then {FAIL} else {})"

definition handedTypes :: "event_type \<Rightarrow> role \<Rightarrow> event_type set" where
  "handedTypes t r = failTypes r \<union> (if t = READED then {READED} else {})"

lemma failTypes_subset [simp]: "failTypes r \<subseteq> handedTypes t r"
  by (simp add: handedTypes_def)

lemma settles_mono:
  "settles K H D fd i s r \<Longrightarrow> K \<subseteq> K' \<Longrightarrow> H \<subseteq> H' \<Longrightarrow> (D \<Longrightarrow> D') \<Longrightarrow> settles K' H' D' fd i s r"
  by (fastforce simp: settles_def kept_def handed_def)

lemma settles_cong:
  assumes "executed s1 = executed s" and "others i fd s s1" and "settles K H D fd i s1 r"
  shows "settles K H D fd i s r"
proof -
  from assms(3) obtain s' where s': "r = Inr s'" "loop_inv s'" "others i fd s1 s'"
    "kept K i s1 s' \<or> handed H i s1 s' \<or> D \<and> deleted i s1 s'" unfolding settles_def by blast
  with others_trans [OF assms(2) s'(3)] assms(1) show ?thesis
    by (simp add: settles_def outcome_defs)
qed

lemma settles_kept:
  assumes "r = Inr s'" and "loop_inv s'" and "executed s' = executed s" and "store s' i = Some e"
    and "etype e \<in> K" and "others i fd s s'"
  shows "settles K H D fd i s r"
  using assms by (auto simp: settles_def outcome_defs)

text \<open>Closing an event: a client's is handed to its fiber, a server's is deleted.\<close>

lemma closePeer_closes:
  assumes inv: "loop_inv s" and e: "store s i = Some e"
  shows "settles {} (failTypes (erole e)) (erole e \<noteq> CLIENT) (efd e) i s (closePeer en i s)"
proof -
  obtain s1 where s1: "removeEvent i s = Inr s1" "loop_inv s1" "released i s1"
    "store s1 = store s" "executed s1 = executed s" "others i (efd e) s s1" "tick s1 = tick s"
    by (rule removeEvent_ok [OF inv e])
  have e1: "store s1 i = Some e" using s1 e by simp
  show ?thesis
  proof (cases "erole e = CLIENT")
    case True
    obtain s2 e2 where s2: "setType en FAIL i s1 = Inr s2" "loop_inv s2" "store s2 i = Some e2"
      "like e e2" "etype e2 = FAIL" "executed s2 = executed s1" "poll s2 = poll s1"
      "deadlineHeap s2 = deadlineHeap s1" "others i (efd e) s1 s2"
      by (rule setType_ok [OF s1(2) e1])
    have "closePeer en i s = Inr (s2\<lparr>executed := executed s2 @ [i]\<rparr>)"
      using True s1 e1 s2 by (simp add: closePeer_def actorExecute_def)
    moreover have "released i s2" using s1(3) s2 by (simp add: released_def)
    ultimately show ?thesis using s1 s2 True others_trans [OF s1(6) s2(9)]
      by (simp add: settles_def handed_def typeOf_def failTypes_def)
  next
    case False
    have "closePeer en i s = Inr (s1\<lparr>store := (store s1)(i := None)\<rparr>)"
      using False s1 e1 by (simp add: closePeer_def deleteEvent_def)
    with s1(3,5,6) loop_inv_delete [OF s1(2,3)] False show ?thesis
      by (simp add: settles_def deleted_def)
  qed
qed

text \<open>Setting a type and going on is settling from the new state.\<close>

lemma setType_then:
  assumes inv: "loop_inv s" and e: "store s i = Some e"
    and rest: "\<And>s' e'. loop_inv s' \<Longrightarrow> store s' i = Some e' \<Longrightarrow> like e e' \<Longrightarrow> etype e' = t \<Longrightarrow>
        poll s' = poll s \<Longrightarrow> deadlineHeap s' = deadlineHeap s \<Longrightarrow> settles K H D (efd e) i s' (f s')"
  shows "settles K H D (efd e) i s (res_bind (setType en t i s) f)"
proof -
  obtain s1 e1 where s1: "setType en t i s = Inr s1" "loop_inv s1" "store s1 i = Some e1"
    "like e e1" "etype e1 = t" "executed s1 = executed s" "poll s1 = poll s"
    "deadlineHeap s1 = deadlineHeap s" "others i (efd e) s s1"
    by (rule setType_ok [OF inv e])
  from settles_cong [OF s1(6,9) rest [OF s1(2-5,7,8)]] s1(1) show ?thesis by simp
qed

lemma timeoutEvent_closes:
  assumes inv: "loop_inv s" and e: "store s i = Some e"
  shows "settles {} (failTypes (erole e)) (erole e \<noteq> CLIENT) (efd e) i s (timeoutEvent en i s)"
  unfolding timeoutEvent_def
  by (rule setType_then [OF inv e])
     (use closePeer_closes in \<open>fastforce simp: onTimeout_def like_def\<close>)

lemma errorEvent_closes:
  assumes inv: "loop_inv s" and e: "store s i = Some e"
  shows "settles {} (failTypes (erole e)) (erole e \<noteq> CLIENT) (efd e) i s (errorEvent en i s)"
  unfolding errorEvent_def
  by (rule setType_then [OF inv e])
     (use closePeer_closes in \<open>fastforce simp: onError_def like_def\<close>)

text \<open>Registering an event for reading or writing keeps the invariant.\<close>

lemma loop_inv_pollAdd:
  assumes "loop_inv s" and "store s i = Some e"
  shows "loop_inv (pollAdd (efd e) m i s)"
  using assms by (auto simp: loop_inv_def pollAdd_def split: option.splits)

lemma loop_inv_pushDeadline:
  assumes inv: "loop_inv s" and e: "store s i = Some e" and t: "data t = Some i" "0 < deadline t"
  shows "loop_inv (pushDeadline t s)"
proof -
  have "armed (deadlineHeap (pushDeadline t s)) = (armed (deadlineHeap s))(i \<mapsto> deadline t)"
    using armed_push [OF t(1)] by (simp add: pushDeadline_def)
  moreover have "heap_inv (deadlineHeap (pushDeadline t s))"
    using inv t(2) by (simp add: pushDeadline_def heap_inv_push loop_inv_def)
  ultimately show ?thesis using inv e by (auto simp: loop_inv_def pushDeadline_def)
qed

lemma deadlines_positive:
  assumes "event_ok e"
  shows "0 < deadline (edeadline i e)" "0 < deadline (rdeadline i e)" "0 < deadline (wdeadline i e)"
  using assms by (simp_all add: event_ok_def edeadline_def rdeadline_def wdeadline_def u64_add_def LTIMEOUT_def)

lemma data_deadlines [simp]:
  "data (edeadline i e) = Some i" "data (rdeadline i e) = Some i" "data (wdeadline i e) = Some i"
  by (simp_all add: edeadline_def rdeadline_def wdeadline_def)

lemma pushDeadline_simps [simp]:
  "store (pushDeadline t s) = store s" "executed (pushDeadline t s) = executed s"
  "nextId (pushDeadline t s) = nextId s"
  by (simp_all add: pushDeadline_def)

lemma pollAdd_simps [simp]:
  "store (pollAdd fd m i s) = store s" "executed (pollAdd fd m i s) = executed s"
  "nextId (pollAdd fd m i s) = nextId s"
  by (simp_all add: pollAdd_def split: option.splits)

lemma others_pollAdd: "others i fd s s' \<Longrightarrow> others i fd s (pollAdd fd m i s')"
  by (auto simp: others_def pollAdd_def split: option.splits if_splits)

lemma others_pushDeadline: "data t = Some i \<Longrightarrow> others i fd s (pushDeadline t s') = others i fd s s'"
  using armed_push [of t i "deadlineHeap s'"] by (simp add: others_def pushDeadline_def)

lemma dispatchEvent_ok:
  assumes inv: "loop_inv s" and e: "store s i = Some e"
  obtains s' where "dispatchEvent i s = Inr s'" and "loop_inv s'" and "store s' = store s"
    and "executed s' = executed s" and "others i (efd e) s s'"
proof -
  have ok: "event_ok e" using loop_inv_live [OF inv e] by simp
  have reg: "loop_inv (pollAdd (efd e) m i (pushDeadline t s))"
    if "data t = Some i" "0 < deadline t" for m t
    using loop_inv_pollAdd [OF loop_inv_pushDeadline [OF inv e that]] e by simp
  have "loop_inv (pollAdd (efd e) EPOLLIN i s)" using loop_inv_pollAdd [OF inv e] .
  with reg inv e deadlines_positive [OF ok] show thesis
    by (cases "etype e")
       (auto simp: dispatchEvent_def addListenEvent_def addReadEvent_def addWriteEvent_def
          others_pollAdd others_pushDeadline intro!: that)
qed


lemma dispatchEvent_settles:
  assumes "loop_inv s" and "store s i = Some e" and "etype e \<in> K"
  shows "settles K H D (efd e) i s (dispatchEvent i s)"
  by (rule dispatchEvent_ok [OF assms(1,2)], rule settles_kept) (use assms in simp_all)

text \<open>A completed read is handed over; a forwarded client event would be used after its deletion.\<close>

lemma completeRead_settles:
  assumes "loop_inv s" and "store s i = Some e" and "released i s" and "etype e = READED"
    and "\<not> (erole e = CLIENT \<and> forward e)"
  shows "settles {} {READED} D (efd e) i s (completeRead i s)"
  using assms by (auto simp: completeRead_def actorExecute_def settles_def handed_def typeOf_def)

lemma reset_ok:
  assumes "env_ok en" and "event_ok e" and "seqid e < 2 ^ 31 - 1"
  obtains e' where "reset (clock en n) e = Inr e'" and "event_ok e'" and "efd e' = efd e" and "erole e' = erole e"
proof -
  have "0 < clock en n" "clock en n < 2 ^ 62" using assms(1) by (simp_all add: env_ok_def)
  with assms(2,3) show thesis
    by (intro that [of "(restart (clock en n) e)\<lparr>seqid := max (seqid e + 1) 1, etype := INIT, egroup := 0,
          forward := False, eexecutor := None, rbuf := [], wbuf := [], rlen := 0, wlen := 0\<rparr>"])
       (simp_all add: reset_def restart_def event_ok_def starttime_def)
qed

lemma loop_inv_replace:
  assumes inv: "loop_inv s" and e: "store s i = Some e" and "efd e' = efd e" and "event_ok e'"
  shows "loop_inv (putEvent i e' s)"
  using assms by (fastforce simp: loop_inv_def)

lemma completeWrite_settles:
  assumes en: "env_ok en" and inv: "loop_inv s" and e: "store s i = Some e"
    and sq: "seqid e < 2 ^ 31 - 1"
  shows "settles {afterWrite (erole e)} H D (efd e) i s (completeWrite en i s)"
proof (cases "erole e = SERVER")
  case True
  have ok: "event_ok e" using loop_inv_live [OF inv e] by simp
  obtain e1 where e1: "reset (clock en (tick s)) e = Inr e1" "event_ok e1" "efd e1 = efd e"
    "erole e1 = erole e" by (rule reset_ok [OF en ok sq])
  let ?s = "putEvent i e1 (s\<lparr>tick := tick s + 1\<rparr>)"
  have inv1: "loop_inv ?s" using inv e e1 by (intro loop_inv_replace [of _ _ e]) simp_all
  have "settles {afterWrite (erole e)} H D (efd e1) i ?s (res_bind (setType en NEXT i ?s) (dispatchEvent i))"
  proof (rule setType_then [OF inv1])
    fix s2 e2 assume s2: "loop_inv s2" "store s2 i = Some e2" "like e1 e2" "etype e2 = NEXT"
    from dispatchEvent_settles [OF s2(1,2)] s2(3,4) True
    show "settles {afterWrite (erole e)} H D (efd e1) i s2 (dispatchEvent i s2)"
      by (simp add: afterWrite_def like_def)
  qed simp
  with True e e1(1,3) show ?thesis
    by (simp add: completeWrite_def readClock_def settles_def outcome_defs)
next
  case False
  have "settles {afterWrite (erole e)} H D (efd e) i s (res_bind (setType en TOREAD i s) (dispatchEvent i))"
  proof (rule setType_then [OF inv e])
    fix s2 e2 assume s2: "loop_inv s2" "store s2 i = Some e2" "like e e2" "etype e2 = TOREAD"
    from dispatchEvent_settles [OF s2(1,2)] s2(3,4) False
    show "settles {afterWrite (erole e)} H D (efd e) i s2 (dispatchEvent i s2)"
      by (simp add: afterWrite_def like_def)
  qed
  with False e show ?thesis by (simp add: completeWrite_def)
qed


text \<open>The types an event can have after a complete read or write.\<close>

lemma onComplete_settles:
  assumes en: "env_ok en" and inv: "loop_inv s" and e: "store s i = Some e"
    and ty: "etype e = READED \<or> etype e = WRITED"
    and fw: "\<not> (erole e = CLIENT \<and> forward e)" and sq: "seqid e < 2 ^ 31 - 1"
  shows "settles (if etype e = WRITED then {afterWrite (erole e)} else {}) (handedTypes (etype e) (erole e)) (erole e \<noteq> CLIENT) (efd e) i s
    (onComplete en i s)" (is "settles ?K ?H ?D (efd e) i s _")
proof -
  let ?s = "s\<lparr>tick := tick s + 1\<rparr>"
  have inv1: "loop_inv ?s" and e1: "store ?s i = Some e" using inv e by simp_all
  from settles_mono [OF timeoutEvent_closes [OF inv1 e1, of en], of ?K ?H ?D]
  have to: "settles ?K ?H ?D (efd e) i ?s (timeoutEvent en i ?s)" by (simp add: handedTypes_def)
  obtain s2 where s2: "removeEvent i ?s = Inr s2" "loop_inv s2" "released i s2"
    "store s2 = store ?s" "executed s2 = executed ?s" "others i (efd e) ?s s2" "tick s2 = tick ?s"
    by (rule removeEvent_ok [OF inv1 e1])
  have e2: "store s2 i = Some e" using s2(4) e by simp
  have rd: "settles ?K ?H ?D (efd e) i s2 (completeRead i s2)" if "etype e = READED"
    by (rule settles_mono [OF completeRead_settles [OF s2(2) e2 s2(3) that fw]]) (use that in \<open>auto simp: handedTypes_def\<close>)
  have wr: "settles ?K ?H ?D (efd e) i s2 (completeWrite en i s2)" if "etype e = WRITED"
    by (rule settles_mono [OF completeWrite_settles [OF en s2(2) e2 sq]]) (use that in auto)
  have "settles ?K ?H ?D (efd e) i ?s (onComplete en i s)"
    using ty to settles_cong [OF s2(5,6) rd] settles_cong [OF s2(5,6) wr] s2(1) e
    by (auto simp: onComplete_def readClock_def)
  then show ?thesis by (rule settles_cong [rotated 2]) simp_all
qed

lemma onConnect_settles:
  assumes inv: "loop_inv s" and e: "store s i = Some e" and ty: "etype e = CONNECT"
  shows "settles {TOWRITE} (failTypes (erole e)) (erole e \<noteq> CLIENT) (efd e) i s (onConnect en i s)" (is "settles ?K ?H ?D (efd e) i s _")
proof -
  let ?s = "s\<lparr>tick := tick s + 1\<rparr>"
  have inv1: "loop_inv ?s" and e1: "store ?s i = Some e" using inv e by simp_all
  have "settles ?K ?H ?D (efd e) i ?s (timeoutEvent en i ?s)" "settles ?K ?H ?D (efd e) i ?s (errorEvent en i ?s)"
    using settles_mono [OF timeoutEvent_closes [OF inv1 e1, of en], of ?K ?H ?D]
      settles_mono [OF errorEvent_closes [OF inv1 e1, of en], of ?K ?H ?D] by simp_all
  moreover have "settles ?K ?H ?D (efd e) i ?s (setType en TOWRITE i ?s)"
    by (rule setType_ok [OF inv1 e1, of en TOWRITE], rule settles_kept, assumption+) simp
  ultimately have "settles ?K ?H ?D (efd e) i ?s (onConnect en i s)"
    using e ty by (simp add: onConnect_def readClock_def)
  then show ?thesis by (rule settles_cong [rotated 2]) simp_all
qed

text \<open>The part reading and writing share: what is done with the code the protocol returns.\<close>

definition afterIO :: "env \<Rightarrow> event_type \<Rightarrow> bool \<Rightarrow> nat \<Rightarrow> int \<Rightarrow> event \<Rightarrow> event_loop \<Rightarrow> event_loop result" where
  "afterIO en t eof i r e1 s2 =
     (if r = -1 then (if etype e1 = TIMEOUT then onTimeout en i s2 else errorEvent en i s2)
      else if r = 0 then res_bind (setType en t i s2) (onComplete en i)
      else if eof \<and> r = 2 then closePeer en i s2
      else Inr s2)"

lemma afterIO_settles:
  assumes en: "env_ok en" and inv: "loop_inv s" and e: "store s i = Some e" and K: "r = -1 \<or> etype e \<in> K"
    and t: "t = READED \<or> t = WRITED" "t = WRITED \<longrightarrow> afterWrite (erole e) \<in> K"
    and fw: "\<not> (erole e = CLIENT \<and> forward e)" and sq: "seqid e < 2 ^ 31 - 1"
  shows "settles K (handedTypes t (erole e)) (erole e \<noteq> CLIENT) (efd e) i s (afterIO en t eof i r e s)" (is "settles K ?H ?D (efd e) i s _")
proof -
  have cl: "settles K ?H ?D (efd e) i s (closePeer en i s)" "settles K ?H ?D (efd e) i s (errorEvent en i s)"
    using settles_mono [OF closePeer_closes [OF inv e, of en], of K ?H ?D]
      settles_mono [OF errorEvent_closes [OF inv e, of en], of K ?H ?D] by (simp_all add: handedTypes_def)
  have "settles K ?H ?D (efd e) i s (res_bind (setType en t i s) (onComplete en i))"
  proof (rule setType_then [OF inv e])
    fix s1 e1 assume s1: "loop_inv s1" "store s1 i = Some e1" "like e e1" "etype e1 = t"
    have "settles (if etype e1 = WRITED then {afterWrite (erole e1)} else {}) (handedTypes (etype e1) (erole e1)) (erole e1 \<noteq> CLIENT) (efd e) i s1 (onComplete en i s1)"
      using s1(3,4) t fw sq onComplete_settles [OF en s1(1,2)] by (auto simp: like_def)
    then show "settles K ?H ?D (efd e) i s1 (onComplete en i s1)"
      using s1(3,4) t by (elim settles_mono) (auto simp: like_def)
  qed
  with cl inv e K show ?thesis
    by (auto simp: afterIO_def onTimeout_def intro: settles_kept)
qed

lemma onRead_afterIO:
  "onRead en i s = res_bind (setType en READING i s) (\<lambda>s1. withEvent i s1 (\<lambda>e.
     let (r, e1) = readData en e in afterIO en READED True i r e1 (putEvent i e1 s1)))"
  by (simp add: onRead_def afterIO_def Let_def cong: if_cong)

lemma onWrite_afterIO:
  "onWrite en i s = res_bind (setType en WRITING i s) (\<lambda>s1. withEvent i s1 (\<lambda>e.
     let (r, e1) = writeData en e in afterIO en WRITED False i r e1 (putEvent i e1 s1)))"
  by (simp add: onWrite_def afterIO_def Let_def cong: if_cong)


text \<open>
  One round of input or output on a live event: \<open>io\<close> is the protocol's function, \<open>t0\<close> the
  type during it and \<open>t\<close> the type after it is complete.
\<close>

lemma io_settles:
  assumes en: "env_ok en" and io: "protocol_ok io" and inv: "loop_inv s" and e: "store s i = Some e"
    and t: "t = READED \<or> t = WRITED" "t = WRITED \<longrightarrow> afterWrite (erole e) \<in> K" "t0 \<in> K"
    and fw: "\<not> (erole e = CLIENT \<and> forward e)" and sq: "seqid e < 2 ^ 31 - 1"
  shows "settles K (handedTypes t (erole e)) (erole e \<noteq> CLIENT) (efd e) i s
    (res_bind (setType en t0 i s) (\<lambda>s1. withEvent i s1 (\<lambda>e.
       let (r, e1) = io e in afterIO en t eof i r e1 (putEvent i e1 s1))))"
proof (rule setType_then [OF inv e])
  fix s1 e1 assume s1: "loop_inv s1" "store s1 i = Some e1" "like e e1" "etype e1 = t0"
  obtain r e2 where ioe: "io e1 = (r, e2)" by fastforce
  have l: "like e1 e2" "r = -1 \<or> etype e2 \<in> K"
    using io s1(3,4) t(3) ioe unfolding protocol_ok_def like_def by (metis fst_conv snd_conv)+
  let ?s2 = "putEvent i e2 s1"
  have inv2: "loop_inv ?s2" by (rule loop_inv_put [OF s1(1,2) l(1)])
  have e2: "store ?s2 i = Some e2" by simp
  have "settles K (handedTypes t (erole e2)) (erole e2 \<noteq> CLIENT) (efd e) i ?s2 (afterIO en t eof i r e2 ?s2)"
    using afterIO_settles [OF en inv2 e2 l(2) t(1)] t(2) fw sq s1(3) l(1) by (simp add: like_def)
  then have "settles K (handedTypes t (erole e)) (erole e \<noteq> CLIENT) (efd e) i s1 (afterIO en t eof i r e2 ?s2)"
    using s1(3) l(1) by (simp add: settles_def outcome_defs like_def)
  with s1(2) ioe show "settles K (handedTypes t (erole e)) (erole e \<noteq> CLIENT) (efd e) i s1
      (withEvent i s1 (\<lambda>e. let (r, e1) = io e in afterIO en t eof i r e1 (putEvent i e1 s1)))"
    by simp
qed

lemma onRead_settles:
  assumes "env_ok en" and "loop_inv s" and "store s i = Some e"
    and "\<not> (erole e = CLIENT \<and> forward e)" and "seqid e < 2 ^ 31 - 1"
  shows "settles {READING} (handedTypes READED (erole e)) (erole e \<noteq> CLIENT) (efd e) i s (onRead en i s)"
  unfolding onRead_afterIO
  by (rule io_settles [OF assms(1) _ assms(2,3)]) (use assms in \<open>auto simp: env_ok_def\<close>)

lemma onWrite_settles:
  assumes "env_ok en" and "loop_inv s" and "store s i = Some e"
    and "\<not> (erole e = CLIENT \<and> forward e)" and "seqid e < 2 ^ 31 - 1"
  shows "settles {WRITING, afterWrite (erole e)} (handedTypes WRITED (erole e)) (erole e \<noteq> CLIENT) (efd e) i s (onWrite en i s)"
  unfolding onWrite_afterIO
  by (rule io_settles [OF assms(1) _ assms(2,3)]) (use assms in \<open>auto simp: env_ok_def\<close>)

lemma restartEvent_ok:
  assumes en: "env_ok en" and inv: "loop_inv s" and e: "store s i = Some e"
  obtains s' e' where "restartEvent en i s = Inr s'" and "loop_inv s'" and "store s' i = Some e'"
    and "erole e' = erole e" and "forward e' = forward e" and "seqid e' = seqid e"
    and "efd e' = efd e" and "executed s' = executed s" and "others i (efd e) s s'"
proof -
  let ?s1 = "(eraseDeadline i s)\<lparr>tick := tick s + 1\<rparr>"
  let ?e = "restart (clock en (tick s)) e"
  let ?s = "pushDeadline (rdeadline i ?e) (putEvent i ?e ?s1)"
  have er: "armed (deadlineHeap ?s1) = (armed (deadlineHeap s))(i := None)"
    by (simp add: eraseDeadline_def armed_erase)
  have "heap_inv (deadlineHeap ?s1)" using inv by (simp add: eraseDeadline_def heap_inv_erase loop_inv_def)
  then have inv1: "loop_inv ?s1" using inv er by (auto simp: loop_inv_def eraseDeadline_def)
  have ok: "event_ok ?e"
    using loop_inv_live [OF inv e] en by (auto simp: event_ok_def restart_def starttime_def env_ok_def)
  have inv2: "loop_inv (putEvent i ?e ?s1)"
    by (rule loop_inv_replace [OF inv1 _ _ ok, of _ e]) (simp_all add: e eraseDeadline_def restart_def)
  have "loop_inv ?s"
    by (rule loop_inv_pushDeadline [OF inv2]) (simp_all add: deadlines_positive [OF ok])
  moreover have "others i (efd e) s ?s"
    using er by (simp add: others_pushDeadline) (simp add: others_def eraseDeadline_def)
  ultimately show thesis using e
    by (intro that [of ?s ?e])
       (simp_all add: restartEvent_def readClock_def eraseDeadline_def restart_def Let_def)
qed

section \<open>Handling an event\<close>

text \<open>The types in which an event of a given type and role can stay with the loop, or reach its fiber.\<close>

definition stayTypes :: "event \<Rightarrow> event_type set" where
  "stayTypes e = (case etype e of
     CONNECT \<Rightarrow> {TOWRITE}
   | NEXT \<Rightarrow> {READING} | TOREAD \<Rightarrow> {READING} | READING \<Rightarrow> {READING}
   | TOWRITE \<Rightarrow> {WRITING, afterWrite (erole e)} | WRITING \<Rightarrow> {WRITING, afterWrite (erole e)}
   | _ \<Rightarrow> {})"

definition resultTypes :: "event \<Rightarrow> event_type set" where
  "resultTypes e =
     handedTypes (if etype e \<in> {NEXT, TOREAD, READING} then READED else WRITED) (erole e)"

lemma handleEvent_settles:
  assumes en: "env_ok en" and inv: "loop_inv s" and e: "store s i = Some e" and "etype e \<noteq> LISTEN"
    and fw: "\<not> (erole e = CLIENT \<and> forward e)" and sq: "seqid e < 2 ^ 31 - 1"
  shows "settles (stayTypes e) (resultTypes e) (erole e \<noteq> CLIENT) (efd e) i s (handleEvent en i s)"
proof -
  have cl: "settles K H (erole e \<noteq> CLIENT) (efd e) i s (closePeer en i s)" if "failTypes (erole e) \<subseteq> H" for K H
    by (rule settles_mono [OF closePeer_closes [OF inv e]]) (use that in auto)
  obtain s1 e1 where s1: "restartEvent en i s = Inr s1" "loop_inv s1" "store s1 i = Some e1"
    "erole e1 = erole e" "forward e1 = forward e" "seqid e1 = seqid e" "efd e1 = efd e"
    "executed s1 = executed s" "others i (efd e) s s1"
    by (rule restartEvent_ok [OF en inv e])
  have "settles {READING} (handedTypes READED (erole e)) (erole e \<noteq> CLIENT) (efd e) i s1 (onRead en i s1)"
    using onRead_settles [OF en s1(2,3)] fw sq s1(4-7) by simp
  note rn = settles_cong [OF s1(8,9) this]
  have "onTimeout en i s = closePeer en i s" if "etype e = TIMEOUT"
    using e that by (simp add: onTimeout_def)
  then show ?thesis
    using assms cl rn s1(1) onRead_settles [OF en inv e fw sq] onWrite_settles [OF en inv e fw sq]
      onConnect_settles [OF inv e, of en]
    by (cases "etype e") (simp_all add: handleEvent_def stayTypes_def resultTypes_def handedTypes_def)
qed

text \<open>A new connection: the listener stays, and at most the fresh event is added.\<close>

lemma onListen_ok:
  assumes en: "env_ok en" and inv: "loop_inv s" and e: "store s i = Some e" and ty: "etype e = LISTEN"
  shows "\<exists>s'. onListen en i s = Inr s' \<and> loop_inv s' \<and> executed s' = executed s \<and>
    (\<forall>k. k \<noteq> nextId s \<longrightarrow> store s' k = store s k) \<and>
    (case store s' (nextId s) of None \<Rightarrow> True
     | Some e' \<Rightarrow> etype e' = NEXT \<and> erole e' = SERVER \<and> acceptSocket en e = Some (efd e'))"
proof -
  have none: "store s (nextId s) = None" using inv by (fastforce simp: loop_inv_def)
  show ?thesis
  proof (cases "acceptSocket en e = None \<or> exceedLimit en")
    case True
    with e ty inv none show ?thesis by (auto simp: onListen_def split: option.splits)
  next
    case False
    then obtain fd where fd: "acceptSocket en e = Some fd" "\<not> exceedLimit en" by auto
    let ?j = "nextId s"
    let ?e = "newEvent (channelId e) (timeoutOpt e) fd SERVER (clock en (tick s))"
    let ?s = "putEvent ?j ?e (s\<lparr>tick := tick s + 1, nextId := ?j + 1\<rparr>)"
    let ?t = "?s\<lparr>tick := tick s + 2\<rparr>"
    have "event_ok ?e"
      using loop_inv_live [OF inv e] en by (auto simp: event_ok_def newEvent_def starttime_def env_ok_def)
    with inv none have inv1: "loop_inv ?t" by (fastforce simp: loop_inv_def)
    have e1: "store ?t ?j = Some ?e" by simp
    have other: "store ?t k = store s k" if "k \<noteq> ?j" for k using that by simp
    have unfold: "onListen en i s = (if isConnectTimeout (clock en (tick s + 1)) ?e then timeoutEvent en ?j ?t
        else res_bind (setType en NEXT ?j ?t) (dispatchEvent ?j))"
      using e ty fd by (simp add: onListen_def readClock_def Let_def putEvent_def)
    have r: "erole ?e = SERVER" "efd ?e = fd" by (simp_all add: newEvent_def)
    show ?thesis
    proof (cases "isConnectTimeout (clock en (tick s + 1)) ?e")
      case True
      have "settles {} {} True (efd ?e) ?j ?t (timeoutEvent en ?j ?t)"
        by (rule settles_mono [OF timeoutEvent_closes [OF inv1 e1]]) (simp_all add: r failTypes_def)
      then obtain s' where "timeoutEvent en ?j ?t = Inr s'" "loop_inv s'" "others ?j (efd ?e) ?t s'"
        "deleted ?j ?t s'" by (auto simp: settles_def kept_def handed_def)
      with True unfold other show ?thesis by (auto simp: deleted_def others_def)
    next
      case False
      obtain s2 e2 where s2: "setType en NEXT ?j ?t = Inr s2" "loop_inv s2" "store s2 ?j = Some e2"
        "like ?e e2" "etype e2 = NEXT" "executed s2 = executed ?t" "poll s2 = poll ?t"
        "deadlineHeap s2 = deadlineHeap ?t" "others ?j (efd ?e) ?t s2"
        by (rule setType_ok [OF inv1 e1])
      obtain s3 where s3: "dispatchEvent ?j s2 = Inr s3" "loop_inv s3" "store s3 = store s2"
        "executed s3 = executed s2" "others ?j (efd e2) s2 s3"
        by (rule dispatchEvent_ok [OF s2(2,3)])
      have "onListen en i s = Inr s3" using False unfold s2(1) s3(1) by simp
      moreover have "store s3 k = store s k" if "k \<noteq> ?j" for k
        using s2(9) s3(3) other [OF that] that by (simp add: others_def)
      moreover have "erole e2 = SERVER" "efd e2 = fd" using s2(4) r by (simp_all add: like_def)
      ultimately show ?thesis using s2 s3 fd by auto
    qed
  qed
qed

text \<open>
  C13: handling a live event that is not a listener, not a client event marked for
  forwarding, and whose sequence number is not the largest \<^verbatim>\<open>int\<close>, never touches a deleted event and
  leaves no dangling pointer behind. (A client event marked for forwarding is used after its
  deletion once its response is read, as shown below.) The event stays with the loop in the type
  its protocol step leads to, or is handed to its fiber exactly once, after a
  complete read or (for a client) a failure, or is deleted (for a server). In the
  last two cases the loop neither polls it nor holds a deadline for it; other
  events, descriptors and deadlines are not touched.
\<close>

theorem handle_event_outcome:
  assumes "env_ok en" and "loop_inv s" and "store s i = Some e" and "etype e \<noteq> LISTEN"
    and "\<not> (erole e = CLIENT \<and> forward e)" and "seqid e < 2 ^ 31 - 1"
  shows "\<exists>s'. handleEvent en i s = Inr s' \<and> loop_inv s' \<and> others i (efd e) s s' \<and>
    (kept (stayTypes e) i s s' \<or> handed (resultTypes e) i s s' \<or>
     erole e \<noteq> CLIENT \<and> deleted i s s')"
  using handleEvent_settles [OF assms] unfolding settles_def .

text \<open>
  A client event marked for forwarding is deleted when its response has been
  read, and is then passed to the actor: the handler uses a deleted object.
\<close>

theorem forwarded_event_used_after_delete:
  assumes inv: "loop_inv s" and e: "store s i = Some e" and ty: "etype e = READED"
    and cl: "erole e = CLIENT" "forward e" and intime: "\<not> isReadTimeout (clock en (tick s)) e"
  shows "onComplete en i s = Inl Undefined"
proof -
  let ?s = "s\<lparr>tick := tick s + 1\<rparr>"
  have inv1: "loop_inv ?s" and e1: "store ?s i = Some e" using inv e by simp_all
  obtain s2 where s2: "removeEvent i ?s = Inr s2" "loop_inv s2" "released i s2"
    "store s2 = store ?s" "executed s2 = executed ?s" "others i (efd e) ?s s2" "tick s2 = tick ?s"
    by (rule removeEvent_ok [OF inv1 e1])
  have "store s2 i = Some e" using s2(4) e by simp
  with cl have "completeRead i s2 = Inl Undefined"
    by (simp add: completeRead_def deleteEvent_def actorExecute_def withEvent_def)
  with ty intime e s2(1) show ?thesis by (simp add: onComplete_def readClock_def)
qed

section \<open>Due deadlines\<close>

definition due :: "nat \<Rightarrow> event_loop \<Rightarrow> nat set" where
  "due now s = {i. \<exists>d. armed (deadlineHeap s) i = Some d \<and> d \<le> now}"

text \<open>
  How many turns the check of the deadlines can take: a due deadline that is put
  back moves ahead by the long-polling timeout.
\<close>

definition dueTurns :: "nat \<Rightarrow> event_loop \<Rightarrow> nat" where
  "dueTurns now s = (\<Sum>i \<in> due now s. (now - the (armed (deadlineHeap s) i)) div LTIMEOUT + 1)"

lemma finite_due: "loop_inv s \<Longrightarrow> finite (due now s)"
proof -
  assume inv: "loop_inv s"
  have "due now s \<subseteq> the ` data ` set (timerHeap (deadlineHeap s))"
  proof
    fix i assume "i \<in> due now s"
    then obtain v where "timerMap (deadlineHeap s) i = Some v" by (auto simp: due_def armed_def)
    then have "v \<in> set (timerHeap (deadlineHeap s))" "data v = Some i"
      using inv by (auto simp: loop_inv_def heap_inv_def)
    then show "i \<in> the ` data ` set (timerHeap (deadlineHeap s))" by force
  qed
  then show ?thesis by (rule finite_subset) simp
qed

lemma dueTurns_remove:
  assumes "loop_inv s" and i: "armed (deadlineHeap s) i = Some d" "d \<le> now"
    and other: "\<And>k. k \<noteq> i \<Longrightarrow> armed (deadlineHeap s') k = armed (deadlineHeap s) k"
    and here: "armed (deadlineHeap s') i = None \<or> armed (deadlineHeap s') i = Some (d + LTIMEOUT)"
  shows "dueTurns now s' < dueTurns now s"
proof -
  let ?f = "\<lambda>s i. (now - the (armed (deadlineHeap s) i)) div LTIMEOUT + 1"
  have fin: "finite (due now s)" using assms(1) by (rule finite_due)
  have sub: "due now s' - {i} = due now s - {i}" using other by (auto simp: due_def)
  have iin: "i \<in> due now s" using i by (auto simp: due_def)
  have rest: "sum (?f s') (due now s - {i}) = sum (?f s) (due now s - {i})"
    by (rule sum.cong) (use other in auto)
  have total: "dueTurns now s = ?f s i + sum (?f s) (due now s - {i})"
    unfolding dueTurns_def using fin iin by (rule sum.remove)
  show ?thesis
  proof (cases "i \<in> due now s'")
    case False
    then have "due now s' = due now s - {i}" using sub by auto
    then show ?thesis using total rest by (simp add: dueTurns_def)
  next
    case True
    then have d': "armed (deadlineHeap s') i = Some (d + LTIMEOUT)" "d + LTIMEOUT \<le> now"
      using here by (auto simp: due_def)
    have "finite (due now s')" using fin sub by (metis finite_Diff finite_insert insert_Diff_single)
    then have "dueTurns now s' = ?f s' i + sum (?f s') (due now s' - {i})"
      unfolding dueTurns_def using True by (rule sum.remove)
    moreover have "(now - d) div LTIMEOUT = Suc ((now - (d + LTIMEOUT)) div LTIMEOUT)"
      using d'(2) by (simp add: div_if [of "now - d"] LTIMEOUT_def)
    ultimately show ?thesis using total rest sub d'(1) i(1) by simp
  qed
qed

text \<open>What a pop does to the loop: nothing is due, or a live due event is disarmed.\<close>

lemma pop_loop:
  assumes en: "env_ok en" and inv: "loop_inv s" and pop: "popTimeout (heapTop en) now (deadlineHeap s) = (t, h)"
  shows "loop_inv (s\<lparr>deadlineHeap := h\<rparr>)"
    and "data t = None \<Longrightarrow> due now s = {} \<and> armed h = armed (deadlineHeap s)"
    and "data t = Some i \<Longrightarrow> store s i \<noteq> None \<and> armed (deadlineHeap s) i = Some (deadline t) \<and>
           deadline t \<le> now \<and> 0 < deadline t \<and> armed h = (armed (deadlineHeap s))(i := None)"
proof -
  have lt: "least_top (heapTop en)" using en by (simp add: env_ok_def)
  have hinv: "heap_inv (deadlineHeap s)" using inv by (simp add: loop_inv_def)
  note spec = least_top.pop_spec [OF lt hinv pop]
  show "loop_inv (s\<lparr>deadlineHeap := h\<rparr>)"
    using inv spec by (cases "data t") (auto simp: loop_inv_def split: if_splits)
  show "data t = None \<Longrightarrow> due now s = {} \<and> armed h = armed (deadlineHeap s)"
    using spec by (fastforce simp: due_def)
  show "store s i \<noteq> None \<and> armed (deadlineHeap s) i = Some (deadline t) \<and> deadline t \<le> now \<and>
      0 < deadline t \<and> armed h = (armed (deadlineHeap s))(i := None)" if "data t = Some i"
  proof -
    have "t \<in> set (timerHeap (deadlineHeap s))" using spec that by simp
    then have "0 < deadline t" using hinv by (simp add: heap_inv_def)
    then show ?thesis using spec that inv by (auto simp: loop_inv_def)
  qed
qed

text \<open>
  What becomes of an event whose deadline has passed. A closed client event is handed to
  its fiber as a failure, any other is deleted, and the loop refers to neither any more. An event that
  is put back stays as it is, with the first deadline after \<open>now\<close> that is a whole number of
  long-polling timeouts later.
\<close>

definition closed :: "event_loop \<Rightarrow> event_loop \<Rightarrow> nat \<Rightarrow> bool" where
  "closed s s' k \<longleftrightarrow> released k s' \<and> (\<exists>e. store s k = Some e \<and>
     (if erole e = CLIENT then \<exists>e'. store s' k = Some e' \<and> etype e' = FAIL \<and> like e e'
      else store s' k = None))"

definition putBack :: "nat \<Rightarrow> event_loop \<Rightarrow> event_loop \<Rightarrow> nat \<Rightarrow> bool" where
  "putBack now s s' k \<longleftrightarrow> store s' k = store s k \<and>
     (\<exists>d d'. armed (deadlineHeap s) k = Some d \<and> armed (deadlineHeap s') k = Some d' \<and>
        d \<le> d' \<and> LTIMEOUT dvd d' - d \<and> now < d' \<and> d' \<le> now + LTIMEOUT)"

text \<open>The heap has an entry for the event whose \<^verbatim>\<open>repeat\<close> flag is \<open>r\<close>.\<close>

definition flagged :: "bool \<Rightarrow> event_loop \<Rightarrow> nat \<Rightarrow> bool" where
  "flagged r s k \<longleftrightarrow> (\<exists>t \<in> set (timerHeap (deadlineHeap s)). data t = Some k \<and> repeat t = r)"

text \<open>
  What a check of the deadlines leaves, when it closes the events \<open>C\<close> of those that are due: while
  there are few connections only events with a deadline that does not repeat are closed, and the
  others, with a repeating one, are put back; otherwise all are closed. The closed
  client events are handed over, once each. A descriptor is polled as before unless it is of a closed event.
\<close>

definition swept :: "bool \<Rightarrow> nat \<Rightarrow> nat set \<Rightarrow> event_loop \<Rightarrow> event_loop \<Rightarrow> bool" where
  "swept few now C s s' \<longleftrightarrow> C \<subseteq> due now s \<and>
     (\<forall>k \<in> C. closed s s' k \<and> (few \<longrightarrow> flagged False s k)) \<and>
     (\<forall>k \<in> due now s - C. putBack now s s' k \<and> few \<and> flagged True s k) \<and>
     (\<forall>k. k \<notin> due now s \<longrightarrow> store s' k = store s k \<and>
        armed (deadlineHeap s') k = armed (deadlineHeap s) k) \<and>
     (\<exists>xs. executed s' = executed s @ xs \<and> distinct xs \<and>
        set xs = {k \<in> C. \<exists>e. store s k = Some e \<and> erole e = CLIENT}) \<and>
     (\<forall>fd. poll s' fd = (if \<exists>k \<in> C. \<exists>e. store s k = Some e \<and> efd e = fd then None else poll s fd))"

lemma sweptD:
  assumes "swept few now C s s'"
  shows "C \<subseteq> due now s"
    and "k \<in> C \<Longrightarrow> closed s s' k" and "k \<in> C \<Longrightarrow> few \<Longrightarrow> flagged False s k"
    and "k \<in> due now s \<Longrightarrow> k \<notin> C \<Longrightarrow> putBack now s s' k \<and> few \<and> flagged True s k"
    and "k \<notin> due now s \<Longrightarrow> store s' k = store s k \<and> armed (deadlineHeap s') k = armed (deadlineHeap s) k"
    and "\<exists>xs. executed s' = executed s @ xs \<and> distinct xs \<and>
        set xs = {k \<in> C. \<exists>e. store s k = Some e \<and> erole e = CLIENT}"
    and "poll s' fd = (if \<exists>k \<in> C. \<exists>e. store s k = Some e \<and> efd e = fd then None else poll s fd)"
  using assms unfolding swept_def by (blast, blast, blast, blast, blast, blast, metis (no_types, lifting))

lemma timeoutEvent_exact:
  assumes inv: "loop_inv s" and e: "store s i = Some e"
  obtains s1 where "timeoutEvent en i s = Inr s1" and "loop_inv s1" and "closed s s1 i"
    and "poll s1 = (poll s)(efd e := None)" and "armed (deadlineHeap s1) = (armed (deadlineHeap s))(i := None)"
    and "timerHeap (deadlineHeap s1) = timerHeap (deadlineHeap s)"
    and "executed s1 = executed s @ (if erole e = CLIENT then [i] else [])"
    and "\<forall>k. k \<noteq> i \<longrightarrow> store s1 k = store s k"
proof -
  let ?e = "setTypeAt TIMEOUT (clock en (tick s)) e" and ?s = "eraseDeadline i (s\<lparr>tick := tick s + 1\<rparr>)"
  let ?f = "setTypeAt FAIL (clock en (tick s + 1)) ?e"
  let ?s1 = "if erole e = CLIENT
     then (putEvent i ?f (pollRemove (efd e) ?s))\<lparr>tick := tick s + 2, executed := executed s @ [i]\<rparr>
     else (pollRemove (efd e) ?s)\<lparr>store := (store s)(i := None)\<rparr>"
  have l: "like e ?e" "like ?e ?f"
    using live_stamps [OF inv e] like_setTypeAt [of e] like_setTypeAt [of ?e] by (auto simp: like_def)
  have fd: "efd ?e = efd e" "erole ?e = erole e" using l(1) by (simp_all add: like_def)
  have run: "timeoutEvent en i s = Inr ?s1"
    using e fd by (simp add: timeoutEvent_def setType_eq onTimeout_def closePeer_def removeEvent_def
        actorExecute_def deleteEvent_def pollRemove_def eraseDeadline_def putEvent_def)
  from timeoutEvent_closes [OF inv e, of en] run have c: "loop_inv ?s1" "released i ?s1"
    by (auto simp: settles_def outcome_defs kept_def)
  moreover have "closed s ?s1 i"
    using c(2) e like_trans [OF l] by (simp add: closed_def)
  moreover have "armed (deadlineHeap ?s1) = (armed (deadlineHeap s))(i := None)"
    by (simp add: pollRemove_def eraseDeadline_def armed_erase)
  moreover have "timerHeap (deadlineHeap ?s1) = timerHeap (deadlineHeap s)"
    by (simp add: pollRemove_def eraseDeadline_def eraseKey_def)
  moreover have "poll ?s1 = (poll s)(efd e := None)" by (simp add: pollRemove_def eraseDeadline_def)
  ultimately show thesis
    by (intro that [OF run]) (simp_all add: pollRemove_def eraseDeadline_def)
qed

text \<open>One turn that puts an event back, and one that closes it, before the rest of the check.\<close>

lemma swept_back:
  assumes rest: "swept few now C s1 s'" and few
    and d: "armed (deadlineHeap s) i = Some d" "d \<le> now" "flagged True s i"
    and arm: "armed (deadlineHeap s1) = (armed (deadlineHeap s))(i \<mapsto> d + LTIMEOUT)"
    and same: "store s1 = store s" "poll s1 = poll s" "executed s1 = executed s"
    and heap: "set (timerHeap (deadlineHeap s1)) \<subseteq> insert t (set (timerHeap (deadlineHeap s)))"
      "data t = Some i" "repeat t"
  shows "swept few now C s s'"
proof -
  note R = sweptD [OF rest]
  have sub: "due now s1 \<subseteq> due now s" using d arm by (auto simp: due_def split: if_splits)
  have dueI: "k \<in> due now s1" if "k \<in> due now s" "k \<noteq> i" for k using that arm by (auto simp: due_def)
  have f: "flagged False s k" if "flagged False s1 k" for k using that heap by (fastforce simp: flagged_def)
  have t: "flagged True s k" if "flagged True s1 k" for k
    using that heap d(3) by (cases "k = i") (fastforce simp: flagged_def)+
  have cl: "closed s s' k" if "closed s1 s' k" for k using that same by (simp add: closed_def)
  have pb: "putBack now s s' k \<and> flagged True s k" if k: "k \<in> due now s - C" for k
  proof (cases "k \<in> due now s1")
    case True
    then have p: "putBack now s1 s' k" "flagged True s1 k" using R(4) k by auto
    show ?thesis
    proof (cases "k = i")
      case True
      with p(1) arm obtain d' where d': "armed (deadlineHeap s') i = Some d'" "d + LTIMEOUT \<le> d'"
        "LTIMEOUT dvd d' - (d + LTIMEOUT)" "now < d'" "d' \<le> now + LTIMEOUT" "store s' i = store s i"
        using same by (auto simp: putBack_def)
      have "d' - d = d' - (d + LTIMEOUT) + LTIMEOUT" using d'(2) by simp
      then have "LTIMEOUT dvd d' - d" using d'(3) by (metis dvd_add dvd_refl)
      with d' d(1,3) True show ?thesis by (simp add: putBack_def)
    qed (use p arm same t in \<open>simp add: putBack_def\<close>)
  next
    case False
    then have ki: "k = i" using dueI k by auto
    then have "now < d + LTIMEOUT" using False arm by (auto simp: due_def not_le)
    moreover have "store s' i = store s i" "armed (deadlineHeap s') i = Some (d + LTIMEOUT)"
      using R(5) [OF False] ki same arm by auto
    ultimately show ?thesis using ki d by (simp add: putBack_def)
  qed
  have out: "store s' k = store s k \<and> armed (deadlineHeap s') k = armed (deadlineHeap s) k"
    if "k \<notin> due now s" for k
  proof -
    have "k \<noteq> i" "k \<notin> due now s1" using that d sub by (auto simp: due_def)
    then show ?thesis using R(5) [of k] same arm by simp
  qed
  have "C \<subseteq> due now s" using R(1) sub by blast
  then show ?thesis unfolding swept_def
    using f [OF R(3)] cl [OF R(2)] pb out \<open>few\<close> R(6) R(7) unfolding same by simp
qed

lemma swept_close:
  assumes rest: "swept few now C s1 s'" and e: "store s i = Some e"
    and d: "armed (deadlineHeap s) i = Some d" "d \<le> now" "few \<longrightarrow> flagged False s i"
    and cl: "closed s s1 i" and po: "poll s1 = (poll s)(efd e := None)"
    and arm: "armed (deadlineHeap s1) = (armed (deadlineHeap s))(i := None)"
    and heap: "set (timerHeap (deadlineHeap s1)) \<subseteq> set (timerHeap (deadlineHeap s))"
    and ex: "executed s1 = executed s @ (if erole e = CLIENT then [i] else [])"
    and st: "\<forall>k. k \<noteq> i \<longrightarrow> store s1 k = store s k"
  shows "swept few now (insert i C) s s'"
proof -
  note R = sweptD [OF rest]
  have due: "due now s1 = due now s - {i}" using arm by (auto simp: due_def split: if_splits)
  have iC: "i \<notin> C" "i \<in> due now s" using R(1) due d by (auto simp: due_def)
  have f: "flagged r s k" if "flagged r s1 k" for r k using that heap by (auto simp: flagged_def)
  have i': "store s' i = store s1 i" "armed (deadlineHeap s') i = None" using R(5) [of i] due arm by auto
  have stC: "store s1 k = store s k" if "k \<in> C" for k using st iC(1) that by metis
  have p1: "poll s' fd = (if \<exists>k \<in> C. \<exists>e. store s k = Some e \<and> efd e = fd then None else poll s1 fd)" for fd
    using R(7) [of fd] stC by simp
  have "released i s1" using cl by (simp add: closed_def)
  then have rel: "released i s'" using p1 i'(2) by (simp add: released_def)
  have cl': "closed s s' i" using cl rel e i'(1) by (simp add: closed_def)
  have clC: "closed s s' k \<and> (few \<longrightarrow> flagged False s k)" if "k \<in> C" for k
    using R(2,3) [OF that] stC [OF that] f by (auto simp: closed_def)
  have pb: "putBack now s s' k \<and> few \<and> flagged True s k" if k: "k \<in> due now s - insert i C" for k
  proof -
    have "k \<in> due now s1 - C" using k due by simp
    then have "putBack now s1 s' k \<and> few \<and> flagged True s1 k" using R(4) by blast
    then show ?thesis using k st arm f by (auto simp: putBack_def)
  qed
  have out: "store s' k = store s k \<and> armed (deadlineHeap s') k = armed (deadlineHeap s) k"
    if "k \<notin> due now s" for k
    using R(5) [of k] that due st arm iC(2) by (metis DiffD1 fun_upd_other)
  from R(6) obtain xs where xs: "executed s' = executed s1 @ xs" "distinct xs"
    "set xs = {k \<in> C. \<exists>e. store s1 k = Some e \<and> erole e = CLIENT}" by blast
  let ?xs = "(if erole e = CLIENT then [i] else []) @ xs"
  have set: "{k \<in> C. \<exists>e. store s1 k = Some e \<and> erole e = CLIENT} = {k \<in> C. \<exists>e. store s k = Some e \<and> erole e = CLIENT}"
    using stC by auto
  have "distinct ?xs" using xs(2,3) iC(1) by auto
  moreover have "set ?xs = {k \<in> insert i C. \<exists>e. store s k = Some e \<and> erole e = CLIENT}"
    using xs(3) set e by auto
  moreover have "executed s' = executed s @ ?xs" using xs(1) ex by simp
  ultimately have exs: "\<exists>xs. executed s' = executed s @ xs \<and> distinct xs \<and>
      set xs = {k \<in> insert i C. \<exists>e. store s k = Some e \<and> erole e = CLIENT}" by blast
  have po': "poll s' fd = (if \<exists>k \<in> insert i C. \<exists>e. store s k = Some e \<and> efd e = fd then None else poll s fd)" for fd
    using p1 [of fd] po e by auto
  have "insert i C \<subseteq> due now s" using R(1) due iC(2) by auto
  moreover have "\<forall>k \<in> insert i C. closed s s' k \<and> (few \<longrightarrow> flagged False s k)" using cl' d(3) clC by blast
  ultimately show ?thesis unfolding swept_def using pb out exs po' by (intro conjI) blast+
qed

lemma checkTimeouts_ok:
  assumes en: "env_ok en" and now: "now < 2 ^ 62" and inv: "loop_inv s" and "dueTurns now s < fuel"
  shows "\<exists>s' C. checkTimeouts fuel en now s = Inr s' \<and> loop_inv s' \<and> swept (socketCount en < LCOUNT) now C s s'"
  using inv assms(4)
proof (induction fuel arbitrary: s)
  case (Suc fuel)
  let ?few = "socketCount en < LCOUNT"
  obtain t h where pop: "popTimeout (heapTop en) now (deadlineHeap s) = (t, h)" by fastforce
  note P = pop_loop [OF en Suc.prems(1) pop]
  have hp: "set (timerHeap h) \<subseteq> set (timerHeap (deadlineHeap s))"
    using pop unfolding popTimeout_def by (rule popLoop_heap)
  let ?s = "s\<lparr>deadlineHeap := h\<rparr>"
  show ?case
  proof (cases "data t")
    case None
    with P(1,2) have "swept ?few now {} s ?s" by (auto simp: swept_def)
    with None pop P(1) show ?thesis by (auto intro!: exI [of _ "{}"])
  next
    case (Some i)
    note Q = P(3) [OF Some]
    have fl: "flagged (repeat t) s i"
      using least_top.pop_spec [OF _ _ pop] en Suc.prems(1) Some by (auto simp: flagged_def env_ok_def loop_inv_def)
    from Q obtain e where e: "store s i = Some e" "store ?s i = Some e" by auto
    show ?thesis
    proof (cases "repeat t \<and> ?few")
      case True
      let ?t = "t\<lparr>deadline := u64_add (deadline t) LTIMEOUT\<rparr>"
      let ?s1 = "pushDeadline ?t ?s"
      have add: "u64_add (deadline t) LTIMEOUT = deadline t + LTIMEOUT"
        using Q now by (simp add: u64_add_def LTIMEOUT_def)
      have inv1: "loop_inv ?s1"
        by (rule loop_inv_pushDeadline [OF P(1) e(2)]) (use Some Q add in simp_all)
      have arm: "armed (deadlineHeap ?s1) = (armed (deadlineHeap s))(i \<mapsto> deadline t + LTIMEOUT)"
        using armed_push [of ?t i h] Some add Q by (simp add: pushDeadline_def)
      have "dueTurns now ?s1 < dueTurns now s"
        by (rule dueTurns_remove [OF Suc.prems(1), of i "deadline t"]) (use Q arm in simp_all)
      then have "dueTurns now ?s1 < fuel" using Suc.prems(2) by simp
      from Suc.IH [OF inv1 this] obtain s' C
        where s': "checkTimeouts fuel en now ?s1 = Inr s'" "loop_inv s'" "swept ?few now C ?s1 s'" by blast
      have "swept ?few now C s s'"
        by (rule swept_back [OF s'(3), where i = i and d = "deadline t" and t = ?t])
           (use True Q fl arm Some hp in \<open>auto simp: pushDeadline_def pushTimeout_def\<close>)
      with s' True Some pop show ?thesis by auto
    next
      case False
      obtain s1 where s1: "timeoutEvent en i ?s = Inr s1" "loop_inv s1" "closed ?s s1 i"
        "poll s1 = (poll ?s)(efd e := None)" "armed (deadlineHeap s1) = (armed (deadlineHeap ?s))(i := None)"
        "timerHeap (deadlineHeap s1) = timerHeap (deadlineHeap ?s)"
        "executed s1 = executed ?s @ (if erole e = CLIENT then [i] else [])"
        "\<forall>k. k \<noteq> i \<longrightarrow> store s1 k = store ?s k"
        by (rule timeoutEvent_exact [OF P(1) e(2)])
      have arm: "armed (deadlineHeap s1) = (armed (deadlineHeap s))(i := None)" using s1(5) Q by simp
      have "dueTurns now s1 < dueTurns now s"
        by (rule dueTurns_remove [OF Suc.prems(1), of i "deadline t"]) (use Q arm in simp_all)
      then have "dueTurns now s1 < fuel" using Suc.prems(2) by simp
      from Suc.IH [OF s1(2) this] obtain s' C
        where s': "checkTimeouts fuel en now s1 = Inr s'" "loop_inv s'" "swept ?few now C s1 s'" by blast
      have "swept ?few now (insert i C) s s'"
        by (rule swept_close [OF s'(3) e(1), where d = "deadline t"])
           (use False Q fl arm s1 hp in \<open>auto simp: closed_def\<close>)
      with s' False Some pop s1(1) show ?thesis by auto
    qed
  qed
qed simp

lemma swept_due: "swept few now C s s' \<Longrightarrow> due now s' = {}"
proof -
  assume sw: "swept few now C s s'"
  have "k \<notin> due now s'" for k
  proof (cases "k \<in> due now s")
    case True
    then show ?thesis using sweptD(2) [OF sw, of k] sweptD(4) [OF sw True]
      by (cases "k \<in> C") (auto simp: closed_def released_def putBack_def due_def)
  qed (use sweptD(5) [OF sw, of k] in \<open>simp add: due_def\<close>)
  then show ?thesis by blast
qed

lemma swept_live:
  assumes "swept few now C s s'"
  shows "released k s' \<or> store s' k = store s k"
  using sweptD(2,4,5) [OF assms, of k] by (auto simp: closed_def putBack_def)

section \<open>A turn of the loop\<close>

definition manageable :: "event \<Rightarrow> bool" where
  "manageable e \<longleftrightarrow> \<not> (erole e = CLIENT \<and> forward e) \<and> seqid e < 2 ^ 31 - 1"

lemma handleEvent_frame:
  assumes en: "env_ok en" and inv: "loop_inv s" and e: "store s i = Some e" and "manageable e"
  shows "\<exists>s'. handleEvent en i s = Inr s' \<and> loop_inv s' \<and>
     (\<forall>k. k \<noteq> i \<and> store s k \<noteq> None \<longrightarrow> store s' k = store s k)"
proof (cases "etype e = LISTEN")
  case True
  have "k \<noteq> nextId s" if "store s k \<noteq> None" for k using inv that by (force simp: loop_inv_def)
  with onListen_ok [OF en inv e True] show ?thesis using True e by (force simp: handleEvent_def)
next
  case False
  with handleEvent_settles [OF en inv e False] assms(4) show ?thesis
    unfolding settles_def manageable_def others_def by fast
qed

lemma handleAll_ok:
  assumes "env_ok en" and "loop_inv s" and "distinct is"
    and "\<forall>i \<in> set is. \<exists>e. store s i = Some e \<and> manageable e"
  shows "\<exists>s'. handleAll en is s = Inr s' \<and> loop_inv s'"
  using assms(2-4)
proof (induction "is" arbitrary: s)
  case (Cons i "is")
  from Cons.prems(3) obtain e where e: "store s i = Some e" "manageable e" by auto
  from handleEvent_frame [OF assms(1) Cons.prems(1) e] obtain s1
    where s1: "handleEvent en i s = Inr s1" "loop_inv s1"
      "\<forall>k. k \<noteq> i \<and> store s k \<noteq> None \<longrightarrow> store s1 k = store s k" by blast
  have "\<forall>k \<in> set is. \<exists>e. store s1 k = Some e \<and> manageable e"
    using s1(3) Cons.prems(2,3) by fastforce
  from Cons.IH [OF s1(2) _ this] Cons.prems(2) s1(1) show ?case by simp
qed simp

lemma dispatchAll_ok:
  assumes "loop_inv s" and "\<forall>i \<in> set is. store s i \<noteq> None"
  shows "\<exists>s'. dispatchAll is s = Inr s' \<and> loop_inv s' \<and> store s' = store s"
  using assms
proof (induction "is" arbitrary: s)
  case (Cons i "is")
  then obtain e where e: "store s i = Some e" by auto
  obtain s1 where s1: "dispatchEvent i s = Inr s1" "loop_inv s1" "store s1 = store s"
    "executed s1 = executed s" "others i (efd e) s s1"
    by (rule dispatchEvent_ok [OF Cons.prems(1) e])
  with Cons.IH [OF s1(2)] Cons.prems(2) show ?case by simp
qed simp


text \<open>\<^verbatim>\<open>epoll_wait\<close> reports registered events, each at most once.\<close>

definition reports_registered :: "((int \<rightharpoonup> interest \<times> nat) \<Rightarrow> nat list) \<Rightarrow> bool" where
  "reports_registered report \<longleftrightarrow>
     (\<forall>p. distinct (report p) \<and> (\<forall>i \<in> set (report p). \<exists>fd m. p fd = Some (m, i)))"

text \<open>
  C14: provided the events other threads added are live and no live event is a client event
  marked for forwarding or about to overflow its sequence number, a turn of the loop returns
  without a fault and keeps the loop free of dangling pointers,
  whatever the clock shows, the sockets deliver and \<^verbatim>\<open>epoll_wait\<close> reports. (With a forwarded
  client event that completes its read it faults.)
\<close>

theorem loop_turn_safe:
  assumes en: "env_ok en" and inv: "loop_inv s" and rep: "reports_registered report"
    and pend: "\<forall>i \<in> set (pendingEvents s). store s i \<noteq> None"
    and man: "\<forall>i e. store s i = Some e \<longrightarrow> manageable e"
  shows "\<exists>n. \<forall>fuel \<ge> n. \<exists>s'. loopTurn fuel en report s = Inr s' \<and> loop_inv s'"
proof -
  have "loop_inv (s\<lparr>pendingEvents := []\<rparr>)" using inv by (simp add: loop_inv_def)
  with dispatchAll_ok [OF this, of "pendingEvents s"] pend obtain s1
    where s1: "dispatchAll (pendingEvents s) (s\<lparr>pendingEvents := []\<rparr>) = Inr s1" "loop_inv s1"
      "store s1 = store s" by auto
  let ?now = "clock en (tick s1)" and ?s = "s1\<lparr>tick := tick s1 + 1\<rparr>"
  have now: "?now < 2 ^ 62" using en by (simp add: env_ok_def)
  have invs: "loop_inv ?s" using s1(2) by simp
  have "\<exists>s'. loopTurn fuel en report s = Inr s' \<and> loop_inv s'" if fuel: "Suc (dueTurns ?now ?s) \<le> fuel" for fuel
  proof -
    from checkTimeouts_ok [OF en now invs, of fuel] fuel obtain s2
      C where s2: "checkTimeouts fuel en ?now ?s = Inr s2" "loop_inv s2" "swept (socketCount en < LCOUNT) ?now C ?s s2" by auto
    have "\<exists>e. store s2 i = Some e \<and> manageable e" if "i \<in> set (report (poll s2))" for i
    proof -
      from rep that obtain fd m where reg: "poll s2 fd = Some (m, i)" unfolding reports_registered_def by blast
      with s2(2) obtain e where e: "store s2 i = Some e" unfolding loop_inv_def by blast
      moreover have "\<not> released i s2" using reg by (auto simp: released_def)
      with swept_live [OF s2(3), of i] e s1(3) have "store s i = Some e" by auto
      ultimately show ?thesis using man by blast
    qed
    moreover have "distinct (report (poll s2))" using rep by (simp add: reports_registered_def)
    ultimately obtain s3 where "handleAll en (report (poll s2)) s2 = Inr s3" "loop_inv s3"
      using handleAll_ok [OF en s2(2)] by blast
    with s1(1) s2(1) show ?thesis by (simp add: loopTurn_def checkTimeoutEvent_def readClock_def)
  qed
  then show ?thesis by blast
qed


text \<open>
  Accepting a connection never faults and never disturbs another event; it
  adds at most one event, a server event that waits for its first request.
\<close>

theorem accept_adds_one:
  assumes "env_ok en" and "loop_inv s" and "store s i = Some e" and "etype e = LISTEN"
  shows "\<exists>s'. handleEvent en i s = Inr s' \<and> loop_inv s' \<and> executed s' = executed s \<and>
    (\<forall>k. k \<noteq> nextId s \<longrightarrow> store s' k = store s k) \<and>
    (case store s' (nextId s) of None \<Rightarrow> True
     | Some e' \<Rightarrow> etype e' = NEXT \<and> erole e' = SERVER \<and> acceptSocket en e = Some (efd e'))"
  using onListen_ok [OF assms] assms(3,4) by (simp add: handleEvent_def)

section \<open>A small loop\<close>

text \<open>One event on descriptor 5, on a machine whose sockets are always ready.\<close>

definition readyEnv :: env where
  "readyEnv = \<lparr>clock = (\<lambda>_. 1000), heapTop = leastTimeout, readData = (\<lambda>e. (0, e)),
     writeData = (\<lambda>e. (0, e)), acceptSocket = (\<lambda>_. Some 9), socketError = (\<lambda>_. 0),
     exceedLimit = False, socketCount = 1\<rparr>"

definition oneEvent :: "event_type \<Rightarrow> role \<Rightarrow> bool \<Rightarrow> event" where
  "oneEvent t r fwd = (newEvent 80 \<lparr>ctimeout = 10, rtimeout = 10, wtimeout = 10\<rparr> 5 r 1000)
     \<lparr>etype := t, forward := fwd\<rparr>"

definition oneLoop :: "event \<Rightarrow> event_loop" where
  "oneLoop e = \<lparr>store = [7 \<mapsto> e], nextId = 8, poll = [5 \<mapsto> (EPOLLIN, 7)],
     deadlineHeap = pushTimeout \<lparr>data = Some 7, deadline = 900, repeat = False\<rparr> emptyHeap,
     pendingEvents = [7], executed = [], tick = 0\<rparr>"

lemma readyEnv_ok: "env_ok readyEnv"
  using lt.least_top_axioms by (simp add: env_ok_def readyEnv_def protocol_ok_def like_refl)

lemma oneLoop_inv: "loop_inv (oneLoop (oneEvent t r fwd))"
proof -
  have arm: "armed (pushTimeout \<lparr>data = Some 7, deadline = 900, repeat = False\<rparr> emptyHeap) = [7 \<mapsto> 900]"
    using armed_push [of "\<lparr>data = Some 7, deadline = 900, repeat = False\<rparr>" 7 emptyHeap] by simp
  have "heap_inv (pushTimeout \<lparr>data = Some 7, deadline = 900, repeat = False\<rparr> emptyHeap)"
    by (rule heap_inv_push [OF heap_inv_empty]) simp
  moreover have "event_ok (oneEvent t r fwd)" "efd (oneEvent t r fwd) = 5"
    by (simp_all add: event_ok_def oneEvent_def newEvent_def starttime_def)
  ultimately show ?thesis
    by (auto simp: loop_inv_def oneLoop_def arm split: if_splits)
qed

lemma oneLoop_simps: "store (oneLoop e) 7 = Some e" "tick (oneLoop e) = 0" "pendingEvents (oneLoop e) = [7]"
  "store (oneLoop e) i = Some e' \<longleftrightarrow> i = 7 \<and> e' = e"
  by (auto simp: oneLoop_def split: if_splits)

lemma oneEvent_simps: "etype (oneEvent t r f) = t" "erole (oneEvent t r f) = r" "forward (oneEvent t r f) = f"
  "seqid (oneEvent t r f) = 1" "efd (oneEvent t r f) = 5"
  by (simp_all add: oneEvent_def newEvent_def)

theorem handle_event_outcome_witness:
  "\<exists>s'. handleEvent readyEnv 7 (oneLoop (oneEvent TOREAD CLIENT False)) = Inr s' \<and> loop_inv s' \<and>
     (kept {READING} 7 (oneLoop (oneEvent TOREAD CLIENT False)) s' \<or>
      handed {READED, FAIL} 7 (oneLoop (oneEvent TOREAD CLIENT False)) s')"
  using handle_event_outcome [OF readyEnv_ok oneLoop_inv oneLoop_simps(1), of TOREAD CLIENT False]
  by (auto simp: oneEvent_simps stayTypes_def resultTypes_def handedTypes_def failTypes_def)

theorem forwarded_event_used_after_delete_witness:
  "onComplete readyEnv 7 (oneLoop (oneEvent READED CLIENT True)) = Inl Undefined"
  by (rule forwarded_event_used_after_delete [OF oneLoop_inv oneLoop_simps(1)])
     (simp_all add: oneEvent_simps isReadTimeout_def cost_def u64_sub_def readyEnv_def oneLoop_simps
        oneEvent_def newEvent_def starttime_def)

theorem loop_turn_safe_witness:
  "\<exists>n. \<forall>fuel \<ge> n. \<exists>s'. loopTurn fuel readyEnv (\<lambda>p. if p 5 = Some (EPOLLIN, 7) then [7] else [])
     (oneLoop (oneEvent TOREAD SERVER False)) = Inr s' \<and> loop_inv s'"
  by (rule loop_turn_safe [OF readyEnv_ok oneLoop_inv])
     (auto simp: reports_registered_def oneLoop_simps manageable_def oneEvent_simps split: if_splits)


theorem accept_adds_one_witness:
  "\<exists>s'. handleEvent readyEnv 7 (oneLoop (oneEvent LISTEN LISTENER False)) = Inr s' \<and> loop_inv s' \<and>
     executed s' = executed (oneLoop (oneEvent LISTEN LISTENER False))"
  using accept_adds_one [OF readyEnv_ok oneLoop_inv oneLoop_simps(1), of LISTEN LISTENER False]
  by (auto simp: oneEvent_simps)

end
