(* ===== verification/Buffer_Cursor.thy ===== *)
theory Buffer_Cursor
  imports Prelude
begin

text \<open>
  Reading a chain of buffers: \<^verbatim>\<open>CursorBase\<close> and \<^verbatim>\<open>Cursor\<close> of \<^verbatim>\<open>src/raster/io/Cursor.h\<close>. A
  cursor sees of a chain the data of its elements, in order from the head. The
  head is a parameter, as a cursor never changes what it reads.
\<close>

type_synonym byte = "8 word"
type_synonym pieces = "byte list list"

section \<open>Cursors\<close>

text \<open>\<open>crtBuf\<close> is the position of the current element in the chain, \<open>offset\<close> the one inside it.\<close>

record cursor =
  crtBuf :: nat
  offset :: nat

definition newCursor :: cursor where
  "newCursor = \<lparr>crtBuf = 0, offset = 0\<rparr>"

definition curData :: "pieces \<Rightarrow> cursor \<Rightarrow> byte list" where
  "curData bs c = drop (offset c) (bs ! crtBuf c)"

definition curLength :: "pieces \<Rightarrow> cursor \<Rightarrow> nat" where
  "curLength bs c = length (bs ! crtBuf c) - offset c"

definition tryAdvanceBuffer :: "pieces \<Rightarrow> cursor \<Rightarrow> bool \<times> cursor" where
  "tryAdvanceBuffer bs c =
     (if crtBuf c + 1 = length bs then (False, c\<lparr>offset := length (bs ! crtBuf c)\<rparr>)
      else (True, \<lparr>crtBuf = crtBuf c + 1, offset = 0\<rparr>))"

text \<open>\<^verbatim>\<open>operator-\<close> of two cursors on one chain: the distance from \<open>other\<close> to \<open>c\<close>.\<close>

fun sumBetween :: "pieces \<Rightarrow> nat \<Rightarrow> nat \<Rightarrow> nat \<Rightarrow> nat result" where
  "sumBetween bs target 0 i = Inl Out_Of_Range"
| "sumBetween bs target (Suc n) i =
     (if i = target then Inr 0
      else if i = length bs then Inl Out_Of_Range
      else res_bind (sumBetween bs target n (i + 1)) (\<lambda>k. Inr (length (bs ! i) + k)))"

definition cursorDiff :: "pieces \<Rightarrow> cursor \<Rightarrow> cursor \<Rightarrow> nat result" where
  "cursorDiff bs c other =
     (if crtBuf other \<noteq> crtBuf c
      then res_bind (sumBetween bs (crtBuf c) (length bs) (crtBuf other + 1)) (\<lambda>k.
             Inr (curLength bs other + k + offset c))
      else if offset c < offset other then Inl Out_Of_Range
      else Inr (offset c - offset other))"

definition totalLength :: "pieces \<Rightarrow> cursor \<Rightarrow> nat result" where
  "totalLength bs c =
     (if crtBuf c = 0 then Inr (length (concat bs) - offset c)
      else cursorDiff bs \<lparr>crtBuf = length bs - 1, offset = length (last bs)\<rparr> c)"

fun allEmpty :: "pieces \<Rightarrow> bool" where
  "allEmpty [] = True"
| "allEmpty (b # bs) = (if length b > 0 then False else allEmpty bs)"

definition isAtEnd :: "pieces \<Rightarrow> cursor \<Rightarrow> bool" where
  "isAtEnd bs c =
     (if offset c \<noteq> length (bs ! crtBuf c) then False
      else if crtBuf c + 1 = length bs then True
      else allEmpty (drop (crtBuf c + 1) bs))"

section \<open>Copying, skipping and peeking\<close>

text \<open>
  The loops walk from the current element to the end of the chain, so the
  number of elements left bounds the turns: \<open>n\<close> counts them down.
\<close>

fun pullLoop :: "pieces \<Rightarrow> nat \<Rightarrow> nat \<Rightarrow> cursor \<Rightarrow> byte list \<times> cursor" where
  "pullLoop bs 0 len c = ([], c)"
| "pullLoop bs (Suc n) len c =
     (if curLength bs c < len
      then let available = curLength bs c;
               (moved, c1) = tryAdvanceBuffer bs c
           in if moved
              then let (rest, c2) = pullLoop bs n (len - available) c1 in (curData bs c @ rest, c2)
              else (curData bs c, c1)
      else (take len (curData bs c), c\<lparr>offset := offset c + len\<rparr>))"

definition pullAtMost :: "pieces \<Rightarrow> nat \<Rightarrow> cursor \<Rightarrow> byte list \<times> cursor" where
  "pullAtMost bs len c =
     (if len \<le> curLength bs c then (take len (curData bs c), c\<lparr>offset := offset c + len\<rparr>)
      else pullLoop bs (length bs - crtBuf c) len c)"

definition pull :: "pieces \<Rightarrow> nat \<Rightarrow> cursor \<Rightarrow> (byte list \<times> cursor) result" where
  "pull bs len c =
     (if len \<le> curLength bs c then Inr (take len (curData bs c), c\<lparr>offset := offset c + len\<rparr>)
      else let (d, c1) = pullLoop bs (length bs - crtBuf c) len c
           in if length d \<noteq> len then Inl Out_Of_Range else Inr (d, c1))"

fun skipLoop :: "pieces \<Rightarrow> nat \<Rightarrow> nat \<Rightarrow> cursor \<Rightarrow> nat \<times> cursor" where
  "skipLoop bs 0 len c = (0, c)"
| "skipLoop bs (Suc n) len c =
     (if curLength bs c < len
      then let available = curLength bs c;
               (moved, c1) = tryAdvanceBuffer bs c
           in if moved
              then let (k, c2) = skipLoop bs n (len - available) c1 in (available + k, c2)
              else (available, c1)
      else (len, c\<lparr>offset := offset c + len\<rparr>))"

definition skipAtMost :: "pieces \<Rightarrow> nat \<Rightarrow> cursor \<Rightarrow> nat \<times> cursor" where
  "skipAtMost bs len c =
     (if len \<le> curLength bs c then (len, c\<lparr>offset := offset c + len\<rparr>)
      else skipLoop bs (length bs - crtBuf c) len c)"

definition skip :: "pieces \<Rightarrow> nat \<Rightarrow> cursor \<Rightarrow> cursor result" where
  "skip bs len c =
     (if len \<le> curLength bs c then Inr (c\<lparr>offset := offset c + len\<rparr>)
      else let (k, c1) = skipLoop bs (length bs - crtBuf c) len c
           in if k \<noteq> len then Inl Out_Of_Range else Inr c1)"

fun peekLoop :: "pieces \<Rightarrow> nat \<Rightarrow> cursor \<Rightarrow> cursor" where
  "peekLoop bs 0 c = c"
| "peekLoop bs (Suc n) c =
     (if curLength bs c = 0
      then let (moved, c1) = tryAdvanceBuffer bs c in if moved then peekLoop bs n c1 else c1
      else c)"

definition peek :: "pieces \<Rightarrow> cursor \<Rightarrow> byte list \<times> cursor" where
  "peek bs c = (let c1 = peekLoop bs (length bs - crtBuf c) c in (curData bs c1, c1))"

text \<open>
  \<^verbatim>\<open>readFixedString\<close>: the same walk, appending to a string; too little data is an
  exception.
\<close>

fun readStringLoop :: "pieces \<Rightarrow> nat \<Rightarrow> byte list \<Rightarrow> nat \<Rightarrow> cursor \<Rightarrow> (byte list \<times> cursor) result" where
  "readStringLoop bs 0 str len c = Inl Out_Of_Range"
| "readStringLoop bs (Suc n) str len c =
     (if curLength bs c < len
      then let available = curLength bs c;
               str1 = str @ curData bs c;
               (moved, c1) = tryAdvanceBuffer bs c
           in if moved then readStringLoop bs n str1 (len - available) c1 else Inl Out_Of_Range
      else Inr (str @ take len (curData bs c), c\<lparr>offset := offset c + len\<rparr>))"

text \<open>The memory that \<^verbatim>\<open>str.reserve(len)\<close> asks for is taken to be there.\<close>

definition readFixedString :: "pieces \<Rightarrow> nat \<Rightarrow> cursor \<Rightarrow> (byte list \<times> cursor) result" where
  "readFixedString bs len c =
     (if len \<le> curLength bs c then Inr (take len (curData bs c), c\<lparr>offset := offset c + len\<rparr>)
      else readStringLoop bs (length bs - crtBuf c) [] len c)"

text \<open>
  The inner loop of \<^verbatim>\<open>readTerminatedString\<close>: \<open>i\<close> counts the bytes before the
  terminator in the current data; \<open>slen\<close> bytes have been read before.
\<close>

fun scanTerminator :: "byte \<Rightarrow> nat \<Rightarrow> nat \<Rightarrow> byte list \<Rightarrow> nat \<Rightarrow> nat result" where
  "scanTerminator term maxLength slen [] i = Inr i"
| "scanTerminator term maxLength slen (b # bs) i =
     (if b = term then Inr i
      else if slen + (i + 1) \<ge> maxLength then Inl Length_Error
      else scanTerminator term maxLength slen bs (i + 1))"

fun readTerminatedLoop ::
  "byte \<Rightarrow> nat \<Rightarrow> pieces \<Rightarrow> nat \<Rightarrow> byte list \<Rightarrow> cursor \<Rightarrow> (byte list \<times> cursor) result" where
  "readTerminatedLoop term maxLength bs 0 str c = Inl Out_Of_Range"
| "readTerminatedLoop term maxLength bs (Suc n) str c =
     res_bind (scanTerminator term maxLength (length str) (curData bs c) 0) (\<lambda>i.
       let str1 = str @ take i (curData bs c)
       in if i < curLength bs c
          then res_bind (skip bs (i + 1) c) (\<lambda>c1. Inr (str1, c1))
          else res_bind (skip bs i c) (\<lambda>c1.
                 let (moved, c2) = tryAdvanceBuffer bs c1
                 in if moved then readTerminatedLoop term maxLength bs n str1 c2
                    else Inl Out_Of_Range))"

definition readTerminatedString ::
  "byte \<Rightarrow> nat \<Rightarrow> pieces \<Rightarrow> cursor \<Rightarrow> (byte list \<times> cursor) result" where
  "readTerminatedString term maxLength bs c =
     readTerminatedLoop term maxLength bs (length bs - crtBuf c) [] c"

section \<open>Integers\<close>

text \<open>The value of bytes in memory order on the little-endian hosts the framework is built for.\<close>

fun fromLE :: "byte list \<Rightarrow> nat" where
  "fromLE [] = 0"
| "fromLE (b # bs) = unat b + 256 * fromLE bs"

fun toLE :: "nat \<Rightarrow> nat \<Rightarrow> byte list" where
  "toLE 0 v = []"
| "toLE (Suc n) v = of_nat (v mod 256) # toLE n (v div 256)"

definition swapBytes :: "nat \<Rightarrow> nat \<Rightarrow> nat" where
  "swapBytes n v = fromLE (rev (toLE n v))"

text \<open>\<^verbatim>\<open>read<T>\<close> for an unsigned integer type of \<open>n\<close> bytes, and its fixed-endian forms.\<close>

definition readNative :: "pieces \<Rightarrow> nat \<Rightarrow> cursor \<Rightarrow> (nat \<times> cursor) result" where
  "readNative bs n c =
     (if n \<le> curLength bs c then Inr (fromLE (take n (curData bs c)), c\<lparr>offset := offset c + n\<rparr>)
      else let (d, c1) = pullLoop bs (length bs - crtBuf c) n c
           in if length d \<noteq> n then Inl Out_Of_Range else Inr (fromLE d, c1))"

definition readBE :: "pieces \<Rightarrow> nat \<Rightarrow> cursor \<Rightarrow> (nat \<times> cursor) result" where
  "readBE bs n c = res_bind (readNative bs n c) (\<lambda>(v, c1). Inr (swapBytes n v, c1))"

definition readLE :: "pieces \<Rightarrow> nat \<Rightarrow> cursor \<Rightarrow> (nat \<times> cursor) result" where
  "readLE bs n c = readNative bs n c"

section \<open>What a cursor has before it\<close>

definition cursor_ok :: "pieces \<Rightarrow> cursor \<Rightarrow> bool" where
  "cursor_ok bs c \<longleftrightarrow> crtBuf c < length bs \<and> offset c \<le> length (bs ! crtBuf c)"

definition remaining :: "pieces \<Rightarrow> cursor \<Rightarrow> byte list" where
  "remaining bs c = curData bs c @ concat (drop (crtBuf c + 1) bs)"

text \<open>The position as a number of bytes from the start of the chain.\<close>

definition position :: "pieces \<Rightarrow> cursor \<Rightarrow> nat" where
  "position bs c = length (concat (take (crtBuf c) bs)) + offset c"

lemma length_curData [simp]: "length (curData bs c) = curLength bs c"
  by (simp add: curData_def curLength_def)

lemma newCursor_ok: "bs \<noteq> [] \<Longrightarrow> cursor_ok bs newCursor"
  by (simp add: cursor_ok_def newCursor_def)

lemma remaining_new: "bs \<noteq> [] \<Longrightarrow> remaining bs newCursor = concat bs"
  by (cases bs) (simp_all add: remaining_def newCursor_def curData_def)

lemma split_position:
  assumes "cursor_ok bs c"
  shows "concat bs = take (position bs c) (concat bs) @ remaining bs c"
    and "length (take (position bs c) (concat bs)) = position bs c"
proof -
  have "bs = take (crtBuf c) bs @ bs ! crtBuf c # drop (crtBuf c + 1) bs"
    using assms by (simp add: cursor_ok_def id_take_nth_drop)
  then have "concat bs = concat (take (crtBuf c) bs) @ bs ! crtBuf c @ concat (drop (crtBuf c + 1) bs)"
    by (metis concat.simps(2) concat_append)
  then have *: "concat bs = (concat (take (crtBuf c) bs) @ take (offset c) (bs ! crtBuf c)) @ remaining bs c"
    by (simp add: remaining_def curData_def)
  have len: "length (concat (take (crtBuf c) bs) @ take (offset c) (bs ! crtBuf c)) = position bs c"
    using assms by (simp add: position_def cursor_ok_def)
  from * len show "concat bs = take (position bs c) (concat bs) @ remaining bs c"
    by (metis append_eq_conv_conj)
  from * len show "length (take (position bs c) (concat bs)) = position bs c"
    by (metis append_eq_conv_conj)
qed

lemma remaining_position: "cursor_ok bs c \<Longrightarrow> remaining bs c = drop (position bs c) (concat bs)"
  by (metis append_eq_conv_conj split_position)

lemma advance_True:
  assumes "cursor_ok bs c" and "tryAdvanceBuffer bs c = (moved, c')" and moved
  shows "cursor_ok bs c'" and "crtBuf c' = crtBuf c + 1" and "offset c' = 0"
    and "remaining bs c = curData bs c @ remaining bs c'"
proof -
  have c': "crtBuf c' = crtBuf c + 1" "offset c' = 0" "crtBuf c + 1 \<noteq> length bs"
    using assms(2,3) by (auto simp: tryAdvanceBuffer_def split: if_splits)
  with assms(1) have lt: "crtBuf c + 1 < length bs" by (simp add: cursor_ok_def)
  with c' show "cursor_ok bs c'" "crtBuf c' = crtBuf c + 1" "offset c' = 0" by (simp_all add: cursor_ok_def)
  show "remaining bs c = curData bs c @ remaining bs c'"
    using c' lt by (simp add: remaining_def curData_def flip: Cons_nth_drop_Suc)
qed

lemma advance_False:
  assumes "cursor_ok bs c" and "tryAdvanceBuffer bs c = (moved, c')" and "\<not> moved"
  shows "cursor_ok bs c'" and "crtBuf c + 1 = length bs" and "remaining bs c = curData bs c"
    and "remaining bs c' = []"
  using assms by (auto simp: tryAdvanceBuffer_def cursor_ok_def remaining_def curData_def split: if_splits)

lemma step_inside:
  assumes "cursor_ok bs c" and "len \<le> curLength bs c"
  shows "cursor_ok bs (c\<lparr>offset := offset c + len\<rparr>)"
    and "remaining bs (c\<lparr>offset := offset c + len\<rparr>) = drop len (remaining bs c)"
    and "take len (curData bs c) = take len (remaining bs c)"
    and "len \<le> length (remaining bs c)"
  using assms by (auto simp: cursor_ok_def curLength_def remaining_def curData_def add.commute)

lemma pullLoop_spec:
  assumes "cursor_ok bs c" and "n = length bs - crtBuf c"
  shows "\<exists>c'. pullLoop bs n len c = (take len (remaining bs c), c') \<and> cursor_ok bs c' \<and>
    remaining bs c' = drop len (remaining bs c)"
  using assms
proof (induction n arbitrary: len c)
  case 0
  then show ?case by (simp add: cursor_ok_def)
next
  case (Suc n)
  obtain moved c1 where adv: "tryAdvanceBuffer bs c = (moved, c1)" by fastforce
  consider "len \<le> curLength bs c" | "curLength bs c < len" "\<not> moved" | "curLength bs c < len" moved
    by linarith
  then show ?case
  proof cases
    case 1
    with step_inside [OF Suc.prems(1), of len] show ?thesis by simp
  next
    case 2
    with advance_False [OF Suc.prems(1) adv] adv show ?thesis by simp
  next
    case 3
    note A = advance_True [OF Suc.prems(1) adv 3(2)]
    have "n = length bs - crtBuf c1" using Suc.prems(2) A(2) by simp
    from Suc.IH [OF A(1) this, of "len - curLength bs c"] A(4) 3 adv show ?thesis by auto
  qed
qed

lemma skipLoop_pullLoop:
  "skipLoop bs n len c = (length (fst (pullLoop bs n len c)), snd (pullLoop bs n len c))"
  by (induction n arbitrary: len c) (auto simp: Let_def split: prod.splits)

text \<open>Reading at most \<open>len\<close> bytes reads the first bytes of what remains, however they are split over buffers.\<close>

lemma pullAtMost_spec:
  assumes "cursor_ok bs c"
  shows "\<exists>c'. pullAtMost bs len c = (take len (remaining bs c), c') \<and> cursor_ok bs c' \<and>
    remaining bs c' = drop len (remaining bs c)"
  using step_inside [OF assms, of len] pullLoop_spec [OF assms refl, of len]
  by (cases "len \<le> curLength bs c") (simp_all add: pullAtMost_def)

lemma skipLoop_spec:
  assumes "cursor_ok bs c"
  shows "\<exists>c'. skipLoop bs (length bs - crtBuf c) len c = (min len (length (remaining bs c)), c') \<and>
    cursor_ok bs c' \<and> remaining bs c' = drop len (remaining bs c)"
  using pullLoop_spec [OF assms refl, of len] skipLoop_pullLoop [of bs "length bs - crtBuf c" len c]
  by (auto simp: min.commute)

lemma skip_spec:
  assumes "cursor_ok bs c"
  shows "if len \<le> length (remaining bs c)
    then \<exists>c'. skip bs len c = Inr c' \<and> cursor_ok bs c' \<and> remaining bs c' = drop len (remaining bs c)
    else skip bs len c = Inl Out_Of_Range"
  using step_inside [OF assms, of len] skipLoop_spec [OF assms, of len]
  by (cases "len \<le> curLength bs c") (auto simp: skip_def min_def)

lemma pull_spec:
  assumes "cursor_ok bs c"
  shows "if len \<le> length (remaining bs c)
    then \<exists>c'. pull bs len c = Inr (take len (remaining bs c), c') \<and> cursor_ok bs c' \<and>
           remaining bs c' = drop len (remaining bs c)
    else pull bs len c = Inl Out_Of_Range"
  using step_inside [OF assms, of len] pullLoop_spec [OF assms refl, of len]
  by (cases "len \<le> curLength bs c") (auto simp: pull_def min_def)

lemma curData_Nil: "curData bs c = [] \<longleftrightarrow> curLength bs c = 0"
  using length_curData [of bs c] by (metis length_0_conv)

lemma peekLoop_spec:
  assumes "cursor_ok bs c" and "n = length bs - crtBuf c"
  shows "cursor_ok bs (peekLoop bs n c) \<and> remaining bs (peekLoop bs n c) = remaining bs c \<and>
    (curData bs (peekLoop bs n c) = [] \<longrightarrow> remaining bs c = [])"
  using assms
proof (induction n arbitrary: c)
  case (Suc n)
  obtain moved c1 where adv: "tryAdvanceBuffer bs c = (moved, c1)" by fastforce
  consider "curLength bs c > 0" | "curLength bs c = 0" "\<not> moved" | "curLength bs c = 0" moved
    by linarith
  then show ?case
  proof cases
    case 2
    with advance_False [OF Suc.prems(1) adv] adv curData_Nil [of bs c] show ?thesis by simp
  next
    case 3
    note A = advance_True [OF Suc.prems(1) adv 3(2)]
    have "n = length bs - crtBuf c1" using Suc.prems(2) A(2) by simp
    from Suc.IH [OF A(1) this] A(4) 3 adv curData_Nil [of bs c] show ?thesis by simp
  qed (use Suc.prems(1) curData_Nil [of bs c] in simp)
qed (simp add: cursor_ok_def)

text \<open>\<^verbatim>\<open>peek\<close> shows a prefix of what remains, and nothing only at the end.\<close>

lemma peek_spec:
  assumes "cursor_ok bs c"
  shows "\<exists>d c'. peek bs c = (d, c') \<and> cursor_ok bs c' \<and> remaining bs c' = remaining bs c \<and>
    d = curData bs c' \<and> (\<exists>tl. remaining bs c = d @ tl) \<and> (d = [] \<longleftrightarrow> remaining bs c = [])"
proof -
  let ?c = "peekLoop bs (length bs - crtBuf c) c"
  note P = peekLoop_spec [OF assms refl]
  have "remaining bs c = curData bs ?c @ concat (drop (crtBuf ?c + 1) bs)"
    using P by (simp add: remaining_def)
  with P show ?thesis by (auto simp: peek_def Let_def)
qed

lemma readStringLoop_spec:
  assumes "cursor_ok bs c" and "n = length bs - crtBuf c"
  shows "if len \<le> length (remaining bs c)
    then \<exists>c'. readStringLoop bs n str len c = Inr (str @ take len (remaining bs c), c') \<and>
           cursor_ok bs c' \<and> remaining bs c' = drop len (remaining bs c)
    else readStringLoop bs n str len c = Inl Out_Of_Range"
  using assms
proof (induction n arbitrary: str len c)
  case 0
  then show ?case by (simp add: cursor_ok_def)
next
  case (Suc n)
  obtain moved c1 where adv: "tryAdvanceBuffer bs c = (moved, c1)" by fastforce
  consider "len \<le> curLength bs c" | "curLength bs c < len" "\<not> moved" | "curLength bs c < len" moved
    by linarith
  then show ?case
  proof cases
    case 1
    with step_inside [OF Suc.prems(1), of len] show ?thesis by auto
  next
    case 2
    with advance_False [OF Suc.prems(1) adv] adv show ?thesis by simp
  next
    case 3
    note A = advance_True [OF Suc.prems(1) adv 3(2)]
    have "n = length bs - crtBuf c1" using Suc.prems(2) A(2) by simp
    from Suc.IH [OF A(1) this, of "len - curLength bs c" "str @ curData bs c"] A(4) 3 adv show ?thesis
      by (auto split: if_splits)
  qed
qed

lemma readFixedString_spec:
  assumes "cursor_ok bs c"
  shows "if len \<le> length (remaining bs c)
    then \<exists>c'. readFixedString bs len c = Inr (take len (remaining bs c), c') \<and> cursor_ok bs c' \<and>
           remaining bs c' = drop len (remaining bs c)
    else readFixedString bs len c = Inl Out_Of_Range"
  using step_inside [OF assms, of len] readStringLoop_spec [OF assms refl, of len "[]"]
  by (cases "len \<le> curLength bs c") (auto simp: readFixedString_def)

lemma scanTerminator_spec:
  "scanTerminator t m slen d i =
     (if takeWhile (\<lambda>b. b \<noteq> t) d \<noteq> [] \<and> m \<le> slen + i + length (takeWhile (\<lambda>b. b \<noteq> t) d)
      then Inl Length_Error else Inr (i + length (takeWhile (\<lambda>b. b \<noteq> t) d)))"
  by (induction t m slen d i rule: scanTerminator.induct) auto

lemma takeWhile_before: "t \<notin> set xs \<Longrightarrow> takeWhile (\<lambda>b. b \<noteq> t) (xs @ t # ys) = xs"
  by (induction xs) auto

lemma takeWhile_none: "t \<notin> set xs \<Longrightarrow> takeWhile (\<lambda>b. b \<noteq> t) xs = xs"
  by (induction xs) auto

text \<open>
  The specification of a terminated read: \<open>pre\<close> is what precedes the terminator.
\<close>

definition terminated :: "byte \<Rightarrow> nat \<Rightarrow> byte list \<Rightarrow> byte list result" where
  "terminated t m xs =
     (let pre = takeWhile (\<lambda>b. b \<noteq> t) xs
      in if pre \<noteq> [] \<and> m \<le> length pre then Inl Length_Error
         else if pre = xs then Inl Out_Of_Range else Inr pre)"

lemma terminated_found:
  "t \<notin> set pre \<Longrightarrow> terminated t m (pre @ t # ys) =
     (if pre \<noteq> [] \<and> m \<le> length pre then Inl Length_Error else Inr pre)"
  by (simp add: terminated_def Let_def takeWhile_before)

lemma terminated_absent:
  "t \<notin> set xs \<Longrightarrow> terminated t m xs =
     (if xs \<noteq> [] \<and> m \<le> length xs then Inl Length_Error else Inl Out_Of_Range)"
  by (simp add: terminated_def Let_def takeWhile_none)

text \<open>Too many bytes before the terminator are an error, whatever follows.\<close>

lemma terminated_long:
  assumes "t \<notin> set xs" and "xs \<noteq> []" and "m \<le> length xs"
  shows "terminated t m (xs @ ys) = Inl Length_Error"
proof (cases "t \<in> set ys")
  case True
  then obtain us vs where "ys = us @ t # vs" "t \<notin> set us" by (meson split_list_first)
  with assms terminated_found [of t "xs @ us" m vs] show ?thesis by simp
next
  case False
  with assms terminated_absent [of t "xs @ ys" m] show ?thesis by simp
qed

lemma readTerminatedLoop_spec:
  assumes "cursor_ok bs c" and "n = length bs - crtBuf c" and "t \<notin> set str"
    and "str = [] \<or> length str < m"
  shows "case terminated t m (str @ remaining bs c) of
      Inl e \<Rightarrow> readTerminatedLoop t m bs n str c = Inl e
    | Inr pre \<Rightarrow> \<exists>c'. readTerminatedLoop t m bs n str c = Inr (pre, c') \<and> cursor_ok bs c' \<and>
        str @ remaining bs c = pre @ t # remaining bs c'"
  using assms
proof (induction n arbitrary: str c)
  case 0
  then show ?case by (simp add: cursor_ok_def)
next
  case (Suc n)
  let ?d = "curData bs c"
  have rem: "remaining bs c = ?d @ concat (drop (crtBuf c + 1) bs)" by (simp add: remaining_def)
  show ?case
  proof (cases "t \<in> set ?d")
    case True
    then obtain w d' where d: "?d = w @ t # d'" "t \<notin> set w" by (meson split_list_first)
    have "length w < curLength bs c" using d(1) length_curData [of bs c] by simp
    then have lt: "Suc (length w) \<le> curLength bs c" by simp
    have tw: "take (length w) ?d = w" using d(1) by simp
    have pre: "str @ remaining bs c = (str @ w) @ t # d' @ concat (drop (crtBuf c + 1) bs)"
      using rem d(1) by simp
    note found = terminated_found [of t "str @ w" m, folded pre]
    have rest: "remaining bs (c\<lparr>offset := Suc (offset c + length w)\<rparr>) = d' @ concat (drop (crtBuf c + 1) bs)"
      "cursor_ok bs (c\<lparr>offset := Suc (offset c + length w)\<rparr>)"
      using step_inside(1,2) [OF Suc.prems(1) lt] rem d(1) by simp_all
    show ?thesis
      using Suc.prems(3,4) d tw lt rest rem
        terminated_found [of t "str @ w" m "d' @ concat (drop (crtBuf c + 1) bs)"]
      by (auto simp: scanTerminator_spec takeWhile_before skip_def)
  next
    case False
    obtain moved c1 where adv: "tryAdvanceBuffer bs (c\<lparr>offset := offset c + curLength bs c\<rparr>) = (moved, c1)"
      by fastforce
    note S = step_inside [OF Suc.prems(1) order_refl]
    have dropped: "drop (curLength bs c) (remaining bs c) = concat (drop (crtBuf c + 1) bs)"
      using rem by simp
    show ?thesis
    proof (cases "?d \<noteq> [] \<and> m \<le> length str + curLength bs c")
      case True
      with Suc.prems(3) False terminated_long [of t "str @ ?d" m] rem show ?thesis
        by (auto simp: scanTerminator_spec takeWhile_none)
    next
      case fits: False
      have body: "readTerminatedLoop t m bs (Suc n) str c
          = (if moved then readTerminatedLoop t m bs n (str @ ?d) c1 else Inl Out_Of_Range)"
        using fits False adv by (auto simp: scanTerminator_spec takeWhile_none skip_def)
      show ?thesis
      proof (cases moved)
        case True
        note A = advance_True [OF S(1) adv True]
        have "n = length bs - crtBuf c1" using Suc.prems(2) A(2) by simp
        moreover have "str @ ?d = [] \<or> length (str @ ?d) < m"
          using fits Suc.prems(4) curData_Nil [of bs c] by auto
        moreover have "t \<notin> set (str @ ?d)" using Suc.prems(3) False by simp
        moreover have "remaining bs c1 = concat (drop (crtBuf c + 1) bs)"
          using A(4) S(2) dropped by (simp add: curData_def cursor_ok_def curLength_def)
        then have "(str @ ?d) @ remaining bs c1 = str @ remaining bs c" using rem by simp
        moreover have "readTerminatedLoop t m bs (Suc n) str c = readTerminatedLoop t m bs n (str @ ?d) c1"
          using body True by (simp only: if_True)
        ultimately show ?thesis
          using Suc.IH [OF A(1), of "str @ ?d"] by (simp only: HOL.simp_thms)
      next
        case m: False
        have "concat (drop (crtBuf c + 1) bs) = []"
          using advance_False(3) [OF S(1) adv m] S(2) dropped by (simp add: curData_def curLength_def)
        with rem have "remaining bs c = ?d" by simp
        with terminated_absent [of t "str @ ?d" m] Suc.prems(3,4) False fits body m show ?thesis
          using curData_Nil [of bs c] by auto
      qed
    qed
  qed
qed

section \<open>Distances and ends\<close>

lemma allEmpty_concat: "allEmpty bs \<longleftrightarrow> concat bs = []"
  by (induction bs) auto

lemma isAtEnd_spec: "cursor_ok bs c \<Longrightarrow> isAtEnd bs c \<longleftrightarrow> remaining bs c = []"
  by (auto simp: isAtEnd_def cursor_ok_def remaining_def curData_def allEmpty_concat)

lemma sumBetween_ok:
  assumes "i \<le> target" and "target < length bs" and "target - i < n"
  shows "sumBetween bs target n i = Inr (length (concat (take (target - i) (drop i bs))))"
  using assms
proof (induction n arbitrary: i)
  case (Suc n)
  show ?case
  proof (cases "i = target")
    case False
    with Suc.prems have i: "i < length bs" "i < target" by simp_all
    then have "take (target - i) (drop i bs) = bs ! i # take (target - Suc i) (drop (Suc i) bs)"
      by (metis Cons_nth_drop_Suc Suc_diff_Suc take_Suc_Cons)
    with Suc.IH [of "Suc i"] Suc.prems i False show ?thesis by simp
  qed simp
qed simp

lemma sumBetween_wrap: "target < i \<Longrightarrow> i \<le> length bs \<Longrightarrow> sumBetween bs target n i = Inl Out_Of_Range"
proof (induction n arbitrary: i)
  case (Suc n)
  then show ?case by (cases "i = length bs") simp_all
qed simp

lemma concat_take_split:
  "i < j \<Longrightarrow> j < length bs \<Longrightarrow>
     length (concat (take j bs)) = length (concat (take i bs)) + length (bs ! i) +
       length (concat (take (j - Suc i) (drop (Suc i) bs)))"
proof -
  assume lt: "i < j" "j < length bs"
  then have "j = Suc i + (j - Suc i)" by simp
  then have "take j bs = take (Suc i) bs @ take (j - Suc i) (drop (Suc i) bs)"
    by (metis take_add)
  with lt show ?thesis by (simp add: take_Suc_conv_app_nth)
qed

lemma position_mono_buf:
  assumes "cursor_ok bs c" and "cursor_ok bs d" and "crtBuf c < crtBuf d"
  shows "position bs c \<le> position bs d"
  using assms concat_take_split [of "crtBuf c" "crtBuf d" bs]
  by (simp add: position_def cursor_ok_def)

lemma cursorDiff_spec:
  assumes "cursor_ok bs c" and "cursor_ok bs d"
  shows "cursorDiff bs d c =
    (if crtBuf c < crtBuf d \<or> crtBuf c = crtBuf d \<and> offset c \<le> offset d
     then Inr (position bs d - position bs c) else Inl Out_Of_Range)"
proof (cases "crtBuf c < crtBuf d")
  case True
  then have "sumBetween bs (crtBuf d) (length bs) (Suc (crtBuf c)) =
      Inr (length (concat (take (crtBuf d - Suc (crtBuf c)) (drop (Suc (crtBuf c)) bs))))"
    using assms(2) by (intro sumBetween_ok) (auto simp: cursor_ok_def)
  with True assms concat_take_split [of "crtBuf c" "crtBuf d" bs] show ?thesis
    by (simp add: cursorDiff_def cursor_ok_def position_def curLength_def)
next
  case False
  with assms sumBetween_wrap [of "crtBuf d" "crtBuf c + 1" bs] show ?thesis
    by (auto simp: cursorDiff_def cursor_ok_def position_def)
qed

lemma end_ok:
  assumes "bs \<noteq> []"
  shows "cursor_ok bs \<lparr>crtBuf = length bs - 1, offset = length (last bs)\<rparr>"
    and "position bs \<lparr>crtBuf = length bs - 1, offset = length (last bs)\<rparr> = length (concat bs)"
proof -
  show "cursor_ok bs \<lparr>crtBuf = length bs - 1, offset = length (last bs)\<rparr>"
    using assms by (simp add: cursor_ok_def last_conv_nth)
  have "bs = take (length bs - 1) bs @ [last bs]"
    using append_butlast_last_id [OF assms] by (simp add: butlast_conv_take)
  then have "concat bs = concat (take (length bs - 1) bs) @ last bs"
    by (metis append.right_neutral concat.simps concat_append)
  then show "position bs \<lparr>crtBuf = length bs - 1, offset = length (last bs)\<rparr> = length (concat bs)"
    by (simp add: position_def)
qed

lemma totalLength_spec:
  assumes "cursor_ok bs c"
  shows "totalLength bs c = Inr (length (remaining bs c))"
proof (cases "crtBuf c = 0")
  case True
  with remaining_position [OF assms] show ?thesis by (simp add: totalLength_def position_def)
next
  case False
  have "bs \<noteq> []" using assms by (auto simp: cursor_ok_def)
  note E = end_ok [OF this]
  have "crtBuf c < length bs - 1 \<or> crtBuf c = length bs - 1 \<and> offset c \<le> length (last bs)"
  proof (cases "crtBuf c < length bs - 1")
    case False
    with assms have "crtBuf c = length bs - 1" unfolding cursor_ok_def by linarith
    with assms \<open>bs \<noteq> []\<close> show ?thesis by (simp add: cursor_ok_def last_conv_nth)
  qed simp
  with False cursorDiff_spec [OF assms E(1)] E(2) remaining_position [OF assms] show ?thesis
    by (simp add: totalLength_def)
qed

section \<open>Integers\<close>

lemma length_toLE [simp]: "length (toLE n v) = n"
  by (induction n v rule: toLE.induct) simp_all

lemma from_toLE: "fromLE (toLE n v) = v mod 256 ^ n"
proof (induction n arbitrary: v)
  case (Suc n)
  have "unat (of_nat (v mod 256) :: byte) = v mod 256" by (simp add: unat_of_nat)
  with Suc show ?case by (simp add: mod_mult2_eq add.commute)
qed simp

lemma fromLE_less: "fromLE bs < 256 ^ length bs"
proof (induction bs)
  case (Cons b bs)
  have "unat b < 256" using unsigned_less [of b] by simp
  with Cons show ?case by simp
qed simp

lemma to_fromLE: "toLE (length bs) (fromLE bs) = bs"
proof (induction bs)
  case (Cons b bs)
  have "unat b < 256" using unsigned_less [of b] by simp
  with Cons show ?case by simp
qed simp

lemma swapBytes_fromLE: "length bs = n \<Longrightarrow> swapBytes n (fromLE bs) = fromLE (rev bs)"
  using to_fromLE [of bs] by (simp add: swapBytes_def)

lemma swapBytes_twice: "swapBytes n (swapBytes n v) = v mod 256 ^ n"
proof -
  have "swapBytes n (swapBytes n v) = fromLE (rev (rev (toLE n v)))"
    unfolding swapBytes_def [of n v] by (rule swapBytes_fromLE) simp
  then show ?thesis by (simp add: from_toLE)
qed

lemma readNative_pull:
  "readNative bs n c = res_bind (pull bs n c) (\<lambda>(d, c1). Inr (fromLE d, c1))"
  by (auto simp: readNative_def pull_def split: prod.splits)

section \<open>Properties\<close>

text \<open>
  C17: for any cursor inside a chain, every bulk read depends only on the bytes left and
  not on how they are split over the elements: \<open>pull\<close>, \<open>readFixedString\<close> and \<open>skip\<close> succeed
  exactly when \<open>len\<close> bytes are left, give the next \<open>len\<close> bytes and leave the cursor behind
  them, and throw \<open>out_of_range\<close> otherwise; \<open>pullAtMost\<close> gives as many as there are;
  \<open>totalLength\<close> and \<open>isAtEnd\<close> count the bytes left.
\<close>

theorem cursor_reads_chain:
  assumes "cursor_ok bs c"
  shows "(if len \<le> length (remaining bs c)
      then (\<exists>c'. pull bs len c = Inr (take len (remaining bs c), c') \<and> cursor_ok bs c' \<and>
              remaining bs c' = drop len (remaining bs c)) \<and>
           (\<exists>c'. readFixedString bs len c = Inr (take len (remaining bs c), c') \<and> cursor_ok bs c' \<and>
              remaining bs c' = drop len (remaining bs c)) \<and>
           (\<exists>c'. skip bs len c = Inr c' \<and> cursor_ok bs c' \<and> remaining bs c' = drop len (remaining bs c))
      else pull bs len c = Inl Out_Of_Range \<and> readFixedString bs len c = Inl Out_Of_Range \<and>
           skip bs len c = Inl Out_Of_Range) \<and>
    (\<exists>c'. pullAtMost bs len c = (take len (remaining bs c), c') \<and> cursor_ok bs c' \<and>
       remaining bs c' = drop len (remaining bs c)) \<and>
    totalLength bs c = Inr (length (remaining bs c)) \<and>
    (isAtEnd bs c \<longleftrightarrow> remaining bs c = [])"
  using pull_spec [OF assms, of len] readFixedString_spec [OF assms, of len] skip_spec [OF assms, of len]
    pullAtMost_spec [OF assms, of len] totalLength_spec [OF assms] isAtEnd_spec [OF assms]
  by (cases "len \<le> length (remaining bs c)") simp_all

theorem cursor_reads_chain_witness:
  "cursor_ok [[1, 2], [], [3, 4, 5]] \<lparr>crtBuf = 0, offset = 1\<rparr> \<and>
   (\<exists>c'. pull [[1, 2], [], [3, 4, 5]] 3 \<lparr>crtBuf = 0, offset = 1\<rparr> = Inr ([2, 3, 4], c'))"
proof -
  have "cursor_ok [[1, 2], [], [3, 4, 5]] \<lparr>crtBuf = 0, offset = 1\<rparr>" by (simp add: cursor_ok_def)
  with cursor_reads_chain [OF this, of 3] show ?thesis by (auto simp: remaining_def curData_def)
qed

text \<open>
  \<open>readTerminatedString\<close> from any position of any chain does what its specification
  says of the bytes left: it returns what precedes the first terminator and stops
  behind it, throws \<open>length_error\<close> as soon as \<open>maxLength\<close> bytes come before the
  terminator and \<open>out_of_range\<close> when there is no terminator.
\<close>

theorem readTerminatedString_spec:
  assumes "cursor_ok bs c"
  shows "case terminated t m (remaining bs c) of
      Inl e \<Rightarrow> readTerminatedString t m bs c = Inl e
    | Inr pre \<Rightarrow> t \<notin> set pre \<and> (\<exists>c'. readTerminatedString t m bs c = Inr (pre, c') \<and> cursor_ok bs c' \<and>
        remaining bs c = pre @ t # remaining bs c')"
proof -
  have "t \<notin> set (takeWhile (\<lambda>b. b \<noteq> t) (remaining bs c))"
    by (metis (mono_tags) set_takeWhileD)
  with readTerminatedLoop_spec [OF assms refl, of t "[]" m] show ?thesis
    by (auto simp: readTerminatedString_def terminated_def Let_def split: if_splits)
qed

theorem readTerminatedString_spec_witness:
  "cursor_ok [[1, 2], [3, 0, 5]] newCursor \<and>
   (\<exists>c'. readTerminatedString 0 9 [[1, 2], [3, 0, 5]] newCursor = Inr ([1, 2, 3], c') \<and>
      remaining [[1, 2], [3, 0, 5]] c' = [5])"
proof -
  have "cursor_ok [[1, 2], [3, 0, 5]] newCursor" by (simp add: newCursor_ok)
  with readTerminatedString_spec [OF this, of 0 9] show ?thesis
    by (auto simp: remaining_new terminated_def Let_def)
qed

text \<open>
  Integers written at any place of a chain, in the order that \<open>writeBE\<close> or \<open>writeLE\<close> puts
  their bytes, are read back by \<open>readBE\<close> and \<open>readLE\<close> however the bytes are split, and the
  cursor stands behind them; too few bytes are \<open>out_of_range\<close>.
\<close>

theorem integers_read_back:
  assumes "cursor_ok bs c" and "v < 256 ^ n"
  shows "(remaining bs c = rev (toLE n v) @ rest \<longrightarrow>
      (\<exists>c'. readBE bs n c = Inr (v, c') \<and> cursor_ok bs c' \<and> remaining bs c' = rest)) \<and>
    (remaining bs c = toLE n v @ rest \<longrightarrow>
      (\<exists>c'. readLE bs n c = Inr (v, c') \<and> cursor_ok bs c' \<and> remaining bs c' = rest)) \<and>
    (length (remaining bs c) < n \<longrightarrow> readBE bs n c = Inl Out_Of_Range \<and> readLE bs n c = Inl Out_Of_Range)"
  using pull_spec [OF assms(1), of n] assms(2)
  by (auto simp: readBE_def readLE_def readNative_pull swapBytes_fromLE from_toLE)

theorem integers_read_back_witness:
  "cursor_ok [[1], [2, 9]] newCursor \<and>
   (\<exists>c'. readBE [[1], [2, 9]] 2 newCursor = Inr (258, c') \<and> remaining [[1], [2, 9]] c' = [9])"
proof -
  have "cursor_ok [[1], [2, 9]] newCursor" by (simp add: newCursor_ok)
  with integers_read_back [OF this, of 258 2 "[9]"] show ?thesis
    by (auto simp: remaining_new numeral_2_eq_2)
qed

end
