(* ===== verification/IO_Buffer.thy ===== *)
theory IO_Buffer
  imports Buffer_Cursor
begin

text \<open>
  Reference-counted buffers and chains of them: \<^verbatim>\<open>IOBuf\<close> of \<^verbatim>\<open>src/raster/io/IOBuf.h\<close> and
  \<^verbatim>\<open>IOBuf.cpp\<close>. The heap holds the memory blocks that buffers point into, each
  with the \<^verbatim>\<open>SharedInfo\<close> that counts its users when the block belongs to the
  buffers. A chain is the list of its elements from the object an operation is
  called on; the ring of links is in \<^verbatim>\<open>Chain_Links\<close>. Memory is taken to be
  always available (no \<^verbatim>\<open>bad_alloc\<close>), and fewer than \<open>2\<^sup>3\<^sup>2\<close> buffers share a block.
\<close>

section \<open>Memory\<close>

text \<open>
  Who releases a block: \<^verbatim>\<open>free\<close> (a null \<^verbatim>\<open>freeFn\<close>), \<^verbatim>\<open>freeInternalBuf\<close> for a block
  inside the \<^verbatim>\<open>HeapFullStorage\<close> of its first buffer, or a function of the user.
\<close>

datatype free_fn = Malloced | Internal | User nat

record shared_info =
  refcount :: nat
  freeFn :: free_fn

record block =
  cells :: "byte list"
  info :: "shared_info option"

text \<open>
  \<open>junk\<close> is what uninitialised memory holds; \<open>freeLog\<close> lists the released blocks.
\<close>

record bufheap =
  blocks :: "nat \<rightharpoonup> block"
  fresh :: nat
  freeLog :: "(nat \<times> free_fn) list"
  junk :: "nat \<Rightarrow> byte"

text \<open>
  One \<^verbatim>\<open>IOBuf\<close>: \<open>bufBlock\<close> names the block of \<^verbatim>\<open>buf_\<close>, \<open>dataOff\<close> is \<^verbatim>\<open>data_ - buf_\<close>; the last three
  fields are \<^verbatim>\<open>flagsAndSharedInfo_\<close> (whether there is a \<^verbatim>\<open>SharedInfo\<close>, and the two flags).
\<close>

record iobuf =
  bufBlock :: "nat option"
  dataOff :: nat
  dataLen :: nat
  bufCap :: nat
  managed :: bool
  freeSharedInfo :: bool
  maybeShared :: bool

type_synonym chain = "iobuf list"

definition nullBuf :: iobuf where
  "nullBuf = \<lparr>bufBlock = None, dataOff = 0, dataLen = 0, bufCap = 0, managed = False,
     freeSharedInfo = False, maybeShared = False\<rparr>"

definition cellsOf :: "bufheap \<Rightarrow> nat \<Rightarrow> byte list" where
  "cellsOf h b = (case blocks h b of None \<Rightarrow> [] | Some k \<Rightarrow> cells k)"

definition overwrite :: "byte list \<Rightarrow> nat \<Rightarrow> byte list \<Rightarrow> byte list" where
  "overwrite cs off d = take off cs @ d @ drop (off + length d) cs"

text \<open>\<^verbatim>\<open>memcpy\<close> and \<^verbatim>\<open>memmove\<close> into the block of a buffer, and the bytes \<^verbatim>\<open>[data_, data_ + length_)\<close>.\<close>

definition writeAt :: "bufheap \<Rightarrow> iobuf \<Rightarrow> nat \<Rightarrow> byte list \<Rightarrow> bufheap result" where
  "writeAt h s off d =
     (if d = [] then Inr h
      else case bufBlock s of
        None \<Rightarrow> Inl Null_Deref
      | Some b \<Rightarrow> (case blocks h b of
          None \<Rightarrow> Inl Undefined
        | Some k \<Rightarrow>
            if off + length d \<le> length (cells k)
            then Inr (h\<lparr>blocks := (blocks h)(b \<mapsto> k\<lparr>cells := overwrite (cells k) off d\<rparr>)\<rparr>)
            else Inl Undefined))"

definition segData :: "bufheap \<Rightarrow> iobuf \<Rightarrow> byte list" where
  "segData h s = (case bufBlock s of None \<Rightarrow> [] | Some b \<Rightarrow> take (dataLen s) (drop (dataOff s) (cellsOf h b)))"

definition chainPieces :: "bufheap \<Rightarrow> chain \<Rightarrow> pieces" where
  "chainPieces h ch = map (segData h) ch"

definition chainData :: "bufheap \<Rightarrow> chain \<Rightarrow> byte list" where
  "chainData h ch = concat (map (segData h) ch)"

section \<open>Allocation\<close>

text \<open>\<^verbatim>\<open>goodExtBufferSize\<close> in \<^verbatim>\<open>size_t\<close>; \<^verbatim>\<open>sizeof(SharedInfo)\<close> is 24.\<close>

definition goodExtBufferSize :: "nat \<Rightarrow> nat" where
  "goodExtBufferSize minCapacity =
     (let minSize = (minCapacity + 24) mod 2 ^ 64 in (minSize + 7) mod 2 ^ 64 div 8 * 8)"

definition newBlock :: "bufheap \<Rightarrow> byte list \<Rightarrow> shared_info option \<Rightarrow> bufheap \<times> nat" where
  "newBlock h cs i =
     (h\<lparr>blocks := (blocks h)(fresh h \<mapsto> \<lparr>cells = cs, info = i\<rparr>), fresh := fresh h + 1\<rparr>, fresh h)"

text \<open>The \<^verbatim>\<open>SharedInfo\<close> takes the last 24 bytes of the memory.\<close>

definition initExtBuffer :: "nat \<Rightarrow> shared_info \<times> nat" where
  "initExtBuffer mallocSize = (\<lparr>refcount = 1, freeFn = Malloced\<rparr>, mallocSize - 24)"

definition allocExtBuffer :: "bufheap \<Rightarrow> nat \<Rightarrow> bufheap \<times> nat \<times> nat" where
  "allocExtBuffer h minCapacity =
     (let (i, cap) = initExtBuffer (goodExtBufferSize minCapacity);
          (h1, b) = newBlock h (map (junk h) [0..<cap]) (Some i)
      in (h1, b, cap))"

definition createSeparate :: "bufheap \<Rightarrow> nat \<Rightarrow> bufheap \<times> iobuf" where
  "createSeparate h capacity =
     (let (h1, b, cap) = allocExtBuffer h capacity
      in (h1, nullBuf\<lparr>bufBlock := Some b, bufCap := cap, managed := True\<rparr>))"

definition createCombined :: "bufheap \<Rightarrow> nat \<Rightarrow> bufheap \<times> iobuf" where
  "createCombined h capacity =
     (let (h1, b) = newBlock h (map (junk h) [0..<capacity]) (Some \<lparr>refcount = 1, freeFn = Internal\<rparr>)
      in (h1, nullBuf\<lparr>bufBlock := Some b, bufCap := capacity, managed := True\<rparr>))"

definition create :: "bufheap \<Rightarrow> nat \<Rightarrow> bufheap \<times> iobuf" where
  "create h capacity = (if capacity \<le> 1024 then createCombined h capacity else createSeparate h capacity)"

text \<open>
  \<^verbatim>\<open>createChain\<close>: the loop adds a buffer while the capacity is short; every
  turn adds what it asks for, so \<open>totalCapacity\<close> turns are enough when
  \<open>maxBufCapacity\<close> is positive.
\<close>

fun createLoop :: "nat \<Rightarrow> nat \<Rightarrow> nat \<Rightarrow> bufheap \<Rightarrow> nat \<Rightarrow> chain \<Rightarrow> (bufheap \<times> chain) result" where
  "createLoop 0 wanted maxBuf h allocated out = (if allocated < wanted then Inl Diverges else Inr (h, out))"
| "createLoop (Suc n) wanted maxBuf h allocated out =
     (if allocated < wanted
      then let (h1, s) = create h (min (wanted - allocated) maxBuf)
           in createLoop n wanted maxBuf h1 (allocated + bufCap s) (out @ [s])
      else Inr (h, out))"

definition createChain :: "bufheap \<Rightarrow> nat \<Rightarrow> nat \<Rightarrow> (bufheap \<times> chain) result" where
  "createChain h wanted maxBuf =
     (let (h1, s) = create h (min wanted maxBuf) in createLoop wanted wanted maxBuf h1 (bufCap s) [s])"

text \<open>\<^verbatim>\<open>takeOwnership\<close> and \<^verbatim>\<open>wrapBuffer\<close> of a block the user has.\<close>

definition takeOwnership :: "bufheap \<Rightarrow> nat \<Rightarrow> nat \<Rightarrow> nat \<Rightarrow> free_fn \<Rightarrow> (bufheap \<times> iobuf) result" where
  "takeOwnership h b capacity len f =
     (case blocks h b of
        None \<Rightarrow> Inl Undefined
      | Some k \<Rightarrow>
          Inr (h\<lparr>blocks := (blocks h)(b \<mapsto> k\<lparr>info := Some \<lparr>refcount = 1, freeFn = f\<rparr>\<rparr>)\<rparr>,
            \<lparr>bufBlock = Some b, dataOff = 0, dataLen = len, bufCap = capacity, managed = True,
             freeSharedInfo = True, maybeShared = False\<rparr>))"

definition wrapBuffer :: "nat \<Rightarrow> nat \<Rightarrow> iobuf" where
  "wrapBuffer b capacity =
     \<lparr>bufBlock = Some b, dataOff = 0, dataLen = capacity, bufCap = capacity, managed = False,
      freeSharedInfo = False, maybeShared = False\<rparr>"

section \<open>One buffer\<close>

definition headroom :: "iobuf \<Rightarrow> nat" where
  "headroom s = dataOff s"

definition tailroom :: "iobuf \<Rightarrow> nat" where
  "tailroom s = bufCap s - (dataOff s + dataLen s)"

definition advance :: "bufheap \<Rightarrow> iobuf \<Rightarrow> nat \<Rightarrow> (bufheap \<times> iobuf) result" where
  "advance h s amount =
     guard (amount \<le> tailroom s) Assert_Failed
       (res_bind (if dataLen s > 0 then writeAt h s (dataOff s + amount) (segData h s) else Inr h) (\<lambda>h1.
          Inr (h1, s\<lparr>dataOff := dataOff s + amount\<rparr>)))"

definition retreat :: "bufheap \<Rightarrow> iobuf \<Rightarrow> nat \<Rightarrow> (bufheap \<times> iobuf) result" where
  "retreat h s amount =
     guard (amount \<le> headroom s) Assert_Failed
       (res_bind (if dataLen s > 0 then writeAt h s (dataOff s - amount) (segData h s) else Inr h) (\<lambda>h1.
          Inr (h1, s\<lparr>dataOff := dataOff s - amount\<rparr>)))"

definition prepend :: "iobuf \<Rightarrow> nat \<Rightarrow> iobuf result" where
  "prepend s amount =
     guard (amount \<le> headroom s) Check_Failed
       (Inr (s\<lparr>dataOff := dataOff s - amount, dataLen := dataLen s + amount\<rparr>))"

definition appendTo :: "iobuf \<Rightarrow> nat \<Rightarrow> iobuf result" where
  "appendTo s amount =
     guard (amount \<le> tailroom s) Check_Failed (Inr (s\<lparr>dataLen := dataLen s + amount\<rparr>))"

definition trimStart :: "iobuf \<Rightarrow> nat \<Rightarrow> iobuf result" where
  "trimStart s amount =
     guard (amount \<le> dataLen s) Check_Failed
       (Inr (s\<lparr>dataOff := dataOff s + amount, dataLen := dataLen s - amount\<rparr>))"

definition trimEnd :: "iobuf \<Rightarrow> nat \<Rightarrow> iobuf result" where
  "trimEnd s amount =
     guard (amount \<le> dataLen s) Check_Failed (Inr (s\<lparr>dataLen := dataLen s - amount\<rparr>))"

definition clear :: "iobuf \<Rightarrow> iobuf" where
  "clear s = s\<lparr>dataOff := 0, dataLen := 0\<rparr>"

definition copyBuffer :: "bufheap \<Rightarrow> byte list \<Rightarrow> nat \<Rightarrow> nat \<Rightarrow> (bufheap \<times> iobuf) result" where
  "copyBuffer h d head minTailroom =
     (let (h1, s) = create h ((head + length d + minTailroom) mod 2 ^ 64)
      in res_bind (advance h1 s head) (\<lambda>(h2, s1).
         res_bind (writeAt h2 s1 (dataOff s1) d) (\<lambda>h3.
         res_bind (appendTo s1 (length d)) (\<lambda>s2. Inr (h3, s2)))))"

definition maybeCopyBuffer :: "bufheap \<Rightarrow> byte list \<Rightarrow> nat \<Rightarrow> nat \<Rightarrow> (bufheap \<times> iobuf option) result" where
  "maybeCopyBuffer h d head minTailroom =
     (if d = [] then Inr (h, None)
      else res_bind (copyBuffer h d head minTailroom) (\<lambda>(h1, s). Inr (h1, Some s)))"

section \<open>Sharing\<close>

definition freeExtBuffer :: "bufheap \<Rightarrow> nat \<Rightarrow> shared_info \<Rightarrow> bufheap" where
  "freeExtBuffer h b i = h\<lparr>blocks := (blocks h)(b := None), freeLog := freeLog h @ [(b, freeFn i)]\<rparr>"

definition setRefcount :: "bufheap \<Rightarrow> nat \<Rightarrow> block \<Rightarrow> shared_info \<Rightarrow> nat \<Rightarrow> bufheap" where
  "setRefcount h b k i n = h\<lparr>blocks := (blocks h)(b \<mapsto> k\<lparr>info := Some (i\<lparr>refcount := n\<rparr>)\<rparr>)\<rparr>"

text \<open>The block and the \<^verbatim>\<open>SharedInfo\<close> of a buffer, when it has one.\<close>

definition sharedInfo :: "bufheap \<Rightarrow> iobuf \<Rightarrow> (nat \<times> block \<times> shared_info) option" where
  "sharedInfo h s =
     (if managed s
      then case bufBlock s of
          None \<Rightarrow> None
        | Some b \<Rightarrow> (case blocks h b of
            None \<Rightarrow> None
          | Some k \<Rightarrow> (case info k of None \<Rightarrow> None | Some i \<Rightarrow> Some (b, k, i)))
      else None)"

definition decrementRefcount :: "bufheap \<Rightarrow> iobuf \<Rightarrow> bufheap" where
  "decrementRefcount h s =
     (case sharedInfo h s of
        None \<Rightarrow> h
      | Some (b, k, i) \<Rightarrow>
          if refcount i > 1 then setRefcount h b k i (refcount i - 1) else freeExtBuffer h b i)"

text \<open>The destructor: the rest of the chain goes first, element by element.\<close>

fun releaseAll :: "bufheap \<Rightarrow> chain \<Rightarrow> bufheap" where
  "releaseAll h [] = h"
| "releaseAll h (s # ss) = releaseAll (decrementRefcount h s) ss"

definition destroy :: "bufheap \<Rightarrow> chain \<Rightarrow> bufheap" where
  "destroy h ch = releaseAll h (tl ch @ take 1 ch)"

text \<open>Move assignment \<^verbatim>\<open>*this = std::move(other)\<close>: what \<^verbatim>\<open>this\<close> and \<^verbatim>\<open>other\<close> are afterwards.\<close>

definition moveAssign :: "bufheap \<Rightarrow> chain \<Rightarrow> chain \<Rightarrow> bufheap \<times> chain \<times> chain" where
  "moveAssign h this other = (destroy h this, other, [nullBuf])"

text \<open>\<^verbatim>\<open>isSharedOne\<close> clears the flag of a buffer it finds unshared.\<close>

definition isSharedOne :: "bufheap \<Rightarrow> iobuf \<Rightarrow> bool \<times> iobuf" where
  "isSharedOne h s =
     (case sharedInfo h s of
        None \<Rightarrow> (True, s)
      | Some (b, k, i) \<Rightarrow>
          if \<not> maybeShared s then (False, s)
          else if refcount i > 1 then (True, s) else (False, s\<lparr>maybeShared := False\<rparr>))"

fun isShared :: "bufheap \<Rightarrow> chain \<Rightarrow> bool \<times> chain" where
  "isShared h [] = (False, [])"
| "isShared h (s # ss) =
     (let (shared, s1) = isSharedOne h s
      in if shared then (True, s1 # ss)
         else let (rest, ss1) = isShared h ss in (rest, s1 # ss1))"

fun isManaged :: "chain \<Rightarrow> bool" where
  "isManaged [] = True"
| "isManaged (s # ss) = (if \<not> managed s then False else isManaged ss)"

text \<open>\<^verbatim>\<open>cloneOne\<close> marks the original too: the result has the heap, the original and the clone.\<close>

definition cloneOne :: "bufheap \<Rightarrow> iobuf \<Rightarrow> bufheap \<times> iobuf \<times> iobuf" where
  "cloneOne h s =
     (case sharedInfo h s of
        None \<Rightarrow> (h, s, s)
      | Some (b, k, i) \<Rightarrow>
          let s1 = s\<lparr>maybeShared := True\<rparr> in (setRefcount h b k i (refcount i + 1), s1, s1))"

fun clone :: "bufheap \<Rightarrow> chain \<Rightarrow> bufheap \<times> chain \<times> chain" where
  "clone h [] = (h, [], [])"
| "clone h (s # ss) =
     (let (h1, s1, c) = cloneOne h s; (h2, ss1, cs) = clone h1 ss in (h2, s1 # ss1, c # cs))"

text \<open>
  \<^verbatim>\<open>unshareOneSlow\<close>: the buffer moves to memory of its own, with the headroom it
  had. \<open>bufCap\<close> (\<^verbatim>\<open>capacity_\<close>) is not touched, though the new memory may be larger.
\<close>

definition unshareOneSlow :: "bufheap \<Rightarrow> iobuf \<Rightarrow> (bufheap \<times> iobuf) result" where
  "unshareOneSlow h s =
     (let (h1, b, actualCapacity) = allocExtBuffer h (bufCap s);
          s1 = s\<lparr>bufBlock := Some b, managed := True, freeSharedInfo := False, maybeShared := False\<rparr>
      in res_bind (writeAt h1 s1 (headroom s) (segData h s)) (\<lambda>h2. Inr (decrementRefcount h2 s, s1)))"

definition unshareOne :: "bufheap \<Rightarrow> iobuf \<Rightarrow> (bufheap \<times> iobuf) result" where
  "unshareOne h s =
     (let (shared, s1) = isSharedOne h s in if shared then unshareOneSlow h s1 else Inr (h, s1))"

definition makeManagedOne :: "bufheap \<Rightarrow> iobuf \<Rightarrow> (bufheap \<times> iobuf) result" where
  "makeManagedOne h s = (if \<not> managed s then unshareOneSlow h s else Inr (h, s))"

fun makeManaged :: "bufheap \<Rightarrow> chain \<Rightarrow> (bufheap \<times> chain) result" where
  "makeManaged h [] = Inr (h, [])"
| "makeManaged h (s # ss) =
     res_bind (makeManagedOne h s) (\<lambda>(h1, s1).
     res_bind (makeManaged h1 ss) (\<lambda>(h2, ss1). Inr (h2, s1 # ss1)))"

section \<open>Making room\<close>

definition reserveSlow :: "bufheap \<Rightarrow> iobuf \<Rightarrow> nat \<Rightarrow> nat \<Rightarrow> (bufheap \<times> iobuf) result" where
  "reserveSlow h s minHeadroom minTailroom =
     (let newCapacity = (dataLen s + minHeadroom + minTailroom) mod 2 ^ 64;
          (shared, s1) = isSharedOne h s
      in guard (newCapacity < 2 ^ 32 - 1) Check_Failed
        (guard (\<not> shared) Check_Failed
          (if headroom s1 + tailroom s1 \<ge> (minHeadroom + minTailroom) mod 2 ^ 64
           then res_bind (writeAt h s1 minHeadroom (segData h s1)) (\<lambda>h1.
                  Inr (h1, s1\<lparr>dataOff := minHeadroom\<rparr>))
           else case sharedInfo h s1 of
               None \<Rightarrow> Inl Undefined
             | Some (b, k, i) \<Rightarrow>
                 if freeFn i = Malloced \<and> dataLen s1 \<noteq> 0 \<and> headroom s1 \<ge> minHeadroom \<and>
                    (bufCap s1 - dataLen s1) * 2 \<le> dataLen s1
                 then let headSlack = headroom s1 - minHeadroom;
                          (i1, cap) = initExtBuffer (goodExtBufferSize (newCapacity + headSlack));
                          h1 = h\<lparr>blocks := (blocks h)(b := None)\<rparr>;
                          (h2, b1) = newBlock h1 (take cap (cells k) @
                            map (junk h) [length (cells k)..<cap]) (Some i1)
                      in Inr (h2, s1\<lparr>bufBlock := Some b1, bufCap := cap, managed := True,
                                freeSharedInfo := False, maybeShared := False\<rparr>)
                 else let (h1, b1, cap) = allocExtBuffer h newCapacity;
                          s2 = s1\<lparr>bufBlock := Some b1, bufCap := cap, managed := True,
                                freeSharedInfo := False, maybeShared := False,
                                dataOff := minHeadroom\<rparr>
                      in res_bind (writeAt h1 s2 minHeadroom (segData h s1)) (\<lambda>h2.
                         Inr (freeExtBuffer h2 b i, s2)))))"

definition reserve :: "bufheap \<Rightarrow> iobuf \<Rightarrow> nat \<Rightarrow> nat \<Rightarrow> (bufheap \<times> iobuf) result" where
  "reserve h s minHeadroom minTailroom =
     (if headroom s \<ge> minHeadroom \<and> tailroom s \<ge> minTailroom then Inr (h, s)
      else if dataLen s = 0 \<and> headroom s + tailroom s \<ge> (minHeadroom + minTailroom) mod 2 ^ 64
      then Inr (h, s\<lparr>dataOff := minHeadroom\<rparr>)
      else reserveSlow h s minHeadroom minTailroom)"

section \<open>Coalescing\<close>

text \<open>
  \<^verbatim>\<open>coalesceAndReallocate\<close>: \<open>n\<close> is the number of elements before \<^verbatim>\<open>end\<close>, at least one;
  \<^verbatim>\<open>separateChain\<close> asserts that the elements it takes out do not include the head.
\<close>

definition coalesceAndReallocate ::
  "bufheap \<Rightarrow> chain \<Rightarrow> nat \<Rightarrow> nat \<Rightarrow> nat \<Rightarrow> nat \<Rightarrow> (bufheap \<times> chain) result" where
  "coalesceAndReallocate h ch newHeadroom newLength n newTailroom =
     (case ch of
        [] \<Rightarrow> Inl Null_Deref
      | s # rest \<Rightarrow>
          let (h1, b, actualCapacity) = allocExtBuffer h (newLength + newHeadroom + newTailroom);
              s1 = \<lparr>bufBlock = Some b, dataOff = newHeadroom, dataLen = newLength,
                    bufCap = actualCapacity, managed = True, freeSharedInfo = False,
                    maybeShared = False\<rparr>;
              d = chainData h (take n ch)
          in guard (length d = newLength) Assert_Failed
            (res_bind (writeAt h1 s1 newHeadroom d) (\<lambda>h2.
               let h3 = decrementRefcount h2 s
               in if rest = [] then Inr (h3, [s1])
                  else guard (n \<ge> 2) Assert_Failed
                    (Inr (destroy h3 (take (n - 1) rest), s1 # drop (n - 1) rest)))))"

definition computeChainDataLength :: "chain \<Rightarrow> nat" where
  "computeChainDataLength ch = sum_list (map dataLen ch)"

definition coalesceSlow :: "bufheap \<Rightarrow> chain \<Rightarrow> (bufheap \<times> chain) result" where
  "coalesceSlow h ch =
     guard (length ch \<ge> 2) Check_Failed
       (coalesceAndReallocate h ch (headroom (hd ch)) (computeChainDataLength ch) (length ch)
          (tailroom (last ch)))"

text \<open>
  The loop of \<^verbatim>\<open>coalesceSlow(maxLength)\<close>: the elements from the head until they
  have \<open>maxLength\<close> bytes, and how many bytes that is.
\<close>

fun gatherCount :: "nat \<Rightarrow> chain \<Rightarrow> nat \<Rightarrow> nat \<Rightarrow> (nat \<times> nat) result" where
  "gatherCount maxLength [] newLength n = Inl Overflow_Error"
| "gatherCount maxLength (s # ss) newLength n =
     (let newLength1 = newLength + dataLen s
      in if newLength1 \<ge> maxLength then Inr (newLength1, n + 1)
         else gatherCount maxLength ss newLength1 (n + 1))"

definition coalesceSlowMax :: "bufheap \<Rightarrow> chain \<Rightarrow> nat \<Rightarrow> (bufheap \<times> chain) result" where
  "coalesceSlowMax h ch maxLength =
     guard (length ch \<ge> 2 \<and> dataLen (hd ch) < maxLength) Check_Failed
       (res_bind (gatherCount maxLength ch 0 0) (\<lambda>(newLength, n).
          coalesceAndReallocate h ch (headroom (hd ch)) newLength n (tailroom (ch ! (n - 1)))))"

definition coalesce :: "bufheap \<Rightarrow> chain \<Rightarrow> (bufheap \<times> chain) result" where
  "coalesce h ch = (if length ch > 1 then coalesceSlow h ch else Inr (h, ch))"

definition gather :: "bufheap \<Rightarrow> chain \<Rightarrow> nat \<Rightarrow> (bufheap \<times> chain) result" where
  "gather h ch maxLength =
     (if length ch \<le> 1 \<or> dataLen (hd ch) \<ge> maxLength then Inr (h, ch)
      else coalesceSlowMax h ch maxLength)"

definition unshareChained :: "bufheap \<Rightarrow> chain \<Rightarrow> (bufheap \<times> chain) result" where
  "unshareChained h ch =
     (let (shared, ch1) = isShared h ch in if shared then coalesceSlow h ch1 else Inr (h, ch1))"

definition unshare :: "bufheap \<Rightarrow> chain \<Rightarrow> (bufheap \<times> chain) result" where
  "unshare h ch =
     (if length ch > 1 then unshareChained h ch
      else case ch of
          [] \<Rightarrow> Inl Null_Deref
        | s # ss \<Rightarrow> res_bind (unshareOne h s) (\<lambda>(h1, s1). Inr (h1, s1 # ss)))"

section \<open>Leaving the buffers\<close>

text \<open>
  \<^verbatim>\<open>moveToString\<close> gives the string and what \<^verbatim>\<open>this\<close> is afterwards. The string is a
  copy; the block is forgotten, \<^verbatim>\<open>buf_ = nullptr\<close>, without a release.
\<close>

definition moveToString :: "bufheap \<Rightarrow> chain \<Rightarrow> (byte list \<times> bufheap \<times> chain) result" where
  "moveToString h ch =
     (case ch of
        [] \<Rightarrow> Inl Null_Deref
      | s # ss \<Rightarrow>
          let keep = (case sharedInfo h s of
                        None \<Rightarrow> False
                      | Some (b, k, i) \<Rightarrow>
                          freeFn i = Malloced \<and> headroom s = 0 \<and> tailroom s \<noteq> 0);
              (shared, ch1) = (if keep then isShared h ch else (True, ch))
          in res_bind
              (if shared \<or> length ch > 1
               then coalesceAndReallocate h ch1 0 (computeChainDataLength ch1) (length ch1) 1
               else Inr (h, ch1)) (\<lambda>(h1, ch2).
             let t = hd ch2
             in res_bind (writeAt h1 t (dataOff t + dataLen t) [0]) (\<lambda>h2.
                Inr (segData h2 t, h2,
                     (clear (t\<lparr>bufBlock := None, managed := False, freeSharedInfo := False,
                        maybeShared := False\<rparr>)) # tl ch2))))"

fun emptyChain :: "chain \<Rightarrow> bool" where
  "emptyChain [] = True"
| "emptyChain (s # ss) = (if dataLen s \<noteq> 0 then False else emptyChain ss)"

text \<open>\<^verbatim>\<open>iovec\<close> entries: the block, where the data starts in it and how long it is.\<close>

fun appendToIov :: "chain \<Rightarrow> (nat option \<times> nat \<times> nat) list" where
  "appendToIov [] = []"
| "appendToIov (s # ss) =
     (if dataLen s > 0 then (bufBlock s, dataOff s, dataLen s) # appendToIov ss else appendToIov ss)"

text \<open>\<^verbatim>\<open>fillIov\<close>: the entries written and the value returned.\<close>

fun fillIov :: "chain \<Rightarrow> nat \<Rightarrow> nat \<Rightarrow> (nat option \<times> nat \<times> nat) list \<times> nat" where
  "fillIov [] len i = ([], i)"
| "fillIov (s # ss) len i =
     (if i < len
      then let entry = (if dataLen s > 0 then [(bufBlock s, dataOff s, dataLen s)] else []);
               i1 = i + length entry
           in if ss = [] then (entry, i1)
              else let (es, r) = fillIov ss len i1 in (entry @ es, r)
      else ([], 0))"

text \<open>
  \<^verbatim>\<open>IOBufEqual\<close>: two cursors over the data of two chains. Each turn passes a
  whole element of one of them, so the elements of both bound the turns.
\<close>

fun equalLoop :: "nat \<Rightarrow> pieces \<Rightarrow> cursor \<Rightarrow> pieces \<Rightarrow> cursor \<Rightarrow> bool result" where
  "equalLoop 0 a ca b cb = Inl Diverges"
| "equalLoop (Suc n) a ca b cb =
     (let (pa, ca1) = peek a ca; (pb, cb1) = peek b cb
      in if pa = [] \<and> pb = [] then Inr True
         else if pa = [] \<or> pb = [] then Inr False
         else let m = min (length pa) (length pb)
              in if take m pa \<noteq> take m pb then Inr False
                 else res_bind (skip a m ca1) (\<lambda>ca2.
                      res_bind (skip b m cb1) (\<lambda>cb2. equalLoop n a ca2 b cb2)))"

definition IOBufEqual :: "bufheap \<Rightarrow> chain \<Rightarrow> chain \<Rightarrow> bool result" where
  "IOBufEqual h a b =
     equalLoop (length (chainData h a) + 1) (chainPieces h a) newCursor (chainPieces h b) newCursor"

section \<open>The invariant of the heap\<close>

text \<open>
  \<open>ss\<close> are all the buffers alive. A buffer lies inside its block, the count of
  a block is the number of buffers that hold it, no counted block is without
  a holder, and a buffer that is not marked as possibly shared is the only one.
\<close>

definition seg_ok :: "bufheap \<Rightarrow> iobuf \<Rightarrow> bool" where
  "seg_ok h s \<longleftrightarrow> dataOff s + dataLen s \<le> bufCap s \<and>
     (case bufBlock s of
        None \<Rightarrow> bufCap s = 0 \<and> \<not> managed s
      | Some b \<Rightarrow> (case blocks h b of
          None \<Rightarrow> False
        | Some k \<Rightarrow> bufCap s \<le> length (cells k) \<and> (managed s \<longleftrightarrow> info k \<noteq> None)))"

definition refs :: "iobuf multiset \<Rightarrow> nat \<Rightarrow> nat" where
  "refs S b = size (filter_mset (\<lambda>s. managed s \<and> bufBlock s = Some b) S)"

definition heap_ok :: "bufheap \<Rightarrow> iobuf multiset \<Rightarrow> bool" where
  "heap_ok h S \<longleftrightarrow> (\<forall>s \<in># S. seg_ok h s) \<and>
     (\<forall>b k. blocks h b = Some k \<longrightarrow> b < fresh h \<and>
        (\<forall>i. info k = Some i \<longrightarrow> refcount i = refs S b \<and> 0 < refs S b)) \<and>
     (\<forall>s \<in># S. \<forall>b. managed s \<and> \<not> maybeShared s \<and> bufBlock s = Some b \<longrightarrow> refs S b = 1)"

lemma refs_empty [simp]: "refs {#} b = 0"
  by (simp add: refs_def)

lemma refs_add [simp]:
  "refs (add_mset s S) b = (if managed s \<and> bufBlock s = Some b then Suc (refs S b) else refs S b)"
  by (simp add: refs_def)

lemma refs_pos: "s \<in># S \<Longrightarrow> managed s \<Longrightarrow> bufBlock s = Some b \<Longrightarrow> 0 < refs S b"
  by (auto simp: refs_def dest: multi_member_split)

lemma heap_okD:
  assumes "heap_ok h S"
  shows "\<And>s. s \<in># S \<Longrightarrow> seg_ok h s"
    and "\<And>b k. blocks h b = Some k \<Longrightarrow> b < fresh h"
    and "\<And>b k i. blocks h b = Some k \<Longrightarrow> info k = Some i \<Longrightarrow> refcount i = refs S b \<and> 0 < refs S b"
    and "\<And>s b. s \<in># S \<Longrightarrow> managed s \<Longrightarrow> \<not> maybeShared s \<Longrightarrow> bufBlock s = Some b \<Longrightarrow> refs S b = 1"
  using assms by (auto simp: heap_ok_def)

lemma heap_okI:
  assumes "\<And>s. s \<in># S \<Longrightarrow> seg_ok h s"
    and "\<And>b k. blocks h b = Some k \<Longrightarrow> b < fresh h"
    and "\<And>b k i. blocks h b = Some k \<Longrightarrow> info k = Some i \<Longrightarrow> refcount i = refs S b \<and> 0 < refs S b"
    and "\<And>s b. s \<in># S \<Longrightarrow> managed s \<Longrightarrow> \<not> maybeShared s \<Longrightarrow> bufBlock s = Some b \<Longrightarrow> refs S b = 1"
  shows "heap_ok h S"
  using assms by (auto simp: heap_ok_def)

lemma seg_ok_block:
  assumes "seg_ok h s" and "bufBlock s = Some b"
  obtains k where "blocks h b = Some k" "bufCap s \<le> length (cells k)" "managed s \<longleftrightarrow> info k \<noteq> None"
    "dataOff s + dataLen s \<le> bufCap s"
  using assms by (auto simp: seg_ok_def split: option.splits)

lemma sharedInfo_managed:
  assumes "seg_ok h s" and "managed s"
  obtains b k i where "sharedInfo h s = Some (b, k, i)" "bufBlock s = Some b" "blocks h b = Some k"
    "info k = Some i" "bufCap s \<le> length (cells k)"
  using assms by (auto simp: seg_ok_def sharedInfo_def split: option.splits)

lemma sharedInfo_unmanaged [simp]: "\<not> managed s \<Longrightarrow> sharedInfo h s = None"
  by (simp add: sharedInfo_def)

lemma sharedInfo_Some:
  "sharedInfo h s = Some (b, k, i) \<longleftrightarrow>
     managed s \<and> bufBlock s = Some b \<and> blocks h b = Some k \<and> info k = Some i"
  by (auto simp: sharedInfo_def split: option.splits)

lemma sharedInfo_None: "seg_ok h s \<Longrightarrow> sharedInfo h s = None \<longleftrightarrow> \<not> managed s"
  by (auto elim: sharedInfo_managed)

lemma segData_flags [simp]: "segData h (s\<lparr>maybeShared := x\<rparr>) = segData h s"
  by (simp add: segData_def split: option.split)

lemma length_segData: "seg_ok h s \<Longrightarrow> length (segData h s) = dataLen s"
  by (auto simp: segData_def seg_ok_def cellsOf_def split: option.splits)

lemma length_chainData:
  "(\<And>s. s \<in> set ch \<Longrightarrow> seg_ok h s) \<Longrightarrow> length (chainData h ch) = computeChainDataLength ch"
  by (induction ch) (simp_all add: chainData_def computeChainDataLength_def length_segData)

lemma chainData_Cons: "chainData h (s # ch) = segData h s @ chainData h ch"
  by (simp add: chainData_def)

lemma chainData_append: "chainData h (xs @ ys) = chainData h xs @ chainData h ys"
  by (simp add: chainData_def)

text \<open>What a buffer reads depends only on its block.\<close>

lemma segData_cong: "(\<And>b. bufBlock s = Some b \<Longrightarrow> cellsOf h b = cellsOf h' b) \<Longrightarrow> segData h s = segData h' s"
  by (simp add: segData_def split: option.split)

text \<open>Two heaps that differ only in the bytes of their blocks have the same invariant.\<close>

definition same_shape :: "bufheap \<Rightarrow> bufheap \<Rightarrow> bool" where
  "same_shape h h' \<longleftrightarrow> fresh h' = fresh h \<and>
     (\<forall>b. map_option (\<lambda>k. (length (cells k), info k)) (blocks h' b) =
          map_option (\<lambda>k. (length (cells k), info k)) (blocks h b))"

lemma same_shape_Some:
  assumes "same_shape h h'" and "blocks h' b = Some k'"
  obtains k where "blocks h b = Some k" "length (cells k') = length (cells k)" "info k' = info k"
  using assms unfolding same_shape_def by (cases "blocks h b") (auto dest: spec [of _ b])

lemma same_shape_sym: "same_shape h h' \<Longrightarrow> same_shape h' h"
  by (simp add: same_shape_def)

lemma same_shape_seg:
  assumes "same_shape h h'" and "seg_ok h s"
  shows "seg_ok h' s"
proof (cases "bufBlock s")
  case None
  with assms(2) show ?thesis by (simp add: seg_ok_def)
next
  case (Some b)
  obtain k where k: "blocks h b = Some k" "bufCap s \<le> length (cells k)" "managed s \<longleftrightarrow> info k \<noteq> None"
    "dataOff s + dataLen s \<le> bufCap s"
    using assms(2) Some by (rule seg_ok_block)
  obtain k' where "blocks h' b = Some k'" "length (cells k) = length (cells k')" "info k = info k'"
    using same_shape_sym [OF assms(1)] k(1) by (rule same_shape_Some)
  with k Some show ?thesis by (simp add: seg_ok_def)
qed

lemma heap_ok_bytes:
  assumes "heap_ok h S" and "same_shape h h'"
  shows "heap_ok h' S"
proof (rule heap_okI)
  fix s assume "s \<in># S"
  then show "seg_ok h' s" using same_shape_seg [OF assms(2)] heap_okD(1) [OF assms(1)] by blast
next
  fix b k' assume "blocks h' b = Some k'"
  with assms(2) obtain k where "blocks h b = Some k" by (rule same_shape_Some)
  with heap_okD(2) [OF assms(1)] assms(2) show "b < fresh h'" by (simp add: same_shape_def)
next
  fix b k' i assume "blocks h' b = Some k'" "info k' = Some i"
  moreover from assms(2) this(1) obtain k where "blocks h b = Some k" "info k' = info k"
    by (rule same_shape_Some)
  ultimately show "refcount i = refs S b \<and> 0 < refs S b" using heap_okD(3) [OF assms(1)] by simp
next
  fix s b assume "s \<in># S" "managed s" "\<not> maybeShared s" "bufBlock s = Some b"
  then show "refs S b = 1" by (rule heap_okD(4) [OF assms(1)])
qed

text \<open>
  Changing where a buffer lies in its block, or its flags, keeps the invariant
  while it stays inside and is not wrongly marked as unshared.
\<close>

lemma heap_ok_move:
  assumes "heap_ok h (add_mset s S)"
    and "bufBlock s' = bufBlock s" and "managed s' = managed s"
    and "bufCap s' = bufCap s" and "dataOff s' + dataLen s' \<le> bufCap s"
    and "maybeShared s' \<or> \<not> maybeShared s \<or> (\<forall>b. bufBlock s = Some b \<longrightarrow> managed s \<longrightarrow> refs (add_mset s S) b = 1)"
  shows "heap_ok h (add_mset s' S)"
proof -
  have r: "refs (add_mset s' S) = refs (add_mset s S)" using assms(2,3) by (auto simp: refs_def)
  have "seg_ok h s'"
    using heap_okD(1) [OF assms(1), of s] assms(2-5) by (auto simp: seg_ok_def split: option.splits)
  then show ?thesis
    using heap_okD [OF assms(1)] assms(2-6) unfolding heap_ok_def r by fastforce
qed

section \<open>Memory operations\<close>

lemma length_overwrite: "off + length d \<le> length cs \<Longrightarrow> length (overwrite cs off d) = length cs"
  by (simp add: overwrite_def)

lemma read_overwrite: "off + length d \<le> length cs \<Longrightarrow> take (length d) (drop off (overwrite cs off d)) = d"
  by (simp add: overwrite_def)

lemma writeAt_ok:
  assumes "seg_ok h s" and "off + length d \<le> bufCap s"
  obtains h' where "writeAt h s off d = Inr h'" "same_shape h h'"
    "\<forall>t. bufBlock t \<noteq> bufBlock s \<longrightarrow> segData h' t = segData h t"
    "\<forall>t. bufBlock t = bufBlock s \<longrightarrow> dataOff t = off \<longrightarrow> dataLen t = length d \<longrightarrow> segData h' t = d"
proof (cases "d = []")
  case True
  then show ?thesis by (intro that [of h]) (simp_all add: writeAt_def same_shape_def segData_def split: option.split)
next
  case False
  with assms have "bufBlock s \<noteq> None" by (auto simp: seg_ok_def split: option.splits)
  then obtain b where b: "bufBlock s = Some b" by blast
  obtain k where k: "blocks h b = Some k" "bufCap s \<le> length (cells k)"
    using assms(1) b by (rule seg_ok_block)
  let ?h = "h\<lparr>blocks := (blocks h)(b \<mapsto> k\<lparr>cells := overwrite (cells k) off d\<rparr>)\<rparr>"
  have "writeAt h s off d = Inr ?h" using k b assms(2) False by (simp add: writeAt_def)
  moreover have "same_shape h ?h" using k assms(2) by (simp add: same_shape_def length_overwrite)
  moreover have "\<forall>t. bufBlock t \<noteq> bufBlock s \<longrightarrow> segData ?h t = segData h t"
    using b by (auto simp: segData_def cellsOf_def split: option.splits)
  moreover have "\<forall>t. bufBlock t = bufBlock s \<longrightarrow> dataOff t = off \<longrightarrow> dataLen t = length d \<longrightarrow> segData ?h t = d"
    using b k assms(2) by (simp add: segData_def cellsOf_def read_overwrite)
  ultimately show ?thesis by (rule that)
qed

text \<open>
  A buffer that alone holds its block may write into it: nobody else notices.
\<close>

lemma exclusive_block:
  assumes "heap_ok h (add_mset s S)" and "managed s"
    and "\<forall>b. bufBlock s = Some b \<longrightarrow> refs (add_mset s S) b = 1" and "t \<in># S"
  shows "bufBlock t \<noteq> bufBlock s"
proof
  assume eq: "bufBlock t = bufBlock s"
  have "seg_ok h s" "seg_ok h t" using heap_okD(1) [OF assms(1)] assms(4) by simp_all
  obtain b k i where "sharedInfo h s = Some (b, k, i)" and b: "bufBlock s = Some b" "blocks h b = Some k"
    "info k = Some i" and "bufCap s \<le> length (cells k)"
    using \<open>seg_ok h s\<close> assms(2) by (rule sharedInfo_managed)
  with eq \<open>seg_ok h t\<close> have "managed t" by (auto simp: seg_ok_def)
  with refs_pos [OF assms(4)] eq b(1) assms(2,3) show False by auto
qed

lemma write_exclusive:
  assumes "heap_ok h (add_mset s S)" and "managed s"
    and "\<forall>b. bufBlock s = Some b \<longrightarrow> refs (add_mset s S) b = 1"
    and "off + length d \<le> bufCap s"
  obtains h' where "writeAt h s off d = Inr h'" "heap_ok h' (add_mset s S)"
    "\<forall>t \<in># S. segData h' t = segData h t"
    "\<forall>t. bufBlock t = bufBlock s \<longrightarrow> dataOff t = off \<longrightarrow> dataLen t = length d \<longrightarrow> segData h' t = d"
proof -
  have s: "seg_ok h s" using heap_okD(1) [OF assms(1)] by simp
  obtain h' where h': "writeAt h s off d = Inr h'" "same_shape h h'"
    "\<forall>t. bufBlock t \<noteq> bufBlock s \<longrightarrow> segData h' t = segData h t"
    "\<forall>t. bufBlock t = bufBlock s \<longrightarrow> dataOff t = off \<longrightarrow> dataLen t = length d \<longrightarrow> segData h' t = d"
    using writeAt_ok [OF s assms(4)] by metis
  have "\<forall>t \<in># S. segData h' t = segData h t"
    using exclusive_block [OF assms(1-3)] h'(3) by blast
  with that h'(1,4) heap_ok_bytes [OF assms(1) h'(2)] show ?thesis by blast
qed

lemma heap_ok_unmanaged:
  assumes "\<not> managed s"
  shows "heap_ok h (add_mset s S) \<longleftrightarrow> seg_ok h s \<and> heap_ok h S"
proof -
  have r: "refs (add_mset s S) = refs S" using assms by (auto simp: refs_def)
  show ?thesis unfolding heap_ok_def r using assms by auto
qed

text \<open>A new block with its first holder.\<close>

lemma newBlock_ok:
  assumes "heap_ok h S" and "newBlock h cs (Some i) = (h', b)" and "refcount i = 1"
    and "bufBlock s = Some b" and "managed s" and "bufCap s \<le> length cs" and "dataOff s + dataLen s \<le> bufCap s"
  shows "heap_ok h' (add_mset s S)" and "\<forall>t \<in># S. segData h' t = segData h t"
    and "refs (add_mset s S) b = 1"
proof -
  have h': "h' = h\<lparr>blocks := (blocks h)(b \<mapsto> \<lparr>cells = cs, info = Some i\<rparr>), fresh := fresh h + 1\<rparr>" "b = fresh h"
    using assms(2) by (auto simp: newBlock_def)
  have new: "bufBlock t \<noteq> Some b" if "t \<in># S" for t
  proof
    assume "bufBlock t = Some b"
    with heap_okD(1) [OF assms(1) that] obtain k where "blocks h b = Some k" by (rule seg_ok_block)
    with heap_okD(2) [OF assms(1)] h'(2) show False by auto
  qed
  then have "filter_mset (\<lambda>s. managed s \<and> bufBlock s = Some b) S = {#}" by auto
  then have zero: "refs S b = 0" by (simp add: refs_def)
  then show one: "refs (add_mset s S) b = 1" using assms(4,5) by simp
  show "\<forall>t \<in># S. segData h' t = segData h t"
    using new h'(1) by (auto simp: segData_def cellsOf_def split: option.splits)
  show "heap_ok h' (add_mset s S)"
  proof (rule heap_okI)
    fix t assume "t \<in># add_mset s S"
    then show "seg_ok h' t"
      using new heap_okD(1) [OF assms(1), of t] assms(4-7) h'(1)
      by (auto simp: seg_ok_def split: option.splits)
  next
    fix b' k assume "blocks h' b' = Some k"
    then show "b' < fresh h'"
      using heap_okD(2) [OF assms(1), of b'] h' by (auto split: if_splits)
  next
    fix b' k j assume "blocks h' b' = Some k" "info k = Some j"
    then show "refcount j = refs (add_mset s S) b' \<and> 0 < refs (add_mset s S) b'"
      using heap_okD(3) [OF assms(1), of b' k j] h' one assms(3,4) by (auto split: if_splits)
  next
    fix t b' assume t: "t \<in># add_mset s S" "managed t" "\<not> maybeShared t" "bufBlock t = Some b'"
    show "refs (add_mset s S) b' = 1"
    proof (cases "b' = b")
      case False
      with t heap_okD(4) [OF assms(1), of t b'] assms(4) show ?thesis by auto
    qed (simp only: one)
  qed
qed

text \<open>Releasing a holder: the count goes down, and the last one frees the block.\<close>

lemma decrement_ok:
  assumes "heap_ok h (add_mset s S)"
  shows "heap_ok (decrementRefcount h s) S" and "\<forall>t \<in># S. segData (decrementRefcount h s) t = segData h t"
proof -
  have s: "seg_ok h s" using heap_okD(1) [OF assms] by simp
  have "heap_ok (decrementRefcount h s) S \<and> (\<forall>t \<in># S. segData (decrementRefcount h s) t = segData h t)"
  proof (cases "managed s")
    case False
    then have "decrementRefcount h s = h" by (simp add: decrementRefcount_def)
    with assms False show ?thesis by (simp add: heap_ok_unmanaged)
  next
    case True
    obtain b k i where si: "sharedInfo h s = Some (b, k, i)" and b: "bufBlock s = Some b" "blocks h b = Some k"
      "info k = Some i" and cap: "bufCap s \<le> length (cells k)"
      using s True by (rule sharedInfo_managed)
    have rc: "refcount i = Suc (refs S b)" using heap_okD(3) [OF assms b(2,3)] True b(1) by simp
    show ?thesis
    proof (cases "refs S b = 0")
      case zero: True
      then have d: "decrementRefcount h s = freeExtBuffer h b i" using si rc by (simp add: decrementRefcount_def)
      have other: "bufBlock t \<noteq> Some b" if "t \<in># S" for t
        using exclusive_block [OF assms True _ that] zero True b(1) by simp
      have "heap_ok (freeExtBuffer h b i) S"
      proof (rule heap_okI)
        fix t assume "t \<in># S"
        with heap_okD(1) [OF assms, of t] other [of t] show "seg_ok (freeExtBuffer h b i) t"
          by (auto simp: seg_ok_def freeExtBuffer_def split: option.splits)
      next
        fix c l assume "blocks (freeExtBuffer h b i) c = Some l"
        with heap_okD(2) [OF assms, of c] show "c < fresh (freeExtBuffer h b i)"
          by (auto simp: freeExtBuffer_def split: if_splits)
      next
        fix c l j assume "blocks (freeExtBuffer h b i) c = Some l" "info l = Some j"
        with heap_okD(3) [OF assms, of c l j] b(1) show "refcount j = refs S c \<and> 0 < refs S c"
          by (auto simp: freeExtBuffer_def split: if_splits)
      next
        fix t c assume t: "t \<in># S" "managed t" "\<not> maybeShared t" "bufBlock t = Some c"
        with heap_okD(4) [OF assms, of t c] other [of t] b(1) show "refs S c = 1" by (auto split: if_splits)
      qed
      with other show ?thesis
        unfolding d by (auto simp: freeExtBuffer_def segData_def cellsOf_def split: option.splits)
    next
      case False
      then have d: "decrementRefcount h s = setRefcount h b k i (refs S b)"
        using si rc by (simp add: decrementRefcount_def)
      have "seg_ok (setRefcount h b k i (refs S b)) t" if "t \<in># S" for t
        using heap_okD(1) [OF assms, of t] that b(2,3)
        by (auto simp: seg_ok_def setRefcount_def split: option.splits)
      moreover have "refs S c = 1" if t: "t \<in># S" "managed t" "\<not> maybeShared t" "bufBlock t = Some c" for t c
        using heap_okD(4) [OF assms, of t c] t False b(1) True by (auto split: if_splits)
      moreover have "refcount j = refs S c \<and> 0 < refs S c"
        if "blocks (setRefcount h b k i (refs S b)) c = Some l" "info l = Some j" for c l j
        using heap_okD(3) [OF assms, of c l j] b(1) that False
        by (auto simp: setRefcount_def split: if_splits)
      moreover have "c < fresh h" if "blocks (setRefcount h b k i (refs S b)) c = Some l" for c l
        using heap_okD(2) [OF assms, of c] b(2) that by (auto simp: setRefcount_def split: if_splits)
      ultimately have "heap_ok (setRefcount h b k i (refs S b)) S"
        by (intro heap_okI) (simp_all add: setRefcount_def)
      then show ?thesis
        unfolding d using b(2) by (auto simp: setRefcount_def segData_def cellsOf_def split: option.splits)
    qed
  qed
  then show "heap_ok (decrementRefcount h s) S"
    and "\<forall>t \<in># S. segData (decrementRefcount h s) t = segData h t" by blast+
qed

lemma releaseAll_ok:
  assumes "heap_ok h (mset xs + S)"
  shows "heap_ok (releaseAll h xs) S \<and> (\<forall>t \<in># S. segData (releaseAll h xs) t = segData h t)"
  using assms
proof (induction xs arbitrary: h)
  case (Cons s xs)
  have ok: "heap_ok h (add_mset s (mset xs + S))" using Cons.prems by simp
  note D = decrement_ok [OF ok]
  show ?case using Cons.IH [OF D(1)] D(2) by simp
qed simp

lemma destroy_ok:
  assumes "heap_ok h (mset xs + S)"
  shows "heap_ok (destroy h xs) S" and "\<forall>t \<in># S. segData (destroy h xs) t = segData h t"
proof -
  have "mset (tl xs @ take 1 xs) = mset xs" by (cases xs) simp_all
  then show "heap_ok (destroy h xs) S" and "\<forall>t \<in># S. segData (destroy h xs) t = segData h t"
    using releaseAll_ok [of h "tl xs @ take 1 xs" S] assms by (simp_all add: destroy_def)
qed

text \<open>A clone shares the block; the original and the clone are marked.\<close>

lemma cloneOne_ok:
  assumes "heap_ok h (add_mset s S)" and "cloneOne h s = (h', s1, c)"
  shows "heap_ok h' (add_mset c (add_mset s1 S))"
    and "\<forall>t. segData h' t = segData h t" and "segData h s1 = segData h s" and "c = s1"
proof -
  have s: "seg_ok h s" using heap_okD(1) [OF assms(1)] by simp
  have "heap_ok h' (add_mset c (add_mset s1 S)) \<and> (\<forall>t. segData h' t = segData h t) \<and>
      segData h s1 = segData h s \<and> c = s1"
  proof (cases "managed s")
    case False
    then have "h' = h" "s1 = s" "c = s" using assms(2) by (auto simp: cloneOne_def)
    with assms(1) s False show ?thesis by (simp add: heap_ok_unmanaged)
  next
    case True
    obtain b k i where si: "sharedInfo h s = Some (b, k, i)" and b: "bufBlock s = Some b" "blocks h b = Some k"
      "info k = Some i" and cap: "bufCap s \<le> length (cells k)"
      using s True by (rule sharedInfo_managed)
    have c: "s1 = s\<lparr>maybeShared := True\<rparr>" "c = s1" "h' = setRefcount h b k i (refcount i + 1)"
      using assms(2) si by (auto simp: cloneOne_def Let_def)
    have data: "\<forall>t. segData h' t = segData h t"
      using b(2) by (auto simp: c(3) setRefcount_def segData_def cellsOf_def split: option.splits)
    have rc: "refcount i = Suc (refs S b)" using heap_okD(3) [OF assms(1) b(2,3)] True b(1) by simp
    have keep: "seg_ok h' t" if "seg_ok h t" for t
      using that b(2,3) unfolding c(3) by (auto simp: seg_ok_def setRefcount_def split: option.splits)
    have "seg_ok h s1" using s b by (simp add: seg_ok_def c(1))
    then have seg: "seg_ok h' t" if "t = s1 \<or> t \<in># S" for t
      using heap_okD(1) [OF assms(1), of t] that keep by auto
    have excl: "refs S d = 1 \<and> d \<noteq> b" if t: "t \<in># S" "managed t" "\<not> maybeShared t" "bufBlock t = Some d" for t d
      using heap_okD(4) [OF assms(1), of t d] t refs_pos [OF t(1,2,4)] b(1) True by (auto split: if_splits)
    have "heap_ok h' (add_mset s1 (add_mset s1 S))"
    proof (rule heap_okI)
      fix t assume "t \<in># add_mset s1 (add_mset s1 S)"
      then show "seg_ok h' t" using seg by auto
    next
      fix d l assume "blocks h' d = Some l"
      then show "d < fresh h'"
        using heap_okD(2) [OF assms(1)] b(2) by (auto simp: c(3) setRefcount_def split: if_splits)
    next
      fix d l j assume "blocks h' d = Some l" "info l = Some j"
      then show "refcount j = refs (add_mset s1 (add_mset s1 S)) d \<and> 0 < refs (add_mset s1 (add_mset s1 S)) d"
        using heap_okD(3) [OF assms(1), of d l j] b(1) True rc
        by (auto simp: c(1,3) setRefcount_def split: if_splits)
    next
      fix t d assume "t \<in># add_mset s1 (add_mset s1 S)" "managed t" "\<not> maybeShared t" "bufBlock t = Some d"
      moreover from this have "t \<in># S" by (auto simp: c(1))
      ultimately show "refs (add_mset s1 (add_mset s1 S)) d = 1"
        using excl [of t d] b(1) by (auto simp: c(1))
    qed
    with data c(1,2) show ?thesis by simp
  qed
  then show "heap_ok h' (add_mset c (add_mset s1 S))"
    and "\<forall>t. segData h' t = segData h t" and "segData h s1 = segData h s" and "c = s1" by blast+
qed

section \<open>Sizes\<close>

text \<open>The size asked of \<^verbatim>\<open>malloc\<close> leaves at least the wanted capacity, and less than 8 bytes more.\<close>

lemma goodExtBufferSize_room:
  assumes "n + 31 < 2 ^ 64"
  shows "n \<le> goodExtBufferSize n - 24" and "goodExtBufferSize n - 24 < n + 8"
proof -
  have "goodExtBufferSize n = (n + 31) div 8 * 8"
    using assms by (simp add: goodExtBufferSize_def Let_def)
  moreover have "(n + 31) div 8 * 8 \<le> n + 31" "n + 31 < (n + 31) div 8 * 8 + 8" by presburger+
  ultimately show "n \<le> goodExtBufferSize n - 24" "goodExtBufferSize n - 24 < n + 8" by simp_all
qed

text \<open>
  The limit on the capacities in this development: sizes plus \<open>31\<close> fit in \<^verbatim>\<open>size_t\<close>.
\<close>

definition fits :: "nat \<Rightarrow> bool" where
  "fits n \<longleftrightarrow> n + 31 < 2 ^ 64"

lemma allocExtBuffer_ok:
  assumes "heap_ok h S" and "fits n" and "allocExtBuffer h n = (h', b, cap)"
    and "bufBlock s = Some b" and "managed s" and "bufCap s \<le> cap" and "dataOff s + dataLen s \<le> bufCap s"
  shows "heap_ok h' (add_mset s S)" and "\<forall>t \<in># S. segData h' t = segData h t"
    and "refs (add_mset s S) b = 1"
proof -
  have nb: "newBlock h (map (junk h) [0..<cap]) (Some \<lparr>refcount = 1, freeFn = Malloced\<rparr>) = (h', b)"
    using assms(3) by (auto simp: allocExtBuffer_def initExtBuffer_def Let_def split: prod.splits)
  show "heap_ok h' (add_mset s S)" "\<forall>t \<in># S. segData h' t = segData h t" "refs (add_mset s S) b = 1"
    using newBlock_ok [OF assms(1) nb _ assms(4,5) _ assms(7)] assms(6) by simp_all
qed

lemma allocExtBuffer_cap:
  "allocExtBuffer h n = (h', b, cap) \<Longrightarrow> fits n \<Longrightarrow> n \<le> cap"
  using goodExtBufferSize_room [of n]
  by (auto simp: allocExtBuffer_def initExtBuffer_def newBlock_def Let_def fits_def)

lemma create_ok:
  assumes "heap_ok h S" and "fits n" and "create h n = (h', s)"
  shows "heap_ok h' (add_mset s S)" and "\<forall>t \<in># S. segData h' t = segData h t"
    and "n \<le> bufCap s" and "dataOff s = 0" and "dataLen s = 0" and "managed s" and "\<not> maybeShared s"
proof -
  have "heap_ok h' (add_mset s S) \<and> (\<forall>t \<in># S. segData h' t = segData h t) \<and> n \<le> bufCap s \<and>
    dataOff s = 0 \<and> dataLen s = 0 \<and> managed s \<and> \<not> maybeShared s"
  proof (cases "n \<le> 1024")
    case True
    let ?i = "\<lparr>refcount = 1, freeFn = Internal\<rparr>"
    obtain h1 b where nb: "newBlock h (map (junk h) [0..<n]) (Some ?i) = (h1, b)" by fastforce
    with assms(3) True have r: "h' = h1" "s = nullBuf\<lparr>bufBlock := Some b, bufCap := n, managed := True\<rparr>"
      by (auto simp: create_def createCombined_def Let_def)
    from newBlock_ok [OF assms(1) nb, of s] r show ?thesis by (simp add: nullBuf_def)
  next
    case False
    obtain h1 b cap where al: "allocExtBuffer h n = (h1, b, cap)" by (metis prod_cases3)
    with assms(3) False have r: "h' = h1" "s = nullBuf\<lparr>bufBlock := Some b, bufCap := cap, managed := True\<rparr>"
      by (auto simp: create_def createSeparate_def Let_def)
    from allocExtBuffer_ok [OF assms(1,2) al, of s] allocExtBuffer_cap [OF al assms(2)] r show ?thesis
      by (simp add: nullBuf_def)
  qed
  then show "heap_ok h' (add_mset s S)" and "\<forall>t \<in># S. segData h' t = segData h t"
    and "n \<le> bufCap s" and "dataOff s = 0" and "dataLen s = 0" and "managed s" and "\<not> maybeShared s"
    by blast+
qed

section \<open>Unsharing\<close>

text \<open>\<open>only h s S\<close>: \<open>s\<close> may be written to without any other buffer noticing.\<close>

definition exclusive :: "iobuf \<Rightarrow> iobuf multiset \<Rightarrow> bool" where
  "exclusive s S \<longleftrightarrow> managed s \<and> (\<forall>b. bufBlock s = Some b \<longrightarrow> refs (add_mset s S) b = 1)"

lemma isSharedOne_ok:
  assumes "heap_ok h (add_mset s S)" and "isSharedOne h s = (shared, s1)"
  shows "heap_ok h (add_mset s1 S)" and "segData h s1 = segData h s"
    and "\<not> shared \<Longrightarrow> exclusive s1 S \<and> \<not> maybeShared s1"
    and "s1 = s\<lparr>maybeShared := maybeShared s1\<rparr>"
    and "managed s \<Longrightarrow> exclusive s S \<Longrightarrow> \<not> shared"
proof -
  have s: "seg_ok h s" using heap_okD(1) [OF assms(1)] by simp
  have off: "dataOff s + dataLen s \<le> bufCap s" using s by (simp add: seg_ok_def)
  have "heap_ok h (add_mset s1 S) \<and> segData h s1 = segData h s \<and>
     (\<not> shared \<longrightarrow> exclusive s1 S \<and> \<not> maybeShared s1) \<and> s1 = s\<lparr>maybeShared := maybeShared s1\<rparr> \<and>
     (managed s \<longrightarrow> exclusive s S \<longrightarrow> \<not> shared)"
  proof (cases "managed s")
    case False
    with assms show ?thesis by (auto simp: isSharedOne_def)
  next
    case True
    obtain b k i where si: "sharedInfo h s = Some (b, k, i)" and b: "bufBlock s = Some b" "blocks h b = Some k"
      "info k = Some i" and cap: "bufCap s \<le> length (cells k)"
      using s True by (rule sharedInfo_managed)
    have rc: "refcount i = Suc (refs S b)" using heap_okD(3) [OF assms(1) b(2,3)] True b(1) by simp
    consider (flag) "\<not> maybeShared s" "shared = False" "s1 = s"
      | (many) "maybeShared s" "0 < refs S b" "shared" "s1 = s"
      | (single) "maybeShared s" "refs S b = 0" "shared = False" "s1 = s\<lparr>maybeShared := False\<rparr>"
      using assms(2) si rc by (auto simp: isSharedOne_def split: if_splits)
    then show ?thesis
    proof cases
      case flag
      with heap_okD(4) [OF assms(1), of s b] True b(1) assms(1) show ?thesis
        by (auto simp: exclusive_def)
    next
      case many
      with assms(1) True b(1) show ?thesis by (auto simp: exclusive_def)
    next
      case single
      have "heap_ok h (add_mset s1 S)"
        using assms(1) single off True b(1) by (intro heap_ok_move [OF assms(1)]) auto
      with single True b(1) show ?thesis by (auto simp: exclusive_def segData_def)
    qed
  qed
  then show "heap_ok h (add_mset s1 S)" and "segData h s1 = segData h s"
    and "\<not> shared \<Longrightarrow> exclusive s1 S \<and> \<not> maybeShared s1"
    and "s1 = s\<lparr>maybeShared := maybeShared s1\<rparr>"
    and "managed s \<Longrightarrow> exclusive s S \<Longrightarrow> \<not> shared" by blast+
qed

text \<open>
  Moving a buffer to a block of its own: what \<open>unshareOneSlow\<close>, \<open>reserveSlow\<close> and
  \<open>coalesceAndReallocate\<close> do first.
\<close>

lemma relocate:
  assumes "heap_ok h S" and "fits n" and "allocExtBuffer h n = (h1, b, cap)"
    and "bufBlock s = Some b" and "managed s" and "\<not> maybeShared s"
    and "bufCap s \<le> cap" and "dataOff s + dataLen s \<le> bufCap s" and "length d = dataLen s"
  obtains h2 where "writeAt h1 s (dataOff s) d = Inr h2" "heap_ok h2 (add_mset s S)" "segData h2 s = d"
    "\<forall>t \<in># S. segData h2 t = segData h t"
proof -
  note A = allocExtBuffer_ok [OF assms(1-5,7,8)]
  have one: "\<forall>b. bufBlock s = Some b \<longrightarrow> refs (add_mset s S) b = 1" using A(3) assms(4) by simp
  have room: "dataOff s + length d \<le> bufCap s" using assms(8,9) by simp
  obtain h2 where h2: "writeAt h1 s (dataOff s) d = Inr h2" "heap_ok h2 (add_mset s S)"
    "\<forall>t \<in># S. segData h2 t = segData h1 t"
    "\<forall>t. bufBlock t = bufBlock s \<longrightarrow> dataOff t = dataOff s \<longrightarrow> dataLen t = length d \<longrightarrow> segData h2 t = d"
    using write_exclusive [OF A(1) assms(5) one room] by metis
  with A(2) assms(9) that show ?thesis by simp
qed

lemma unshareOneSlow_ok:
  assumes "heap_ok h (add_mset s S)" and "fits (bufCap s)"
  obtains h' s' where "unshareOneSlow h s = Inr (h', s')" "heap_ok h' (add_mset s' S)"
    "segData h' s' = segData h s" "\<forall>t \<in># S. segData h' t = segData h t" "exclusive s' S"
    "dataOff s' = dataOff s" "dataLen s' = dataLen s" "bufCap s' = bufCap s"
proof -
  have s: "seg_ok h s" using heap_okD(1) [OF assms(1)] by simp
  obtain h1 b cap where al: "allocExtBuffer h (bufCap s) = (h1, b, cap)" by (metis prod_cases3)
  let ?s = "s\<lparr>bufBlock := Some b, managed := True, freeSharedInfo := False, maybeShared := False\<rparr>"
  have new: "bufBlock ?s = Some b" "managed ?s" "\<not> maybeShared ?s" by simp_all
  have cap: "bufCap ?s \<le> cap" using allocExtBuffer_cap [OF al assms(2)] by simp
  have in_cap: "dataOff ?s + dataLen ?s \<le> bufCap ?s" using s by (simp add: seg_ok_def)
  obtain h2 where h2: "writeAt h1 ?s (dataOff ?s) (segData h s) = Inr h2"
    "heap_ok h2 (add_mset ?s (add_mset s S))" "segData h2 ?s = segData h s"
    "\<forall>t \<in># add_mset s S. segData h2 t = segData h t"
    by (rule relocate [OF assms(1,2) al new cap in_cap]) (use length_segData [OF s] in simp)
  have ok2: "heap_ok h2 (add_mset s (add_mset ?s S))" using h2(2) by (simp add: add_mset_commute)
  note D = decrement_ok [OF ok2]
  have one: "exclusive ?s S"
    using heap_okD(4) [OF D(1), of ?s b] by (simp add: exclusive_def)
  show ?thesis
    by (rule that [of "decrementRefcount h2 s" ?s])
      (use h2 D al one in \<open>auto simp: unshareOneSlow_def headroom_def\<close>)
qed

lemma unshareOne_ok:
  assumes "heap_ok h (add_mset s S)" and "fits (bufCap s)"
  obtains h' s' where "unshareOne h s = Inr (h', s')" "heap_ok h' (add_mset s' S)"
    "segData h' s' = segData h s" "\<forall>t \<in># S. segData h' t = segData h t" "exclusive s' S"
    "dataOff s' = dataOff s" "dataLen s' = dataLen s" "bufCap s' = bufCap s"
proof -
  obtain shared s1 where sh: "isSharedOne h s = (shared, s1)" by fastforce
  note I = isSharedOne_ok [OF assms(1) sh]
  have same: "dataOff s1 = dataOff s" "dataLen s1 = dataLen s" "bufCap s1 = bufCap s"
    by (subst I(4), simp)+
  show ?thesis
  proof (cases shared)
    case False
    show ?thesis
      by (rule that [of h s1]) (use I(1-3) False same sh in \<open>auto simp: unshareOne_def\<close>)
  next
    case True
    have f: "fits (bufCap s1)" using assms(2) same by simp
    obtain h' s' where U: "unshareOneSlow h s1 = Inr (h', s')" "heap_ok h' (add_mset s' S)"
      "segData h' s' = segData h s1" "\<forall>t \<in># S. segData h' t = segData h t" "exclusive s' S"
      "dataOff s' = dataOff s1" "dataLen s' = dataLen s1" "bufCap s' = bufCap s1"
      by (rule unshareOneSlow_ok [OF I(1) f])
    show ?thesis
      by (rule that [of h' s']) (use U I(2) True same sh in \<open>auto simp: unshareOne_def\<close>)
  qed
qed

lemma makeManagedOne_ok:
  assumes "heap_ok h (add_mset s S)" and "fits (bufCap s)"
  obtains h' s' where "makeManagedOne h s = Inr (h', s')" "heap_ok h' (add_mset s' S)"
    "segData h' s' = segData h s" "\<forall>t \<in># S. segData h' t = segData h t" "managed s'"
proof (cases "managed s")
  case True
  show ?thesis by (rule that [of h s]) (use assms True in \<open>simp_all add: makeManagedOne_def\<close>)
next
  case False
  obtain h' s' where U: "unshareOneSlow h s = Inr (h', s')" "heap_ok h' (add_mset s' S)"
    "segData h' s' = segData h s" "\<forall>t \<in># S. segData h' t = segData h t" "exclusive s' S"
    "dataOff s' = dataOff s" "dataLen s' = dataLen s" "bufCap s' = bufCap s"
    by (rule unshareOneSlow_ok [OF assms])
  show ?thesis by (rule that [of h' s']) (use U False in \<open>simp_all add: makeManagedOne_def exclusive_def\<close>)
qed

lemma makeManaged_ok:
  assumes "heap_ok h (mset ch + S)" and "\<forall>s \<in> set ch. fits (bufCap s)"
  shows "\<exists>h' ch'. makeManaged h ch = Inr (h', ch') \<and> heap_ok h' (mset ch' + S) \<and>
    map (segData h') ch' = map (segData h) ch \<and> (\<forall>t \<in># S. segData h' t = segData h t) \<and> isManaged ch'"
  using assms
proof (induction ch arbitrary: h S)
  case (Cons s ch)
  have ok: "heap_ok h (add_mset s (mset ch + S))" using Cons.prems(1) by simp
  have f: "fits (bufCap s)" using Cons.prems(2) by simp
  obtain h1 s1 where M: "makeManagedOne h s = Inr (h1, s1)" "heap_ok h1 (add_mset s1 (mset ch + S))"
    "segData h1 s1 = segData h s" "\<forall>t \<in># mset ch + S. segData h1 t = segData h t" "managed s1"
    by (rule makeManagedOne_ok [OF ok f])
  have "heap_ok h1 (mset ch + add_mset s1 S)" using M(2) by simp
  from Cons.IH [OF this] Cons.prems(2) obtain h2 ch2 where
    R: "makeManaged h1 ch = Inr (h2, ch2)" "heap_ok h2 (mset ch2 + add_mset s1 S)"
      "map (segData h2) ch2 = map (segData h1) ch" "\<forall>t \<in># add_mset s1 S. segData h2 t = segData h1 t"
      "isManaged ch2" by auto
  have "map (segData h1) ch = map (segData h) ch" using M(4) by simp
  then show ?case using M R by simp
qed simp

section \<open>Making room\<close>

text \<open>Moving the data inside a block the buffer holds alone.\<close>

lemma shift_exclusive:
  assumes "heap_ok h (add_mset s S)" and "exclusive s S" and "off + dataLen s \<le> bufCap s"
  obtains h' where "writeAt h s off (segData h s) = Inr h'" "heap_ok h' (add_mset (s\<lparr>dataOff := off\<rparr>) S)"
    "segData h' (s\<lparr>dataOff := off\<rparr>) = segData h s" "\<forall>t \<in># S. segData h' t = segData h t"
proof -
  have s: "seg_ok h s" using heap_okD(1) [OF assms(1)] by simp
  have m: "managed s" "\<forall>b. bufBlock s = Some b \<longrightarrow> refs (add_mset s S) b = 1"
    using assms(2) by (auto simp: exclusive_def)
  have room: "off + length (segData h s) \<le> bufCap s" using assms(3) length_segData [OF s] by simp
  obtain h' where h': "writeAt h s off (segData h s) = Inr h'" "heap_ok h' (add_mset s S)"
    "\<forall>t \<in># S. segData h' t = segData h t"
    "\<forall>t. bufBlock t = bufBlock s \<longrightarrow> dataOff t = off \<longrightarrow> dataLen t = length (segData h s) \<longrightarrow> segData h' t = segData h s"
    by (rule write_exclusive [OF assms(1) m room])
  have "heap_ok h' (add_mset (s\<lparr>dataOff := off\<rparr>) S)"
    by (rule heap_ok_move [OF h'(2)]) (use assms(3) in auto)
  with h' that length_segData [OF s] show ?thesis by simp
qed

text \<open>\<open>roomy s mh mt\<close>: the room that \<open>reserve\<close> promises.\<close>

definition roomy :: "iobuf \<Rightarrow> nat \<Rightarrow> nat \<Rightarrow> bool" where
  "roomy s mh mt \<longleftrightarrow> mh \<le> headroom s \<and> mt \<le> tailroom s"

lemma free_exclusive:
  assumes "heap_ok h (add_mset s S)" and "exclusive s S" and "sharedInfo h s = Some (b, k, i)"
  shows "decrementRefcount h s = freeExtBuffer h b i"
proof -
  have b: "bufBlock s = Some b" "blocks h b = Some k" "info k = Some i" "managed s"
    using assms(3) by (simp_all add: sharedInfo_Some)
  with heap_okD(3) [OF assms(1) b(2,3)] assms(2) show ?thesis
    by (auto simp: exclusive_def decrementRefcount_def assms(3))
qed

text \<open>Growing with \<^verbatim>\<open>realloc\<close>: the block is replaced by a longer one with the same beginning.\<close>

lemma realloc_ok:
  assumes "heap_ok h (add_mset s S)" and "exclusive s S" and "sharedInfo h s = Some (b, k, i)"
    and "dataOff s + dataLen s \<le> cap"
    and "newBlock (h\<lparr>blocks := (blocks h)(b := None)\<rparr>) (take cap (cells k) @ map (junk h) [length (cells k)..<cap])
      (Some \<lparr>refcount = 1, freeFn = Malloced\<rparr>) = (h2, b1)"
    and "s2 = s\<lparr>bufBlock := Some b1, bufCap := cap, managed := True, freeSharedInfo := False, maybeShared := False\<rparr>"
  shows "heap_ok h2 (add_mset s2 S)" and "segData h2 s2 = segData h s"
    and "\<forall>t \<in># S. segData h2 t = segData h t"
proof -
  let ?h = "h\<lparr>blocks := (blocks h)(b := None)\<rparr>"
  have b: "bufBlock s = Some b" "blocks h b = Some k" using assms(3) by (simp_all add: sharedInfo_Some)
  have s: "seg_ok h s" using heap_okD(1) [OF assms(1)] by simp
  note D = decrement_ok [OF assms(1), unfolded free_exclusive [OF assms(1-3)]]
  have "same_shape (freeExtBuffer h b i) ?h" by (simp add: same_shape_def freeExtBuffer_def)
  with D(1) have ok: "heap_ok ?h S" by (rule heap_ok_bytes)
  have "segData ?h t = segData (freeExtBuffer h b i) t" for t
    by (rule segData_cong) (simp add: cellsOf_def freeExtBuffer_def)
  with D(2) have data: "\<forall>t \<in># S. segData ?h t = segData h t" by simp
  have len: "cap \<le> length (take cap (cells k) @ map (junk h) [length (cells k)..<cap])" by simp
  show "heap_ok h2 (add_mset s2 S)"
    by (rule newBlock_ok(1) [OF ok assms(5)]) (use assms(4,6) len in simp_all)
  show "\<forall>t \<in># S. segData h2 t = segData h t"
    using newBlock_ok(2) [OF ok assms(5), of s2] data assms(4,6) len by simp
  have "dataOff s + dataLen s \<le> length (cells k)" using s b by (auto simp: seg_ok_def)
  then show "segData h2 s2 = segData h s"
    using assms(4,5,6) b by (auto simp: segData_def cellsOf_def newBlock_def drop_take min_def)
qed

lemma exclusive_block_of:
  "exclusive s S \<Longrightarrow> bufBlock s' = bufBlock s \<Longrightarrow> managed s' \<Longrightarrow> exclusive s' S"
  by (auto simp: exclusive_def)

lemma exclusive_unmarked:
  "heap_ok h (add_mset s S) \<Longrightarrow> managed s \<Longrightarrow> \<not> maybeShared s \<Longrightarrow> exclusive s S"
  using heap_okD(4) [of h "add_mset s S" s] by (simp add: exclusive_def)

lemma writeAt_blocks: "writeAt h s off d = Inr h' \<Longrightarrow> bufBlock s \<noteq> Some c \<Longrightarrow> blocks h' c = blocks h c"
  by (auto simp: writeAt_def split: if_splits option.splits)

lemma allocExtBuffer_blocks:
  "allocExtBuffer h n = (h1, b, cap) \<Longrightarrow> c \<noteq> b \<Longrightarrow> blocks h1 c = blocks h c"
  "allocExtBuffer h n = (h1, b, cap) \<Longrightarrow> b = fresh h"
  by (auto simp: allocExtBuffer_def newBlock_def Let_def split: prod.splits)

lemma reserve_shift:
  assumes ok: "heap_ok h (add_mset s S)" and ex: "exclusive s S" and room: "mh + mt \<le> headroom s + tailroom s"
  obtains h' where "writeAt h s mh (segData h s) = Inr h'" "heap_ok h' (add_mset (s\<lparr>dataOff := mh\<rparr>) S)"
    "segData h' (s\<lparr>dataOff := mh\<rparr>) = segData h s" "roomy (s\<lparr>dataOff := mh\<rparr>) mh mt"
    "exclusive (s\<lparr>dataOff := mh\<rparr>) S" "\<forall>t \<in># S. segData h' t = segData h t"
proof -
  have "seg_ok h s" using heap_okD(1) [OF ok] by simp
  then have fit: "dataOff s + dataLen s \<le> bufCap s" by (simp add: seg_ok_def)
  then have len: "mh + dataLen s \<le> bufCap s" using room by (simp add: headroom_def tailroom_def)
  obtain h' where h': "writeAt h s mh (segData h s) = Inr h'" "heap_ok h' (add_mset (s\<lparr>dataOff := mh\<rparr>) S)"
    "segData h' (s\<lparr>dataOff := mh\<rparr>) = segData h s" "\<forall>t \<in># S. segData h' t = segData h t"
    by (rule shift_exclusive [OF ok ex len])
  have "roomy (s\<lparr>dataOff := mh\<rparr>) mh mt"
    using room fit by (simp add: roomy_def headroom_def tailroom_def)
  moreover have "exclusive (s\<lparr>dataOff := mh\<rparr>) S"
    by (rule exclusive_block_of [OF ex]) (use ex in \<open>simp_all add: exclusive_def\<close>)
  ultimately show ?thesis using that h' by blast
qed

lemma reserve_realloc:
  assumes ok: "heap_ok h (add_mset s S)" and ex: "exclusive s S" and si: "sharedInfo h s = Some (b, k, i)"
    and head: "mh \<le> headroom s" and small: "fits (bufCap s + mt)"
    and cap: "cap = goodExtBufferSize (dataLen s + mh + mt + (headroom s - mh)) - 24"
    and nb: "newBlock (h\<lparr>blocks := (blocks h)(b := None)\<rparr>)
      (take cap (cells k) @ map (junk h) [length (cells k)..<cap]) (Some \<lparr>refcount = 1, freeFn = Malloced\<rparr>) = (h2, b1)"
    and s2: "s2 = s\<lparr>bufBlock := Some b1, bufCap := cap, managed := True, freeSharedInfo := False, maybeShared := False\<rparr>"
  shows "heap_ok h2 (add_mset s2 S)" "segData h2 s2 = segData h s" "roomy s2 mh mt" "exclusive s2 S"
    "\<forall>t \<in># S. segData h2 t = segData h t"
proof -
  have "seg_ok h s" using heap_okD(1) [OF ok] by simp
  then have fit: "dataOff s + dataLen s \<le> bufCap s" by (simp add: seg_ok_def)
  have n: "dataLen s + mh + mt + (headroom s - mh) = dataLen s + dataOff s + mt" using head by (simp add: headroom_def)
  have "dataLen s + dataOff s + mt + 31 < 2 ^ 64" using small fit by (simp add: fits_def)
  then have room: "dataLen s + dataOff s + mt \<le> cap" unfolding cap n by (rule goodExtBufferSize_room(1))
  then have in2: "dataOff s + dataLen s \<le> cap" by simp
  note R = realloc_ok [OF ok ex si in2 nb s2]
  show "heap_ok h2 (add_mset s2 S)" "segData h2 s2 = segData h s" "\<forall>t \<in># S. segData h2 t = segData h t"
    using R by simp_all
  show "roomy s2 mh mt" using head room s2 by (simp add: roomy_def headroom_def tailroom_def)
  show "exclusive s2 S" by (rule exclusive_unmarked [OF R(1)]) (simp_all add: s2)
qed

lemma reserve_copy:
  assumes ok: "heap_ok h (add_mset s S)" and ex: "exclusive s S" and si: "sharedInfo h s = Some (b, k, i)"
    and small: "fits (dataLen s + mh + mt)" and al: "allocExtBuffer h (dataLen s + mh + mt) = (h1, b1, cap)"
    and s2: "s2 = s\<lparr>bufBlock := Some b1, bufCap := cap, managed := True, freeSharedInfo := False,
      maybeShared := False, dataOff := mh\<rparr>"
  obtains h2 where "writeAt h1 s2 mh (segData h s) = Inr h2" "heap_ok (freeExtBuffer h2 b i) (add_mset s2 S)"
    "segData (freeExtBuffer h2 b i) s2 = segData h s" "roomy s2 mh mt" "exclusive s2 S"
    "\<forall>t \<in># S. segData (freeExtBuffer h2 b i) t = segData h t"
proof -
  have s: "seg_ok h s" using heap_okD(1) [OF ok] by simp
  have room: "dataLen s + mh + mt \<le> cap" by (rule allocExtBuffer_cap [OF al small])
  have new: "bufBlock s2 = Some b1" "managed s2" "\<not> maybeShared s2" "bufCap s2 \<le> cap"
    "dataOff s2 + dataLen s2 \<le> bufCap s2" "length (segData h s) = dataLen s2"
    using room length_segData [OF s] s2 by simp_all
  obtain h2 where h2: "writeAt h1 s2 (dataOff s2) (segData h s) = Inr h2"
    "heap_ok h2 (add_mset s2 (add_mset s S))" "segData h2 s2 = segData h s"
    "\<forall>t \<in># add_mset s S. segData h2 t = segData h t"
    by (rule relocate [OF ok small al new])
  have ok2: "heap_ok h2 (add_mset s (add_mset s2 S))" using h2(2) by (simp add: add_mset_commute)
  note D = decrement_ok [OF ok2]
  have bb: "blocks h b = Some k" "bufBlock s = Some b" "info k = Some i" "managed s"
    using si by (simp_all add: sharedInfo_Some)
  then have ne: "b \<noteq> b1" using heap_okD(2) [OF ok bb(1)] allocExtBuffer_blocks(2) [OF al] by simp
  then have "blocks h2 b = Some k"
    using writeAt_blocks [OF h2(1), of b] allocExtBuffer_blocks(1) [OF al, of b] bb(1) s2 by simp
  then have si2: "sharedInfo h2 s = Some (b, k, i)" using bb by (simp add: sharedInfo_Some)
  have "exclusive s (add_mset s2 S)" using ex ne bb(2) s2 by (auto simp: exclusive_def)
  then have fr: "decrementRefcount h2 s = freeExtBuffer h2 b i" using si2 by (rule free_exclusive [OF ok2])
  have "roomy s2 mh mt" using room s2 by (simp add: roomy_def headroom_def tailroom_def)
  moreover have "exclusive s2 S" by (rule exclusive_unmarked [OF D(1)]) (simp_all add: s2)
  ultimately show ?thesis using that [of h2] D h2 s2 by (simp add: fr)
qed

lemma reserveSlow_ok:
  assumes "heap_ok h (add_mset s S)" and "exclusive s S" and "dataLen s + mh + mt < 2 ^ 32 - 1"
    and "fits (bufCap s + mt)"
  obtains h' s' where "reserveSlow h s mh mt = Inr (h', s')" "heap_ok h' (add_mset s' S)"
    "segData h' s' = segData h s" "roomy s' mh mt" "exclusive s' S" "\<forall>t \<in># S. segData h' t = segData h t"
proof -
  obtain shared s1 where sh: "isSharedOne h s = (shared, s1)" by fastforce
  note I = isSharedOne_ok [OF assms(1) sh]
  have m: "managed s" using assms(2) by (simp add: exclusive_def)
  have ns: "\<not> shared" by (rule I(5) [OF m assms(2)])
  have same: "dataLen s1 = dataLen s" "bufCap s1 = bufCap s" "managed s1 = managed s" by (subst I(4), simp)+
  have ex: "exclusive s1 S" using I(3) ns by blast
  have sizes: "(dataLen s + mh + mt) mod 2 ^ 64 = dataLen s + mh + mt" "(mh + mt) mod 2 ^ 64 = mh + mt"
    using assms(3) by simp_all
  have s1: "seg_ok h s1" using heap_okD(1) [OF I(1)] by simp
  obtain b k i where si: "sharedInfo h s1 = Some (b, k, i)"
    using s1 m unfolding same(3) [symmetric] by (rule sharedInfo_managed)
  note eval = reserveSlow_def Let_def sh prod.case sizes
  consider (shift) "mh + mt \<le> headroom s1 + tailroom s1"
    | (realloc) "\<not> mh + mt \<le> headroom s1 + tailroom s1" "freeFn i = Malloced" "dataLen s1 \<noteq> 0"
        "mh \<le> headroom s1" "(bufCap s1 - dataLen s1) * 2 \<le> dataLen s1"
    | (copy) "\<not> mh + mt \<le> headroom s1 + tailroom s1" "\<not> (freeFn i = Malloced \<and> dataLen s1 \<noteq> 0 \<and>
        mh \<le> headroom s1 \<and> (bufCap s1 - dataLen s1) * 2 \<le> dataLen s1)" by blast
  then show ?thesis
  proof cases
    case shift
    obtain h' where "writeAt h s1 mh (segData h s1) = Inr h'" "heap_ok h' (add_mset (s1\<lparr>dataOff := mh\<rparr>) S)"
      "segData h' (s1\<lparr>dataOff := mh\<rparr>) = segData h s1" "roomy (s1\<lparr>dataOff := mh\<rparr>) mh mt"
      "exclusive (s1\<lparr>dataOff := mh\<rparr>) S" "\<forall>t \<in># S. segData h' t = segData h t"
      by (rule reserve_shift [OF I(1) ex shift])
    moreover from this(1) have "reserveSlow h s mh mt = Inr (h', s1\<lparr>dataOff := mh\<rparr>)"
      unfolding eval using shift ns assms(3) by simp
    ultimately show ?thesis using that I(2) by simp
  next
    case realloc
    define cap where "cap = goodExtBufferSize (dataLen s1 + mh + mt + (headroom s1 - mh)) - 24"
    obtain h2 b1 where nb: "newBlock (h\<lparr>blocks := (blocks h)(b := None)\<rparr>)
        (take cap (cells k) @ map (junk h) [length (cells k)..<cap])
        (Some \<lparr>refcount = 1, freeFn = Malloced\<rparr>) = (h2, b1)" by fastforce
    have "fits (bufCap s1 + mt)" using assms(4) same by simp
    note R = reserve_realloc [OF I(1) ex si realloc(4) this cap_def nb refl]
    have "reserveSlow h s mh mt = Inr (h2, s1\<lparr>bufBlock := Some b1, bufCap := cap, managed := True,
        freeSharedInfo := False, maybeShared := False\<rparr>)"
      unfolding eval using realloc ns assms(3) si nb same(1) by (simp add: initExtBuffer_def cap_def)
    then show ?thesis using that R I(2) by simp
  next
    case copy
    obtain h1 b1 cap where al: "allocExtBuffer h (dataLen s1 + mh + mt) = (h1, b1, cap)" by (metis prod_cases3)
    define s2 where "s2 = s1\<lparr>bufBlock := Some b1, bufCap := cap, managed := True, freeSharedInfo := False,
      maybeShared := False, dataOff := mh\<rparr>"
    have "fits (dataLen s1 + mh + mt)" using assms(3) same(1) by (simp add: fits_def)
    then obtain h2 where h2: "writeAt h1 s2 mh (segData h s1) = Inr h2"
      "heap_ok (freeExtBuffer h2 b i) (add_mset s2 S)" "segData (freeExtBuffer h2 b i) s2 = segData h s1"
      "roomy s2 mh mt" "exclusive s2 S" "\<forall>t \<in># S. segData (freeExtBuffer h2 b i) t = segData h t"
      by (rule reserve_copy [OF I(1) ex si _ al s2_def])
    have "reserveSlow h s mh mt = Inr (freeExtBuffer h2 b i, s2)"
      unfolding eval using copy ns assms(3) si al h2(1) same(1) by (auto simp: s2_def)
    then show ?thesis using that h2 I(2) by simp
  qed
qed

lemma reserve_ok:
  assumes "heap_ok h (add_mset s S)" and "exclusive s S" and "dataLen s + mh + mt < 2 ^ 32 - 1"
    and "fits (bufCap s + mt)"
  obtains h' s' where "reserve h s mh mt = Inr (h', s')" "heap_ok h' (add_mset s' S)"
    "segData h' s' = segData h s" "roomy s' mh mt" "exclusive s' S" "\<forall>t \<in># S. segData h' t = segData h t"
proof -
  have in1: "dataOff s + dataLen s \<le> bufCap s"
    using heap_okD(1) [OF assms(1), of s] by (simp add: seg_ok_def)
  have m: "managed s" using assms(2) by (simp add: exclusive_def)
  have sz: "(mh + mt) mod 2 ^ 64 = mh + mt" using assms(3) by simp
  consider (enough) "roomy s mh mt"
    | (void) "\<not> roomy s mh mt" "dataLen s = 0" "mh + mt \<le> headroom s + tailroom s"
    | (slow) "\<not> roomy s mh mt" "dataLen s \<noteq> 0 \<or> \<not> mh + mt \<le> headroom s + tailroom s" by blast
  then show ?thesis
  proof cases
    case enough
    then have "reserve h s mh mt = Inr (h, s)" by (simp add: reserve_def roomy_def)
    with that enough assms(1,2) show ?thesis by simp
  next
    case void
    have room: "mh + mt \<le> bufCap s" using void in1 by (simp add: headroom_def tailroom_def)
    have "reserve h s mh mt = Inr (h, s\<lparr>dataOff := mh\<rparr>)"
      unfolding reserve_def sz using void by (auto simp: roomy_def)
    moreover have "heap_ok h (add_mset (s\<lparr>dataOff := mh\<rparr>) S)"
      by (rule heap_ok_move [OF assms(1)]) (use void room in auto)
    moreover have "segData h (s\<lparr>dataOff := mh\<rparr>) = segData h s"
      using void(2) by (simp add: segData_def split: option.split)
    moreover have "roomy (s\<lparr>dataOff := mh\<rparr>) mh mt"
      using void(2) room by (simp add: roomy_def headroom_def tailroom_def)
    moreover have "exclusive (s\<lparr>dataOff := mh\<rparr>) S" by (rule exclusive_block_of [OF assms(2)]) (use m in simp_all)
    ultimately show ?thesis using that by simp
  next
    case slow
    obtain h' s' where R: "reserveSlow h s mh mt = Inr (h', s')" "heap_ok h' (add_mset s' S)"
      "segData h' s' = segData h s" "roomy s' mh mt" "exclusive s' S" "\<forall>t \<in># S. segData h' t = segData h t"
      by (rule reserveSlow_ok [OF assms])
    have "reserve h s mh mt = reserveSlow h s mh mt"
      unfolding reserve_def sz using slow by (auto simp: roomy_def)
    with that R show ?thesis by simp
  qed
qed

section \<open>Coalescing\<close>

lemma chainData_same:
  "\<forall>t \<in># S. segData h' t = segData h t \<Longrightarrow> set ch \<subseteq> set_mset S \<Longrightarrow> chainData h' ch = chainData h ch"
  unfolding chainData_def by (metis (no_types, lifting) map_eq_conv subsetD)

lemma coalesceAndReallocate_ok:
  assumes "heap_ok h (mset ch + S)" and "ch \<noteq> []" and "n \<le> length ch" and "n = length ch \<or> 2 \<le> n"
    and "newLength = computeChainDataLength (take n ch)" and "fits (newLength + hr + tr)"
  obtains h' s' where "coalesceAndReallocate h ch hr newLength n tr = Inr (h', s' # drop n ch)"
    "heap_ok h' (mset (s' # drop n ch) + S)" "segData h' s' = chainData h (take n ch)"
    "chainData h' (s' # drop n ch) = chainData h ch" "exclusive s' (mset (drop n ch) + S)"
    "dataLen s' = newLength" "headroom s' = hr" "tr \<le> tailroom s'" "\<forall>t \<in># S. segData h' t = segData h t"
proof -
  obtain s rest where ch: "ch = s # rest" using assms(2) by (cases ch) auto
  have n1: "1 \<le> n" "n - 1 \<le> length rest" using assms(3,4) ch by auto
  have segs: "\<And>t. t \<in> set (take n ch) \<Longrightarrow> seg_ok h t"
    using heap_okD(1) [OF assms(1)] by (auto dest: in_set_takeD)
  obtain h1 b cap where al: "allocExtBuffer h (newLength + hr + tr) = (h1, b, cap)" by (metis prod_cases3)
  define s1 where "s1 = \<lparr>bufBlock = Some b, dataOff = hr, dataLen = newLength, bufCap = cap, managed = True,
    freeSharedInfo = False, maybeShared = False\<rparr>"
  have cap: "newLength + hr + tr \<le> cap" by (rule allocExtBuffer_cap [OF al assms(6)])
  have len: "length (chainData h (take n ch)) = newLength" using length_chainData [OF segs] assms(5) by simp
  have new: "bufBlock s1 = Some b" "managed s1" "\<not> maybeShared s1" "bufCap s1 \<le> cap"
    "dataOff s1 + dataLen s1 \<le> bufCap s1" "length (chainData h (take n ch)) = dataLen s1"
    using cap len by (simp_all add: s1_def)
  obtain h2 where h2: "writeAt h1 s1 (dataOff s1) (chainData h (take n ch)) = Inr h2"
    "heap_ok h2 (add_mset s1 (mset ch + S))" "segData h2 s1 = chainData h (take n ch)"
    "\<forall>t \<in># mset ch + S. segData h2 t = segData h t"
    by (rule relocate [OF assms(1,6) al new])
  define h3 where "h3 = decrementRefcount h2 s"
  have ok2: "heap_ok h2 (add_mset s (add_mset s1 (mset rest + S)))"
    using h2(2) by (simp add: ch add_mset_commute)
  note D = decrement_ok [OF ok2, folded h3_def]
  define gone where "gone = take (n - 1) rest"
  define kept where "kept = drop (n - 1) rest"
  have split: "rest = gone @ kept" "drop n ch = kept"
    using n1 by (simp_all add: gone_def kept_def ch drop_Cons' del: append_take_drop_id)
      (simp add: gone_def kept_def)
  have ok3: "heap_ok h3 (mset gone + (add_mset s1 (mset kept + S)))"
    using D(1) split(1) by (simp add: ac_simps)
  note E = destroy_ok [OF ok3]
  define h4 where "h4 = destroy h3 gone"
  have ok4: "heap_ok h4 (add_mset s1 (mset kept + S))" using E(1) by (simp add: h4_def)
  have d4: "segData h4 t = segData h2 t" if "t \<in># add_mset s1 (mset kept + S)" for t
  proof -
    have "segData h4 t = segData h3 t" using E(2) that by (auto simp: h4_def)
    moreover have "segData h3 t = segData h2 t" using D(2) that split(1) by auto
    ultimately show ?thesis by simp
  qed
  have s1_data: "segData h4 s1 = chainData h (take n ch)" using d4 [of s1] h2(3) by simp
  have other: "segData h4 t = segData h t" if "t \<in># mset kept + S" for t
    using d4 [of t] h2(4) that split(1) ch by auto
  have "chainData h4 kept = chainData h kept"
    by (rule chainData_same [of "mset kept + S"]) (use other in auto)
  then have bytes: "chainData h4 (s1 # kept) = chainData h ch"
    unfolding chainData_Cons s1_data split(2) [symmetric] by (metis append_take_drop_id chainData_append)
  have "coalesceAndReallocate h ch hr newLength n tr = Inr (h4, s1 # kept)"
  proof (cases "rest = []")
    case True
    then have "gone = []" "kept = []" "h4 = h3"
      by (simp_all add: gone_def kept_def h4_def destroy_def)
    with True al len h2(1) show ?thesis
      unfolding ch by (simp add: coalesceAndReallocate_def s1_def h3_def Let_def)
  next
    case False
    then have "2 \<le> n" using assms(4) ch by (cases rest) auto
    with False al len h2(1) show ?thesis
      unfolding ch
      by (simp add: coalesceAndReallocate_def s1_def h3_def h4_def gone_def kept_def Let_def)
  qed
  moreover have "exclusive s1 (mset kept + S)" by (rule exclusive_unmarked [OF ok4]) (simp_all add: s1_def)
  moreover have "tr \<le> tailroom s1" using cap by (simp add: tailroom_def s1_def)
  ultimately show ?thesis
    using that [of h4 s1] ok4 s1_data bytes other split(2) by (simp add: headroom_def s1_def)
qed

lemma coalesceSlow_ok:
  assumes "heap_ok h (mset ch + S)" and "2 \<le> length ch"
    and "fits (computeChainDataLength ch + headroom (hd ch) + tailroom (last ch))"
  obtains h' s' where "coalesceSlow h ch = Inr (h', [s'])" "heap_ok h' (add_mset s' S)"
    "segData h' s' = chainData h ch" "exclusive s' S" "headroom s' = headroom (hd ch)"
    "tailroom (last ch) \<le> tailroom s'" "\<forall>t \<in># S. segData h' t = segData h t"
proof -
  have ne: "ch \<noteq> []" using assms(2) by auto
  obtain h' s' where C: "coalesceAndReallocate h ch (headroom (hd ch)) (computeChainDataLength ch) (length ch)
       (tailroom (last ch)) = Inr (h', s' # drop (length ch) ch)"
    "heap_ok h' (mset (s' # drop (length ch) ch) + S)" "segData h' s' = chainData h (take (length ch) ch)"
    "chainData h' (s' # drop (length ch) ch) = chainData h ch" "exclusive s' (mset (drop (length ch) ch) + S)"
    "dataLen s' = computeChainDataLength ch" "headroom s' = headroom (hd ch)"
    "tailroom (last ch) \<le> tailroom s'" "\<forall>t \<in># S. segData h' t = segData h t"
    by (rule coalesceAndReallocate_ok [OF assms(1) ne order_refl _ _ assms(3)]) simp_all
  show ?thesis by (rule that [of h' s']) (use C assms(2) in \<open>simp_all add: coalesceSlow_def\<close>)
qed

text \<open>What the loop of \<open>gather\<close> finds: a prefix with enough bytes, or that there is none.\<close>

lemma gatherCount_ok:
  "gatherCount m ch l0 n0 = Inr (l, n) \<Longrightarrow>
     n0 < n \<and> n \<le> n0 + length ch \<and> l = l0 + computeChainDataLength (take (n - n0) ch) \<and> m \<le> l"
proof (induction m ch l0 n0 rule: gatherCount.induct)
  case (2 m s ss l0 n0)
  show ?case
  proof (cases "m \<le> l0 + dataLen s")
    case True
    with "2.prems" show ?thesis by (auto simp: computeChainDataLength_def)
  next
    case False
    with "2.prems" have "gatherCount m ss (l0 + dataLen s) (n0 + 1) = Inr (l, n)" by simp
    from "2.IH" [OF refl False this] have IH: "n0 + 1 < n" "n \<le> n0 + 1 + length ss"
      "l = l0 + dataLen s + computeChainDataLength (take (n - (n0 + 1)) ss)" "m \<le> l" by simp_all
    then have "n - n0 = Suc (n - (n0 + 1))" by simp
    with IH show ?thesis by (simp add: computeChainDataLength_def)
  qed
qed simp

lemma gatherCount_fails:
  assumes "ch \<noteq> []"
  shows "gatherCount m ch l0 n0 = Inl e \<longleftrightarrow> e = Overflow_Error \<and> l0 + computeChainDataLength ch < m"
  using assms
proof (induction m ch l0 n0 rule: gatherCount.induct)
  case (2 m s ss l0 n0)
  then show ?case
    by (cases "ss = []") (auto simp: computeChainDataLength_def Let_def)
qed simp

lemma computeChainDataLength_take:
  "computeChainDataLength (take n ch) \<le> computeChainDataLength ch"
  by (metis append_take_drop_id computeChainDataLength_def le_add1 map_append sum_list_append)

lemma gather_ok:
  assumes "heap_ok h (mset ch + S)" and "ch \<noteq> []"
    and "\<forall>t \<in> set ch. fits (computeChainDataLength ch + headroom (hd ch) + tailroom t)"
  shows "if 1 < length ch \<and> computeChainDataLength ch < m then gather h ch m = Inl Overflow_Error
    else \<exists>h' ch'. gather h ch m = Inr (h', ch') \<and> heap_ok h' (mset ch' + S) \<and>
      chainData h' ch' = chainData h ch \<and> ch' \<noteq> [] \<and> (m \<le> dataLen (hd ch') \<or> length ch' = 1) \<and>
      (\<forall>t \<in># S. segData h' t = segData h t)"
proof (cases "length ch \<le> 1 \<or> m \<le> dataLen (hd ch)")
  case True
  then have g: "gather h ch m = Inr (h, ch)" by (simp add: gather_def)
  have "dataLen (hd ch) \<le> computeChainDataLength ch"
    using assms(2) by (cases ch) (simp_all add: computeChainDataLength_def)
  with True g assms(1,2) show ?thesis by (auto simp: le_Suc_eq)
next
  case False
  then have g: "gather h ch m = res_bind (gatherCount m ch 0 0) (\<lambda>(newLength, n).
      coalesceAndReallocate h ch (headroom (hd ch)) newLength n (tailroom (ch ! (n - 1))))"
    by (simp add: gather_def coalesceSlowMax_def)
  show ?thesis
  proof (cases "gatherCount m ch 0 0")
    case (Inl e)
    with gatherCount_fails [OF assms(2), of m 0 0 e] g False show ?thesis by simp
  next
    case (Inr r)
    then obtain l n where r: "gatherCount m ch 0 0 = Inr (l, n)" by (cases r) simp
    note G = gatherCount_ok [OF this, simplified]
    have enough: "\<not> computeChainDataLength ch < m"
      using G computeChainDataLength_take [of n ch] by linarith
    have n: "2 \<le> n"
    proof (rule ccontr)
      assume "\<not> 2 \<le> n"
      with G have "n = 1" by simp
      with G False assms(2) show False by (cases ch) (simp_all add: computeChainDataLength_def)
    qed
    have "ch ! (n - 1) \<in> set ch" using G by (intro nth_mem) linarith
    with assms(3) have "fits (computeChainDataLength ch + headroom (hd ch) + tailroom (ch ! (n - 1)))" by blast
    then have f: "fits (l + headroom (hd ch) + tailroom (ch ! (n - 1)))"
      using G computeChainDataLength_take [of n ch] by (simp add: fits_def)
    have nl: "n \<le> length ch" and l: "l = computeChainDataLength (take n ch)" and cond: "n = length ch \<or> 2 \<le> n"
      using G n by simp_all
    obtain h' s' where C: "coalesceAndReallocate h ch (headroom (hd ch)) l n (tailroom (ch ! (n - 1)))
         = Inr (h', s' # drop n ch)"
      "heap_ok h' (mset (s' # drop n ch) + S)" "segData h' s' = chainData h (take n ch)"
      "chainData h' (s' # drop n ch) = chainData h ch" "exclusive s' (mset (drop n ch) + S)"
      "dataLen s' = l" "headroom s' = headroom (hd ch)" "tailroom (ch ! (n - 1)) \<le> tailroom s'"
      "\<forall>t \<in># S. segData h' t = segData h t"
      by (rule coalesceAndReallocate_ok [OF assms(1,2) nl cond l f])
    have "gather h ch m = Inr (h', s' # drop n ch)" using g r C(1) by simp
    with C G enough show ?thesis by auto
  qed
qed

lemma isShared_ok:
  assumes "heap_ok h (mset ch + S)" and "isShared h ch = (shared, ch1)"
  shows "heap_ok h (mset ch1 + S) \<and> map (segData h) ch1 = map (segData h) ch \<and>
    map dataLen ch1 = map dataLen ch \<and> map headroom ch1 = map headroom ch \<and> map tailroom ch1 = map tailroom ch \<and>
    (\<not> shared \<longrightarrow> (\<forall>i < length ch1. managed (ch1 ! i) \<and> \<not> maybeShared (ch1 ! i)))"
  using assms
proof (induction ch arbitrary: S shared ch1)
  case (Cons s ch)
  obtain sh s1 where one: "isSharedOne h s = (sh, s1)" by fastforce
  obtain rsh ch2 where rest: "isShared h ch = (rsh, ch2)" by fastforce
  have ok: "heap_ok h (add_mset s (mset ch + S))" using Cons.prems(1) by simp
  note I = isSharedOne_ok [OF ok one]
  have same: "dataLen s1 = dataLen s" "headroom s1 = headroom s" "tailroom s1 = tailroom s"
    by (subst I(4), simp add: headroom_def tailroom_def)+
  show ?case
  proof (cases sh)
    case True
    with Cons.prems(2) one have "shared" "ch1 = s1 # ch" by auto
    with I(1,2) same show ?thesis by simp
  next
    case False
    with Cons.prems(2) one rest have r: "shared = rsh" "ch1 = s1 # ch2" by auto
    have "heap_ok h (mset ch + add_mset s1 S)" using I(1) by simp
    from Cons.IH [OF this rest] r I(2,3) False same show ?thesis
      by (auto simp: exclusive_def less_Suc_eq_0_disj)
  qed
qed simp

lemma clone_ok:
  assumes "heap_ok h (mset ch + S)" and "clone h ch = (h', ch', cs)"
  shows "heap_ok h' (mset cs + mset ch' + S) \<and> (\<forall>t. segData h' t = segData h t) \<and>
    map (segData h) ch' = map (segData h) ch \<and> cs = ch'"
  using assms
proof (induction ch arbitrary: h S h' ch' cs)
  case (Cons s ch)
  obtain h1 s1 c where one: "cloneOne h s = (h1, s1, c)" by (metis prod_cases3)
  obtain h2 ch2 cs2 where rest: "clone h1 ch = (h2, ch2, cs2)" by (metis prod_cases3)
  have r: "h' = h2" "ch' = s1 # ch2" "cs = c # cs2" using Cons.prems(2) one rest by auto
  have ok: "heap_ok h (add_mset s (mset ch + S))" using Cons.prems(1) by simp
  note C = cloneOne_ok [OF ok one]
  have "heap_ok h1 (mset ch + add_mset c (add_mset s1 S))" using C(1) by simp
  from Cons.IH [OF this rest] have R: "heap_ok h2 (mset cs2 + mset ch2 + add_mset c (add_mset s1 S))"
    "\<forall>t. segData h2 t = segData h1 t" "map (segData h1) ch2 = map (segData h1) ch" "cs2 = ch2" by blast+
  have "segData h1 = segData h" using C(2) by (intro ext) blast
  with R(3) have "map (segData h) ch2 = map (segData h) ch" by simp
  moreover have "heap_ok h2 (mset cs + mset ch' + S)" using R(1) r by (simp add: add_mset_commute)
  ultimately show ?case using R(2,4) C(2-4) r by simp
qed simp

section \<open>Comparing\<close>

lemma prefix_differs:
  assumes "take m x \<noteq> take m y" and "m \<le> length x" and "m \<le> length y"
  shows "x @ u \<noteq> y @ v"
proof
  assume "x @ u = y @ v"
  then have "take m (x @ u) = take m (y @ v)" by simp
  with assms show False by simp
qed

lemma equalLoop_ok:
  assumes "cursor_ok a ca" and "cursor_ok b cb" and "length (remaining a ca) < n"
  shows "equalLoop n a ca b cb = Inr (remaining a ca = remaining b cb)"
  using assms
proof (induction n arbitrary: ca cb)
  case (Suc n)
  obtain pa ca1 where pa: "peek a ca = (pa, ca1)" "cursor_ok a ca1" "remaining a ca1 = remaining a ca"
    "\<exists>tl. remaining a ca = pa @ tl" "pa = [] \<longleftrightarrow> remaining a ca = []"
    using peek_spec [OF Suc.prems(1)] by blast
  obtain pb cb1 where pb: "peek b cb = (pb, cb1)" "cursor_ok b cb1" "remaining b cb1 = remaining b cb"
    "\<exists>tl. remaining b cb = pb @ tl" "pb = [] \<longleftrightarrow> remaining b cb = []"
    using peek_spec [OF Suc.prems(2)] by blast
  obtain ta tb where t: "remaining a ca = pa @ ta" "remaining b cb = pb @ tb" using pa(4) pb(4) by blast
  define m where "m = min (length pa) (length pb)"
  have m: "m \<le> length pa" "m \<le> length pb" by (simp_all add: m_def)
  have body: "equalLoop (Suc n) a ca b cb =
      (if pa = [] \<and> pb = [] then Inr True else if pa = [] \<or> pb = [] then Inr False
       else if take m pa \<noteq> take m pb then Inr False
       else res_bind (skip a m ca1) (\<lambda>ca2. res_bind (skip b m cb1) (\<lambda>cb2. equalLoop n a ca2 b cb2)))"
    using pa(1) pb(1) by (simp add: m_def Let_def)
  show ?case
  proof (cases "pa = [] \<or> pb = [] \<or> take m pa \<noteq> take m pb")
    case True
    then have "equalLoop (Suc n) a ca b cb = Inr (pa = [] \<and> pb = [])" unfolding body by auto
    moreover have "remaining a ca = remaining b cb \<longleftrightarrow> pa = [] \<and> pb = []"
    proof (cases "pa = [] \<or> pb = []")
      case True
      with pa(5) pb(5) show ?thesis by metis
    next
      case False
      with \<open>pa = [] \<or> pb = [] \<or> take m pa \<noteq> take m pb\<close> have "take m pa \<noteq> take m pb" by blast
      from prefix_differs [OF this m, of ta tb] False show ?thesis unfolding t by blast
    qed
    ultimately show ?thesis by simp
  next
    case False
    then have pos: "0 < m" by (simp add: m_def)
    have "m \<le> length (remaining a ca1)" "m \<le> length (remaining b cb1)"
      using m t pa(3) pb(3) by simp_all
    then obtain ca2 cb2 where s: "skip a m ca1 = Inr ca2" "cursor_ok a ca2"
      "remaining a ca2 = drop m (remaining a ca)" "skip b m cb1 = Inr cb2" "cursor_ok b cb2"
      "remaining b cb2 = drop m (remaining b cb)"
      using skip_spec [OF pa(2), of m] skip_spec [OF pb(2), of m] unfolding pa(3) pb(3) by force
    have "length (remaining a ca2) < n"
      using s(3) Suc.prems(3) pos m t by simp
    from Suc.IH [OF s(2,5) this] have step: "equalLoop (Suc n) a ca b cb = Inr (remaining a ca2 = remaining b cb2)"
      unfolding body using False s(1,4) by simp
    have "take m (remaining a ca) = take m (remaining b cb)" using False m t by simp
    then have "remaining a ca = remaining b cb \<longleftrightarrow> remaining a ca2 = remaining b cb2"
      unfolding s(3,6) by (metis append_take_drop_id)
    with step show ?thesis by simp
  qed
qed simp

lemma IOBufEqual_ok:
  assumes "a \<noteq> []" and "b \<noteq> []"
  shows "IOBufEqual h a b = Inr (chainData h a = chainData h b)"
proof -
  have ok: "cursor_ok (chainPieces h a) newCursor" "cursor_ok (chainPieces h b) newCursor"
    using assms by (simp_all add: newCursor_ok chainPieces_def)
  have r: "remaining (chainPieces h a) newCursor = chainData h a"
    "remaining (chainPieces h b) newCursor = chainData h b"
    using assms by (simp_all add: remaining_new chainPieces_def chainData_def)
  show ?thesis
    unfolding IOBufEqual_def using equalLoop_ok [OF ok, of "length (chainData h a) + 1"] r by simp
qed

section \<open>Filling new buffers\<close>

lemma writeAt_Nil [simp]: "writeAt h s off [] = Inr h"
  by (simp add: writeAt_def)

lemma copyBuffer_ok:
  assumes "heap_ok h S" and "fits (head + length d + mt)"
  obtains h' s where "copyBuffer h d head mt = Inr (h', s)" "heap_ok h' (add_mset s S)" "segData h' s = d"
    "headroom s = head" "mt \<le> tailroom s" "exclusive s S" "\<forall>t \<in># S. segData h' t = segData h t"
proof -
  obtain h1 s where cr: "create h (head + length d + mt) = (h1, s)" by fastforce
  note C = create_ok [OF assms cr]
  have ex: "exclusive s S" by (rule exclusive_unmarked [OF C(1,6,7)])
  define s1 where "s1 = s\<lparr>dataOff := head, dataLen := length d\<rparr>"
  have room: "head + length d \<le> bufCap s" using C(3) by simp
  have m: "managed s" "\<forall>b. bufBlock s = Some b \<longrightarrow> refs (add_mset s S) b = 1"
    using ex by (auto simp: exclusive_def)
  obtain h2 where W: "writeAt h1 s head d = Inr h2" "heap_ok h2 (add_mset s S)"
    "\<forall>t \<in># S. segData h2 t = segData h1 t"
    "\<forall>t. bufBlock t = bufBlock s \<longrightarrow> dataOff t = head \<longrightarrow> dataLen t = length d \<longrightarrow> segData h2 t = d"
    by (rule write_exclusive [OF C(1) m room])
  have adv: "advance h1 s head = Inr (h1, s\<lparr>dataOff := head\<rparr>)"
    using C(3-5) by (simp add: advance_def tailroom_def)
  have app: "appendTo (s\<lparr>dataOff := head\<rparr>) (length d) = Inr s1"
    using room C(4,5) by (simp add: appendTo_def tailroom_def s1_def guard_def)
  have wr: "writeAt h1 (s\<lparr>dataOff := head\<rparr>) head d = Inr h2" using W(1) by (simp add: writeAt_def split: if_splits)
  have sz: "(head + length d + mt) mod 2 ^ 64 = head + length d + mt" using assms(2) by (simp add: fits_def)
  have "copyBuffer h d head mt = Inr (h2, s1)"
    unfolding copyBuffer_def sz cr using adv app wr by simp
  moreover have "heap_ok h2 (add_mset s1 S)"
    by (rule heap_ok_move [OF W(2)]) (use room C(7) in \<open>auto simp: s1_def\<close>)
  moreover have "exclusive s1 S" by (rule exclusive_block_of [OF ex]) (simp_all add: s1_def C(6))
  moreover have "mt \<le> tailroom s1" using C(3) by (simp add: tailroom_def s1_def)
  ultimately show ?thesis
    using that [of h2 s1] W C(2) by (simp add: headroom_def s1_def)
qed

lemma createLoop_ok:
  assumes "heap_ok h (mset out + S)" and "0 < maxBuf" and "wanted + 31 < 2 ^ 64"
    and "wanted - allocated \<le> n" and "allocated = sum_list (map bufCap out)"
  shows "\<exists>h' ch. createLoop n wanted maxBuf h allocated out = Inr (h', ch) \<and> heap_ok h' (mset ch + S) \<and>
    wanted \<le> sum_list (map bufCap ch) \<and> (\<exists>ext. ch = out @ ext \<and> (\<forall>s \<in> set ext. dataLen s = 0)) \<and>
    (\<forall>t \<in># S. segData h' t = segData h t)"
  using assms
proof (induction n arbitrary: h allocated out)
  case (Suc n)
  show ?case
  proof (cases "allocated < wanted")
    case True
    let ?c = "min (wanted - allocated) maxBuf"
    obtain h1 s where cr: "create h ?c = (h1, s)" by fastforce
    have f: "fits ?c" using Suc.prems(3) unfolding fits_def by linarith
    note C = create_ok [OF Suc.prems(1) f cr]
    have ok: "heap_ok h1 (mset (out @ [s]) + S)" using C(1) by simp
    have fuel: "wanted - (allocated + bufCap s) \<le> n"
      using C(3) Suc.prems(2,4) True by (simp add: min_def split: if_splits)
    have alloc: "allocated + bufCap s = sum_list (map bufCap (out @ [s]))" using Suc.prems(5) by simp
    obtain h' ch where R: "createLoop n wanted maxBuf h1 (allocated + bufCap s) (out @ [s]) = Inr (h', ch)"
      "heap_ok h' (mset ch + S)" "wanted \<le> sum_list (map bufCap ch)"
      "\<exists>ext. ch = (out @ [s]) @ ext \<and> (\<forall>s \<in> set ext. dataLen s = 0)"
      "\<forall>t \<in># S. segData h' t = segData h1 t"
      using Suc.IH [OF ok Suc.prems(2,3) fuel alloc] by blast
    have "createLoop (Suc n) wanted maxBuf h allocated out = Inr (h', ch)" using True cr R(1) by simp
    moreover have "\<forall>t \<in># S. segData h' t = segData h t" using R(5) C(2) by simp
    moreover have "\<exists>ext. ch = out @ ext \<and> (\<forall>s \<in> set ext. dataLen s = 0)"
      using R(4) C(5) by (metis append.assoc append_Cons append_Nil set_ConsD)
    ultimately show ?thesis using R(2,3) by blast
  next
    case False
    with Suc.prems show ?thesis by simp
  qed
qed simp

lemma createChain_ok:
  assumes "heap_ok h S" and "0 < maxBuf" and "wanted + 31 < 2 ^ 64"
  shows "\<exists>h' ch. createChain h wanted maxBuf = Inr (h', ch) \<and> heap_ok h' (mset ch + S) \<and>
    wanted \<le> sum_list (map bufCap ch) \<and> chainData h' ch = [] \<and> (\<forall>t \<in># S. segData h' t = segData h t)"
proof -
  let ?c = "min wanted maxBuf"
  obtain h1 s where cr: "create h ?c = (h1, s)" by fastforce
  have f: "fits ?c" using assms(3) unfolding fits_def by linarith
  note C = create_ok [OF assms(1) f cr]
  have ok: "heap_ok h1 (mset [s] + S)" using C(1) by simp
  have al: "bufCap s = sum_list (map bufCap [s])" by simp
  have fuel: "wanted - bufCap s \<le> wanted" by simp
  obtain h' ch where R: "createLoop wanted wanted maxBuf h1 (bufCap s) [s] = Inr (h', ch)"
    "heap_ok h' (mset ch + S)" "wanted \<le> sum_list (map bufCap ch)"
    "\<exists>ext. ch = [s] @ ext \<and> (\<forall>s \<in> set ext. dataLen s = 0)" "\<forall>t \<in># S. segData h' t = segData h1 t"
    using createLoop_ok [OF ok assms(2,3) fuel al] by blast
  have "length (chainData h' ch) = computeChainDataLength ch"
    using heap_okD(1) [OF R(2)] by (intro length_chainData) simp
  also have "\<dots> = 0" using R(4) C(5) by (auto simp: computeChainDataLength_def)
  finally have "chainData h' ch = []" by simp
  moreover have "createChain h wanted maxBuf = Inr (h', ch)" using cr R(1) by (simp add: createChain_def)
  moreover have "\<forall>t \<in># S. segData h' t = segData h t" using R(5) C(2) by simp
  ultimately show ?thesis using R(2,3) by blast
qed

section \<open>Leaving the buffers\<close>

lemma write_terminator:
  assumes "heap_ok h (add_mset s S)" and "exclusive s S" and "0 < tailroom s"
  obtains h' where "writeAt h s (dataOff s + dataLen s) [0] = Inr h'" "segData h' s = segData h s"
    "same_shape h h'"
proof -
  have s: "seg_ok h s" using heap_okD(1) [OF assms(1)] by simp
  have room: "dataOff s + dataLen s + length [0 :: byte] \<le> bufCap s" using assms(3) by (simp add: tailroom_def)
  obtain h' where W: "writeAt h s (dataOff s + dataLen s) [0] = Inr h'" "same_shape h h'"
    "\<forall>t. bufBlock t \<noteq> bufBlock s \<longrightarrow> segData h' t = segData h t"
    "\<forall>t. bufBlock t = bufBlock s \<longrightarrow> dataOff t = dataOff s + dataLen s \<longrightarrow> dataLen t = length [0 :: byte] \<longrightarrow>
      segData h' t = [0]"
    by (rule writeAt_ok [OF s room])
  have "managed s" using assms(2) by (simp add: exclusive_def)
  obtain b k i where b: "sharedInfo h s = Some (b, k, i)" "bufBlock s = Some b" "blocks h b = Some k" "info k = Some i"
    "bufCap s \<le> length (cells k)"
    using s \<open>managed s\<close> by (rule sharedInfo_managed)
  have "h' = h\<lparr>blocks := (blocks h)(b \<mapsto> k\<lparr>cells := overwrite (cells k) (dataOff s + dataLen s) [0]\<rparr>)\<rparr>"
    using W(1) b room by (simp add: writeAt_def split: if_splits)
  then have "segData h' s = segData h s"
    using b room drop_take [of "dataOff s" "dataOff s + dataLen s" "cells k"]
    by (simp add: segData_def cellsOf_def overwrite_def)
  with W that show ?thesis by blast
qed

text \<open>
  Both ways into \<open>moveToString\<close> lead to one buffer that holds its block alone and
  has room for the terminator.
\<close>

lemma moveToString_single:
  assumes "heap_ok h1 (add_mset t S)" and "exclusive t S" and "0 < tailroom t" and "segData h1 t = d"
    and "\<And>h2. writeAt h1 t (dataOff t + dataLen t) [0] = Inr h2 \<Longrightarrow>
      moveToString h ch = Inr (segData h2 t, h2,
        [clear (t\<lparr>bufBlock := None, managed := False, freeSharedInfo := False, maybeShared := False\<rparr>)])"
  shows "\<exists>h' s'. moveToString h ch = Inr (d, h', [s']) \<and> bufBlock s' = None \<and>
    (\<exists>b k. blocks h' b = Some k \<and> info k \<noteq> None \<and> refs (add_mset s' S) b = 0)"
proof -
  obtain h2 where W: "writeAt h1 t (dataOff t + dataLen t) [0] = Inr h2" "segData h2 t = segData h1 t"
    "same_shape h1 h2"
    by (rule write_terminator [OF assms(1-3)])
  have t: "seg_ok h1 t" "managed t"
    using heap_okD(1) [OF assms(1)] assms(2) by (simp_all add: exclusive_def)
  obtain b k i where b: "sharedInfo h1 t = Some (b, k, i)" "bufBlock t = Some b" "blocks h1 b = Some k"
    "info k = Some i" "bufCap t \<le> length (cells k)"
    using t by (rule sharedInfo_managed)
  obtain k2 where k2: "blocks h2 b = Some k2" "length (cells k) = length (cells k2)" "info k = info k2"
    using same_shape_sym [OF W(3)] b(3) by (rule same_shape_Some)
  have "refs S b = 0" using assms(2) b(2) by (auto simp: exclusive_def)
  moreover have "info k2 \<noteq> None" using k2(3) b(4) by (metis option.distinct(1))
  ultimately show ?thesis
    unfolding assms(5) [OF W(1)] W(2) assms(4) using k2(1) by (auto simp: clear_def)
qed

lemma computeChainDataLength_map: "map dataLen xs = map dataLen ys \<Longrightarrow> computeChainDataLength xs = computeChainDataLength ys"
  by (simp add: computeChainDataLength_def)

lemma moveToString_ok:
  assumes "heap_ok h (mset ch + S)" and "ch \<noteq> []" and "fits (computeChainDataLength ch + 0 + 1)"
  shows "\<exists>h' s'. moveToString h ch = Inr (chainData h ch, h', [s']) \<and> bufBlock s' = None \<and>
    (\<exists>b k. blocks h' b = Some k \<and> info k \<noteq> None \<and> refs (add_mset s' S) b = 0)"
proof -
  obtain s ss where ch: "ch = s # ss" using assms(2) by (cases ch) auto
  define keep where "keep = (case sharedInfo h s of None \<Rightarrow> False
    | Some (b, k, i) \<Rightarrow> freeFn i = Malloced \<and> headroom s = 0 \<and> tailroom s \<noteq> 0)"
  obtain shared ch1 where sh: "(if keep then isShared h ch else (True, ch)) = (shared, ch1)" by fastforce
  have ch1: "heap_ok h (mset ch1 + S) \<and> map (segData h) ch1 = map (segData h) ch \<and>
    map dataLen ch1 = map dataLen ch \<and> map headroom ch1 = map headroom ch \<and> map tailroom ch1 = map tailroom ch \<and>
    (\<not> shared \<longrightarrow> (\<forall>i < length ch1. managed (ch1 ! i) \<and> \<not> maybeShared (ch1 ! i)))"
    using isShared_ok [OF assms(1), of shared ch1] assms(1) sh by (auto split: if_splits)
  have len: "length ch1 = length ch" using ch1 by (metis length_map)
  have data: "chainData h ch1 = chainData h ch" using ch1 by (simp add: chainData_def)
  have total: "computeChainDataLength ch1 = computeChainDataLength ch"
    using ch1 computeChainDataLength_map by blast
  have body: "moveToString h ch = res_bind (if shared \<or> length ch > 1
       then coalesceAndReallocate h ch1 0 (computeChainDataLength ch1) (length ch1) 1 else Inr (h, ch1))
     (\<lambda>(h1, ch2). let t = hd ch2 in res_bind (writeAt h1 t (dataOff t + dataLen t) [0]) (\<lambda>h2.
        Inr (segData h2 t, h2, clear (t\<lparr>bufBlock := None, managed := False, freeSharedInfo := False,
          maybeShared := False\<rparr>) # tl ch2)))"
    unfolding moveToString_def ch list.case Let_def keep_def [symmetric] using sh [unfolded ch] by simp
  show ?thesis
  proof (cases "shared \<or> length ch > 1")
    case True
    have ne: "ch1 \<noteq> []" using len ch by auto
    have f: "fits (computeChainDataLength ch1 + 0 + 1)" using assms(3) total by simp
    have ok1: "heap_ok h (mset ch1 + S)" using ch1 by blast
    obtain h1 t where C: "coalesceAndReallocate h ch1 0 (computeChainDataLength ch1) (length ch1) 1
        = Inr (h1, t # drop (length ch1) ch1)"
      "heap_ok h1 (mset (t # drop (length ch1) ch1) + S)" "segData h1 t = chainData h (take (length ch1) ch1)"
      "chainData h1 (t # drop (length ch1) ch1) = chainData h ch1" "exclusive t (mset (drop (length ch1) ch1) + S)"
      "dataLen t = computeChainDataLength ch1" "headroom t = 0" "1 \<le> tailroom t" "\<forall>x \<in># S. segData h1 x = segData h x"
      by (rule coalesceAndReallocate_ok [OF ok1 ne order_refl _ _ f]) simp_all
    show ?thesis
      by (rule moveToString_single [of h1 t]) (use C data True body in \<open>simp_all add: Let_def\<close>)
  next
    case False
    then have "ss = []" "\<not> shared" using ch by auto
    moreover from this obtain t where t: "ch1 = [t]" using len ch by (cases ch1) auto
    moreover have "keep" using sh \<open>\<not> shared\<close> by (auto split: if_splits)
    then have "0 < tailroom s" by (auto simp: keep_def split: option.splits)
    ultimately have "heap_ok h (add_mset t S)" "managed t" "\<not> maybeShared t" "0 < tailroom t"
      using ch1 ch by auto
    moreover from this have "exclusive t S" by (simp add: exclusive_unmarked)
    moreover have "segData h t = chainData h ch" using data t by (simp add: chainData_def)
    ultimately show ?thesis
      by (intro moveToString_single [of h t]) (use False body t in \<open>simp_all add: Let_def\<close>)
  qed
qed

section \<open>Vectors of buffers\<close>

lemma fillIov_ok:
  assumes "ch \<noteq> []" and "0 < dataLen (last ch) \<or> i + length (appendToIov ch) < len" and "i < len"
  shows "fillIov ch len i =
    (if i + length (appendToIov ch) \<le> len then (appendToIov ch, i + length (appendToIov ch))
     else (take (len - i) (appendToIov ch), 0))"
  using assms
proof (induction ch len i rule: fillIov.induct)
  case (2 s ss len i)
  have last_in: "ss \<noteq> [] \<Longrightarrow> 0 < dataLen (last ss) \<Longrightarrow> appendToIov ss \<noteq> []"
  proof (induction ss)
    case (Cons x xs)
    then show ?case by (cases "xs = []") auto
  qed simp
  have stop: "fillIov ss len j = ([], 0)" if "ss \<noteq> []" "\<not> j < len" for j
    using that by (cases ss) auto
  show ?case
  proof (cases "ss = []")
    case True
    with "2.prems" show ?thesis by auto
  next
    case False
    define e where "e = (if 0 < dataLen s then [(bufBlock s, dataOff s, dataLen s)] else [])"
    have app: "appendToIov (s # ss) = e @ appendToIov ss" by (simp add: e_def)
    have fill: "fillIov (s # ss) len i = (let (es, r) = fillIov ss len (i + length e) in (e @ es, r))"
      using "2.prems"(3) False by (simp add: e_def Let_def)
    have e1: "length e \<le> 1" by (simp add: e_def)
    show ?thesis
    proof (cases "i + length e < len")
      case True
      have "0 < dataLen (last ss) \<or> i + length e + length (appendToIov ss) < len"
        using "2.prems"(2) False app by (auto simp: add.assoc)
      from "2.IH" [OF "2.prems"(3) e_def refl False False this True]
      show ?thesis unfolding fill app using True by (auto simp: take_append)
    next
      case full: False
      then have len: "len = i + length e" using "2.prems"(3) e1 by simp
      then have "appendToIov ss \<noteq> []" using "2.prems"(2) False last_in app by auto
      then show ?thesis unfolding fill app using stop [OF False full] len by simp
    qed
  qed
qed simp

section \<open>Properties\<close>

text \<open>
  C31: unsharing gives the buffer memory of its own without changing what any buffer
  reads: after \<open>unshareOne\<close>, in any heap that satisfies the invariant, the buffer has its
  bytes, headroom and capacity, and whatever is then written anywhere in its
  capacity leaves the bytes of every other live buffer as they were.
\<close>

theorem unshare_isolates:
  assumes "heap_ok h (add_mset s S)" and "fits (bufCap s)"
  shows "\<exists>h' s'. unshareOne h s = Inr (h', s') \<and> heap_ok h' (add_mset s' S) \<and> segData h' s' = segData h s \<and>
    dataOff s' = dataOff s \<and> bufCap s' = bufCap s \<and> (\<forall>t \<in># S. segData h' t = segData h t) \<and>
    (\<forall>off d. off + length d \<le> bufCap s' \<longrightarrow>
       (\<exists>h2. writeAt h' s' off d = Inr h2 \<and> heap_ok h2 (add_mset s' S) \<and>
         (\<forall>t \<in># S. segData h2 t = segData h t)))"
proof -
  obtain h' s' where U: "unshareOne h s = Inr (h', s')" "heap_ok h' (add_mset s' S)"
    "segData h' s' = segData h s" "\<forall>t \<in># S. segData h' t = segData h t" "exclusive s' S"
    "dataOff s' = dataOff s" "dataLen s' = dataLen s" "bufCap s' = bufCap s"
    by (rule unshareOne_ok [OF assms])
  have m: "managed s'" "\<forall>b. bufBlock s' = Some b \<longrightarrow> refs (add_mset s' S) b = 1"
    using U(5) by (auto simp: exclusive_def)
  have "\<exists>h2. writeAt h' s' off d = Inr h2 \<and> heap_ok h2 (add_mset s' S) \<and> (\<forall>t \<in># S. segData h2 t = segData h t)"
    if room: "off + length d \<le> bufCap s'" for off d
  proof -
    obtain h2 where "writeAt h' s' off d = Inr h2" "heap_ok h2 (add_mset s' S)"
      "\<forall>t \<in># S. segData h2 t = segData h' t"
      "\<forall>t. bufBlock t = bufBlock s' \<longrightarrow> dataOff t = off \<longrightarrow> dataLen t = length d \<longrightarrow> segData h2 t = d"
      by (rule write_exclusive [OF U(2) m room])
    with U(4) show ?thesis by simp
  qed
  with U show ?thesis by blast
qed

text \<open>A heap with one block of four bytes that two buffers hold, for the witnesses.\<close>

definition demoBuf :: iobuf where
  "demoBuf = \<lparr>bufBlock = Some 0, dataOff = 1, dataLen = 2, bufCap = 4, managed = True,
     freeSharedInfo = False, maybeShared = True\<rparr>"

definition demoHeap :: bufheap where
  "demoHeap = \<lparr>blocks = [0 \<mapsto> \<lparr>cells = [7, 8, 9, 7], info = Some \<lparr>refcount = 2, freeFn = Malloced\<rparr>\<rparr>],
     fresh = 1, freeLog = [], junk = (\<lambda>i. 0)\<rparr>"

lemma demo_ok: "heap_ok demoHeap {#demoBuf, demoBuf#}" "segData demoHeap demoBuf = [8, 9]"
  by (simp_all add: heap_ok_def seg_ok_def demoHeap_def demoBuf_def segData_def cellsOf_def)

theorem unshare_isolates_witness:
  "\<exists>h' s'. unshareOne demoHeap demoBuf = Inr (h', s') \<and> segData h' s' = [8, 9] \<and> segData h' demoBuf = [8, 9]"
proof -
  have "fits (bufCap demoBuf)" by (simp add: fits_def demoBuf_def)
  from unshare_isolates [OF demo_ok(1) this] show ?thesis by (auto simp: demo_ok(2))
qed

text \<open>
  C32: \<open>reserve\<close> on a buffer nobody shares gives the head- and tailroom asked for, keeps
  the bytes, keeps the reference counts exact and disturbs no other buffer, whether
  it moves the data, grows the block with \<open>realloc\<close> or copies to a new one.
\<close>

theorem reserve_gives_room:
  assumes "heap_ok h (add_mset s S)" and "exclusive s S" and "dataLen s + mh + mt < 2 ^ 32 - 1"
    and "fits (bufCap s + mt)"
  shows "\<exists>h' s'. reserve h s mh mt = Inr (h', s') \<and> heap_ok h' (add_mset s' S) \<and>
    segData h' s' = segData h s \<and> mh \<le> headroom s' \<and> mt \<le> tailroom s' \<and> exclusive s' S \<and>
    (\<forall>t \<in># S. segData h' t = segData h t)"
proof -
  obtain h' s' where "reserve h s mh mt = Inr (h', s')" "heap_ok h' (add_mset s' S)"
    "segData h' s' = segData h s" "roomy s' mh mt" "exclusive s' S" "\<forall>t \<in># S. segData h' t = segData h t"
    by (rule reserve_ok [OF assms])
  then show ?thesis by (auto simp: roomy_def)
qed

lemma demo_single:
  "heap_ok (demoHeap\<lparr>blocks := [0 \<mapsto> \<lparr>cells = [7, 8, 9, 7], info = Some \<lparr>refcount = 1, freeFn = Malloced\<rparr>\<rparr>]\<rparr>)
     {#demoBuf#}" "exclusive demoBuf {#}"
  by (simp_all add: heap_ok_def seg_ok_def demoHeap_def demoBuf_def exclusive_def)

theorem reserve_gives_room_witness:
  "\<exists>h' s'. reserve (demoHeap\<lparr>blocks := [0 \<mapsto> \<lparr>cells = [7, 8, 9, 7],
      info = Some \<lparr>refcount = 1, freeFn = Malloced\<rparr>\<rparr>]\<rparr>) demoBuf 3 9 = Inr (h', s') \<and> 9 \<le> tailroom s'"
proof -
  have "dataLen demoBuf + 3 + 9 < 2 ^ 32 - 1" "fits (bufCap demoBuf + 9)"
    by (simp_all add: fits_def demoBuf_def)
  from reserve_gives_room [OF demo_single this] show ?thesis by auto
qed

text \<open>
  C33: coalescing keeps the bytes of the chain: \<open>gather\<close> throws \<open>overflow_error\<close> exactly when a
  chain of several elements has fewer than the bytes asked for; otherwise the chain reads the
  same, its first element has the bytes asked for or is the only one, the counts
  stay exact and no other buffer changes. \<open>coalesce\<close> of a chain leaves one element.
\<close>

theorem gather_keeps_bytes:
  assumes "heap_ok h (mset ch + S)" and "ch \<noteq> []"
    and "\<forall>t \<in> set ch. fits (computeChainDataLength ch + headroom (hd ch) + tailroom t)"
  shows "(if 1 < length ch \<and> computeChainDataLength ch < m then gather h ch m = Inl Overflow_Error
      else \<exists>h' ch'. gather h ch m = Inr (h', ch') \<and> heap_ok h' (mset ch' + S) \<and>
        chainData h' ch' = chainData h ch \<and> (m \<le> dataLen (hd ch') \<or> length ch' = 1) \<and>
        (\<forall>t \<in># S. segData h' t = segData h t)) \<and>
    (\<exists>h' s'. coalesce h ch = Inr (h', [s']) \<and> heap_ok h' (add_mset s' S) \<and> segData h' s' = chainData h ch \<and>
        (\<forall>t \<in># S. segData h' t = segData h t))"
proof -
  have "\<exists>h' s'. coalesce h ch = Inr (h', [s']) \<and> heap_ok h' (add_mset s' S) \<and> segData h' s' = chainData h ch \<and>
        (\<forall>t \<in># S. segData h' t = segData h t)"
  proof (cases "1 < length ch")
    case True
    then have two: "2 \<le> length ch" by simp
    have f: "fits (computeChainDataLength ch + headroom (hd ch) + tailroom (last ch))"
      using assms(2,3) by simp
    obtain h' s' where "coalesceSlow h ch = Inr (h', [s'])" "heap_ok h' (add_mset s' S)"
      "segData h' s' = chainData h ch" "exclusive s' S" "headroom s' = headroom (hd ch)"
      "tailroom (last ch) \<le> tailroom s'" "\<forall>t \<in># S. segData h' t = segData h t"
      by (rule coalesceSlow_ok [OF assms(1) two f])
    with True show ?thesis by (simp add: coalesce_def)
  next
    case False
    with assms(2) obtain s where "ch = [s]" by (cases ch) auto
    with assms(1) show ?thesis by (simp add: coalesce_def chainData_def)
  qed
  with gather_ok [OF assms, of m] show ?thesis by (auto split: if_splits)
qed

theorem gather_keeps_bytes_witness:
  "(\<exists>h' ch'. gather demoHeap [demoBuf, demoBuf] 3 = Inr (h', ch') \<and> chainData h' ch' = [8, 9, 8, 9]) \<and>
   gather demoHeap [demoBuf, demoBuf] 5 = Inl Overflow_Error"
proof -
  have ok: "heap_ok demoHeap (mset [demoBuf, demoBuf] + {#})" using demo_ok(1) by simp
  have f: "\<forall>t \<in> set [demoBuf, demoBuf]. fits (computeChainDataLength [demoBuf, demoBuf] +
      headroom (hd [demoBuf, demoBuf]) + tailroom t)"
    by (simp add: fits_def computeChainDataLength_def headroom_def tailroom_def demoBuf_def)
  have len: "computeChainDataLength [demoBuf, demoBuf] = 4"
    by (simp add: computeChainDataLength_def demoBuf_def)
  have data: "chainData demoHeap [demoBuf, demoBuf] = [8, 9, 8, 9]"
    by (simp add: chainData_def demo_ok(2))
  from gather_keeps_bytes [OF ok _ f, of 3] gather_keeps_bytes [OF ok _ f, of 5] show ?thesis
    unfolding len data by force
qed

text \<open>
  C34: reference counts: a clone reads the same bytes as its original, destroying the
  original leaves the clone intact, and once every chain is destroyed no block that
  belongs to the buffers is left allocated.
\<close>

theorem clone_outlives_original:
  assumes "heap_ok h (mset ch + S)" and "clone h ch = (h1, ch1, cs)"
  shows "chainData h1 cs = chainData h ch \<and> chainData h1 ch1 = chainData h ch \<and>
    heap_ok (destroy h1 ch1) (mset cs + S) \<and> chainData (destroy h1 ch1) cs = chainData h ch \<and>
    (S = {#} \<longrightarrow> (\<forall>b k. blocks (destroy (destroy h1 ch1) cs) b = Some k \<longrightarrow> info k = None))"
proof -
  have C: "heap_ok h1 (mset cs + mset ch1 + S)" "segData h1 = segData h"
    "map (segData h) ch1 = map (segData h) ch" "cs = ch1"
    using clone_ok [OF assms] by auto
  have bytes: "chainData h1 cs = chainData h ch" "chainData h1 ch1 = chainData h ch"
    using C(2-4) by (simp_all add: chainData_def)
  have "heap_ok h1 (mset ch1 + (mset cs + S))" using C(1) by (simp add: ac_simps)
  note D = destroy_ok [OF this]
  have "chainData (destroy h1 ch1) cs = chainData h1 cs"
    by (rule chainData_same [OF D(2)]) auto
  moreover have "info k = None"
    if "S = {#}" "blocks (destroy (destroy h1 ch1) cs) b = Some k" for b k
    using heap_okD(3) [OF destroy_ok(1) [OF D(1)], of b k] that by (cases "info k") auto
  ultimately show ?thesis using D(1) bytes by auto
qed

theorem clone_outlives_original_witness:
  "\<exists>h1 ch1 cs. clone demoHeap [demoBuf] = (h1, ch1, cs) \<and> chainData (destroy h1 ch1) cs = [8, 9]"
proof -
  have ok: "heap_ok demoHeap (mset [demoBuf] + {#demoBuf#})" using demo_ok(1) by simp
  obtain h1 ch1 cs where c: "clone demoHeap [demoBuf] = (h1, ch1, cs)" by (metis prod_cases3)
  with clone_outlives_original [OF ok c] show ?thesis by (auto simp: chainData_def demo_ok(2))
qed

text \<open>
  \<open>IOBufEqual\<close> always returns, and says whether two chains hold the same bytes,
  however these are split over their elements.
\<close>

theorem equal_compares_bytes:
  assumes "a \<noteq> []" and "b \<noteq> []"
  shows "IOBufEqual h a b = Inr (chainData h a = chainData h b)"
  by (rule IOBufEqual_ok [OF assms])

theorem equal_compares_bytes_witness:
  "IOBufEqual demoHeap [demoBuf, demoBuf] [demoBuf] = Inr False"
  using equal_compares_bytes [of "[demoBuf, demoBuf]" "[demoBuf]" demoHeap]
  by (simp add: chainData_def demo_ok(2))

text \<open>
  \<open>moveToString\<close> returns the bytes of the chain, but leaks: the block it read them from
  stays allocated with its count although no buffer holds it any more.
\<close>

theorem moveToString_leaks:
  assumes "heap_ok h (mset ch + S)" and "ch \<noteq> []" and "fits (computeChainDataLength ch + 1)"
  shows "\<exists>h' s'. moveToString h ch = Inr (chainData h ch, h', [s']) \<and> bufBlock s' = None \<and>
    (\<exists>b k. blocks h' b = Some k \<and> info k \<noteq> None \<and> refs (add_mset s' S) b = 0)"
  using moveToString_ok [OF assms(1,2)] assms(3) by simp

theorem moveToString_leaks_witness:
  "\<exists>h' s'. moveToString demoHeap [demoBuf, demoBuf] = Inr ([8, 9, 8, 9], h', [s']) \<and>
     (\<exists>b k. blocks h' b = Some k \<and> info k \<noteq> None \<and> refs {#s'#} b = 0)"
proof -
  have ok: "heap_ok demoHeap (mset [demoBuf, demoBuf] + {#})" using demo_ok(1) by simp
  have f: "fits (computeChainDataLength [demoBuf, demoBuf] + 1)"
    by (simp add: fits_def computeChainDataLength_def demoBuf_def)
  from moveToString_leaks [OF ok _ f] show ?thesis by (force simp: chainData_def demo_ok(2))
qed

end
