(* ===== verification/Buffer_Writer.thy ===== *)
theory Buffer_Writer
  imports IO_Buffer
begin

text \<open>
  Writing to and cloning from chains of buffers: \<^verbatim>\<open>Writable\<close>, \<^verbatim>\<open>Appender\<close> and the
  cloning members of \<^verbatim>\<open>CursorBase\<close> in \<^verbatim>\<open>src/raster/io/Cursor.h\<close>. \<^verbatim>\<open>Writable<Derived>\<close>
  calls \<^verbatim>\<open>pushAtMost\<close> of the class derived from it: it is a parameter of the
  definitions, its contract is the locale \<open>writable\<close>, and the interpretation gives
  it the \<open>Appender\<close>.
\<close>

section \<open>Writable\<close>

definition pushWith :: "('s \<Rightarrow> byte list \<Rightarrow> ('s \<times> nat) result) \<Rightarrow> 's \<Rightarrow> byte list \<Rightarrow> 's result" where
  "pushWith pam s d = res_bind (pam s d) (\<lambda>(s1, n). if n \<noteq> length d then Inl Out_Of_Range else Inr s1)"

text \<open>\<^verbatim>\<open>write\<close> of an unsigned integer of \<open>n\<close> bytes, and with a fixed byte order.\<close>

definition writeNative :: "('s \<Rightarrow> byte list \<Rightarrow> ('s \<times> nat) result) \<Rightarrow> nat \<Rightarrow> 's \<Rightarrow> nat \<Rightarrow> 's result" where
  "writeNative pam n s v = pushWith pam s (toLE n v)"

definition writeBE :: "('s \<Rightarrow> byte list \<Rightarrow> ('s \<times> nat) result) \<Rightarrow> nat \<Rightarrow> 's \<Rightarrow> nat \<Rightarrow> 's result" where
  "writeBE pam n s v = writeNative pam n s (swapBytes n v)"

definition writeLE :: "('s \<Rightarrow> byte list \<Rightarrow> ('s \<times> nat) result) \<Rightarrow> nat \<Rightarrow> 's \<Rightarrow> nat \<Rightarrow> 's result" where
  "writeLE pam n s v = writeNative pam n s v"

text \<open>\<^verbatim>\<open>pushAtMost(Cursor, len)\<close>: every turn but the last passes a byte of the source at least.\<close>

fun pushCursorLoop ::
  "('s \<Rightarrow> byte list \<Rightarrow> ('s \<times> nat) result) \<Rightarrow> pieces \<Rightarrow> nat \<Rightarrow> 's \<Rightarrow> cursor \<Rightarrow> nat \<Rightarrow> nat \<Rightarrow> ('s \<times> nat) result" where
  "pushCursorLoop pam bs 0 s c len written = Inl Diverges"
| "pushCursorLoop pam bs (Suc n) s c len written =
     (let (crtData, c1) = peek bs c; available = length crtData
      in if available = 0 then Inr (s, written)
         else if available \<ge> len
         then res_bind (pushWith pam s (take len crtData)) (\<lambda>s1.
              res_bind (skip bs len c1) (\<lambda>c2. Inr (s1, written + len)))
         else res_bind (pushWith pam s crtData) (\<lambda>s1.
              res_bind (skip bs available c1) (\<lambda>c2.
                pushCursorLoop pam bs n s1 c2 (len - available) (written + available))))"

definition pushCursorAtMost ::
  "('s \<Rightarrow> byte list \<Rightarrow> ('s \<times> nat) result) \<Rightarrow> pieces \<Rightarrow> 's \<Rightarrow> cursor \<Rightarrow> nat \<Rightarrow> ('s \<times> nat) result" where
  "pushCursorAtMost pam bs s c len = pushCursorLoop pam bs (length (concat bs) + 1) s c len 0"

definition pushCursor ::
  "('s \<Rightarrow> byte list \<Rightarrow> ('s \<times> nat) result) \<Rightarrow> pieces \<Rightarrow> 's \<Rightarrow> cursor \<Rightarrow> nat \<Rightarrow> 's result" where
  "pushCursor pam bs s c len =
     res_bind (pushCursorAtMost pam bs s c len) (\<lambda>(s1, n). if n \<noteq> len then Inl Out_Of_Range else Inr s1)"

section \<open>Appender\<close>

text \<open>\<open>crtBuf_\<close> is always the last element of the chain.\<close>

record appender =
  aheap :: bufheap
  achain :: chain
  growth :: nat

definition appLength :: "appender \<Rightarrow> nat" where
  "appLength a = tailroom (last (achain a))"

definition appAppend :: "appender \<Rightarrow> nat \<Rightarrow> appender result" where
  "appAppend a n =
     res_bind (appendTo (last (achain a)) n) (\<lambda>s. Inr (a\<lparr>achain := butlast (achain a) @ [s]\<rparr>))"

definition growBy :: "appender \<Rightarrow> nat \<Rightarrow> appender" where
  "growBy a n = (let (h1, s) = create (aheap a) n in a\<lparr>aheap := h1, achain := achain a @ [s]\<rparr>)"

definition ensure :: "appender \<Rightarrow> nat \<Rightarrow> appender result" where
  "ensure a n =
     (if appLength a \<ge> n then Inr a
      else if growth a = 0 then Inl Out_Of_Range
      else Inr (growBy a (max n (growth a))))"

definition tryGrowChain :: "appender \<Rightarrow> bool \<times> appender" where
  "tryGrowChain a = (if growth a = 0 then (False, a) else (True, growBy a (growth a)))"

definition writeTail :: "appender \<Rightarrow> byte list \<Rightarrow> appender result" where
  "writeTail a d =
     (let s = last (achain a)
      in res_bind (writeAt (aheap a) s (dataOff s + dataLen s) d) (\<lambda>h1.
           appAppend (a\<lparr>aheap := h1\<rparr>) (length d)))"

text \<open>A new buffer takes a byte at least, so one turn more than there are bytes is enough.\<close>

fun pushLoop :: "nat \<Rightarrow> appender \<Rightarrow> byte list \<Rightarrow> nat \<Rightarrow> (appender \<times> nat) result" where
  "pushLoop 0 a d copied = Inl Diverges"
| "pushLoop (Suc n) a d copied =
     (let available = appLength a
      in if available \<ge> length d
         then res_bind (writeTail a d) (\<lambda>a1. Inr (a1, copied + length d))
         else res_bind (writeTail a (take available d)) (\<lambda>a1.
              let (grown, a2) = tryGrowChain a1
              in if \<not> grown then Inr (a2, copied + available)
                 else pushLoop n a2 (drop available d) (copied + available)))"

definition pushAtMost :: "appender \<Rightarrow> byte list \<Rightarrow> (appender \<times> nat) result" where
  "pushAtMost a d = pushLoop (length d + 1) a d 0"

section \<open>Cloning from a cursor\<close>

text \<open>
  \<^verbatim>\<open>cloneAtMost\<close>: each turn clones the current element of the chain \<open>ch\<close> and trims the
  clone; cloning marks the element of \<open>ch\<close> as shared.
\<close>

fun cloneLoop ::
  "nat \<Rightarrow> bufheap \<Rightarrow> chain \<Rightarrow> cursor \<Rightarrow> nat \<Rightarrow> chain \<Rightarrow> nat \<Rightarrow> (bufheap \<times> chain \<times> cursor \<times> chain \<times> nat) result" where
  "cloneLoop 0 h ch c len out copied = Inl Diverges"
| "cloneLoop (Suc n) h ch c len out copied =
     (let available = dataLen (ch ! crtBuf c) - offset c;
          (h1, s1, t) = cloneOne h (ch ! crtBuf c);
          ch1 = ch[crtBuf c := s1]
      in res_bind (trimStart t (offset c)) (\<lambda>t1.
         if available \<ge> len
         then res_bind (trimEnd t1 (dataLen t1 - len)) (\<lambda>t2.
                Inr (h1, ch1, c\<lparr>offset := offset c + len\<rparr>, out @ [t2], copied + len))
         else let (moved, c1) = tryAdvanceBuffer (chainPieces h1 ch1) c
              in if \<not> moved then Inr (h1, ch1, c1, out @ [t1], copied + available)
                 else cloneLoop n h1 ch1 c1 (len - available) (out @ [t1]) (copied + available)))"

definition cloneAtMost ::
  "bufheap \<Rightarrow> chain \<Rightarrow> cursor \<Rightarrow> nat \<Rightarrow> (bufheap \<times> chain \<times> cursor \<times> chain \<times> nat) result" where
  "cloneAtMost h ch c len = cloneLoop (length ch - crtBuf c) h ch c len [] 0"

definition cloneExactly ::
  "bufheap \<Rightarrow> chain \<Rightarrow> cursor \<Rightarrow> nat \<Rightarrow> (bufheap \<times> chain \<times> cursor \<times> chain) result" where
  "cloneExactly h ch c len =
     res_bind (cloneAtMost h ch c len) (\<lambda>(h1, ch1, c1, out, n).
       if n \<noteq> len then Inl Out_Of_Range else Inr (h1, ch1, c1, out))"

section \<open>The contract of a writable\<close>

locale writable =
  fixes pam :: "'s \<Rightarrow> byte list \<Rightarrow> ('s \<times> nat) result"
    and content :: "'s \<Rightarrow> byte list"
    and valid :: "'s \<Rightarrow> bool"
  assumes pam_ok: "valid s \<Longrightarrow>
    \<exists>s' n. pam s d = Inr (s', n) \<and> n \<le> length d \<and> valid s' \<and> content s' = content s @ take n d"
begin

lemma push_ok:
  assumes "valid s"
  shows "(\<exists>s'. pushWith pam s d = Inr s' \<and> valid s' \<and> content s' = content s @ d) \<or>
    pushWith pam s d = Inl Out_Of_Range"
proof -
  obtain s' n where p: "pam s d = Inr (s', n)" "n \<le> length d" "valid s'" "content s' = content s @ take n d"
    using pam_ok [OF assms] by blast
  then show ?thesis by (cases "n = length d") (simp_all add: pushWith_def)
qed

text \<open>What is written is appended whole, in the byte order of the operation.\<close>

lemma write_ok:
  assumes "valid s"
  shows "writeNative pam n s v = Inr s' \<Longrightarrow> valid s' \<and> content s' = content s @ toLE n v"
    and "writeLE pam n s v = Inr s' \<Longrightarrow> valid s' \<and> content s' = content s @ toLE n v"
    and "writeBE pam n s v = Inr s' \<Longrightarrow> valid s' \<and> content s' = content s @ rev (toLE n v)"
proof -
  have "toLE n (swapBytes n v) = rev (toLE n v)"
    using to_fromLE [of "rev (toLE n v)"] by (simp add: swapBytes_def)
  then show "writeNative pam n s v = Inr s' \<Longrightarrow> valid s' \<and> content s' = content s @ toLE n v"
    and "writeLE pam n s v = Inr s' \<Longrightarrow> valid s' \<and> content s' = content s @ toLE n v"
    and "writeBE pam n s v = Inr s' \<Longrightarrow> valid s' \<and> content s' = content s @ rev (toLE n v)"
    using push_ok [OF assms, of "toLE n v"] push_ok [OF assms, of "rev (toLE n v)"]
    by (auto simp: writeNative_def writeLE_def writeBE_def)
qed

text \<open>Copying from a cursor: it ends, and either some piece does not fit or all of it is appended.\<close>

lemma pushCursorLoop_ok:
  assumes "cursor_ok bs c" and "valid s" and "length (remaining bs c) < n"
  shows "(\<exists>s'. pushCursorLoop pam bs n s c len written =
      Inr (s', written + min len (length (remaining bs c))) \<and> valid s' \<and>
      content s' = content s @ take len (remaining bs c)) \<or>
    pushCursorLoop pam bs n s c len written = Inl Out_Of_Range"
  using assms
proof (induction n arbitrary: s c len written)
  case (Suc n)
  obtain d c1 where pk: "peek bs c = (d, c1)" "cursor_ok bs c1" "remaining bs c1 = remaining bs c"
    "\<exists>tl. remaining bs c = d @ tl" "d = [] \<longleftrightarrow> remaining bs c = []"
    using peek_spec [OF Suc.prems(1)] by blast
  obtain tl where tl: "remaining bs c = d @ tl" using pk(4) by blast
  have body: "pushCursorLoop pam bs (Suc n) s c len written =
     (if length d = 0 then Inr (s, written)
      else if length d \<ge> len
      then res_bind (pushWith pam s (take len d)) (\<lambda>s1.
           res_bind (skip bs len c1) (\<lambda>c2. Inr (s1, written + len)))
      else res_bind (pushWith pam s d) (\<lambda>s1. res_bind (skip bs (length d) c1) (\<lambda>c2.
             pushCursorLoop pam bs n s1 c2 (len - length d) (written + length d))))"
    using pk(1) by (simp add: Let_def)
  consider (exhausted) "d = []" | (last) "d \<noteq> []" "len \<le> length d" | (turn) "d \<noteq> []" "length d < len" by fastforce
  then show ?case
  proof cases
    case exhausted
    with body pk(5) Suc.prems(2) show ?thesis by simp
  next
    case last
    then obtain c2 where "skip bs len c1 = Inr c2"
      using skip_spec [OF pk(2), of len] pk(3) tl by (auto split: if_splits)
    with body last push_ok [OF Suc.prems(2), of "take len d"] tl show ?thesis by auto
  next
    case turn
    then obtain c2 where sk: "skip bs (length d) c1 = Inr c2" "cursor_ok bs c2" "remaining bs c2 = tl"
      using skip_spec [OF pk(2), of "length d"] pk(3) tl by (auto split: if_splits)
    from push_ok [OF Suc.prems(2), of d] show ?thesis
    proof
      assume "\<exists>s'. pushWith pam s d = Inr s' \<and> valid s' \<and> content s' = content s @ d"
      then obtain s1 where s1: "pushWith pam s d = Inr s1" "valid s1" "content s1 = content s @ d" by blast
      have "length (remaining bs c2) < n" using Suc.prems(3) tl sk(3) turn(1) by (cases d) auto
      note IH = Suc.IH [OF sk(2) s1(2) this, of "len - length d" "written + length d"]
      have "pushCursorLoop pam bs (Suc n) s c len written =
          pushCursorLoop pam bs n s1 c2 (len - length d) (written + length d)"
        unfolding body using turn s1(1) sk(1) by simp
      with IH turn(2) tl sk(3) s1(3) show ?thesis by (auto simp del: pushCursorLoop.simps simp: min_def)
    next
      assume "pushWith pam s d = Inl Out_Of_Range"
      with body turn show ?thesis by simp
    qed
  qed
qed simp

lemma pushCursor_ok:
  assumes "cursor_ok bs c" and "valid s" and "pushCursor pam bs s c len = Inr s'"
  shows "valid s' \<and> len \<le> length (remaining bs c) \<and> content s' = content s @ take len (remaining bs c)"
proof -
  have "length (remaining bs c) < length (concat bs) + 1"
    using remaining_position [OF assms(1)] by simp
  from pushCursorLoop_ok [OF assms(1,2) this, of len 0] assms(3) show ?thesis
    by (auto simp: pushCursor_def pushCursorAtMost_def min_def split: if_splits)
qed

end

section \<open>Appender implements the contract\<close>

definition appContent :: "appender \<Rightarrow> byte list" where
  "appContent a = chainData (aheap a) (achain a)"

text \<open>The last element, into which the appender writes, is not shared; \<open>S\<close> are the other buffers.\<close>

definition appender_ok :: "iobuf multiset \<Rightarrow> appender \<Rightarrow> bool" where
  "appender_ok S a \<longleftrightarrow> achain a \<noteq> [] \<and> heap_ok (aheap a) (mset (achain a) + S) \<and>
     exclusive (last (achain a)) (mset (butlast (achain a)) + S) \<and> fits (growth a)"

lemma mset_butlast: "xs \<noteq> [] \<Longrightarrow> mset xs = add_mset (last xs) (mset (butlast xs))"
  by (metis append_butlast_last_id mset_append mset.simps add_mset_add_single)

lemma overwrite_after:
  assumes "off + len + length d \<le> length cs"
  shows "take (len + length d) (drop off (overwrite cs (off + len) d)) = take len (drop off cs) @ d"
proof -
  have "drop off (take (off + len) cs) = take len (drop off cs)" by (simp add: drop_take)
  moreover have "length (take (off + len) cs) = off + len" using assms by simp
  ultimately show ?thesis using assms by (simp add: overwrite_def take_append)
qed

lemma writeAt_cells:
  assumes "seg_ok h s" and "bufBlock s = Some b" and "off + length d \<le> bufCap s" and "writeAt h s off d = Inr h'"
  shows "cellsOf h' b = overwrite (cellsOf h b) off d"
proof -
  obtain k where "blocks h b = Some k" "bufCap s \<le> length (cells k)" "managed s \<longleftrightarrow> info k \<noteq> None"
    "dataOff s + dataLen s \<le> bufCap s"
    using assms(1,2) by (rule seg_ok_block)
  with assms(2-4) show ?thesis by (auto simp: writeAt_def cellsOf_def overwrite_def split: if_splits)
qed

lemma writeTail_ok:
  assumes "appender_ok S a" and "length d \<le> appLength a"
  obtains a' where "writeTail a d = Inr a'" "appender_ok S a'" "appContent a' = appContent a @ d"
    "growth a' = growth a" "\<forall>t \<in># S. segData (aheap a') t = segData (aheap a) t"
proof -
  define s where "s = last (achain a)"
  define xs where "xs = butlast (achain a)"
  have ch: "achain a = xs @ [s]" using assms(1) by (simp add: appender_ok_def s_def xs_def)
  have ok: "heap_ok (aheap a) (add_mset s (mset xs + S))" using assms(1) ch by (simp add: appender_ok_def)
  have ex: "exclusive s (mset xs + S)" using assms(1) by (simp add: appender_ok_def s_def xs_def)
  have seg: "seg_ok (aheap a) s" using heap_okD(1) [OF ok] by simp
  have room: "dataOff s + dataLen s + length d \<le> bufCap s"
    using assms(2) seg by (auto simp: appLength_def tailroom_def s_def [symmetric] seg_ok_def)
  have m: "managed s" "\<forall>b. bufBlock s = Some b \<longrightarrow> refs (add_mset s (mset xs + S)) b = 1"
    using ex by (auto simp: exclusive_def)
  obtain h' where W: "writeAt (aheap a) s (dataOff s + dataLen s) d = Inr h'" "heap_ok h' (add_mset s (mset xs + S))"
    "\<forall>t \<in># mset xs + S. segData h' t = segData (aheap a) t"
    "\<forall>t. bufBlock t = bufBlock s \<longrightarrow> dataOff t = dataOff s + dataLen s \<longrightarrow> dataLen t = length d \<longrightarrow> segData h' t = d"
    by (rule write_exclusive [OF ok m room])
  define s1 where "s1 = s\<lparr>dataLen := dataLen s + length d\<rparr>"
  have "heap_ok h' (add_mset s1 (mset xs + S))"
    by (rule heap_ok_move [OF W(2)]) (use room in \<open>auto simp: s1_def add.assoc\<close>)
  moreover have "exclusive s1 (mset xs + S)" by (rule exclusive_block_of [OF ex]) (simp_all add: s1_def m)
  moreover have s1_data: "segData h' s1 = segData (aheap a) s @ d"
  proof -
    obtain b k i where b: "sharedInfo (aheap a) s = Some (b, k, i)" "bufBlock s = Some b" "blocks (aheap a) b = Some k"
      "info k = Some i" "bufCap s \<le> length (cells k)"
      using seg m(1) by (rule sharedInfo_managed)
    have "cellsOf h' b = overwrite (cellsOf (aheap a) b) (dataOff s + dataLen s) d"
      by (rule writeAt_cells [OF seg b(2) room W(1)])
    moreover have "cellsOf (aheap a) b = cells k" using b(3) by (simp add: cellsOf_def)
    moreover have "dataOff s + dataLen s + length d \<le> length (cells k)" using room b(5) by simp
    ultimately show ?thesis using b(2) overwrite_after by (simp add: segData_def s1_def)
  qed
  moreover have "chainData h' xs = chainData (aheap a) xs"
    by (rule chainData_same [OF W(3)]) auto
  moreover have "appendTo s (length d) = Inr s1"
    using assms(2) by (simp add: appendTo_def appLength_def s_def [symmetric] s1_def)
  ultimately show ?thesis
    using assms(1) W(1,3) ch
    by (intro that [of "a\<lparr>aheap := h', achain := xs @ [s1]\<rparr>"])
      (auto simp: writeTail_def appAppend_def appender_ok_def appContent_def chainData_append chainData_Cons
        s_def [symmetric] xs_def [symmetric] chainData_def)
qed

lemma growBy_ok:
  assumes "appender_ok S a" and "fits n"
  shows "appender_ok S (growBy a n)" and "appContent (growBy a n) = appContent a" and "n \<le> appLength (growBy a n)"
    and "growth (growBy a n) = growth a" and "\<forall>t \<in># S. segData (aheap (growBy a n)) t = segData (aheap a) t"
proof -
  obtain h1 s where cr: "create (aheap a) n = (h1, s)" by fastforce
  have ok: "heap_ok (aheap a) (mset (achain a) + S)" using assms(1) by (simp add: appender_ok_def)
  note C = create_ok [OF ok assms(2) cr]
  have g: "growBy a n = a\<lparr>aheap := h1, achain := achain a @ [s]\<rparr>" using cr by (simp add: growBy_def)
  have "exclusive s (mset (achain a) + S)" by (rule exclusive_unmarked [OF C(1,6,7)])
  then show "appender_ok S (growBy a n)" using C(1) assms(1) by (simp add: g appender_ok_def)
  have "chainData h1 (achain a) = chainData (aheap a) (achain a)"
    by (rule chainData_same [OF C(2)]) auto
  moreover have "segData h1 s = []" using C(5) by (simp add: segData_def split: option.split)
  ultimately show "appContent (growBy a n) = appContent a"
    by (simp add: g appContent_def chainData_append chainData_Cons) (simp add: chainData_def)
  show "n \<le> appLength (growBy a n)" using C(3-5) by (simp add: g appLength_def tailroom_def)
  show "growth (growBy a n) = growth a" by (simp add: g)
  show "\<forall>t \<in># S. segData (aheap (growBy a n)) t = segData (aheap a) t" using C(2) by (simp add: g)
qed

text \<open>With room to grow everything is appended, else what fits.\<close>

lemma pushLoop_ok:
  assumes "appender_ok S a" and "length d < n + (if length d \<le> appLength a then 1 else 0)
      \<or> 0 < appLength a \<and> length d \<le> n" and "0 < n"
  shows "\<exists>a' k. pushLoop n a d copied = Inr (a', copied + k) \<and>
    k = (if growth a = 0 then min (length d) (appLength a) else length d) \<and>
    appender_ok S a' \<and> appContent a' = appContent a @ take k d \<and>
    (\<forall>t \<in># S. segData (aheap a') t = segData (aheap a) t)"
  using assms
proof (induction n arbitrary: a d copied)
  case (Suc n)
  show ?case
  proof (cases "length d \<le> appLength a")
    case True
    obtain a1 where w: "writeTail a d = Inr a1" "appender_ok S a1" "appContent a1 = appContent a @ d"
      "growth a1 = growth a" "\<forall>t \<in># S. segData (aheap a1) t = segData (aheap a) t"
      by (rule writeTail_ok [OF Suc.prems(1) True])
    have "pushLoop (Suc n) a d copied = Inr (a1, copied + length d)" using True w(1) by simp
    moreover have "length d = (if growth a = 0 then min (length d) (appLength a) else length d)" using True by simp
    ultimately show ?thesis using w by auto
  next
    case False
    let ?v = "appLength a"
    have tk: "length (take ?v d) \<le> ?v" by simp
    obtain a1 where w: "writeTail a (take ?v d) = Inr a1" "appender_ok S a1" "appContent a1 = appContent a @ take ?v d"
      "growth a1 = growth a" "\<forall>t \<in># S. segData (aheap a1) t = segData (aheap a) t"
      by (rule writeTail_ok [OF Suc.prems(1) tk])
    have body: "pushLoop (Suc n) a d copied = (let (grown, a2) = tryGrowChain a1
        in if \<not> grown then Inr (a2, copied + ?v) else pushLoop n a2 (drop ?v d) (copied + ?v))"
      using False w(1) by (simp add: Let_def)
    show ?thesis
    proof (cases "growth a = 0")
      case True
      with body w False show ?thesis by (auto simp: tryGrowChain_def)
    next
      case grow: False
      define a2 where "a2 = growBy a1 (growth a1)"
      have f: "fits (growth a1)" using w(2) by (simp add: appender_ok_def)
      note G = growBy_ok [OF w(2) f, folded a2_def]
      have step: "pushLoop (Suc n) a d copied = pushLoop n a2 (drop ?v d) (copied + ?v)"
        unfolding body using grow w(4) by (simp add: tryGrowChain_def a2_def)
      have pos: "0 < appLength a2" using G(3) grow w(4) by simp
      have n: "0 < n" "length (drop ?v d) \<le> n" using Suc.prems(2) False by auto
      from Suc.IH [OF G(1) _ n(1), of "drop ?v d" "copied + ?v"] pos n(2) obtain a' k where
        R: "pushLoop n a2 (drop ?v d) (copied + ?v) = Inr (a', copied + ?v + k)"
          "k = (if growth a2 = 0 then min (length (drop ?v d)) (appLength a2) else length (drop ?v d))"
          "appender_ok S a'" "appContent a' = appContent a2 @ take k (drop ?v d)"
          "\<forall>t \<in># S. segData (aheap a') t = segData (aheap a2) t" by blast
      have k: "k = length d - ?v" using R(2) G(4) w(4) grow by simp
      have "appContent a' = appContent a @ d" using R(4) k G(2) w(3) by simp
      moreover have "pushLoop (Suc n) a d copied = Inr (a', copied + length d)"
        unfolding step R(1) using k False by simp
      moreover have "\<forall>t \<in># S. segData (aheap a') t = segData (aheap a) t" using R(5) G(5) w(5) by simp
      ultimately show ?thesis using grow R(3) by auto
    qed
  qed
qed simp

lemma pushAtMost_ok:
  assumes "appender_ok S a"
  shows "\<exists>a' k. pushAtMost a d = Inr (a', k) \<and>
    k = (if growth a = 0 then min (length d) (appLength a) else length d) \<and>
    appender_ok S a' \<and> appContent a' = appContent a @ take k d \<and>
    (\<forall>t \<in># S. segData (aheap a') t = segData (aheap a) t)"
  using pushLoop_ok [OF assms, of d "length d + 1" 0] by (simp add: pushAtMost_def)

interpretation ap: writable pushAtMost appContent "appender_ok S" for S
proof
  fix s d assume "appender_ok S s"
  from pushAtMost_ok [OF this, of d] show
    "\<exists>s' n. pushAtMost s d = Inr (s', n) \<and> n \<le> length d \<and> appender_ok S s' \<and> appContent s' = appContent s @ take n d"
    by auto
qed

section \<open>Cloning\<close>

text \<open>A trimmed clone reads part of what the element reads.\<close>

lemma trim_ok:
  assumes "heap_ok h (add_mset t S)" and "o1 \<le> dataLen t" and "len \<le> dataLen t - o1"
    and "t' = t\<lparr>dataOff := dataOff t + o1, dataLen := len\<rparr>"
  shows "heap_ok h (add_mset t' S)" and "segData h t' = take len (drop o1 (segData h t))"
proof -
  have "dataOff t + dataLen t \<le> bufCap t" using heap_okD(1) [OF assms(1), of t] by (simp add: seg_ok_def)
  then show "heap_ok h (add_mset t' S)"
    by (intro heap_ok_move [OF assms(1)]) (use assms(2-4) in auto)
  show "segData h t' = take len (drop o1 (segData h t))"
    using assms(2-4) by (auto simp: segData_def drop_take min_def add.commute split: option.split)
qed

lemma chain_split:
  assumes "i < length ch"
  shows "mset ch = add_mset (ch ! i) (mset (take i ch @ drop (Suc i) ch))"
    and "mset (ch[i := x]) = add_mset x (mset (take i ch @ drop (Suc i) ch))"
proof -
  have "ch = take i ch @ ch ! i # drop (Suc i) ch" using assms by (simp add: id_take_nth_drop)
  then have "mset ch = mset (take i ch @ ch ! i # drop (Suc i) ch)" by simp
  then show "mset ch = add_mset (ch ! i) (mset (take i ch @ drop (Suc i) ch))" by simp
  show "mset (ch[i := x]) = add_mset x (mset (take i ch @ drop (Suc i) ch))"
    using assms by (simp add: upd_conv_take_nth_drop)
qed

lemma length_piece:
  "heap_ok h (mset ch + S) \<Longrightarrow> i < length ch \<Longrightarrow> length (chainPieces h ch ! i) = dataLen (ch ! i)"
  using heap_okD(1) [of h "mset ch + S" "ch ! i"] by (simp add: chainPieces_def length_segData)

text \<open>One turn: the element is cloned, and the chain reads as before.\<close>

lemma clone_turn:
  assumes "heap_ok h (mset ch + (mset out + S))" and "i < length ch" and "cloneOne h (ch ! i) = (h1, s1, t)"
  shows "heap_ok h1 (add_mset t (mset (ch[i := s1]) + (mset out + S)))"
    and "chainPieces h1 (ch[i := s1]) = chainPieces h ch" and "\<forall>x. segData h1 x = segData h x"
    and "segData h1 t = chainPieces h ch ! i" and "dataLen t = dataLen (ch ! i)"
proof -
  let ?R = "mset (take i ch @ drop (Suc i) ch) + (mset out + S)"
  have ok: "heap_ok h (add_mset (ch ! i) ?R)"
    using assms(1) chain_split(1) [OF assms(2)] by (metis union_mset_add_mset_left)
  note C = cloneOne_ok [OF ok assms(3)]
  show "heap_ok h1 (add_mset t (mset (ch[i := s1]) + (mset out + S)))"
    using C(1) chain_split(2) [OF assms(2), of s1] by simp
  show same: "\<forall>x. segData h1 x = segData h x" by (rule C(2))
  then have eq: "segData h1 = segData h" by auto
  show "chainPieces h1 (ch[i := s1]) = chainPieces h ch"
    using C(3) assms(2) eq by (simp add: chainPieces_def map_update list_update_same_conv)
  show "segData h1 t = chainPieces h ch ! i"
    using C(3,4) same assms(2) by (simp add: chainPieces_def)
  show "dataLen t = dataLen (ch ! i)" using assms(3) by (auto simp: cloneOne_def Let_def split: option.splits)
qed

text \<open>The clone is trimmed to what the cursor has not read, and in the last turn to what is wanted.\<close>

lemma clone_turn_trimmed:
  assumes ok: "heap_ok h (mset ch + (mset out + S))" and bs: "bs = chainPieces h ch" and c: "cursor_ok bs c"
  obtains h1 s1 t t1 where "cloneOne h (ch ! crtBuf c) = (h1, s1, t)" "trimStart t (offset c) = Inr t1"
    "dataLen (ch ! crtBuf c) - offset c = curLength bs c" "dataLen t1 = curLength bs c"
    "heap_ok h1 (add_mset t1 (mset (ch[crtBuf c := s1]) + (mset out + S)))"
    "chainPieces h1 (ch[crtBuf c := s1]) = bs" "segData h1 t1 = curData bs c" "segData h1 = segData h"
proof -
  have i: "crtBuf c < length ch" using bs c by (simp add: cursor_ok_def chainPieces_def)
  obtain h1 s1 t where cl: "cloneOne h (ch ! crtBuf c) = (h1, s1, t)" by (metis prod_cases3)
  note T = clone_turn [OF ok i cl]
  have len: "length (bs ! crtBuf c) = dataLen (ch ! crtBuf c)" using length_piece [OF ok i] bs by simp
  then have av: "dataLen (ch ! crtBuf c) - offset c = curLength bs c" by (simp add: curLength_def)
  have off: "offset c \<le> dataLen t" using c len T(5) by (simp add: cursor_ok_def)
  define t1 where "t1 = t\<lparr>dataOff := dataOff t + offset c, dataLen := dataLen t - offset c\<rparr>"
  have tr: "trimStart t (offset c) = Inr t1" using off by (simp add: trimStart_def t1_def)
  note K = trim_ok [OF T(1) off order_refl t1_def]
  have "segData h1 t1 = curData bs c"
    using K(2) T(4) bs length_segData [of h1 t] heap_okD(1) [OF T(1), of t] by (simp add: curData_def)
  moreover have "segData h1 = segData h" using T(3) by (intro ext) blast
  moreover have "dataLen t1 = curLength bs c" using T(5) av by (simp add: t1_def)
  ultimately show ?thesis using that cl tr av K(1) T(2) bs by simp
qed

lemma clone_turn_last:
  assumes ok: "heap_ok h1 (add_mset t1 R)" and len: "len \<le> dataLen t1"
    and d: "segData h1 t1 = curData bs c" "dataLen t1 = curLength bs c"
  obtains t2 where "trimEnd t1 (dataLen t1 - len) = Inr t2" "heap_ok h1 (add_mset t2 R)"
    "segData h1 t2 = take len (remaining bs c)"
proof -
  define t2 where "t2 = t1\<lparr>dataOff := dataOff t1 + 0, dataLen := len\<rparr>"
  have l2: "0 \<le> dataLen t1" "len \<le> dataLen t1 - 0" using len by simp_all
  note K = trim_ok [OF ok l2 t2_def]
  have "trimEnd t1 (dataLen t1 - len) = Inr t2" using len by (simp add: trimEnd_def t2_def)
  moreover have "segData h1 t2 = take len (remaining bs c)" using K(2) d len by (simp add: remaining_def)
  ultimately show ?thesis using that K(1) by blast
qed

lemma cloneLoop_ok:
  assumes "heap_ok h (mset ch + (mset out + S))" and "bs = chainPieces h ch" and "cursor_ok bs c"
    and "n = length ch - crtBuf c"
  shows "\<exists>h' ch' c' out'. cloneLoop n h ch c len out copied =
      Inr (h', ch', c', out', copied + min len (length (remaining bs c))) \<and>
    heap_ok h' (mset ch' + (mset out' + S)) \<and> chainPieces h' ch' = bs \<and> cursor_ok bs c' \<and>
    remaining bs c' = drop len (remaining bs c) \<and>
    chainData h' out' = chainData h out @ take len (remaining bs c) \<and> (\<forall>x. segData h' x = segData h x)"
  using assms
proof (induction n arbitrary: h ch out c len copied)
  case 0
  then show ?case by (simp add: cursor_ok_def chainPieces_def)
next
  case (Suc n)
  obtain h1 s1 t t1 where T: "cloneOne h (ch ! crtBuf c) = (h1, s1, t)" "trimStart t (offset c) = Inr t1"
    "dataLen (ch ! crtBuf c) - offset c = curLength bs c" "dataLen t1 = curLength bs c"
    "heap_ok h1 (add_mset t1 (mset (ch[crtBuf c := s1]) + (mset out + S)))"
    "chainPieces h1 (ch[crtBuf c := s1]) = bs" "segData h1 t1 = curData bs c" "segData h1 = segData h"
    by (rule clone_turn_trimmed [OF Suc.prems(1-3)])
  define ch1 where "ch1 = ch[crtBuf c := s1]"
  have out: "chainData h1 out = chainData h out" using T(8) by (simp add: chainData_def)
  show ?case
  proof (cases "len \<le> curLength bs c")
    case True
    then have len: "len \<le> dataLen t1" using T(4) by simp
    obtain t2 where t2: "trimEnd t1 (dataLen t1 - len) = Inr t2"
      "heap_ok h1 (add_mset t2 (mset ch1 + (mset out + S)))" "segData h1 t2 = take len (remaining bs c)"
      by (rule clone_turn_last [OF T(5) len T(7,4), folded ch1_def])
    have "cloneLoop (Suc n) h ch c len out copied =
        Inr (h1, ch1, c\<lparr>offset := offset c + len\<rparr>, out @ [t2], copied + len)"
      using T t2(1) True by (simp add: ch1_def Let_def)
    moreover have "chainData h1 (out @ [t2]) = chainData h out @ take len (remaining bs c)"
      using out t2(3) by (simp add: chainData_def)
    moreover have "heap_ok h1 (mset ch1 + (mset (out @ [t2]) + S))" using t2(2) by simp
    moreover have "min len (length (remaining bs c)) = len" using True by (simp add: remaining_def length_curData)
    ultimately show ?thesis
      using step_inside [OF Suc.prems(3) True] T(6,8) by (metis ch1_def)
  next
    case False
    obtain moved c1 where adv: "tryAdvanceBuffer bs c = (moved, c1)" by fastforce
    have body: "cloneLoop (Suc n) h ch c len out copied =
        (if \<not> moved then Inr (h1, ch1, c1, out @ [t1], copied + curLength bs c)
         else cloneLoop n h1 ch1 c1 (len - curLength bs c) (out @ [t1]) (copied + curLength bs c))"
      using T False adv by (simp add: ch1_def Let_def)
    have ok1: "heap_ok h1 (mset ch1 + (mset (out @ [t1]) + S))" using T(5) by (simp add: ch1_def)
    have p1: "chainPieces h1 ch1 = bs" using T(6) by (simp add: ch1_def)
    have bytes: "chainData h1 (out @ [t1]) = chainData h out @ curData bs c"
      using out T(7) by (simp add: chainData_def)
    show ?thesis
    proof (cases moved)
      case True
      note A = advance_True [OF Suc.prems(3) adv True]
      have n1: "n = length ch1 - crtBuf c1" using Suc.prems(4) A(2) by (simp add: ch1_def)
      obtain h' ch' c' out' where R: "cloneLoop n h1 ch1 c1 (len - curLength bs c) (out @ [t1]) (copied + curLength bs c) =
          Inr (h', ch', c', out', copied + curLength bs c + min (len - curLength bs c) (length (remaining bs c1)))"
        "heap_ok h' (mset ch' + (mset out' + S))" "chainPieces h' ch' = bs" "cursor_ok bs c'"
        "remaining bs c' = drop (len - curLength bs c) (remaining bs c1)"
        "chainData h' out' = chainData h1 (out @ [t1]) @ take (len - curLength bs c) (remaining bs c1)"
        "\<forall>x. segData h' x = segData h1 x"
        using Suc.IH [OF ok1 p1 [symmetric] A(1) n1] by blast
      have "length (remaining bs c) = curLength bs c + length (remaining bs c1)" using A(4) by simp
      then have "copied + curLength bs c + min (len - curLength bs c) (length (remaining bs c1)) =
          copied + min len (length (remaining bs c))" using False by linarith
      then have "cloneLoop (Suc n) h ch c len out copied =
          Inr (h', ch', c', out', copied + min len (length (remaining bs c)))"
        using body True R(1) by (simp del: cloneLoop.simps)
      moreover have "remaining bs c' = drop len (remaining bs c)" using R(5) A(4) False by simp
      moreover have "chainData h' out' = chainData h out @ take len (remaining bs c)"
        using R(6) bytes A(4) False by simp
      moreover have "\<forall>x. segData h' x = segData h x" using R(7) T(8) by simp
      ultimately show ?thesis using R(2-4) by blast
    next
      case m: False
      note A = advance_False [OF Suc.prems(3) adv m]
      have r: "remaining bs c = curData bs c" "cursor_ok bs c1" "remaining bs c1 = []"
        using A by (simp_all add: remaining_def curData_def)
      have "cloneLoop (Suc n) h ch c len out copied =
          Inr (h1, ch1, c1, out @ [t1], copied + min len (length (remaining bs c)))"
        using body m r(1) False by (simp del: cloneLoop.simps add: min_def)
      moreover have "remaining bs c1 = drop len (remaining bs c)"
        "chainData h1 (out @ [t1]) = chainData h out @ take len (remaining bs c)"
        using bytes r False by simp_all
      moreover have "\<forall>x. segData h1 x = segData h x" using T(8) by simp
      ultimately show ?thesis using ok1 p1 r(2) by blast
    qed
  qed
qed

section \<open>Properties\<close>

text \<open>
  C36: an appender whose last buffer is not shared appends to the bytes of its chain: with
  room to grow everything that is pushed, without it (growth 0) what fits in the last
  buffer; every other buffer keeps its bytes and the reference counts stay exact.
  \<open>ensure\<close> gives the contiguous room asked for or throws \<open>out_of_range\<close>.
\<close>

theorem appender_appends:
  assumes "appender_ok S a" and "fits n"
  shows "(\<exists>a' k. pushAtMost a d = Inr (a', k) \<and>
      k = (if growth a = 0 then min (length d) (appLength a) else length d) \<and>
      appender_ok S a' \<and> appContent a' = appContent a @ take k d \<and>
      (\<forall>t \<in># S. segData (aheap a') t = segData (aheap a) t)) \<and>
    (if growth a = 0 \<and> appLength a < n then ensure a n = Inl Out_Of_Range
     else \<exists>a'. ensure a n = Inr a' \<and> appender_ok S a' \<and> appContent a' = appContent a \<and> n \<le> appLength a')"
proof -
  have "fits (max n (growth a))" using assms by (simp add: max_def appender_ok_def)
  note G = growBy_ok [OF assms(1) this]
  show ?thesis using pushAtMost_ok [OF assms(1), of d] G(1-3) assms(1) by (auto simp: ensure_def)
qed

lemma demo_appender:
  "appender_ok {#} \<lparr>aheap = demoHeap\<lparr>blocks := [0 \<mapsto> \<lparr>cells = [7, 8, 9, 7],
     info = Some \<lparr>refcount = 1, freeFn = Malloced\<rparr>\<rparr>]\<rparr>, achain = [demoBuf], growth = 2\<rparr>"
  using demo_single by (simp add: appender_ok_def fits_def)

theorem appender_appends_witness:
  "\<exists>a' k. pushAtMost \<lparr>aheap = demoHeap\<lparr>blocks := [0 \<mapsto> \<lparr>cells = [7, 8, 9, 7],
     info = Some \<lparr>refcount = 1, freeFn = Malloced\<rparr>\<rparr>]\<rparr>, achain = [demoBuf], growth = 2\<rparr> [1, 2, 3, 4] =
     Inr (a', k) \<and> appContent a' = [8, 9, 1, 2, 3, 4]"
proof -
  have c: "appContent \<lparr>aheap = demoHeap\<lparr>blocks := [0 \<mapsto> \<lparr>cells = [7, 8, 9, 7],
     info = Some \<lparr>refcount = 1, freeFn = Malloced\<rparr>\<rparr>]\<rparr>, achain = [demoBuf], growth = 2\<rparr> = [8, 9]"
    by (simp add: appContent_def chainData_def segData_def cellsOf_def demoBuf_def)
  have "fits 0" by (simp add: fits_def)
  from appender_appends [OF demo_appender this, of "[1, 2, 3, 4]"] show ?thesis unfolding c by auto
qed

text \<open>
  Integers pushed through an appender in either byte order are read back by a cursor
  that stands where they were appended.
\<close>

theorem appended_integer_reads_back:
  assumes "appender_ok S a" and "growth a \<noteq> 0" and "v < 256 ^ n"
  shows "\<exists>a'. writeBE pushAtMost n a v = Inr a' \<and> appender_ok S a' \<and>
    (\<forall>c. cursor_ok (chainPieces (aheap a') (achain a')) c \<and>
         position (chainPieces (aheap a') (achain a')) c = length (appContent a) \<longrightarrow>
       (\<exists>c'. readBE (chainPieces (aheap a') (achain a')) n c = Inr (v, c') \<and>
          remaining (chainPieces (aheap a') (achain a')) c' = []))"
proof -
  have sw: "toLE n (swapBytes n v) = rev (toLE n v)"
    using to_fromLE [of "rev (toLE n v)"] by (simp add: swapBytes_def)
  obtain a' where p: "pushAtMost a (rev (toLE n v)) = Inr (a', n)"
    using pushAtMost_ok [OF assms(1), of "rev (toLE n v)"] assms(2) by auto
  then have w: "writeBE pushAtMost n a v = Inr a'"
    by (simp add: writeBE_def writeNative_def pushWith_def sw)
  note W = ap.write_ok(3) [OF assms(1) this]
  let ?bs = "chainPieces (aheap a') (achain a')"
  have all: "concat ?bs = appContent a @ rev (toLE n v)"
    using W by (simp add: appContent_def chainPieces_def chainData_def)
  have "\<exists>c'. readBE ?bs n c = Inr (v, c') \<and> remaining ?bs c' = []"
    if c: "cursor_ok ?bs c" "position ?bs c = length (appContent a)" for c
  proof -
    have "remaining ?bs c = rev (toLE n v)" using remaining_position [OF c(1)] c(2) all by simp
    then show ?thesis
      using pull_spec [OF c(1), of n] assms(3)
      by (auto simp: readBE_def readNative_pull swapBytes_fromLE from_toLE)
  qed
  with w W show ?thesis by blast
qed

theorem appended_integer_reads_back_witness:
  "\<exists>a'. writeBE pushAtMost 2 \<lparr>aheap = demoHeap\<lparr>blocks := [0 \<mapsto> \<lparr>cells = [7, 8, 9, 7],
     info = Some \<lparr>refcount = 1, freeFn = Malloced\<rparr>\<rparr>]\<rparr>, achain = [demoBuf], growth = 2\<rparr> 300 = Inr a'"
proof -
  have "(300 :: nat) < 256 ^ 2" by simp
  from appended_integer_reads_back [OF demo_appender _ this] show ?thesis by auto
qed

text \<open>
  C37: \<open>cloneAtMost\<close> clones, without copying, exactly the bytes that \<open>pullAtMost\<close> would copy: the
  clone reads the next \<open>len\<close> bytes or all that are left, the cursor moves behind them, the
  chain it reads is unchanged, and the reference counts account for the clone.
\<close>

theorem cloneAtMost_reads_same:
  assumes "heap_ok h (mset ch + S)" and "bs = chainPieces h ch" and "cursor_ok bs c"
  shows "\<exists>h' ch' c' out. cloneAtMost h ch c len = Inr (h', ch', c', out, min len (length (remaining bs c))) \<and>
    heap_ok h' (mset ch' + (mset out + S)) \<and> chainPieces h' ch' = bs \<and>
    remaining bs c' = drop len (remaining bs c) \<and> chainData h' out = take len (remaining bs c) \<and>
    (\<forall>x. segData h' x = segData h x)"
proof -
  have "heap_ok h (mset ch + (mset [] + S))" using assms(1) by simp
  moreover have "chainData h [] = []" by (simp add: chainData_def)
  ultimately show ?thesis
    using cloneLoop_ok [OF _ assms(2,3) refl, of "[]" S len 0] by (auto simp: cloneAtMost_def)
qed

theorem cloneAtMost_reads_same_witness:
  "\<exists>h' ch' c' out. cloneAtMost demoHeap [demoBuf, demoBuf] newCursor 3 = Inr (h', ch', c', out, 3) \<and>
     chainData h' out = [8, 9, 8]"
proof -
  have ok: "heap_ok demoHeap (mset [demoBuf, demoBuf] + {#})" using demo_ok(1) by simp
  have bs: "chainPieces demoHeap [demoBuf, demoBuf] = [[8, 9], [8, 9]]" by (simp add: chainPieces_def demo_ok(2))
  have c: "cursor_ok (chainPieces demoHeap [demoBuf, demoBuf]) newCursor" by (simp add: bs newCursor_ok)
  from cloneAtMost_reads_same [OF ok refl c, of 3] show ?thesis by (auto simp: bs remaining_new)
qed

end
