(* ===== verification/Text_Case.thy ===== *)
theory Text_Case
  imports Prelude
begin

unbundle bit_operations_syntax

text \<open>
  Lower-casing in place: \<^verbatim>\<open>toLowerAscii\<close> of \<^verbatim>\<open>src/raster/util/String.cpp\<close>, which treats four and eight
  characters at once inside one machine word, without branches. The reference
  definition is the usual one on single characters; the theory shows that the
  word operations never carry from one character into the next.
\<close>

section \<open>The algorithm\<close>

definition toLowerAscii8 :: "8 word \<Rightarrow> 8 word" where
  "toLowerAscii8 c =
     (let rotated = c AND 0x7f;
          rotated = rotated + 0x25;
          rotated = rotated AND 0x7f;
          rotated = rotated + 0x1a;
          rotated = rotated AND NOT c;
          rotated = drop_bit 2 rotated;
          rotated = rotated AND 0x20
      in c + rotated)"

definition toLowerAscii32 :: "32 word \<Rightarrow> 32 word" where
  "toLowerAscii32 c =
     (let rotated = c AND 0x7f7f7f7f;
          rotated = rotated + 0x25252525;
          rotated = rotated AND 0x7f7f7f7f;
          rotated = rotated + 0x1a1a1a1a;
          rotated = rotated AND NOT c;
          rotated = drop_bit 2 rotated;
          rotated = rotated AND 0x20202020
      in c + rotated)"

definition toLowerAscii64 :: "64 word \<Rightarrow> 64 word" where
  "toLowerAscii64 c =
     (let rotated = c AND 0x7f7f7f7f7f7f7f7f;
          rotated = rotated + 0x2525252525252525;
          rotated = rotated AND 0x7f7f7f7f7f7f7f7f;
          rotated = rotated + 0x1a1a1a1a1a1a1a1a;
          rotated = rotated AND NOT c;
          rotated = drop_bit 2 rotated;
          rotated = rotated AND 0x2020202020202020
      in c + rotated)"

text \<open>A word read from memory has its bytes from low to high (the targets are little-endian).\<close>

fun pack :: "8 word list \<Rightarrow> 'a::len word" where
  "pack [] = 0"
| "pack (b # bs) = ucast b + 256 * pack bs"

fun unpack :: "nat \<Rightarrow> 'a::len word \<Rightarrow> 8 word list" where
  "unpack 0 w = []"
| "unpack (Suc n) w = ucast w # unpack n (drop_bit 8 w)"

text \<open>Reading, converting and writing back the 1, 4 or 8 bytes at \<open>off\<close>.\<close>

definition lowerAt8 :: "8 word list \<Rightarrow> nat \<Rightarrow> 8 word list result" where
  "lowerAt8 str off = guard (off < length str) Undefined (Inr (str[off := toLowerAscii8 (str ! off)]))"

definition lowerAt32 :: "8 word list \<Rightarrow> nat \<Rightarrow> 8 word list result" where
  "lowerAt32 str off = guard (off + 4 \<le> length str) Undefined
     (Inr (take off str @ unpack 4 (toLowerAscii32 (pack (take 4 (drop off str)))) @ drop (off + 4) str))"

definition lowerAt64 :: "8 word list \<Rightarrow> nat \<Rightarrow> 8 word list result" where
  "lowerAt64 str off = guard (off + 8 \<le> length str) Undefined
     (Inr (take off str @ unpack 8 (toLowerAscii64 (pack (take 8 (drop off str)))) @ drop (off + 8) str))"

text \<open>
  The loops: from \<open>off\<close> while \<open>k\<close> more bytes stay below the limit. The counter is the
  limit itself, which no loop can pass in more steps.
\<close>

fun lowerWhile :: "(8 word list \<Rightarrow> nat \<Rightarrow> 8 word list result) \<Rightarrow> nat \<Rightarrow> nat \<Rightarrow> nat \<Rightarrow> 8 word list \<Rightarrow> nat \<Rightarrow> (8 word list \<times> nat) result" where
  "lowerWhile f k 0 limit str off = (if off + k \<le> limit then Inl Diverges else Inr (str, off))"
| "lowerWhile f k (Suc n) limit str off =
     (if off + k \<le> limit then res_bind (f str off) (\<lambda>str'. lowerWhile f k n limit str' (off + k))
      else Inr (str, off))"

definition lowerHead :: "nat \<Rightarrow> 8 word list \<Rightarrow> (8 word list \<times> nat) result" where
  "lowerHead addr str =
     (let n = min (addr mod 4) (length str)
      in if n \<noteq> 0
         then let n' = min (4 - n) (length str)
              in res_bind (lowerAt8 str 0) (\<lambda>str'. lowerWhile lowerAt8 1 n' n' str' 1)
         else Inr (str, 0))"

definition toLowerAscii :: "nat \<Rightarrow> 8 word list \<Rightarrow> 8 word list result" where
  "toLowerAscii addr str =
     (let len = length str
      in res_bind (lowerHead addr str) (\<lambda>(s1, off).
         res_bind (if (addr + off) mod 8 \<noteq> 0 \<and> off + 4 \<le> len
                   then res_bind (lowerAt32 s1 off) (\<lambda>s. Inr (s, off + 4))
                   else Inr (s1, off)) (\<lambda>(s2, off).
         res_bind (lowerWhile lowerAt64 8 len len s2 off) (\<lambda>(s3, off).
         res_bind (lowerWhile lowerAt32 4 len len s3 off) (\<lambda>(s4, off).
         res_bind (lowerWhile lowerAt8 1 len len s4 off) (\<lambda>(s5, off). Inr s5))))))"

section \<open>One character\<close>

definition asciiLower :: "8 word \<Rightarrow> 8 word" where
  "asciiLower c = (if 65 \<le> c \<and> c \<le> 90 then c + 32 else c)"

definition caseBit :: "8 word \<Rightarrow> 8 word" where
  "caseBit c = drop_bit 2 (((((c AND 0x7f) + 0x25) AND 0x7f) + 0x1a) AND NOT c) AND 0x20"

lemma toLowerAscii8_caseBit: "toLowerAscii8 c = c + caseBit c"
  by (simp add: toLowerAscii8_def caseBit_def)

lemma and_7f: "(c :: 8 word) AND 0x7f = take_bit 7 c"
  by (simp add: take_bit_eq_mask mask_eq_exp_minus_1)

lemma unat_and_7f: "unat ((c :: 8 word) AND 0x7f) = unat c mod 128"
proof -
  have "unat (take_bit 7 c) = take_bit 7 (unat c)" by (rule unsigned_take_bit_eq)
  also have "\<dots> = unat c mod 2 ^ 7" by (rule take_bit_eq_mod)
  finally show ?thesis by (simp add: and_7f)
qed

lemma unat_plus_small: "unat (a :: 8 word) + unat b < 256 \<Longrightarrow> unat (a + b) = unat a + unat b"
  by (simp add: unat_word_ariths)

lemma byte_less: "unat (c :: 8 word) < 256"
  using unsigned_less [of c, where 'a = nat] by simp

lemma bit_7_iff: "bit (c :: 8 word) 7 \<longleftrightarrow> 128 \<le> unat c"
proof -
  have "bit c 7 \<longleftrightarrow> bit (unat c) 7" by (simp add: bit_simps)
  also have "\<dots> \<longleftrightarrow> odd (unat c div 128)" by (simp add: bit_iff_odd)
  also have "\<dots> \<longleftrightarrow> 128 \<le> unat c"
  proof (cases "unat c < 128")
    case False
    then have "unat c div 128 = 1" using byte_less [of c] by linarith
    then show ?thesis using False by simp
  qed simp
  finally show ?thesis .
qed

lemma bit_32_iff: "bit (32 :: int) n \<longleftrightarrow> n = 5" "bit (32 :: nat) n \<longleftrightarrow> n = 5"
  using bit_exp_iff [where 'a = int, of 5 n] bit_exp_iff [where 'a = nat, of 5 n] by auto

lemma bit_32_byte: "bit (32 :: 8 word) n \<longleftrightarrow> n = 5"
  by (auto simp: bit_simps bit_32_iff)

lemma rotate_arith: "x < (128 :: nat) \<Longrightarrow> 128 \<le> (x + 37) mod 128 + 26 \<longleftrightarrow> 65 \<le> x \<and> x \<le> 90"
proof (cases "x < 91")
  case False
  moreover assume "x < 128"
  ultimately show ?thesis using le_mod_geq [of 128 "x + 37"] by simp
qed simp

lemma caseBit_eq: "caseBit c = (if 65 \<le> unat c \<and> unat c \<le> 90 then 32 else 0)"
proof -
  define r where "r = (((c AND 0x7f) + 0x25) AND 0x7f) + (0x1a :: 8 word)"
  have m: "unat c mod 128 < 128" by simp
  have "unat ((c AND 0x7f) + 0x25) = unat c mod 128 + 37"
    using unat_plus_small [of "c AND 0x7f" "0x25"] m unat_and_7f [of c] by simp
  then have "unat r = (unat c mod 128 + 37) mod 128 + 26"
    using unat_plus_small [of "((c AND 0x7f) + 0x25) AND 0x7f" "0x1a"] unat_and_7f [of "(c AND 0x7f) + 0x25"]
    by (simp add: r_def)
  then have "bit r 7 \<longleftrightarrow> 65 \<le> unat c mod 128 \<and> unat c mod 128 \<le> 90"
    unfolding bit_7_iff using rotate_arith [OF m] by simp
  then have b: "bit r 7 \<and> \<not> bit c 7 \<longleftrightarrow> 65 \<le> unat c \<and> unat c \<le> 90"
    unfolding bit_7_iff using byte_less [of c] by (cases "unat c < 128") auto
  have "caseBit c = (if bit r 7 \<and> \<not> bit c 7 then 32 else 0)"
    unfolding caseBit_def r_def [symmetric] by (intro bit_word_eqI) (auto simp: bit_simps bit_32_iff)
  then show ?thesis unfolding b by simp
qed


lemma toLowerAscii8_eq: "toLowerAscii8 c = asciiLower c"
  by (simp add: toLowerAscii8_caseBit caseBit_eq asciiLower_def word_le_nat_alt)

section \<open>Several characters in one word\<close>

lemma pack_add:
  assumes "list_all2 (\<lambda>x y. unat x + unat y < 256) xs ys"
  shows "pack xs + pack ys = (pack (map2 (+) xs ys) :: 'a::len word)"
  using assms
proof (induction xs ys rule: list_all2_induct)
  case (Cons x xs y ys)
  have "(of_nat (unat x + unat y) :: 'a word) = of_nat (unat (x + y))"
    using unat_plus_small [OF Cons.hyps(1)] by (simp only:)
  then have "(ucast x + ucast y :: 'a word) = ucast (x + y)" by simp
  note e = this [symmetric] Cons.IH [symmetric]
  show ?case by (simp add: e algebra_simps)
qed simp


lemma pack_or: "pack (b # bs) = (ucast b OR push_bit 8 (pack bs) :: 'a::len word)"
proof -
  have "(ucast b :: 'a word) AND push_bit 8 (pack bs) = 0"
    by (rule bit_word_eqI) (auto simp: bit_simps dest: bit_imp_le_length)
  then have "(ucast b :: 'a word) + push_bit 8 (pack bs) = ucast b OR push_bit 8 (pack bs)"
    by (rule disjunctive_add_eq_or)
  then show ?thesis by (simp add: push_bit_eq_mult mult.commute)
qed

lemma bit_pack:
  assumes "n < LENGTH('a)"
  shows "bit (pack bs :: 'a::len word) n \<longleftrightarrow> n div 8 < length bs \<and> bit (bs ! (n div 8)) (n mod 8)"
  using assms
proof (induction bs arbitrary: n)
  case (Cons b bs)
  show ?case
  proof (cases "n < 8")
    case True
    then show ?thesis using Cons.prems unfolding pack_or by (simp add: bit_simps)
  next
    case False
    then have "\<not> bit b n" using bit_imp_le_length [of b n] by auto
    moreover have "(n - 8) div 8 = n div 8 - 1" "(n - 8) mod 8 = n mod 8" "n div 8 \<noteq> 0"
      using False le_div_geq [of 8 n] le_mod_geq [of 8 n] by auto
    ultimately show ?thesis using Cons.IH [of "n - 8"] Cons.prems False unfolding pack_or
      by (auto simp: bit_simps nth_Cons split: nat.split)
  qed
qed simp


text \<open>The bitwise operations work byte by byte.\<close>

lemma pack_and:
  assumes "length xs = length ys"
  shows "pack xs AND pack ys = (pack (map2 (AND) xs ys) :: 'a::len word)"
  by (rule bit_word_eqI) (use assms in \<open>auto simp: bit_and_iff bit_pack\<close>)

lemma pack_not:
  assumes "LENGTH('a::len) \<le> 8 * length xs"
  shows "NOT (pack xs) = (pack (map NOT xs) :: 'a word)"
proof (rule bit_word_eqI)
  fix n assume n: "n < LENGTH('a)"
  then have "n div 8 < length xs" using assms by auto
  then show "bit (NOT (pack xs) :: 'a word) n = bit (pack (map NOT xs) :: 'a word) n"
    using n by (simp add: bit_not_iff bit_pack possible_bit_word)
qed

text \<open>The shifted bits that would come from the next character are masked out.\<close>

lemma pack_shift_mask:
  assumes len: "LENGTH('a::len) = 8 * length xs"
  shows "drop_bit 2 (pack xs) AND pack (replicate (length xs) 0x20) =
     (pack (map (\<lambda>x. drop_bit 2 x AND 0x20) xs) :: 'a word)"
proof (rule bit_word_eqI)
  fix n assume n: "n < LENGTH('a)"
  show "bit (drop_bit 2 (pack xs) AND pack (replicate (length xs) 0x20) :: 'a word) n =
      bit (pack (map (\<lambda>x. drop_bit 2 x AND 0x20) xs) :: 'a word) n"
  proof (cases "n div 8 < length xs \<and> n mod 8 = 5")
    case True
    then have "(n + 2) div 8 = n div 8" "(n + 2) mod 8 = 7" by presburger+
    moreover have "n + 2 < LENGTH('a)" using True len n by presburger
    ultimately show ?thesis using True n bit_pack [of "n + 2", where 'a = 'a and bs = xs]
      by (auto simp: bit_and_iff bit_drop_bit_eq bit_pack bit_32_byte dest: bit_imp_le_length)
  next
    case False
    then show ?thesis using n by (auto simp: bit_and_iff bit_pack bit_32_byte bit_32_iff)
  qed
qed


text \<open>The whole computation, for words of any size.\<close>

definition lowerWord :: "nat \<Rightarrow> 'a::len word \<Rightarrow> 'a word" where
  "lowerWord k c =
     (let m = (\<lambda>b. pack (replicate k b))
      in c + (drop_bit 2 (((((c AND m 0x7f) + m 0x25) AND m 0x7f) + m 0x1a) AND NOT c) AND m 0x20))"

lemma lowerWord_pack:
  assumes len: "LENGTH('a::len) = 8 * length bs"
  shows "lowerWord (length bs) (pack bs :: 'a word) = pack (map toLowerAscii8 bs)"
proof -
  let ?m = "\<lambda>b. pack (replicate (length bs) b) :: 'a word"
  have and7: "pack (map f bs) AND ?m c = pack (map (\<lambda>b. f b AND c) bs)" for f c
    using pack_and [of "map f bs" "replicate (length bs) c"] by (simp add: map2_map_map zip_replicate2 comp_def)
  have add: "pack (map f bs) + ?m c = pack (map (\<lambda>b. f b + c) bs)" if "\<forall>b \<in> set bs. unat (f b) + unat c < 256" for f c
    using pack_add [of "map f bs" "replicate (length bs) c"] that
    by (simp add: list_all2_conv_all_nth zip_replicate2 comp_def)
  have b1: "unat (b AND 0x7f) + unat (0x25 :: 8 word) < 256" for b :: "8 word" using unat_and_7f [of b] by simp
  have b2: "unat (b AND 0x7f) + unat (0x1a :: 8 word) < 256" for b :: "8 word" using unat_and_7f [of b] by simp
  have "pack bs AND ?m 0x7f = pack (map (\<lambda>b. b AND 0x7f) bs)" using and7 [of "\<lambda>b. b"] by simp
  moreover have "pack (map (\<lambda>b. b AND 0x7f) bs) + ?m 0x25 = pack (map (\<lambda>b. (b AND 0x7f) + 0x25) bs)"
    by (rule add) (use b1 in simp)
  moreover have "pack (map (\<lambda>b. (b AND 0x7f) + 0x25) bs) AND ?m 0x7f = pack (map (\<lambda>b. ((b AND 0x7f) + 0x25) AND 0x7f) bs)"
    by (rule and7)
  moreover have "pack (map (\<lambda>b. ((b AND 0x7f) + 0x25) AND 0x7f) bs) + ?m 0x1a =
      pack (map (\<lambda>b. (((b AND 0x7f) + 0x25) AND 0x7f) + 0x1a) bs)" by (rule add) (use b2 in simp)
  moreover have "pack (map r bs) AND NOT (pack bs) = (pack (map (\<lambda>b. r b AND NOT b) bs) :: 'a word)" for r
    using pack_and [of "map r bs" "map NOT bs"] pack_not [where 'a = 'a, of bs] len
    by (simp add: zip_map_map zip_same_conv_map comp_def)
  moreover have "drop_bit 2 (pack (map r bs)) AND ?m 0x20 = pack (map (\<lambda>b. drop_bit 2 (r b) AND 0x20) bs)" for r
    using pack_shift_mask [where 'a = 'a, of "map r bs"] len by (simp add: comp_def)
  moreover have "pack bs + pack (map caseBit bs) = (pack (map toLowerAscii8 bs) :: 'a word)"
  proof -
    have "unat b + unat (caseBit b) < 256" for b using byte_less [of b] by (simp add: caseBit_eq)
    then show ?thesis using pack_add [of bs "map caseBit bs", where 'a = 'a]
      by (simp add: list_all2_conv_all_nth zip_map2 zip_same_conv_map comp_def toLowerAscii8_caseBit [abs_def])
  qed
  ultimately show ?thesis unfolding lowerWord_def Let_def caseBit_def [abs_def] by (simp only:)
qed

lemma unpack_pack: "8 * length bs \<le> LENGTH('a) \<Longrightarrow> unpack (length bs) (pack bs :: 'a::len word) = bs"
proof (induction bs)
  case (Cons b bs)
  have "(ucast (pack (b # bs) :: 'a word) :: 8 word) = b"
    unfolding pack_or using Cons.prems by (intro bit_word_eqI) (auto simp: bit_simps)
  moreover have "drop_bit 8 (pack (b # bs) :: 'a word) = pack bs"
  proof (rule bit_word_eqI)
    fix n assume n: "n < LENGTH('a)"
    have "\<not> bit b (8 + n)" using bit_imp_le_length [of b "8 + n"] by auto
    moreover have "\<not> bit (pack bs :: 'a word) n" if "\<not> 8 + n < LENGTH('a)"
      using that n Cons.prems by (auto simp: bit_pack)
    ultimately show "bit (drop_bit 8 (pack (b # bs) :: 'a word)) n = bit (pack bs :: 'a word) n"
      unfolding pack_or by (auto simp: bit_simps)
  qed
  ultimately show ?case using Cons by (simp del: pack.simps)
qed simp

lemma lower_words:
  "length bs = 4 \<Longrightarrow> unpack 4 (toLowerAscii32 (pack bs)) = map toLowerAscii8 bs"
  "length bs = 8 \<Longrightarrow> unpack 8 (toLowerAscii64 (pack bs)) = map toLowerAscii8 bs"
proof -
  have r: "replicate 4 b = [b, b, b, b]" "replicate 8 b = [b, b, b, b, b, b, b, b]" for b :: "8 word"
    by (simp_all add: numeral_eq_Suc)
  have "toLowerAscii32 w = lowerWord 4 w" "toLowerAscii64 v = lowerWord 8 v" for w v
    unfolding toLowerAscii32_def toLowerAscii64_def lowerWord_def Let_def r by simp_all
  then show "length bs = 4 \<Longrightarrow> unpack 4 (toLowerAscii32 (pack bs)) = map toLowerAscii8 bs"
    "length bs = 8 \<Longrightarrow> unpack 8 (toLowerAscii64 (pack bs)) = map toLowerAscii8 bs"
    using lowerWord_pack [where 'a = 32, of bs] unpack_pack [where 'a = 32, of "map toLowerAscii8 bs"]
      lowerWord_pack [where 'a = 64, of bs] unpack_pack [where 'a = 64, of "map toLowerAscii8 bs"] by auto
qed

section \<open>The whole buffer\<close>

text \<open>The first \<open>off\<close> characters are converted.\<close>

definition loweredTo :: "8 word list \<Rightarrow> nat \<Rightarrow> 8 word list" where
  "loweredTo str off = map asciiLower (take off str) @ drop off str"

definition lowers :: "nat \<Rightarrow> (8 word list \<Rightarrow> nat \<Rightarrow> 8 word list result) \<Rightarrow> bool" where
  "lowers k f \<longleftrightarrow> (\<forall>str off. off + k \<le> length str \<longrightarrow>
     f (loweredTo str off) off = Inr (loweredTo str (off + k)))"

lemma take_drop_lowered:
  assumes "off + k \<le> length str"
  shows "take off (loweredTo str off) = map asciiLower (take off str)"
    "take k (drop off (loweredTo str off)) = take k (drop off str)"
    "drop (off + k) (loweredTo str off) = drop (off + k) str"
    "map asciiLower (take off str) @ map asciiLower (take k (drop off str)) @ drop (off + k) str = loweredTo str (off + k)"
proof -
  have "k + off = off + k" by simp
  then show "take off (loweredTo str off) = map asciiLower (take off str)"
    "take k (drop off (loweredTo str off)) = take k (drop off str)"
    "drop (off + k) (loweredTo str off) = drop (off + k) str"
    using assms by (simp_all add: loweredTo_def add.commute)
  show "map asciiLower (take off str) @ map asciiLower (take k (drop off str)) @ drop (off + k) str = loweredTo str (off + k)"
    by (simp add: loweredTo_def take_add)
qed

lemma length_loweredTo [simp]: "length (loweredTo str off) = length str"
  by (simp add: loweredTo_def)

lemma lowers_steps: "lowers 1 lowerAt8" "lowers 4 lowerAt32" "lowers 8 lowerAt64"
proof -
  have 8: "map toLowerAscii8 bs = map asciiLower bs" for bs by (simp add: toLowerAscii8_eq)
  show "lowers 4 lowerAt32" "lowers 8 lowerAt64"
    by (auto simp: lowers_def lowerAt32_def lowerAt64_def take_drop_lowered lower_words 8)
  show "lowers 1 lowerAt8"
    unfolding lowers_def
  proof (intro allI impI)
    fix str :: "8 word list" and off assume off: "off + 1 \<le> length str"
    then have "loweredTo str off = map asciiLower (take off str) @ str ! off # drop (off + 1) str"
      by (simp add: loweredTo_def Cons_nth_drop_Suc)
    moreover have "loweredTo str (off + 1) = map asciiLower (take off str) @ asciiLower (str ! off) # drop (off + 1) str"
      using off by (simp add: loweredTo_def take_Suc_conv_app_nth)
    ultimately show "lowerAt8 (loweredTo str off) off = Inr (loweredTo str (off + 1))"
      using off by (simp add: lowerAt8_def toLowerAscii8_eq nth_append list_update_append guard_def)
  qed
qed


lemma lowerWhile_ok:
  assumes f: "lowers k f" and k: "0 < k" and lim: "limit \<le> length str" and off: "off \<le> limit"
    and n: "limit - off \<le> n * k"
  shows "\<exists>off'. lowerWhile f k n limit (loweredTo str off) off = Inr (loweredTo str off', off') \<and>
     off \<le> off' \<and> off' \<le> limit \<and> limit < off' + k"
  using off n
proof (induction n arbitrary: off)
  case (Suc n)
  show ?case
  proof (cases "off + k \<le> limit")
    case True
    then have "f (loweredTo str off) off = Inr (loweredTo str (off + k))"
      using f lim by (simp add: lowers_def)
    then show ?thesis using True Suc.IH [of "off + k"] Suc.prems by fastforce
  qed (use Suc.prems in auto)
qed (use k in auto)


lemma lowerWhile_all:
  assumes "lowers k f" "0 < k" "limit \<le> length str" "off \<le> limit"
  obtains off' where "lowerWhile f k limit limit (loweredTo str off) off = Inr (loweredTo str off', off')"
    "off' \<le> limit" "limit < off' + k"
proof -
  have "limit - off \<le> limit" by simp
  also have "limit \<le> limit * k" using assms(2) by (cases k) simp_all
  finally have "limit - off \<le> limit * k" .
  then show ?thesis using that lowerWhile_ok [OF assms] by blast
qed

lemma lowerHead_ok:
  "\<exists>off. lowerHead addr str = Inr (loweredTo str off, off) \<and> off \<le> length str"
proof -
  define n where "n = min (addr mod 4) (length str)"
  show ?thesis
  proof (cases "n = 0")
    case False
    define n' where "n' = min (4 - n) (length str)"
    have "n \<le> addr mod 4" "addr mod 4 < 4" by (simp_all add: n_def)
    then have n': "1 \<le> n'" "n' \<le> length str" using False by (auto simp: n'_def n_def Suc_le_eq)
    then have "lowerAt8 (loweredTo str 0) 0 = Inr (loweredTo str 1)"
      using lowers_steps(1) unfolding lowers_def by (metis add_0 le_trans)
    moreover obtain off where "lowerWhile lowerAt8 1 n' n' (loweredTo str 1) 1 = Inr (loweredTo str off, off)"
      "off \<le> n'"
      using lowerWhile_all [OF lowers_steps(1), of n' str 1] n' by auto
    ultimately show ?thesis using False n'
      by (auto simp: lowerHead_def Let_def n_def n'_def loweredTo_def)
  qed (auto simp: lowerHead_def Let_def n_def loweredTo_def)
qed

text \<open>
  C22: \<^verbatim>\<open>toLowerAscii\<close> is lower-casing: whatever the alignment of the buffer and its length,
  the mixture of single characters and of words of four and eight ends, stays
  inside the buffer, and has the effect of turning every \<open>A\<close> to \<open>Z\<close> into the small
  letter and leaving every other character, those above 127 included, as it is.
\<close>

theorem toLowerAscii_correct: "toLowerAscii addr str = Inr (map asciiLower str)"
proof -
  let ?len = "length str"
  obtain o1 where 1: "lowerHead addr str = Inr (loweredTo str o1, o1)" "o1 \<le> ?len"
    using lowerHead_ok by blast
  define o2 where "o2 = (if (addr + o1) mod 8 \<noteq> 0 \<and> o1 + 4 \<le> ?len then o1 + 4 else o1)"
  have 2: "(if (addr + o1) mod 8 \<noteq> 0 \<and> o1 + 4 \<le> ?len
      then res_bind (lowerAt32 (loweredTo str o1) o1) (\<lambda>s. Inr (s, o1 + 4))
      else Inr (loweredTo str o1, o1)) = Inr (loweredTo str o2, o2)" "o2 \<le> ?len"
    using lowers_steps(2) 1(2) by (auto simp: o2_def lowers_def)
  obtain o3 where 3: "lowerWhile lowerAt64 8 ?len ?len (loweredTo str o2) o2 = Inr (loweredTo str o3, o3)" "o3 \<le> ?len"
    using lowerWhile_all [OF lowers_steps(3), of ?len str o2] 2(2) by auto
  obtain o4 where 4: "lowerWhile lowerAt32 4 ?len ?len (loweredTo str o3) o3 = Inr (loweredTo str o4, o4)" "o4 \<le> ?len"
    using lowerWhile_all [OF lowers_steps(2), of ?len str o3] 3(2) by auto
  obtain o5 where 5: "lowerWhile lowerAt8 1 ?len ?len (loweredTo str o4) o4 = Inr (loweredTo str o5, o5)"
      "o5 \<le> ?len" "?len < o5 + 1"
    using lowerWhile_all [OF lowers_steps(1), of ?len str o4] 4(2) by auto
  have "loweredTo str o5 = map asciiLower str" using 5(2,3) by (simp add: loweredTo_def)
  then show ?thesis unfolding toLowerAscii_def Let_def 1(1) res_bind_Inr prod.case 2(1) 3(1) 4(1) 5(1) by simp
qed

end
