(* ===== verification/Text_Search.thy ===== *)
theory Text_Search
  imports Text_Case
begin

unbundle bit_operations_syntax

text \<open>
  Searching in ranges: \<^verbatim>\<open>qfind\<close>, \<^verbatim>\<open>find_first_of\<close> and the members of \<^verbatim>\<open>Range\<close> built on them
  (\<^verbatim>\<open>src/raster/util/Range.h\<close>, \<^verbatim>\<open>Range.cpp\<close>). A range is the list of its elements, a position is an
  offset from its beginning, and \<^verbatim>\<open>npos\<close> is \<open>None\<close>.
\<close>

section \<open>Substring search\<close>

text \<open>\<^verbatim>\<open>while (skip <= nsize_1 && !eq(needle[nsize_1 - skip], lastNeedle)) ++skip\<close>\<close>

function skipFrom :: "('a \<Rightarrow> 'a \<Rightarrow> bool) \<Rightarrow> 'a list \<Rightarrow> nat \<Rightarrow> nat \<Rightarrow> nat" where
  "skipFrom eq needle m skip =
     (if skip \<le> m \<and> \<not> eq (needle ! (m - skip)) (needle ! m) then skipFrom eq needle m (skip + 1) else skip)"
  by pat_completeness auto
termination by (relation "measure (\<lambda>(eq, needle, m, skip). m + 1 - skip)") auto

declare skipFrom.simps [simp del]

text \<open>The inner loop, which looks for the last character of the needle; an access behind the end is undefined.\<close>

fun scanLast :: "nat \<Rightarrow> ('a \<Rightarrow> 'a \<Rightarrow> bool) \<Rightarrow> 'a list \<Rightarrow> 'a list \<Rightarrow> nat \<Rightarrow> nat option result" where
  "scanLast 0 eq hay needle i = Inl Diverges"
| "scanLast (Suc n) eq hay needle i =
     (let m = length needle - 1
      in guard (i + m < length hay) Undefined
        (if \<not> eq (hay ! (i + m)) (needle ! m)
         then if i + 1 = length hay - m then Inr None else scanLast n eq hay needle (i + 1)
         else Inr (Some i)))"

text \<open>\<^verbatim>\<open>for (size_t j = 0; ; )\<close>\<close>

fun matchFrom :: "nat \<Rightarrow> ('a \<Rightarrow> 'a \<Rightarrow> bool) \<Rightarrow> 'a list \<Rightarrow> 'a list \<Rightarrow> nat \<Rightarrow> nat \<Rightarrow> bool result" where
  "matchFrom 0 eq hay needle i j = Inl Diverges"
| "matchFrom (Suc n) eq hay needle i j =
     guard (j < length needle) Assert_Failed
       (if \<not> eq (hay ! (i + j)) (needle ! j) then Inr False
        else if j + 1 = length needle then Inr True
        else matchFrom n eq hay needle i (j + 1))"

fun qfindLoop :: "nat \<Rightarrow> ('a \<Rightarrow> 'a \<Rightarrow> bool) \<Rightarrow> 'a list \<Rightarrow> 'a list \<Rightarrow> nat \<Rightarrow> nat \<Rightarrow> nat option result" where
  "qfindLoop 0 eq hay needle skip i = (if i < length hay - (length needle - 1) then Inl Diverges else Inr None)"
| "qfindLoop (Suc n) eq hay needle skip i =
     (if i < length hay - (length needle - 1)
      then res_bind (scanLast (length hay) eq hay needle i) (\<lambda>at. case at of
             None \<Rightarrow> Inr None
           | Some i1 \<Rightarrow> res_bind (matchFrom (length needle) eq hay needle i1 0) (\<lambda>found.
               if found then Inr (Some i1)
               else let skip1 = (if skip = 0 then skipFrom eq needle (length needle - 1) 1 else skip)
                    in qfindLoop n eq hay needle skip1 (i1 + skip1)))
      else Inr None)"

definition qfind :: "('a \<Rightarrow> 'a \<Rightarrow> bool) \<Rightarrow> 'a list \<Rightarrow> 'a list \<Rightarrow> nat option result" where
  "qfind eq hay needle =
     (if length hay < length needle then Inr None
      else if needle = [] then Inr (Some 0)
      else qfindLoop (length hay) eq hay needle 0 0)"

section \<open>Comparing characters\<close>

text \<open>\<^verbatim>\<open>AsciiCaseInsensitive\<close>; the characters are signed, so one above 127 is below \<^verbatim>\<open>'a'\<close>.\<close>

definition asciiCaseInsensitive :: "8 word \<Rightarrow> 8 word \<Rightarrow> bool" where
  "asciiCaseInsensitive lhs rhs =
     (let k = lhs XOR rhs
      in if k = 0 then True
         else if k \<noteq> 32 then False
         else let k = lhs OR rhs in 97 \<le> sint k \<and> sint k \<le> 122)"

section \<open>Any of several bytes\<close>

text \<open>
  A set of bytes in two arrays that are never initialised: \<open>sparse\<close> says where in \<open>dense\<close>
  an element is, if \<open>dense\<close> agrees.
\<close>

record byteset =
  bsSize :: nat
  sparse :: "8 word \<Rightarrow> 8 word"
  dense :: "nat \<Rightarrow> 8 word"

definition bsContains :: "8 word \<Rightarrow> byteset \<Rightarrow> bool" where
  "bsContains i s \<longleftrightarrow> unat (sparse s i) < bsSize s \<and> dense s (unat (sparse s i)) = i"

definition bsAdd :: "8 word \<Rightarrow> byteset \<Rightarrow> byteset result" where
  "bsAdd i s =
     (if \<not> bsContains i s
      then guard (bsSize s < 256) Undefined
        (Inr (s\<lparr>dense := (dense s)(bsSize s := i), sparse := (sparse s)(i := word_of_nat (bsSize s)),
               bsSize := (bsSize s + 1) mod 2 ^ 16\<rparr>))
      else Inr s)"

fun bsAddAll :: "8 word list \<Rightarrow> byteset \<Rightarrow> byteset result" where
  "bsAddAll [] s = Inr s"
| "bsAddAll (b # bs) s = res_bind (bsAdd b s) (bsAddAll bs)"

text \<open>The loops over the range, from offset \<open>index\<close>.\<close>

fun findIndexFrom :: "('a \<Rightarrow> bool) \<Rightarrow> nat \<Rightarrow> 'a list \<Rightarrow> nat option" where
  "findIndexFrom P ix [] = None"
| "findIndexFrom P ix (x # xs) = (if P x then Some ix else findIndexFrom P (ix + 1) xs)"

text \<open>\<open>junk1\<close> and \<open>junk2\<close> are what the two arrays happen to hold.\<close>

definition qfind_first_byte_of_byteset ::
  "(8 word \<Rightarrow> 8 word) \<Rightarrow> (nat \<Rightarrow> 8 word) \<Rightarrow> 8 word list \<Rightarrow> 8 word list \<Rightarrow> nat option result" where
  "qfind_first_byte_of_byteset junk1 junk2 hay needles =
     res_bind (bsAddAll needles \<lparr>bsSize = 0, sparse = junk1, dense = junk2\<rparr>) (\<lambda>s.
       Inr (findIndexFrom (\<lambda>b. bsContains b s) 0 hay))"

definition qfind_first_of :: "('a \<Rightarrow> 'a \<Rightarrow> bool) \<Rightarrow> 'a list \<Rightarrow> 'a list \<Rightarrow> nat option" where
  "qfind_first_of eq hay needles = findIndexFrom (\<lambda>b. list_ex (eq b) needles) 0 hay"

definition qfind_first_byte_of ::
  "(8 word \<Rightarrow> 8 word) \<Rightarrow> (nat \<Rightarrow> 8 word) \<Rightarrow> 8 word list \<Rightarrow> 8 word list \<Rightarrow> nat option result" where
  "qfind_first_byte_of junk1 junk2 hay needles =
     (if needles = [] \<or> hay = [] then Inr None
      else if (length needles \<ge> 4 \<and> length hay \<le> 10) \<or> (length needles \<ge> 16 \<and> length hay \<le> 64) \<or>
              length needles \<ge> 32
      then qfind_first_byte_of_byteset junk1 junk2 hay needles
      else Inr (qfind_first_of (=) hay needles))"

section \<open>Replacing\<close>

definition subpiece :: "'a list \<Rightarrow> nat \<Rightarrow> 'a list result" where
  "subpiece s first = guard (first \<le> length s) Out_Of_Range (Inr (drop first s))"

definition rangeFind :: "'a list \<Rightarrow> 'a list \<Rightarrow> nat \<Rightarrow> nat option result" where
  "rangeFind s str pos =
     (if pos > length s then Inr None
      else res_bind (subpiece s pos) (\<lambda>rest. res_bind (qfind (=) rest str) (\<lambda>ret.
        Inr (case ret of None \<Rightarrow> None | Some i \<Rightarrow> Some (i + pos)))))"

definition replaceAt :: "'a list \<Rightarrow> nat \<Rightarrow> 'a list \<Rightarrow> bool \<times> 'a list" where
  "replaceAt s pos replacement =
     (if length s < pos + length replacement then (False, s)
      else (True, take pos s @ replacement @ drop (pos + length replacement) s))"

fun replaceLoop :: "nat \<Rightarrow> 'a list \<Rightarrow> 'a list \<Rightarrow> 'a list \<Rightarrow> nat \<Rightarrow> nat \<Rightarrow> ('a list \<times> nat) result" where
  "replaceLoop 0 s source dest pos num = Inl Diverges"
| "replaceLoop (Suc n) s source dest pos num =
     res_bind (rangeFind s source pos) (\<lambda>found. case found of
        None \<Rightarrow> Inr (s, num)
      | Some i \<Rightarrow> replaceLoop n (snd (replaceAt s i dest)) source dest (pos + length source) (num + 1))"

definition replaceAll :: "'a list \<Rightarrow> 'a list \<Rightarrow> 'a list \<Rightarrow> ('a list \<times> nat) result" where
  "replaceAll s source dest =
     (if length source \<noteq> length dest then Inl Invalid_Argument
      else if dest = [] then Inr (s, 0)
      else replaceLoop (length s + 2) s source dest 0 0)"

section \<open>The first occurrence\<close>

definition occursAt :: "('a \<Rightarrow> 'a \<Rightarrow> bool) \<Rightarrow> 'a list \<Rightarrow> 'a list \<Rightarrow> nat \<Rightarrow> bool" where
  "occursAt eq hay needle i \<longleftrightarrow> i + length needle \<le> length hay \<and>
     (\<forall>j < length needle. eq (hay ! (i + j)) (needle ! j))"

lemma skipFrom_spec:
  "s \<le> skipFrom eq needle m s \<and>
   (\<forall>k. s \<le> k \<and> k < skipFrom eq needle m s \<longrightarrow> k \<le> m \<and> \<not> eq (needle ! (m - k)) (needle ! m))"
proof (induction eq needle m s rule: skipFrom.induct)
  case (1 eq needle m s)
  show ?case
  proof (cases "s \<le> m \<and> \<not> eq (needle ! (m - s)) (needle ! m)")
    case True
    then have "skipFrom eq needle m s = skipFrom eq needle m (s + 1)" by (subst skipFrom.simps) simp
    moreover have "s \<le> k \<longleftrightarrow> k = s \<or> s + 1 \<le> k" for k by auto
    ultimately show ?thesis using 1 True by (metis le_trans le_add1)
  next
    case False
    then have "skipFrom eq needle m s = s" by (subst skipFrom.simps) auto
    then show ?thesis by auto
  qed
qed

text \<open>What the scan for the last character finds.\<close>

definition scanned :: "('a \<Rightarrow> 'a \<Rightarrow> bool) \<Rightarrow> 'a list \<Rightarrow> 'a list \<Rightarrow> nat \<Rightarrow> nat option \<Rightarrow> bool" where
  "scanned eq hay needle i r \<longleftrightarrow>
     (let m = length needle - 1; hit = (\<lambda>k. eq (hay ! (k + m)) (needle ! m))
      in case r of
         None \<Rightarrow> \<forall>k \<ge> i. k + m < length hay \<longrightarrow> \<not> hit k
       | Some i1 \<Rightarrow> i \<le> i1 \<and> i1 + m < length hay \<and> hit i1 \<and> (\<forall>k. i \<le> k \<and> k < i1 \<longrightarrow> \<not> hit k))"

lemma scanLast_spec:
  assumes "i + (length needle - 1) < length hay" "length hay - i \<le> n"
  shows "\<exists>r. scanLast n eq hay needle i = Inr r \<and> scanned eq hay needle i r"
  using assms
proof (induction n arbitrary: i)
  case (Suc n)
  let ?m = "length needle - 1"
  have split: "i \<le> k \<longleftrightarrow> k = i \<or> i + 1 \<le> k" for k by auto
  consider (hit) "eq (hay ! (i + ?m)) (needle ! ?m)"
    | (last) "\<not> eq (hay ! (i + ?m)) (needle ! ?m)" "i + 1 = length hay - ?m"
    | (more) "\<not> eq (hay ! (i + ?m)) (needle ! ?m)" "i + 1 \<noteq> length hay - ?m" by blast
  then show ?case
  proof cases
    case hit
    then have "scanned eq hay needle i (Some i)" using Suc.prems by (auto simp: scanned_def Let_def)
    then show ?thesis using hit Suc.prems by (auto simp: Let_def)
  next
    case last
    then have "k = i" if "i \<le> k" "k + ?m < length hay" for k using that by linarith
    then show ?thesis using last Suc.prems by (auto simp: scanned_def Let_def)
  next
    case more
    have "i + 1 + ?m < length hay" "length hay - (i + 1) \<le> n" using more(2) Suc.prems by linarith+
    then obtain r where r: "scanLast n eq hay needle (i + 1) = Inr r" "scanned eq hay needle (i + 1) r"
      using Suc.IH by blast
    have "scanned eq hay needle i r"
      using r(2) more(1) split by (auto simp: scanned_def Let_def split: option.splits)
    then show ?thesis using r(1) more Suc.prems by (auto simp: Let_def)
  qed
qed simp

lemma matchFrom_spec:
  assumes "j < length needle" "length needle - j \<le> n"
  shows "matchFrom n eq hay needle i j = Inr (\<forall>k. j \<le> k \<and> k < length needle \<longrightarrow> eq (hay ! (i + k)) (needle ! k))"
  using assms
proof (induction n arbitrary: j)
  case (Suc n)
  have split: "j \<le> k \<longleftrightarrow> k = j \<or> j + 1 \<le> k" for k by auto
  show ?case
  proof (cases "j + 1 = length needle")
    case True
    then have "j \<le> k \<and> k < length needle \<longleftrightarrow> k = j" for k by auto
    then show ?thesis using True by simp
  next
    case False
    then show ?thesis using Suc.IH [of "j + 1"] Suc.prems split by auto
  qed
qed simp


text \<open>
  Between a place where the last character fits but the needle does not, and
  the place after the skip, the needle cannot start: its last character would
  have to occur earlier in the needle.
\<close>

lemma skip_sound:
  assumes eqv: "symp eq" "transp eq"
    and hit: "eq (hay ! (i + (length needle - 1))) (needle ! (length needle - 1))"
    and occ: "occursAt eq hay needle k" and k: "i < k" "k < i + skipFrom eq needle (length needle - 1) 1"
  shows False
proof -
  let ?m = "length needle - 1" and ?d = "k - i"
  have d: "1 \<le> ?d" "?d < skipFrom eq needle ?m 1" using k by auto
  then have m: "?d \<le> ?m" "\<not> eq (needle ! (?m - ?d)) (needle ! ?m)"
    using skipFrom_spec [of 1 eq needle ?m] by blast+
  have "?m - ?d < length needle" using m(1) d(1) by auto
  then have "eq (hay ! (k + (?m - ?d))) (needle ! (?m - ?d))" using occ by (simp add: occursAt_def)
  moreover have "k + (?m - ?d) = i + ?m" using m(1) k by simp
  ultimately have "eq (hay ! (i + ?m)) (needle ! (?m - ?d))" by metis
  then have "eq (needle ! (?m - ?d)) (hay ! (i + ?m))" using eqv(1) by (simp add: sympD)
  then have "eq (needle ! (?m - ?d)) (needle ! ?m)" using hit eqv(2) by (blast dest: transpD)
  with m(2) show False ..
qed

definition firstOccurrence :: "('a \<Rightarrow> 'a \<Rightarrow> bool) \<Rightarrow> 'a list \<Rightarrow> 'a list \<Rightarrow> nat option \<Rightarrow> bool" where
  "firstOccurrence eq hay needle r \<longleftrightarrow>
     (case r of
        None \<Rightarrow> \<forall>k. \<not> occursAt eq hay needle k
      | Some i \<Rightarrow> occursAt eq hay needle i \<and> (\<forall>k < i. \<not> occursAt eq hay needle k))"

lemma occursAt_hit:
  "occursAt eq hay needle k \<Longrightarrow> needle \<noteq> [] \<Longrightarrow>
     k + (length needle - 1) < length hay \<and> eq (hay ! (k + (length needle - 1))) (needle ! (length needle - 1))"
  by (cases needle) (auto simp: occursAt_def)

lemma qfindLoop_spec:
  assumes eqv: "symp eq" "transp eq" and ne: "needle \<noteq> []" "length needle \<le> length hay"
    and skip: "skip = 0 \<or> skip = skipFrom eq needle (length needle - 1) 1"
    and before: "\<forall>k < i. \<not> occursAt eq hay needle k" and n: "length hay - i \<le> n"
  shows "\<exists>r. qfindLoop n eq hay needle skip i = Inr r \<and> firstOccurrence eq hay needle r"
  using skip before n
proof (induction n arbitrary: i skip)
  case 0
  then have "\<not> occursAt eq hay needle k" for k
    using ne occursAt_hit [of eq hay needle k] by (cases "k < i") auto
  then show ?case using 0 by (auto simp: firstOccurrence_def)
next
  case (Suc n)
  let ?m = "length needle - 1"
  show ?case
  proof (cases "i < length hay - ?m")
    case False
    then have "\<not> occursAt eq hay needle k" for k
      using Suc.prems(2) occursAt_hit [of eq hay needle k] ne by (cases "k < i") auto
    then show ?thesis using False by (auto simp: firstOccurrence_def)
  next
    case True
    then have "i + ?m < length hay" by linarith
    then obtain r where r: "scanLast (length hay) eq hay needle i = Inr r" "scanned eq hay needle i r"
      using scanLast_spec [of i needle hay "length hay" eq] by auto
    show ?thesis
    proof (cases r)
      case None
      then have "\<not> occursAt eq hay needle k" for k
        using r(2) Suc.prems(2) occursAt_hit [of eq hay needle k] ne
        by (cases "k < i") (auto simp: scanned_def Let_def)
      then show ?thesis using True r(1) None by (auto simp: firstOccurrence_def)
    next
      case (Some i1)
      have i1: "i \<le> i1" "i1 + ?m < length hay" "eq (hay ! (i1 + ?m)) (needle ! ?m)"
        and mid: "\<And>k. i \<le> k \<Longrightarrow> k < i1 \<Longrightarrow> \<not> occursAt eq hay needle k"
        using r(2) Some occursAt_hit [of eq hay needle] ne by (auto simp: scanned_def Let_def)
      have b1: "\<not> occursAt eq hay needle k" if "k < i1" for k
        using that Suc.prems(2) mid [of k] by (cases "k < i") auto
      have ma: "matchFrom (length needle) eq hay needle i1 0 = Inr (occursAt eq hay needle i1)"
        using matchFrom_spec [of 0 needle "length needle" eq hay i1] ne i1(2) by (auto simp: occursAt_def)
      show ?thesis
      proof (cases "occursAt eq hay needle i1")
        case found: True
        then show ?thesis using True r(1) Some ma b1 by (auto simp: firstOccurrence_def)
      next
        case notf: False
        define sk where "sk = skipFrom eq needle ?m 1"
        have sk: "1 \<le> sk" using skipFrom_spec [of 1 eq needle ?m] by (simp add: sk_def)
        have "\<not> occursAt eq hay needle k" if "k < i1 + sk" for k
        proof (cases k i1 rule: linorder_cases)
          case greater
          then show ?thesis using that skip_sound [OF eqv i1(3), of k] by (auto simp: sk_def)
        qed (use b1 notf in auto)
        moreover have less: "length hay - (i1 + sk) \<le> n" using Suc.prems(3) i1(1) sk by linarith
        ultimately obtain r' where "qfindLoop n eq hay needle sk (i1 + sk) = Inr r'" "firstOccurrence eq hay needle r'"
          using Suc.IH [of sk "i1 + sk"] less by (auto simp: sk_def)
        moreover have "(if skip = 0 then sk else skip) = sk" using Suc.prems(1) sk by (auto simp: sk_def)
        moreover have "skipFrom eq needle (length needle - Suc 0) (Suc 0) = sk" by (simp add: sk_def)
        ultimately show ?thesis using True r(1) Some ma notf by (auto simp: Let_def)
      qed
    qed
  qed
qed


lemma qfind_spec:
  assumes "symp eq" "transp eq"
  shows "\<exists>r. qfind eq hay needle = Inr r \<and> firstOccurrence eq hay needle r"
proof (cases "length hay < length needle \<or> needle = []")
  case True
  then show ?thesis by (auto simp: qfind_def firstOccurrence_def occursAt_def)
next
  case False
  then show ?thesis using qfindLoop_spec [OF assms, of needle hay 0 0 "length hay"] by (auto simp: qfind_def)
qed

section \<open>The byte set\<close>

text \<open>Whatever the arrays held before: the entries of \<open>dense\<close> below the size point back at themselves.\<close>

definition byteset_ok :: "byteset \<Rightarrow> bool" where
  "byteset_ok s \<longleftrightarrow> bsSize s \<le> 256 \<and> (\<forall>k < bsSize s. unat (sparse s (dense s k)) = k)"

lemma byteset_room:
  assumes ok: "byteset_ok s" and i: "\<not> bsContains i s"
  shows "bsSize s < 256"
proof -
  have "inj_on (dense s) {..<bsSize s}"
    using ok by (intro inj_onI) (metis byteset_ok_def lessThan_iff)
  moreover have "dense s ` {..<bsSize s} \<subseteq> UNIV - {i}"
    using ok i by (auto simp: byteset_ok_def bsContains_def)
  then have "card (dense s ` {..<bsSize s}) \<le> card (UNIV - {i} :: 8 word set)"
    by (intro card_mono) simp_all
  ultimately have "bsSize s \<le> card (UNIV - {i} :: 8 word set)" by (simp add: card_image)
  also have "\<dots> = 255" by (simp add: card_Diff_singleton card_word)
  finally show ?thesis by simp
qed

lemma bsAdd_ok:
  assumes ok: "byteset_ok s"
  shows "\<exists>s'. bsAdd i s = Inr s' \<and> byteset_ok s' \<and> (\<forall>j. bsContains j s' \<longleftrightarrow> j = i \<or> bsContains j s)"
proof (cases "bsContains i s")
  case False
  note room = byteset_room [OF ok False]
  define s' where "s' = s\<lparr>dense := (dense s)(bsSize s := i), sparse := (sparse s)(i := word_of_nat (bsSize s)),
    bsSize := bsSize s + 1\<rparr>"
  have u: "unat (word_of_nat (bsSize s) :: 8 word) = bsSize s" using room by (simp add: unat_of_nat)
  have "dense s k \<noteq> i" if "k < bsSize s" for k
    using that ok False by (auto simp: byteset_ok_def bsContains_def)
  then have "byteset_ok s'" using ok room u by (auto simp: byteset_ok_def s'_def less_Suc_eq)
  moreover have "bsContains j s' \<longleftrightarrow> j = i \<or> bsContains j s" for j
    using False u by (auto simp: bsContains_def s'_def less_Suc_eq)
  moreover have "bsAdd i s = Inr s'" using False room by (simp add: bsAdd_def s'_def)
  ultimately show ?thesis by blast
qed (use ok in \<open>auto simp: bsAdd_def\<close>)

lemma bsAddAll_ok:
  assumes "byteset_ok s"
  shows "\<exists>s'. bsAddAll bs s = Inr s' \<and> (\<forall>j. bsContains j s' \<longleftrightarrow> j \<in> set bs \<or> bsContains j s)"
  using assms
proof (induction bs arbitrary: s)
  case (Cons b bs)
  obtain s1 where "bsAdd b s = Inr s1" "byteset_ok s1" "\<forall>j. bsContains j s1 \<longleftrightarrow> j = b \<or> bsContains j s"
    using bsAdd_ok [OF Cons.prems] by blast
  then show ?case using Cons.IH [of s1] by auto
qed simp

text \<open>The least position whose element satisfies \<open>P\<close>.\<close>

definition firstWhere :: "('a \<Rightarrow> bool) \<Rightarrow> 'a list \<Rightarrow> nat option \<Rightarrow> bool" where
  "firstWhere P xs r \<longleftrightarrow>
     (case r of
        None \<Rightarrow> \<forall>x \<in> set xs. \<not> P x
      | Some i \<Rightarrow> i < length xs \<and> P (xs ! i) \<and> (\<forall>k < i. \<not> P (xs ! k)))"

lemma findIndexFrom_shift: "findIndexFrom P (ix + d) xs = map_option (\<lambda>i. i + d) (findIndexFrom P ix xs)"
  by (induction xs arbitrary: ix) (simp_all flip: add_Suc)

lemma findIndexFrom_spec: "firstWhere P xs (findIndexFrom P 0 xs)"
proof (induction xs)
  case (Cons x xs)
  then show ?case using findIndexFrom_shift [of P 0 1 xs]
    by (cases "findIndexFrom P 0 xs") (auto simp: firstWhere_def less_Suc_eq_0_disj)
qed (simp add: firstWhere_def)

lemma findIndexFrom_cong: "(\<And>x. P x = Q x) \<Longrightarrow> findIndexFrom P ix xs = findIndexFrom Q ix xs"
  by (induction xs arbitrary: ix) auto

lemma findIndexFrom_none: "(\<And>x. x \<in> set xs \<Longrightarrow> \<not> P x) \<Longrightarrow> findIndexFrom P ix xs = None"
  by (induction xs arbitrary: ix) auto

lemma qfind_first_byte_of_eq:
  "qfind_first_byte_of junk1 junk2 hay needles = Inr (findIndexFrom (\<lambda>b. b \<in> set needles) 0 hay)"
proof -
  have "byteset_ok \<lparr>bsSize = 0, sparse = junk1, dense = junk2\<rparr>" by (simp add: byteset_ok_def)
  from bsAddAll_ok [OF this, of needles]
  have "qfind_first_byte_of_byteset junk1 junk2 hay needles = Inr (findIndexFrom (\<lambda>b. b \<in> set needles) 0 hay)"
    by (auto simp: qfind_first_byte_of_byteset_def bsContains_def intro!: findIndexFrom_cong)
  moreover have "qfind_first_of (=) hay needles = findIndexFrom (\<lambda>b. b \<in> set needles) 0 hay"
    by (auto simp: qfind_first_of_def list_ex_iff intro!: findIndexFrom_cong)
  moreover have "findIndexFrom (\<lambda>b. b \<in> set needles) 0 hay = None" if "needles = [] \<or> hay = []"
    using that by (auto intro!: findIndexFrom_none)
  ultimately show ?thesis by (simp add: qfind_first_byte_of_def)
qed

section \<open>Case-insensitive comparison\<close>

lemma bit_5_iff: "bit (c :: 8 word) 5 \<longleftrightarrow> odd (unat c div 32)"
proof -
  have "bit c 5 \<longleftrightarrow> bit (unat c) 5" by (simp add: bit_simps)
  then show ?thesis by (simp add: bit_iff_odd)
qed

lemma byte_32_ops:
  fixes c :: "8 word"
  shows "c OR 32 = (if bit c 5 then c else c + 32)" "c XOR 32 = (if bit c 5 then c - 32 else c + 32)"
proof -
  have b: "bit (32 :: 8 word) n \<longleftrightarrow> n = 5" for n by (auto simp: bit_simps bit_32_iff)
  show "c OR 32 = (if bit c 5 then c else c + 32)"
  proof (cases "bit c 5")
    case True
    then show ?thesis by (auto intro!: bit_eqI simp: bit_or_iff b bit_32_iff)
  next
    case False
    then have "c AND 32 = 0" by (auto intro!: bit_eqI simp: bit_and_iff b bit_32_iff)
    then show ?thesis using False disjunctive_add_eq_or [of c 32] by simp
  qed
  show "c XOR 32 = (if bit c 5 then c - 32 else c + 32)"
  proof (cases "bit c 5")
    case True
    then have "NOT c AND 32 = 0" by (auto intro!: bit_eqI simp: bit_simps b bit_32_iff)
    then have "c - 32 = c AND NOT 32" by (rule disjunctive_diff_eq_and_not)
    also have "\<dots> = c XOR 32" using True by (auto intro!: bit_eqI simp: bit_simps b bit_32_iff)
    finally show ?thesis using True by simp
  next
    case False
    then have "c AND 32 = 0" by (auto intro!: bit_eqI simp: bit_and_iff b bit_32_iff)
    then show ?thesis using False disjunctive_add_eq_xor [of c 32] by simp
  qed
qed

text \<open>Two characters are equal up to case exactly if they differ in nothing but bit 5 of a letter.\<close>

lemma sint_byte: "sint (k :: 8 word) = (if unat k < 128 then int (unat k) else int (unat k) - 256)"
proof -
  have "(int u + 128) mod 256 - 128 = (if u < 128 then int u else int u - 256)" if "u < 256" for u
  proof (cases "u < 128")
    case False
    then have "(int u + 128) mod 256 = (int u - 128) mod 256" using mod_add_self2 [of "int u - 128" 256] by (simp add: add.commute)
    also have "\<dots> = int u - 128" using that False by (intro mod_pos_pos_trivial) simp_all
    finally show ?thesis using False by simp
  qed (simp add: mod_pos_pos_trivial)
  moreover have "sint k = (uint k + 128) mod 256 - 128"
    by (simp add: sint_uint signed_take_bit_eq_take_bit_shift take_bit_eq_mod)
  ultimately show ?thesis using byte_less [of k] by (metis uint_nat)
qed

lemma sint_letter: "97 \<le> sint (k :: 8 word) \<and> sint k \<le> 122 \<longleftrightarrow> 97 \<le> unat k \<and> unat k \<le> 122"
proof -
  have "97 \<le> int u \<and> int u \<le> 122 \<longleftrightarrow> 97 \<le> u \<and> u \<le> 122" for u by auto
  then show ?thesis using byte_less [of k] unfolding sint_byte by (cases "unat k < 128") (simp_all only: if_True if_False, linarith)
qed

lemma xor_32_iff: "l XOR r = 32 \<longleftrightarrow> r = l XOR (32 :: 8 word)"
proof
  assume "l XOR r = 32"
  then have "l XOR (l XOR r) = l XOR 32" by simp
  then show "r = l XOR 32" by (simp flip: xor.assoc)
qed (simp flip: xor.assoc)

lemma xor_zero_iff: "l XOR r = 0 \<longleftrightarrow> l = (r :: 8 word)"
proof
  assume "l XOR r = 0"
  then have "l XOR (l XOR r) = l" by simp
  then show "l = r" by (simp flip: xor.assoc)
qed simp

lemma xor_32_inject: "l XOR 32 = r XOR 32 \<longleftrightarrow> l = (r :: 8 word)"
  using xor_zero_iff [of "l XOR 32" "r XOR 32"] xor_zero_iff [of l r] by (simp add: ac_simps flip: xor.assoc)

lemma xor_32_neq: "l XOR 32 \<noteq> (l :: 8 word)"
proof
  assume "l XOR 32 = l"
  then have "l XOR (l XOR 32) = 0" by simp
  then show False by (simp flip: xor.assoc)
qed

lemma or_32_xor: "l OR (l XOR 32) = l OR (32 :: 8 word)"
  by (auto intro!: bit_eqI simp: bit_simps)

lemma lower_upper: "asciiLower c = c XOR 32" if "65 \<le> unat c" "unat c \<le> 90"
proof -
  have "unat c div 32 = 2" using that by linarith
  then have "\<not> bit c 5" by (simp add: bit_5_iff)
  then show ?thesis using that by (simp add: asciiLower_def byte_32_ops word_le_nat_alt)
qed

lemma asciiLower_cases:
  obtains (upper) "65 \<le> unat c" "unat c \<le> 90" "asciiLower c = c XOR 32" "unat (c XOR 32) = unat c + 32"
  | (same) "\<not> (65 \<le> unat c \<and> unat c \<le> 90)" "asciiLower c = c"
proof (cases "65 \<le> unat c \<and> unat c \<le> 90")
  case True
  then have "unat c div 32 = 2" by linarith
  then have "c XOR 32 = c + 32" by (simp add: bit_5_iff byte_32_ops)
  then show thesis using upper True lower_upper by (simp add: unat_plus_small)
next
  case False
  then show thesis using same by (simp add: asciiLower_def word_le_nat_alt)
qed

lemma or_32_letter: "97 \<le> unat (l OR 32) \<and> unat (l OR 32) \<le> 122 \<longleftrightarrow> asciiLower l = asciiLower (l XOR 32)"
  for l :: "8 word"
proof -
  have inv: "l XOR 32 XOR 32 = l" "l XOR 32 \<noteq> l" by (simp_all add: xor.assoc xor_32_neq)
  show ?thesis
  proof (cases "bit l 5")
    case True
    then have odd: "odd (unat l div 32)" by (simp add: bit_5_iff)
    then have ge: "32 \<le> unat l" by (cases "unat l < 32") auto
    have o: "l OR 32 = l" and x: "unat (l XOR 32) = unat l - 32"
      using True ge by (simp_all add: byte_32_ops unat_sub word_le_nat_alt)
    have "asciiLower l = l"
    proof (cases l rule: asciiLower_cases)
      case upper
      then have "unat l div 32 = 2" by linarith
      then show ?thesis using odd by simp
    qed
    then show ?thesis using inv x ge by (cases "l XOR 32" rule: asciiLower_cases) (auto simp: o xor.assoc)
  next
    case False
    then have even: "even (unat l div 32)" by (simp add: bit_5_iff)
    then have "unat l div 32 \<noteq> 7" by auto
    then have lt: "unat l < 224" using byte_less [of l] by linarith
    have o: "unat (l OR 32) = unat l + 32" and x: "unat (l XOR 32) = unat l + 32"
      using False lt by (simp_all add: byte_32_ops unat_plus_small)
    have n: "asciiLower (l XOR 32) = l XOR 32"
    proof (cases "l XOR 32" rule: asciiLower_cases)
      case upper
      then have "unat l div 32 = 1" using x by linarith
      then show ?thesis using even by simp
    qed
    show ?thesis using inv x by (cases l rule: asciiLower_cases) (auto simp: o n)
  qed
qed

lemma asciiCaseInsensitive_iff: "asciiCaseInsensitive l r \<longleftrightarrow> asciiLower l = asciiLower r"
proof -
  consider (eq) "l = r" | (case32) "l \<noteq> r" "r = l XOR 32" | (other) "l \<noteq> r" "r \<noteq> l XOR 32" by blast
  then show ?thesis
  proof cases
    case eq
    then show ?thesis by (simp add: asciiCaseInsensitive_def)
  next
    case case32
    then have "l XOR r = 32" "l OR r = l OR 32" by (simp_all add: xor_32_iff or_32_xor)
    then show ?thesis using or_32_letter [of l] sint_letter [of "l OR 32"] case32
      by (simp add: asciiCaseInsensitive_def Let_def)
  next
    case other
    then have "l XOR r \<noteq> 0" "l XOR r \<noteq> 32" by (simp_all add: xor_32_iff xor_zero_iff)
    moreover have "asciiLower l \<noteq> asciiLower r"
      using other xor_32_iff [of l r] xor_32_iff [of r l]
      by (cases l rule: asciiLower_cases; cases r rule: asciiLower_cases) (auto simp: xor_32_inject xor.assoc)
    ultimately show ?thesis by (simp add: asciiCaseInsensitive_def)
  qed
qed

section \<open>Replacing returns\<close>

lemma rangeFind_within:
  "\<exists>r. rangeFind s str pos = Inr r \<and>
       (\<forall>i. r = Some i \<longrightarrow> pos \<le> i \<and> pos \<le> length s \<and> i + length str \<le> length s \<and> take (length str) (drop i s) = str)"
proof (cases "pos \<le> length s")
  case True
  have "symp ((=) :: 'a \<Rightarrow> _)" "transp ((=) :: 'a \<Rightarrow> _)" by (auto intro: sympI transpI)
  from qfind_spec [OF this, of "drop pos s" str]
  obtain r where r: "qfind (=) (drop pos s) str = Inr r" "firstOccurrence (=) (drop pos s) str r" by blast
  have "i + pos + length str \<le> length s \<and> take (length str) (drop (i + pos) s) = str" if "r = Some i" for i
  proof -
    have o: "occursAt (=) (drop pos s) str i" using r(2) that by (simp add: firstOccurrence_def)
    then have "i + pos + length str \<le> length s" using True by (auto simp: occursAt_def)
    moreover have "s ! (i + pos + j) = str ! j" if "j < length str" for j
      using o that True by (auto simp: occursAt_def nth_drop ac_simps)
    ultimately show ?thesis by (auto intro!: nth_equalityI)
  qed
  then show ?thesis using True r(1) by (auto simp: rangeFind_def subpiece_def split: option.splits)
qed (simp add: rangeFind_def)

lemma replaceAt_length: "length (snd (replaceAt s i dest)) = length s"
  by (simp add: replaceAt_def)

lemma replaceLoop_returns:
  assumes "source \<noteq> []" "length s + 2 - pos \<le> n" "0 < n"
  shows "\<exists>s' k. replaceLoop n s source dest pos num = Inr (s', k) \<and> length s' = length s"
  using assms
proof (induction n arbitrary: s pos num)
  case (Suc n)
  obtain r where r: "rangeFind s source pos = Inr r" "\<forall>i. r = Some i \<longrightarrow> pos \<le> length s"
    using rangeFind_within [of s source pos] by blast
  show ?case
  proof (cases r)
    case (Some i)
    have "length source \<ge> 1" using Suc.prems(1) by (cases source) auto
    then have "length s + 2 - (pos + length source) \<le> n" "0 < n" using Suc.prems r Some by auto
    then obtain s' k where "replaceLoop n (snd (replaceAt s i dest)) source dest (pos + length source) (num + 1) = Inr (s', k)"
      "length s' = length s"
      using Suc.IH [of "snd (replaceAt s i dest)" "pos + length source" "num + 1"] Suc.prems(1)
      by (auto simp: replaceAt_length)
    then show ?thesis using r Some by simp
  qed (use r in simp)
qed simp

text \<open>It throws exactly for different lengths, and otherwise returns a text of the same length.\<close>

lemma replaceAll_returns:
  "replaceAll s source dest = Inl Invalid_Argument \<and> length source \<noteq> length dest \<or>
   (\<exists>s' k. replaceAll s source dest = Inr (s', k) \<and> length s' = length s) \<and> length source = length dest"
proof (cases "length source = length dest \<and> dest \<noteq> []")
  case True
  then have "source \<noteq> []" by auto
  then show ?thesis using True replaceLoop_returns [of source s 0 "length s + 2" dest 0] by (auto simp: replaceAll_def)
qed (auto simp: replaceAll_def)

text \<open>
  After a match the search goes on from a place that can lie before it, so that
  what was just written is replaced again: one occurrence, two replacements.
\<close>

lemma replaceAll_replaces_again: "replaceAll [9, 9, 1, 1, 2] [1, 2] [2, 1 :: nat] = Inr ([9, 9, 2, 1, 1], 2)"
  by code_simp

section \<open>The properties\<close>

text \<open>
  C23: For every comparison that is symmetric and transitive, \<^verbatim>\<open>qfind\<close> reads only inside
  the two ranges, returns, and returns the first position at which the needle
  occurs, or \<^verbatim>\<open>npos\<close> if there is none: the skips leave out no occurrence. The
  comparison that ignores case is such a comparison: it relates two characters
  if and only if they are the same in lower case.
\<close>

theorem qfind_first:
  assumes "symp eq" "transp eq"
  shows "(\<exists>r. qfind eq hay needle = Inr r \<and> firstOccurrence eq hay needle r) \<and>
    symp asciiCaseInsensitive \<and> transp asciiCaseInsensitive \<and>
    (\<forall>l r. asciiCaseInsensitive l r \<longleftrightarrow> asciiLower l = asciiLower r)"
  using qfind_spec [OF assms] by (auto simp: asciiCaseInsensitive_iff intro: sympI transpI)

theorem qfind_first_witness:
  "(\<exists>r. qfind asciiCaseInsensitive [104, 69, 76, 108, 79] [108, 76, 111] = Inr r \<and>
        firstOccurrence asciiCaseInsensitive [104, 69, 76, 108, 79] [108, 76, 111] r) \<and>
   qfind asciiCaseInsensitive [104, 69, 76, 108, 79] [108, 76, 111] = Inr (Some 2)"
proof
  have "symp asciiCaseInsensitive" "transp asciiCaseInsensitive"
    by (auto simp: asciiCaseInsensitive_iff intro: sympI transpI)
  from qfind_first [OF this]
  show "\<exists>r. qfind asciiCaseInsensitive [104, 69, 76, 108, 79] [108, 76, 111] = Inr r \<and>
        firstOccurrence asciiCaseInsensitive [104, 69, 76, 108, 79] [108, 76, 111] r" by blast
  show "qfind asciiCaseInsensitive [104, 69, 76, 108, 79] [108, 76, 111] = Inr (Some 2)" by code_simp
qed

text \<open>
  \<^verbatim>\<open>qfind_first_byte_of\<close> returns the first position that holds one of the needles,
  whichever of its two algorithms it chooses, and whatever the uninitialised
  arrays of its byte set held before; the set never writes behind its arrays.
\<close>

theorem first_byte_of_any_memory:
  "\<exists>r. qfind_first_byte_of junk1 junk2 hay needles = Inr r \<and> firstWhere (\<lambda>b. b \<in> set needles) hay r"
  by (simp add: qfind_first_byte_of_eq findIndexFrom_spec)

end
