(* ===== verification/Wire_Protocol.thy ===== *)
theory Wire_Protocol
  imports Buffer_Writer Text_Search
begin

text \<open>
  How bytes get from a socket into the buffers of an event and back: \<^verbatim>\<open>Protocol\<close> and
  \<^verbatim>\<open>HBinaryProtocol\<close> (\<^verbatim>\<open>src/raster/net/Protocol.h\<close>, \<^verbatim>\<open>Protocol.cpp\<close>), and the framing of the binary
  protocol (\<^verbatim>\<open>src/raster/protocol/binary\<close>; the ones of \<^verbatim>\<open>proto\<close> and \<^verbatim>\<open>thrift\<close> are the same). The
  socket is a parameter: \<open>recv\<close> and \<open>send\<close> take the state of the environment to an
  answer and a new state, and \<open>timedOut\<close> is what \<^verbatim>\<open>isReadTimeout\<close> and \<^verbatim>\<open>isWriteTimeout\<close> say in
  that state.
\<close>

section \<open>Reading and writing\<close>

text \<open>
  A positive result, 0, and a negative one with \<^verbatim>\<open>EWOULDBLOCK\<close> or \<^verbatim>\<open>EAGAIN\<close>, with
  \<^verbatim>\<open>ECONNRESET\<close>, and with any other error.
\<close>

datatype recv_answer = Received "byte list" | Closed | RecvBlock | ConnReset | RecvError

datatype send_answer = Sent nat | SendBlock | SendError

type_synonym 's receiver = "nat \<Rightarrow> 's \<Rightarrow> recv_answer \<times> 's"
type_synonym 's sender = "byte list \<Rightarrow> 's \<Rightarrow> send_answer \<times> 's"

text \<open>The part of an event the protocols work on; \<open>isTimeout\<close> is whether its type was set to \<^verbatim>\<open>TIMEOUT\<close>.\<close>

record conn =
  bufs :: bufheap
  rbuf :: chain
  rlen :: nat
  wbuf :: chain
  wlen :: nat
  isTimeout :: bool

definition CHUNK_SIZE :: nat where "CHUNK_SIZE = 4096"

definition appenderOf :: "conn \<Rightarrow> appender" where
  "appenderOf c = \<lparr>aheap = bufs c, achain = rbuf c, growth = CHUNK_SIZE\<rparr>"

definition putAppender :: "appender \<Rightarrow> conn \<Rightarrow> conn" where
  "putAppender a c = c\<lparr>bufs := aheap a, rbuf := achain a\<rparr>"

text \<open>
  \<^verbatim>\<open>while (event->rlen() > 0)\<close>. The bytes received are written behind the data and then
  counted. Every turn that goes on takes a byte at least.
\<close>

fun readLoop :: "nat \<Rightarrow> 's receiver \<Rightarrow> ('s \<Rightarrow> bool) \<Rightarrow> appender \<Rightarrow> conn \<Rightarrow> 's \<Rightarrow> (int \<times> conn \<times> 's) result" where
  "readLoop 0 recv timedOut a c s = (if rlen c > 0 then Inl Diverges else Inr (0, putAppender a c, s))"
| "readLoop (Suc n) recv timedOut a c s =
     (if rlen c > 0
      then case recv (rlen c) s of
          (Received bs, s1) \<Rightarrow> res_bind (writeTail a bs) (\<lambda>a1.
            readLoop n recv timedOut a1 (c\<lparr>rlen := rlen c - length bs\<rparr>) s1)
        | (Closed, s1) \<Rightarrow> Inr (2, putAppender a c, s1)
        | (ConnReset, s1) \<Rightarrow> Inr (2, putAppender a c, s1)
        | (RecvBlock, s1) \<Rightarrow>
            if timedOut s1 then Inr (-1, (putAppender a c)\<lparr>isTimeout := True\<rparr>, s1)
            else Inr (1, putAppender a c, s1)
        | (RecvError, s1) \<Rightarrow> Inr (-1, putAppender a c, s1)
      else Inr (0, putAppender a c, s))"

definition protocolReadData :: "'s receiver \<Rightarrow> ('s \<Rightarrow> bool) \<Rightarrow> conn \<Rightarrow> 's \<Rightarrow> (int \<times> conn \<times> 's) result" where
  "protocolReadData recv timedOut c s =
     res_bind (ensure (appenderOf c) (rlen c)) (\<lambda>a. readLoop (rlen c) recv timedOut a c s)"

fun writeLoop ::
  "nat \<Rightarrow> 's sender \<Rightarrow> ('s \<Rightarrow> bool) \<Rightarrow> pieces \<Rightarrow> cursor \<Rightarrow> conn \<Rightarrow> 's \<Rightarrow> (int \<times> conn \<times> 's) result" where
  "writeLoop 0 send timedOut ps cur c s = (if \<not> isAtEnd ps cur then Inl Diverges else Inr (0, c, s))"
| "writeLoop (Suc n) send timedOut ps cur c s =
     (if \<not> isAtEnd ps cur
      then let (p, cur1) = peek ps cur
           in case send p s of
               (Sent r, s1) \<Rightarrow> res_bind (skip ps r cur1) (\<lambda>cur2.
                 writeLoop n send timedOut ps cur2 (c\<lparr>wlen := wlen c + r\<rparr>) s1)
             | (SendBlock, s1) \<Rightarrow>
                 if timedOut s1 then Inr (-1, c\<lparr>isTimeout := True\<rparr>, s1) else Inr (1, c, s1)
             | (SendError, s1) \<Rightarrow> Inr (-1, c, s1)
      else Inr (0, c, s))"

definition protocolWriteData :: "'s sender \<Rightarrow> ('s \<Rightarrow> bool) \<Rightarrow> conn \<Rightarrow> 's \<Rightarrow> (int \<times> conn \<times> 's) result" where
  "protocolWriteData send timedOut c s =
     (let ps = chainPieces (bufs c) (wbuf c)
      in res_bind (skip ps (wlen c) newCursor) (\<lambda>cur.
           writeLoop (length (concat ps)) send timedOut ps cur c s))"

text \<open>
  \<^verbatim>\<open>readDataUntil\<close>. The appender points at the last buffer of the chain, and \<^verbatim>\<open>coalesce\<close> releases
  every buffer but the first: when the chain had more than one, the appender
  dangles, and the next turn would use a released buffer. Only a turn with an
  appender that still holds can go on, and it takes a byte of the room of the
  single buffer, so that the room and two more turns are enough.
\<close>

fun untilLoop ::
  "nat \<Rightarrow> 's receiver \<Rightarrow> ('s \<Rightarrow> bool) \<Rightarrow> byte list \<Rightarrow> bool \<Rightarrow> conn \<Rightarrow> 's \<Rightarrow> (int \<times> conn \<times> 's) result" where
  "untilLoop 0 recv timedOut bytes dangling c s = Inl Diverges"
| "untilLoop (Suc n) recv timedOut bytes dangling c s =
     guard (\<not> dangling) Undefined
       (res_bind (if appLength (appenderOf c) = 0 then ensure (appenderOf c) CHUNK_SIZE else Inr (appenderOf c)) (\<lambda>a.
         case recv (appLength a) s of
           (Received bs, s1) \<Rightarrow>
             res_bind (writeTail a bs) (\<lambda>a1.
             res_bind (coalesce (aheap a1) (achain a1)) (\<lambda>(h, ch).
             let c1 = c\<lparr>bufs := h, rbuf := ch\<rparr>
             in res_bind (qfind (=) (chainData h ch) bytes) (\<lambda>found.
                if found \<noteq> None then Inr (0, c1, s1)
                else untilLoop n recv timedOut bytes (length (achain a1) > 1) c1 s1)))
         | (Closed, s1) \<Rightarrow> Inr (2, putAppender a c, s1)
         | (ConnReset, s1) \<Rightarrow> Inr (2, putAppender a c, s1)
         | (RecvBlock, s1) \<Rightarrow>
             if timedOut s1 then Inr (-1, (putAppender a c)\<lparr>isTimeout := True\<rparr>, s1)
             else Inr (1, putAppender a c, s1)
         | (RecvError, s1) \<Rightarrow> Inr (-1, putAppender a c, s1)))"

definition protocolReadDataUntil ::
  "'s receiver \<Rightarrow> ('s \<Rightarrow> bool) \<Rightarrow> byte list \<Rightarrow> conn \<Rightarrow> 's \<Rightarrow> (int \<times> conn \<times> 's) result" where
  "protocolReadDataUntil recv timedOut bytes c s =
     untilLoop (tailroom (last (rbuf c)) + 2) recv timedOut bytes False c s"

section \<open>A header and a body\<close>

text \<open>\<^verbatim>\<open>TypedIOBuf<H>(buf).data()\<close>: as many bytes as the header has, from the data of the first buffer.\<close>

definition typedData :: "nat \<Rightarrow> bufheap \<Rightarrow> chain \<Rightarrow> byte list result" where
  "typedData k h ch =
     (case ch of
        [] \<Rightarrow> Inl Null_Deref
      | b # bs \<Rightarrow> (case bufBlock b of
          None \<Rightarrow> Inl Null_Deref
        | Some i \<Rightarrow> guard (dataOff b + k \<le> length (cellsOf h i)) Undefined
            (Inr (take k (drop (dataOff b) (cellsOf h i))))))"

definition headerReadData ::
  "nat \<Rightarrow> (byte list \<Rightarrow> nat) \<Rightarrow> 's receiver \<Rightarrow> ('s \<Rightarrow> bool) \<Rightarrow> conn \<Rightarrow> 's \<Rightarrow> (int \<times> conn \<times> 's) result" where
  "headerReadData headerSize bodyLength recv timedOut c s =
     (let c0 = (if emptyChain (rbuf c) then c\<lparr>rlen := headerSize\<rparr> else c)
      in res_bind (protocolReadData recv timedOut c0 s) (\<lambda>(r, c1, s1).
           if computeChainDataLength (rbuf c1) = headerSize \<and> r = 0
           then res_bind (typedData headerSize (bufs c1) (rbuf c1)) (\<lambda>header.
                  protocolReadData recv timedOut (c1\<lparr>rlen := bodyLength header\<rparr>) s1)
           else Inr (r, c1, s1)))"

text \<open>The binary protocol: a \<^verbatim>\<open>uint32_t\<close> in network byte order.\<close>

definition ntohl :: "byte list \<Rightarrow> nat" where
  "ntohl header = fromLE (rev header)"

definition htonl :: "nat \<Rightarrow> byte list" where
  "htonl n = rev (toLE 4 n)"

definition binaryReadData :: "'s receiver \<Rightarrow> ('s \<Rightarrow> bool) \<Rightarrow> conn \<Rightarrow> 's \<Rightarrow> (int \<times> conn \<times> 's) result" where
  "binaryReadData = headerReadData 4 ntohl"

text \<open>
  \<^verbatim>\<open>TypedIOBuf<uint32_t>(buf).push(x)\<close> works on the first buffer of the chain, with
  sizes in units of four bytes.
\<close>

definition typedPush :: "bufheap \<Rightarrow> chain \<Rightarrow> byte list \<Rightarrow> (bufheap \<times> chain) result" where
  "typedPush h ch x =
     (case ch of
        [] \<Rightarrow> Inl Null_Deref
      | b # bs \<Rightarrow>
          res_bind (if tailroom b div 4 < 1
                    then reserve h b (headroom b div 4 * 4) (max 1 (3 + dataLen b div 4 div 2) * 4)
                    else Inr (h, b)) (\<lambda>(h1, b1).
          res_bind (writeAt h1 b1 (dataOff b1 + dataLen b1) x) (\<lambda>h2.
          res_bind (appendTo b1 4) (\<lambda>b2. Inr (h2, b2 # bs)))))"

definition encodeData :: "bufheap \<Rightarrow> chain \<Rightarrow> byte list \<Rightarrow> (bufheap \<times> chain) result" where
  "encodeData h ch obuf =
     (let n = length obuf mod 2 ^ 32
      in res_bind (typedPush h ch (htonl n)) (\<lambda>(h1, ch1).
         res_bind (pushAtMost \<lparr>aheap = h1, achain = ch1, growth = CHUNK_SIZE\<rparr> (take n obuf)) (\<lambda>(a, k).
           Inr (aheap a, achain a))))"

definition decodeData :: "bufheap \<Rightarrow> chain \<Rightarrow> (byte list \<times> bufheap \<times> chain) result" where
  "decodeData h ch =
     res_bind (coalesce h ch) (\<lambda>(h1, ch1).
     res_bind (typedData 4 h1 ch1) (\<lambda>header.
       let d = chainData h1 ch1
       in if length d < 4 then Inl Out_Of_Range else Inr (drop 4 d, h1, ch1)))"

text \<open>
  \<^verbatim>\<open>BinaryTransport\<close>, the blocking client: one call of \<^verbatim>\<open>send\<close> with what \<^verbatim>\<open>peek\<close> shows, and two of
  \<^verbatim>\<open>recv\<close>, whose result goes to \<^verbatim>\<open>append\<close> as it is, so that a failed one appends \<open>2\<^sup>6\<^sup>4 - 1\<close> bytes.
\<close>

definition transportSend ::
  "'s sender \<Rightarrow> bufheap \<Rightarrow> chain \<Rightarrow> byte list \<Rightarrow> 's \<Rightarrow> (bufheap \<times> chain \<times> 's) result" where
  "transportSend send h ch request s =
     res_bind (encodeData h ch request) (\<lambda>(h1, ch1).
       let (p, cur) = peek (chainPieces h1 ch1) newCursor; (ans, s1) = send p s
       in Inr (h1, ch1, s1))"

definition recvAppend :: "'s receiver \<Rightarrow> nat \<Rightarrow> appender \<Rightarrow> 's \<Rightarrow> (appender \<times> 's) result" where
  "recvAppend recv n a s =
     (case recv n s of
        (Received bs, s1) \<Rightarrow> res_bind (writeTail a bs) (\<lambda>a1. Inr (a1, s1))
      | (Closed, s1) \<Rightarrow> res_bind (appAppend a 0) (\<lambda>a1. Inr (a1, s1))
      | (_, s1) \<Rightarrow> res_bind (appAppend a (2 ^ 64 - 1)) (\<lambda>a1. Inr (a1, s1)))"

definition transportRecv ::
  "'s receiver \<Rightarrow> bufheap \<Rightarrow> chain \<Rightarrow> 's \<Rightarrow> (byte list \<times> bufheap \<times> chain \<times> 's) result" where
  "transportRecv recv h ch s =
     res_bind (ensure \<lparr>aheap = h, achain = ch, growth = CHUNK_SIZE\<rparr> 4) (\<lambda>a.
     res_bind (recvAppend recv 4 a s) (\<lambda>(a1, s1).
     res_bind (typedData 4 (aheap a1) (achain a1)) (\<lambda>header.
     let n = ntohl header
     in res_bind (ensure a1 n) (\<lambda>a2.
        res_bind (recvAppend recv n a2 s1) (\<lambda>(a3, s2).
        res_bind (decodeData (aheap a3) (achain a3)) (\<lambda>(d, h1, ch1). Inr (d, h1, ch1, s2)))))))"

section \<open>What the environment guarantees\<close>

text \<open>
  \<^verbatim>\<open>recv\<close> returns at most as many bytes as asked for, and the bytes of the stream in
  their order; \<open>incoming\<close> are those still to come. \<^verbatim>\<open>send\<close> takes a part of what it is given;
  \<open>outgoing\<close> is what it has taken so far.
\<close>

definition stream_recv :: "'s receiver \<Rightarrow> ('s \<Rightarrow> byte list) \<Rightarrow> bool" where
  "stream_recv recv incoming \<longleftrightarrow> (\<forall>n s. 0 < n \<longrightarrow>
     (case recv n s of
        (Received bs, s1) \<Rightarrow> 0 < length bs \<and> length bs \<le> n \<and> incoming s = bs @ incoming s1
      | (_, s1) \<Rightarrow> incoming s1 = incoming s))"

definition stream_send :: "'s sender \<Rightarrow> ('s \<Rightarrow> byte list) \<Rightarrow> bool" where
  "stream_send send outgoing \<longleftrightarrow> (\<forall>d s. d \<noteq> [] \<longrightarrow>
     (case send d s of
        (Sent k, s1) \<Rightarrow> 0 < k \<and> k \<le> length d \<and> outgoing s1 = outgoing s @ take k d
      | (_, s1) \<Rightarrow> outgoing s1 = outgoing s))"

section \<open>Reading appends what arrived\<close>

text \<open>\<open>T\<close> are the other live buffers: those waiting to be written and those of other events.\<close>

definition took :: "iobuf multiset \<Rightarrow> conn \<Rightarrow> conn \<Rightarrow> byte list \<Rightarrow> bool" where
  "took T c c' bs \<longleftrightarrow> appender_ok T (appenderOf c') \<and>
     chainData (bufs c') (rbuf c') = chainData (bufs c) (rbuf c) @ bs \<and> rlen c' + length bs = rlen c \<and>
     wbuf c' = wbuf c \<and> wlen c' = wlen c \<and> (\<forall>t \<in># T. segData (bufs c') t = segData (bufs c) t)"

lemma took_trans: "took T c c1 xs \<Longrightarrow> took T c1 c2 ys \<Longrightarrow> took T c c2 (xs @ ys)"
  by (auto simp: took_def)

lemma appenderOf_put: "growth a = CHUNK_SIZE \<Longrightarrow> appenderOf (putAppender a c) = a"
  by (simp add: appenderOf_def putAppender_def)

lemma writeTail_shape:
  assumes "writeTail a d = Inr a'" "achain a \<noteq> []"
  shows "achain a' = butlast (achain a) @ [(last (achain a))\<lparr>dataLen := dataLen (last (achain a)) + length d\<rparr>]"
    and "length (achain a') = length (achain a)" and "appLength a' = appLength a - length d"
proof -
  show *: "achain a' = butlast (achain a) @ [(last (achain a))\<lparr>dataLen := dataLen (last (achain a)) + length d\<rparr>]"
    using assms by (auto simp: writeTail_def appAppend_def appendTo_def guard_def Let_def result_simps split: if_splits)
  show "length (achain a') = length (achain a)" using assms(2) unfolding * by (cases "achain a" rule: rev_cases) auto
  show "appLength a' = appLength a - length d" unfolding appLength_def * by (simp add: tailroom_def)
qed

definition codes :: "int set" where "codes = {-1, 0, 1, 2}"

text \<open>
  The outcome of a read: the bytes taken off the stream are appended and counted;
  the result is 0 exactly when nothing is missing any more; and the type is set to
  \<^verbatim>\<open>TIMEOUT\<close> only together with -1.
\<close>

definition read_outcome ::
  "iobuf multiset \<Rightarrow> ('s \<Rightarrow> byte list) \<Rightarrow> conn \<Rightarrow> 's \<Rightarrow> int \<Rightarrow> conn \<Rightarrow> 's \<Rightarrow> byte list \<Rightarrow> bool" where
  "read_outcome T incoming c s r c' s' bs \<longleftrightarrow> took T c c' bs \<and> incoming s = bs @ incoming s' \<and> r \<in> codes \<and>
     (r = 0 \<longleftrightarrow> rlen c' = 0) \<and> (isTimeout c' = isTimeout c \<or> isTimeout c' \<and> r = -1)"

lemma readLoop_ok:
  assumes st: "stream_recv recv incoming"
    and "appender_ok T a" "growth a = CHUNK_SIZE" "rlen c \<le> appLength a" "rlen c \<le> n"
  shows "\<exists>r c' s' bs. readLoop n recv timedOut a c s = Inr (r, c', s') \<and>
    read_outcome T incoming (putAppender a c) s r c' s' bs \<and> length (rbuf c') = length (achain a) \<and>
    rlen c' \<le> tailroom (last (rbuf c'))"
  using assms(2-)
proof (induction n arbitrary: a c s)
  case 0
  then have "took T (putAppender a c) (putAppender a c) []"
    by (simp add: took_def appenderOf_put)
  then show ?case using 0
    by (auto simp: read_outcome_def codes_def putAppender_def appLength_def intro: exI [of _ "[]"])
next
  case (Suc n)
  let ?c = "putAppender a c"
  have stay: "took T ?c (?c\<lparr>isTimeout := t\<rparr>) []" for t
    using Suc.prems by (simp add: took_def appenderOf_def putAppender_def) (simp add: CHUNK_SIZE_def appender_ok_def)
  have stay0: "took T ?c ?c []" using Suc.prems by (simp add: took_def appenderOf_put)
  show ?case
  proof (cases "rlen c > 0")
    case False
    then show ?thesis using stay0
      by (auto simp: read_outcome_def codes_def putAppender_def appLength_def intro: exI [of _ "[]"])
  next
    case pos: True
    obtain ans s1 where rv: "recv (rlen c) s = (ans, s1)" by fastforce
    have S: "case (ans, s1) of (Received bs, s1) \<Rightarrow> 0 < length bs \<and> length bs \<le> rlen c \<and> incoming s = bs @ incoming s1
        | (_, s1) \<Rightarrow> incoming s1 = incoming s"
      using st [unfolded stream_recv_def, rule_format, OF pos, of s] unfolding rv .
    show ?thesis
    proof (cases "\<exists>bs. ans = Received bs")
      case True
      then obtain bs where bs: "ans = Received bs" by blast
      have L: "0 < length bs" "length bs \<le> rlen c" "incoming s = bs @ incoming s1" using S bs by auto
      have fit: "length bs \<le> appLength a" using L Suc.prems(3) by simp
      obtain a1 where w: "writeTail a bs = Inr a1" "appender_ok T a1" "appContent a1 = appContent a @ bs"
        "growth a1 = growth a" "\<forall>t \<in># T. segData (aheap a1) t = segData (aheap a) t"
        by (rule writeTail_ok [OF Suc.prems(1) fit])
      have ne: "achain a \<noteq> []" using Suc.prems(1) by (simp add: appender_ok_def)
      note sh = writeTail_shape [OF w(1) ne]
      let ?c1 = "c\<lparr>rlen := rlen c - length bs\<rparr>"
      have pre: "growth a1 = CHUNK_SIZE" "rlen ?c1 \<le> appLength a1" "rlen ?c1 \<le> n"
        using Suc.prems w(4) L(1,2) sh(3) by (simp_all del: length_greater_0_conv)
      obtain r c' s' bs' where R: "readLoop n recv timedOut a1 ?c1 s1 = Inr (r, c', s')"
        "read_outcome T incoming (putAppender a1 ?c1) s1 r c' s' bs'" "length (rbuf c') = length (achain a1)"
        "rlen c' \<le> tailroom (last (rbuf c'))"
        using Suc.IH [OF w(2) pre] by blast
      have "took T ?c (putAppender a1 ?c1) bs"
        using w L Suc.prems(2) by (auto simp: took_def appenderOf_put) (simp_all add: putAppender_def appContent_def)
      then have "read_outcome T incoming ?c s r c' s' (bs @ bs')"
        using R(2) L(3) took_trans unfolding read_outcome_def by (fastforce simp: putAppender_def)
      moreover have "readLoop (Suc n) recv timedOut a c s = Inr (r, c', s')" using pos rv bs w(1) R(1) by simp
      ultimately show ?thesis using R(3,4) sh(2) by auto
    next
      case False
      then have i: "incoming s1 = incoming s" using S by (cases ans) auto
      have out: "\<exists>r t. readLoop (Suc n) recv timedOut a c s = Inr (r, ?c\<lparr>isTimeout := t\<rparr>, s1) \<and> r \<in> {-1, 1, 2} \<and>
          (t = isTimeout c \<or> t \<and> r = -1)"
      proof (cases ans)
        case RecvBlock
        then show ?thesis using pos rv by (cases "timedOut s1") (auto simp: putAppender_def)
      qed (use pos rv False in \<open>auto simp: putAppender_def intro: exI [of _ "isTimeout c"]\<close>)
      then obtain r t where R: "readLoop (Suc n) recv timedOut a c s = Inr (r, ?c\<lparr>isTimeout := t\<rparr>, s1)"
        "r \<in> {-1, 1, 2}" "t = isTimeout c \<or> t \<and> r = -1" by blast
      have "read_outcome T incoming ?c s r (?c\<lparr>isTimeout := t\<rparr>) s1 []"
        using stay [of t] i R(2,3) pos by (auto simp: read_outcome_def codes_def putAppender_def)
      then show ?thesis using R(1) Suc.prems(3) by (fastforce simp: putAppender_def appLength_def)
    qed
  qed
qed

lemma protocolReadData_ok:
  assumes st: "stream_recv recv incoming" and ap: "appender_ok T (appenderOf c)" and fit: "fits (rlen c)"
  shows "\<exists>r c' s' bs. protocolReadData recv timedOut c s = Inr (r, c', s') \<and> read_outcome T incoming c s r c' s' bs \<and>
    (rlen c \<le> tailroom (last (rbuf c)) \<longrightarrow> length (rbuf c') = length (rbuf c)) \<and>
    rlen c' \<le> tailroom (last (rbuf c'))"
proof -
  let ?a = "appenderOf c"
  have g: "growth ?a = CHUNK_SIZE" by (simp add: appenderOf_def)
  define a where "a = (if rlen c \<le> appLength ?a then ?a else growBy ?a (max (rlen c) CHUNK_SIZE))"
  have e: "ensure ?a (rlen c) = Inr a" by (simp add: ensure_def a_def g CHUNK_SIZE_def)
  have f: "fits (max (rlen c) CHUNK_SIZE)" using fit by (simp add: fits_def CHUNK_SIZE_def)
  note G = growBy_ok [OF ap f]
  have A: "appender_ok T a" "growth a = CHUNK_SIZE" "rlen c \<le> appLength a" "appContent a = appContent ?a"
    "\<forall>t \<in># T. segData (aheap a) t = segData (aheap ?a) t"
    using G ap g by (auto simp: a_def)
  have same: "rlen c \<le> tailroom (last (rbuf c)) \<Longrightarrow> a = ?a" by (simp add: a_def appLength_def appenderOf_def)
  obtain r c' s' bs where R: "readLoop (rlen c) recv timedOut a c s = Inr (r, c', s')"
    "read_outcome T incoming (putAppender a c) s r c' s' bs" "length (rbuf c') = length (achain a)"
    "rlen c' \<le> tailroom (last (rbuf c'))"
    using readLoop_ok [OF st A(1-3) order_refl] by blast
  have "read_outcome T incoming c s r c' s' bs"
    using R(2) A(4,5) by (auto simp: read_outcome_def took_def putAppender_def appContent_def appenderOf_def)
  then show ?thesis using R e same by (auto simp: protocolReadData_def appenderOf_def)
qed

section \<open>Reading a frame\<close>

text \<open>
  How far a reader is with the frame \<open>F\<close>: nothing yet, in the header, which lies in one
  buffer with room for the rest of it, or in the body.
\<close>

definition frame_state :: "nat \<Rightarrow> byte list \<Rightarrow> conn \<Rightarrow> bool" where
  "frame_state hs F c \<longleftrightarrow>
     (let D = chainData (bufs c) (rbuf c)
      in (length D < hs \<longrightarrow> (\<exists>b. rbuf c = [b] \<and> hs \<le> length D + tailroom b)) \<and>
         (D \<noteq> [] \<longrightarrow> length D + rlen c = (if length D < hs then hs else length F)))"

lemma emptyChain_data:
  assumes "heap_ok h (mset ch + T)"
  shows "emptyChain ch \<longleftrightarrow> chainData h ch = []"
proof -
  have "\<forall>b \<in> set ch. seg_ok h b" using heap_okD(1) [OF assms] by simp
  then have "\<forall>b \<in> set ch. (dataLen b = 0) = (segData h b = [])"
    using length_segData by (metis length_0_conv)
  then show ?thesis by (induction ch) (auto simp: chainData_def)
qed

lemma typedData_header:
  assumes "heap_ok h (mset [b] + T)" "chainData h [b] = F" "k \<le> length F" "0 < k"
  shows "typedData k h [b] = Inr (take k F)"
proof -
  have ok: "seg_ok h b" using heap_okD(1) [OF assms(1)] by simp
  have d: "segData h b = F" using assms(2) by (simp add: chainData_def)
  then have "dataLen b = length F" using length_segData [OF ok] by simp
  obtain i where i: "bufBlock b = Some i" using d assms(3,4) by (cases "bufBlock b") (auto simp: segData_def)
  obtain kk where "blocks h i = Some kk" "bufCap b \<le> length (cells kk)" "dataOff b + dataLen b \<le> bufCap b"
    using seg_ok_block [OF ok i] by metis
  moreover have "take (dataLen b) (drop (dataOff b) (cellsOf h i)) = F" using d i by (simp add: segData_def)
  ultimately show ?thesis using i assms(3) \<open>dataLen b = length F\<close>
    by (auto simp: typedData_def guard_def cellsOf_def) (metis min.absorb1 take_take)+
qed

lemma chain_length:
  assumes "appender_ok T (appenderOf c)"
  shows "computeChainDataLength (rbuf c) = length (chainData (bufs c) (rbuf c))"
proof -
  have "heap_ok (bufs c) (mset (rbuf c) + T)" using assms by (simp add: appender_ok_def appenderOf_def)
  then have "\<And>b. b \<in> set (rbuf c) \<Longrightarrow> seg_ok (bufs c) b" using heap_okD(1) by fastforce
  then show ?thesis by (simp add: length_chainData)
qed

text \<open>What one call of \<open>readData\<close> leaves: nothing lost, nothing taken beyond the frame.\<close>

definition frame_step ::
  "iobuf multiset \<Rightarrow> nat \<Rightarrow> byte list \<Rightarrow> ('s \<Rightarrow> byte list) \<Rightarrow> conn \<Rightarrow> 's \<Rightarrow> int \<Rightarrow> conn \<Rightarrow> 's \<Rightarrow> bool" where
  "frame_step T hs F incoming c s r c' s' \<longleftrightarrow> appender_ok T (appenderOf c') \<and> frame_state hs F c' \<and>
     chainData (bufs c') (rbuf c') @ incoming s' = chainData (bufs c) (rbuf c) @ incoming s \<and>
     length (chainData (bufs c') (rbuf c')) \<le> length F \<and> r \<in> codes \<and>
     (r = 0 \<longleftrightarrow> length (chainData (bufs c') (rbuf c')) = length F) \<and>
     wbuf c' = wbuf c \<and> wlen c' = wlen c \<and> (\<forall>t \<in># T. segData (bufs c') t = segData (bufs c) t)"

lemma read_body:
  assumes st: "stream_recv recv incoming" and ap: "appender_ok T (appenderOf c)"
    and hs: "0 < hs" "hs \<le> length (chainData (bufs c) (rbuf c))"
    and left: "length (chainData (bufs c) (rbuf c)) + rlen c = length F" and fit: "fits (length F)"
  shows "\<exists>r c' s'. protocolReadData recv timedOut c s = Inr (r, c', s') \<and> frame_step T hs F incoming c s r c' s'"
proof -
  have "fits (rlen c)" using left fit by (simp add: fits_def)
  from protocolReadData_ok [OF st ap this] obtain r c' s' bs where
    R: "protocolReadData recv timedOut c s = Inr (r, c', s')" "read_outcome T incoming c s r c' s' bs" by blast
  then have "took T c c' bs" "incoming s = bs @ incoming s'" "r \<in> codes" "r = 0 \<longleftrightarrow> rlen c' = 0"
    by (auto simp: read_outcome_def)
  moreover have "frame_state hs F c'"
    using \<open>took T c c' bs\<close> hs left unfolding frame_state_def Let_def by (auto simp: took_def)
  ultimately show ?thesis using R(1) left by (auto simp: frame_step_def took_def)
qed

lemma headerReadData_step:
  assumes st: "stream_recv recv incoming" and ap: "appender_ok T (appenderOf c)" and fs: "frame_state hs F c"
    and hs: "0 < hs" "hs \<le> length F" "bodyLength (take hs F) = length F - hs" and fit: "fits (length F)"
    and D: "length (chainData (bufs c) (rbuf c)) < length F" "chainData (bufs c) (rbuf c) @ incoming s = F @ rest"
  shows "\<exists>r c' s'. headerReadData hs bodyLength recv timedOut c s = Inr (r, c', s') \<and> frame_step T hs F incoming c s r c' s'"
proof -
  let ?D = "chainData (bufs c) (rbuf c)"
  define c0 where "c0 = (if emptyChain (rbuf c) then c\<lparr>rlen := hs\<rparr> else c)"
  have em: "emptyChain (rbuf c) \<longleftrightarrow> ?D = []"
    using emptyChain_data ap by (auto simp: appender_ok_def appenderOf_def)
  have c0: "bufs c0 = bufs c" "rbuf c0 = rbuf c" "wbuf c0 = wbuf c" "wlen c0 = wlen c" by (simp_all add: c0_def)
  have ap0: "appender_ok T (appenderOf c0)" using ap by (simp add: appenderOf_def c0)
  show ?thesis
  proof (cases "length ?D < hs")
    case False
    then have "c0 = c" using em hs by (auto simp: c0_def)
    moreover have "length ?D + rlen c = length F" using fs False hs by (auto simp: frame_state_def Let_def)
    then obtain r c' s' where R: "protocolReadData recv timedOut c s = Inr (r, c', s')" "frame_step T hs F incoming c s r c' s'"
      using read_body [OF st ap hs(1) _ _ fit, where timedOut = timedOut and s = s] False by auto
    moreover have "\<not> (computeChainDataLength (rbuf c') = hs \<and> r = 0)"
      using R(2) D(1) False chain_length by (auto simp: frame_step_def)
    ultimately show ?thesis by (auto simp: headerReadData_def c0_def)
  next
    case True
    have rl: "length ?D + rlen c0 = hs" using em fs True by (auto simp: c0_def frame_state_def Let_def)
    obtain b where b: "rbuf c = [b]" "hs \<le> length ?D + tailroom b" using fs True by (auto simp: frame_state_def Let_def)
    have "fits (rlen c0)" using rl hs(2) fit by (simp add: fits_def)
    from protocolReadData_ok [OF st ap0 this, where timedOut = timedOut and s = s] obtain r1 c1 s1 bs where
      R: "protocolReadData recv timedOut c0 s = Inr (r1, c1, s1)" "read_outcome T incoming c0 s r1 c1 s1 bs"
        "rlen c0 \<le> tailroom (last (rbuf c0)) \<longrightarrow> length (rbuf c1) = length (rbuf c0)"
        "rlen c1 \<le> tailroom (last (rbuf c1))" by blast
    let ?D1 = "chainData (bufs c1) (rbuf c1)"
    have t1: "took T c0 c1 bs" "incoming s = bs @ incoming s1" "r1 \<in> codes" "r1 = 0 \<longleftrightarrow> rlen c1 = 0"
      using R(2) by (auto simp: read_outcome_def)
    have D1: "?D1 = ?D @ bs" "length ?D1 + rlen c1 = hs" "appender_ok T (appenderOf c1)"
      "wbuf c1 = wbuf c" "wlen c1 = wlen c" "\<forall>t \<in># T. segData (bufs c1) t = segData (bufs c) t"
      using t1(1) rl by (auto simp: took_def c0)
    have "length (rbuf c1) = 1" using R(3) b rl by (simp add: c0)
    then obtain b1 where b1: "rbuf c1 = [b1]" by (cases "rbuf c1") auto
    have len: "computeChainDataLength (rbuf c1) = length ?D1" by (rule chain_length [OF D1(3)])
    show ?thesis
    proof (cases "r1 = 0")
      case r0: False
      then have short: "length ?D1 < hs" using t1(4) D1(2) by simp
      have "frame_state hs F c1" using D1(2) b1 R(4) short by (auto simp: frame_state_def Let_def)
      then have "frame_step T hs F incoming c s r1 c1 s1"
        using D1 t1 r0 short hs(2) by (auto simp: frame_step_def)
      then show ?thesis using R(1) r0 by (auto simp: headerReadData_def c0_def)
    next
      case r0: True
      then have full: "length ?D1 = hs" using t1(4) D1(2) by simp
      have "?D1 @ incoming s1 = F @ rest" using D1(1) t1(2) D(2) by simp
      then have "take hs (?D1 @ incoming s1) = take hs (F @ rest)" by simp
      then have D1F: "?D1 = take hs F" using full hs(2) by simp
      have "typedData hs (bufs c1) (rbuf c1) = Inr (take hs ?D1)"
        unfolding b1 by (rule typedData_header) (use D1(3) b1 full hs(1) in \<open>auto simp: appender_ok_def appenderOf_def\<close>)
      then have hd: "typedData hs (bufs c1) (rbuf c1) = Inr (take hs F)" using D1F by simp
      let ?c2 = "c1\<lparr>rlen := length F - hs\<rparr>"
      have ap2: "appender_ok T (appenderOf ?c2)" using D1(3) by (simp add: appenderOf_def)
      obtain r c' s' where B: "protocolReadData recv timedOut ?c2 s1 = Inr (r, c', s')" "frame_step T hs F incoming ?c2 s1 r c' s'"
        using read_body [OF st ap2 hs(1) _ _ fit, where timedOut = timedOut and s = s1] full hs(2) by auto
      have "frame_step T hs F incoming c s r c' s'" using B(2) D1 t1(2) by (auto simp: frame_step_def)
      moreover have "headerReadData hs bodyLength recv timedOut c s = Inr (r, c', s')"
        using R(1) r0 len full hd B(1) hs(3) by (simp add: headerReadData_def c0_def [symmetric])
      ultimately show ?thesis by blast
    qed
  qed
qed

text \<open>The calls that the event loop makes while the result is 1, \<open>k\<close> more than the first.\<close>

fun readCalls :: "(conn \<Rightarrow> 's \<Rightarrow> (int \<times> conn \<times> 's) result) \<Rightarrow> nat \<Rightarrow> conn \<Rightarrow> 's \<Rightarrow> (int \<times> conn \<times> 's) result" where
  "readCalls rd 0 c s = rd c s"
| "readCalls rd (Suc k) c s =
     res_bind (readCalls rd k c s) (\<lambda>(r, c1, s1). if r = 1 then rd c1 s1 else Inr (r, c1, s1))"

lemma frame_step_trans:
  "frame_step T hs F incoming c s r c1 s1 \<Longrightarrow> frame_step T hs F incoming c1 s1 r' c2 s2 \<Longrightarrow>
     frame_step T hs F incoming c s r' c2 s2"
  by (auto simp: frame_step_def)

lemma readCalls_step:
  assumes st: "stream_recv recv incoming" and ap: "appender_ok T (appenderOf c)" and fs: "frame_state hs F c"
    and hs: "0 < hs" "hs \<le> length F" "bodyLength (take hs F) = length F - hs" and fit: "fits (length F)"
    and D: "length (chainData (bufs c) (rbuf c)) < length F" "chainData (bufs c) (rbuf c) @ incoming s = F @ rest"
  shows "\<exists>r c' s'. readCalls (headerReadData hs bodyLength recv timedOut) k c s = Inr (r, c', s') \<and>
    frame_step T hs F incoming c s r c' s'"
proof (induction k)
  case 0
  then show ?case using headerReadData_step [where bodyLength = bodyLength and timedOut = timedOut and s = s, OF st ap fs hs fit D] by simp
next
  case (Suc k)
  then obtain r c1 s1 where R: "readCalls (headerReadData hs bodyLength recv timedOut) k c s = Inr (r, c1, s1)"
    "frame_step T hs F incoming c s r c1 s1" by blast
  show ?case
  proof (cases "r = 1")
    case True
    have "length (chainData (bufs c1) (rbuf c1)) < length F" using R(2) True by (auto simp: frame_step_def)
    moreover have "appender_ok T (appenderOf c1)" "frame_state hs F c1"
      "chainData (bufs c1) (rbuf c1) @ incoming s1 = F @ rest" using R(2) D(2) by (auto simp: frame_step_def)
    ultimately obtain r' c2 s2 where "headerReadData hs bodyLength recv timedOut c1 s1 = Inr (r', c2, s2)"
      "frame_step T hs F incoming c1 s1 r' c2 s2"
      using headerReadData_step [where bodyLength = bodyLength and timedOut = timedOut, OF st _ _ hs fit] by metis
    then show ?thesis using R True frame_step_trans by fastforce
  qed (use R in auto)
qed

section \<open>Writing sends what is left\<close>

definition write_outcome ::
  "('s \<Rightarrow> byte list) \<Rightarrow> byte list \<Rightarrow> conn \<Rightarrow> 's \<Rightarrow> int \<Rightarrow> conn \<Rightarrow> 's \<Rightarrow> nat \<Rightarrow> bool" where
  "write_outcome outgoing left c s r c' s' m \<longleftrightarrow> m \<le> length left \<and> outgoing s' = outgoing s @ take m left \<and>
     r \<in> {-1, 0, 1} \<and> (r = 0 \<longleftrightarrow> m = length left) \<and>
     c'\<lparr>isTimeout := isTimeout c\<rparr> = c\<lparr>wlen := wlen c + m\<rparr> \<and> (isTimeout c' = isTimeout c \<or> isTimeout c' \<and> r = -1)"

lemma writeLoop_ok:
  assumes st: "stream_send send outgoing" and "cursor_ok ps cur" "length (remaining ps cur) \<le> n"
  shows "\<exists>r c' s' m. writeLoop n send timedOut ps cur c s = Inr (r, c', s') \<and>
    write_outcome outgoing (remaining ps cur) c s r c' s' m"
  using assms(2-)
proof (induction n arbitrary: cur c s)
  case 0
  then have "remaining ps cur = []" by simp
  then show ?case using isAtEnd_spec [OF 0(1)] by (auto simp: write_outcome_def)
next
  case (Suc n)
  let ?R = "remaining ps cur"
  show ?case
  proof (cases "?R = []")
    case True
    then show ?thesis using isAtEnd_spec [OF Suc.prems(1)] by (auto simp: write_outcome_def)
  next
    case ne: False
    then have e: "\<not> isAtEnd ps cur" using isAtEnd_spec [OF Suc.prems(1)] by simp
    obtain p cur1 where pk: "peek ps cur = (p, cur1)" "cursor_ok ps cur1" "remaining ps cur1 = ?R"
      "\<exists>tl. ?R = p @ tl" "p \<noteq> []"
      using peek_spec [OF Suc.prems(1)] ne by metis
    obtain tl where tl: "?R = p @ tl" using pk(4) by blast
    obtain ans s1 where sd: "send p s = (ans, s1)" by fastforce
    have S: "case (ans, s1) of (Sent k, s1) \<Rightarrow> 0 < k \<and> k \<le> length p \<and> outgoing s1 = outgoing s @ take k p
        | (_, s1) \<Rightarrow> outgoing s1 = outgoing s"
      using st [unfolded stream_send_def, rule_format, OF pk(5), of s] unfolding sd .
    show ?thesis
    proof (cases ans)
      case (Sent k)
      then have k: "0 < k" "k \<le> length p" "outgoing s1 = outgoing s @ take k p" using S by auto
      then have "k \<le> length (remaining ps cur1)" using tl pk(3) by simp
      then obtain cur2 where sk: "skip ps k cur1 = Inr cur2" "cursor_ok ps cur2" "remaining ps cur2 = drop k ?R"
        using skip_spec [OF pk(2), of k] pk(3) by auto
      have n: "length (remaining ps cur2) \<le> n" using sk(3) Suc.prems(2) k(1) by simp
      from Suc.IH [OF sk(2) n, of "c\<lparr>wlen := wlen c + k\<rparr>" s1] obtain r c' s' m where
        W: "writeLoop n send timedOut ps cur2 (c\<lparr>wlen := wlen c + k\<rparr>) s1 = Inr (r, c', s')"
          "write_outcome outgoing (remaining ps cur2) (c\<lparr>wlen := wlen c + k\<rparr>) s1 r c' s' m" by blast
      have "take (k + m) ?R = take k p @ take m (drop k ?R)" using tl k(2) by (simp add: take_add add.commute)
      then have "write_outcome outgoing ?R c s r c' s' (k + m)"
        using W(2) sk(3) k tl by (auto simp: write_outcome_def ac_simps)
      then show ?thesis using W(1) e pk(1) sd Sent sk(1) by auto
    next
      case SendBlock
      then show ?thesis using S e pk(1) sd ne
        by (cases "timedOut s1") (auto simp: write_outcome_def intro!: exI [of _ 0])
    next
      case SendError
      then show ?thesis using S e pk(1) sd ne by (auto simp: write_outcome_def intro!: exI [of _ 0])
    qed
  qed
qed

lemma protocolWriteData_ok:
  assumes st: "stream_send send outgoing" and w: "wbuf c \<noteq> []" "wlen c \<le> length (chainData (bufs c) (wbuf c))"
  shows "\<exists>r c' s' m. protocolWriteData send timedOut c s = Inr (r, c', s') \<and>
    write_outcome outgoing (drop (wlen c) (chainData (bufs c) (wbuf c))) c s r c' s' m"
proof -
  let ?ps = "chainPieces (bufs c) (wbuf c)"
  have ne: "?ps \<noteq> []" using w(1) by (simp add: chainPieces_def)
  have all: "remaining ?ps newCursor = chainData (bufs c) (wbuf c)"
    using remaining_new [OF ne] by (simp add: chainPieces_def chainData_def)
  obtain cur where cur: "skip ?ps (wlen c) newCursor = Inr cur" "cursor_ok ?ps cur"
    "remaining ?ps cur = drop (wlen c) (chainData (bufs c) (wbuf c))"
    using skip_spec [OF newCursor_ok [OF ne], of "wlen c"] w(2) all by auto
  have "length (remaining ?ps cur) \<le> length (concat ?ps)"
    using cur(3) by (simp add: chainPieces_def chainData_def)
  then show ?thesis using writeLoop_ok [OF st cur(2)] cur by (simp add: protocolWriteData_def Let_def)
qed

section \<open>The frame of the binary protocol\<close>

definition frameOf :: "byte list \<Rightarrow> byte list" where
  "frameOf d = htonl (length d) @ d"

lemma length_htonl [simp]: "length (htonl n) = 4"
  by (simp add: htonl_def)

lemma ntohl_htonl: "n < 2 ^ 32 \<Longrightarrow> ntohl (htonl n) = n"
  by (simp add: ntohl_def htonl_def from_toLE)

lemma typedPush_ok:
  assumes ok: "heap_ok h (mset [b] + T)" and ex: "exclusive b T" and cap: "bufCap b < 2 ^ 31" and x: "length x = 4"
  shows "\<exists>h' b'. typedPush h [b] x = Inr (h', [b']) \<and> heap_ok h' (mset [b'] + T) \<and> exclusive b' T \<and>
    segData h' b' = segData h b @ x \<and> (\<forall>t \<in># T. segData h' t = segData h t)"
proof -
  let ?mh = "headroom b div 4 * 4" and ?mt = "max 1 (3 + dataLen b div 4 div 2) * 4"
  have ok': "heap_ok h (add_mset b T)" using ok by simp
  have in1: "dataOff b + dataLen b \<le> bufCap b" using heap_okD(1) [OF ok'] by (simp add: seg_ok_def)
  have "\<exists>h1 b1. (if tailroom b div 4 < 1 then reserve h b ?mh ?mt else Inr (h, b)) = Inr (h1, b1) \<and>
    heap_ok h1 (add_mset b1 T) \<and> segData h1 b1 = segData h b \<and> 4 \<le> tailroom b1 \<and> exclusive b1 T \<and>
    (\<forall>t \<in># T. segData h1 t = segData h t)"
  proof (cases "tailroom b div 4 < 1")
    case True
    have 1: "?mh \<le> headroom b" by simp
    have 2: "?mt \<le> 12 + dataLen b" by auto
    have "headroom b + dataLen b \<le> bufCap b" using in1 by (simp add: headroom_def)
    then have size: "dataLen b + ?mh + ?mt < 2 ^ 32 - 1" "fits (bufCap b + ?mt)"
      using 1 2 cap by (simp_all add: fits_def)
    obtain h1 b1 where "reserve h b ?mh ?mt = Inr (h1, b1)" "heap_ok h1 (add_mset b1 T)"
      "segData h1 b1 = segData h b" "roomy b1 ?mh ?mt" "exclusive b1 T" "\<forall>t \<in># T. segData h1 t = segData h t"
      by (rule reserve_ok [OF ok' ex size])
    moreover have "4 \<le> ?mt" by simp
    ultimately show ?thesis using True by (auto simp: roomy_def)
  qed (use ok' ex in auto)
  then obtain h1 b1 where R: "(if tailroom b div 4 < 1 then reserve h b ?mh ?mt else Inr (h, b)) = Inr (h1, b1)"
    "heap_ok h1 (add_mset b1 T)" "segData h1 b1 = segData h b" "4 \<le> tailroom b1" "exclusive b1 T"
    "\<forall>t \<in># T. segData h1 t = segData h t" by blast
  let ?a = "\<lparr>aheap = h1, achain = [b1], growth = CHUNK_SIZE\<rparr>"
  have "appender_ok T ?a" using R by (simp add: appender_ok_def fits_def CHUNK_SIZE_def)
  moreover have "length x \<le> appLength ?a" using R(4) x by (simp add: appLength_def)
  ultimately obtain a' where w: "writeTail ?a x = Inr a'" "appender_ok T a'" "appContent a' = appContent ?a @ x"
    "\<forall>t \<in># T. segData (aheap a') t = segData (aheap ?a) t" by (rule writeTail_ok)
  obtain b' where b': "achain a' = [b']" using writeTail_shape(1) [OF w(1)] by simp
  have "typedPush h [b] x = Inr (aheap a', achain a')"
    using w(1) R(1) x
    by (auto simp: typedPush_def writeTail_def appAppend_def result_simps)
  then show ?thesis using w b' R(3,6) by (auto simp: appender_ok_def appContent_def chainData_def)
qed

lemma encodeData_ok:
  assumes ok: "heap_ok h (mset [b] + T)" and ex: "exclusive b T" and cap: "bufCap b < 2 ^ 31" and d: "length d < 2 ^ 32"
  shows "\<exists>h' ch'. encodeData h [b] d = Inr (h', ch') \<and> ch' \<noteq> [] \<and> heap_ok h' (mset ch' + T) \<and>
    chainData h' ch' = segData h b @ frameOf d \<and> (\<forall>t \<in># T. segData h' t = segData h t)"
proof -
  obtain h1 b1 where P: "typedPush h [b] (htonl (length d)) = Inr (h1, [b1])" "heap_ok h1 (mset [b1] + T)" "exclusive b1 T"
    "segData h1 b1 = segData h b @ htonl (length d)" "\<forall>t \<in># T. segData h1 t = segData h t"
    using typedPush_ok [OF ok ex cap, of "htonl (length d)"] by auto
  let ?a = "\<lparr>aheap = h1, achain = [b1], growth = CHUNK_SIZE\<rparr>"
  have "appender_ok T ?a" using P by (simp add: appender_ok_def fits_def CHUNK_SIZE_def)
  from pushAtMost_ok [OF this, of d] obtain a k where "pushAtMost ?a d = Inr (a, k)" "appender_ok T a"
    "appContent a = appContent ?a @ d" "\<forall>t \<in># T. segData (aheap a) t = segData h1 t"
    by (auto simp: CHUNK_SIZE_def)
  then show ?thesis using P d
    by (auto simp: encodeData_def Let_def appender_ok_def appContent_def frameOf_def chainData_def)
qed

lemma decodeData_ok:
  assumes ok: "heap_ok h (mset ch + T)" and ne: "ch \<noteq> []" and F: "chainData h ch = htonl n @ d"
    and fit: "fits (length (chainData h ch) + headroom (hd ch) + tailroom (last ch))"
  shows "\<exists>h' ch'. decodeData h ch = Inr (d, h', ch')"
proof -
  have seg: "\<And>b. b \<in> set ch \<Longrightarrow> seg_ok h b" using heap_okD(1) [OF ok] by fastforce
  have "\<exists>h1 b1. coalesce h ch = Inr (h1, [b1]) \<and> heap_ok h1 (mset [b1] + T) \<and> chainData h1 [b1] = chainData h ch"
  proof (cases "2 \<le> length ch")
    case True
    have "fits (computeChainDataLength ch + headroom (hd ch) + tailroom (last ch))"
      using fit length_chainData [OF seg] by simp
    from ok True this obtain h1 b1 where "coalesceSlow h ch = Inr (h1, [b1])" "heap_ok h1 (add_mset b1 T)"
      "segData h1 b1 = chainData h ch" by (rule coalesceSlow_ok)
    then show ?thesis using True by (auto simp: coalesce_def chainData_Cons) (simp add: chainData_def)
  next
    case False
    then obtain b1 where "ch = [b1]" using ne by (cases ch) (auto simp: Suc_le_eq)
    then show ?thesis using ok by (simp add: coalesce_def)
  qed
  then obtain h1 b1 where C: "coalesce h ch = Inr (h1, [b1])" "heap_ok h1 (mset [b1] + T)" "chainData h1 [b1] = htonl n @ d"
    using F by auto
  have "typedData 4 h1 [b1] = Inr (take 4 (htonl n @ d))" by (rule typedData_header [OF C(2,3)]) simp_all
  then show ?thesis using C by (simp add: decodeData_def Let_def)
qed

section \<open>Reading up to a delimiter\<close>

definition occurs :: "byte list \<Rightarrow> byte list \<Rightarrow> bool" where
  "occurs bytes d \<longleftrightarrow> (\<exists>k. occursAt (=) d bytes k)"

lemma qfind_occurs: "\<exists>r. qfind (=) d bytes = Inr r \<and> (r \<noteq> None \<longleftrightarrow> occurs bytes d)"
proof -
  have "symp ((=) :: byte \<Rightarrow> _)" "transp ((=) :: byte \<Rightarrow> _)" by (auto intro: sympI transpI)
  from qfind_spec [OF this, of d bytes] show ?thesis
    by (auto simp: firstOccurrence_def occurs_def split: option.splits)
qed

definition until_outcome ::
  "iobuf multiset \<Rightarrow> byte list \<Rightarrow> ('s \<Rightarrow> byte list) \<Rightarrow> conn \<Rightarrow> 's \<Rightarrow> int \<Rightarrow> conn \<Rightarrow> 's \<Rightarrow> byte list \<Rightarrow> bool" where
  "until_outcome T bytes incoming c s r c' s' bs \<longleftrightarrow> appender_ok T (appenderOf c') \<and> incoming s = bs @ incoming s' \<and>
     chainData (bufs c') (rbuf c') = chainData (bufs c) (rbuf c) @ bs \<and> r \<in> codes \<and>
     (if r = 0 then occurs bytes (chainData (bufs c') (rbuf c'))
      else bs = [] \<or> \<not> occurs bytes (chainData (bufs c') (rbuf c')))"

text \<open>The answers other than bytes end the call as they end \<open>readData\<close>.\<close>

lemma until_stop:
  assumes "recv (appLength a) s = (ans, s1)" "\<And>bs. ans \<noteq> Received bs" "stream_recv recv incoming" "0 < appLength a"
    and "appender_ok T a" "growth a = CHUNK_SIZE" "appContent a = appContent (appenderOf c)"
    and "(if appLength (appenderOf c) = 0 then ensure (appenderOf c) CHUNK_SIZE else Inr (appenderOf c)) = Inr a"
  shows "\<exists>r c'. untilLoop (Suc n) recv timedOut bytes False c s = Inr (r, c', s1) \<and>
    until_outcome T bytes incoming c s r c' s1 []"
proof -
  have i: "incoming s1 = incoming s"
    using assms(3) [unfolded stream_recv_def, rule_format, OF assms(4), of s] assms(2) unfolding assms(1)
    by (cases ans) auto
  have ok: "appender_ok T (appenderOf ((putAppender a c)\<lparr>isTimeout := t\<rparr>))" for t
    using assms(5,6) by (simp add: appenderOf_def putAppender_def appender_ok_def)
  then have okc: "appender_ok T (appenderOf (putAppender a c))" using assms(5,6) by (simp add: appenderOf_put)
  have d: "chainData (aheap a) (achain a) = chainData (bufs c) (rbuf c)"
    using assms(7) by (simp add: appContent_def appenderOf_def)
  have "\<exists>r c'. untilLoop (Suc n) recv timedOut bytes False c s = Inr (r, c', s1) \<and> r \<in> {-1, 1, 2} \<and>
    (c' = putAppender a c \<or> c' = (putAppender a c)\<lparr>isTimeout := True\<rparr>)"
    using assms(1,2,8) by (cases ans; cases "timedOut s1") (auto simp: guard_def)
  then obtain r c' where "untilLoop (Suc n) recv timedOut bytes False c s = Inr (r, c', s1)" "r \<in> {-1, 1, 2}"
    "c' = putAppender a c \<or> c' = (putAppender a c)\<lparr>isTimeout := True\<rparr>" by blast
  moreover have "until_outcome T bytes incoming c s r c' s1 []"
    using i ok okc d calculation(2,3) by (auto simp: until_outcome_def codes_def putAppender_def)
  ultimately show ?thesis by blast
qed

lemma growBy_cap:
  assumes "appender_ok T a"
  shows "\<exists>nb. achain (growBy a CHUNK_SIZE) = achain a @ [nb] \<and> bufCap nb = 4096 \<and> dataOff nb = 0 \<and> dataLen nb = 0"
  by (simp add: growBy_def create_def createSeparate_def allocExtBuffer_def initExtBuffer_def goodExtBufferSize_def
      CHUNK_SIZE_def newBlock_def nullBuf_def Let_def)

lemma coalesce_appender:
  assumes ap: "appender_ok T a" "growth a = CHUNK_SIZE" and sz: "\<forall>b \<in> set (achain a). bufCap b < 2 ^ 62" "length (achain a) \<le> 2"
  shows "\<exists>h b. coalesce (aheap a) (achain a) = Inr (h, [b]) \<and> (length (achain a) = 1 \<longrightarrow> [b] = achain a) \<and>
    appender_ok T \<lparr>aheap = h, achain = [b], growth = CHUNK_SIZE\<rparr> \<and> chainData h [b] = appContent a"
proof (cases "length (achain a) = 2")
  case True
  have ok: "heap_ok (aheap a) (mset (achain a) + T)" using ap by (simp add: appender_ok_def)
  have seg: "\<And>b. b \<in> set (achain a) \<Longrightarrow> seg_ok (aheap a) b" using heap_okD(1) [OF ok] by fastforce
  obtain x y where xy: "achain a = [x, y]" using True by (auto simp: length_Suc_conv numeral_2_eq_2)
  have "dataOff x + dataLen x \<le> bufCap x" "dataOff y + dataLen y \<le> bufCap y"
    using seg by (auto simp: xy seg_ok_def)
  then have fit: "fits (computeChainDataLength (achain a) + headroom (hd (achain a)) + tailroom (last (achain a)))"
    using sz(1) by (auto simp: xy fits_def computeChainDataLength_def headroom_def tailroom_def)
  have two: "2 \<le> length (achain a)" using True by simp
  obtain h b where "coalesceSlow (aheap a) (achain a) = Inr (h, [b])" "heap_ok h (add_mset b T)"
    "segData h b = chainData (aheap a) (achain a)" "exclusive b T"
    using ok two fit by (rule coalesceSlow_ok)
  then show ?thesis using True
    by (auto simp: coalesce_def appender_ok_def appContent_def fits_def CHUNK_SIZE_def chainData_Cons) (simp add: chainData_def)
next
  case False
  have "achain a \<noteq> []" using ap by (simp add: appender_ok_def)
  then obtain b where b: "achain a = [b]" using False sz(2) by (cases "achain a"; cases "tl (achain a)") auto
  have "a = \<lparr>aheap = aheap a, achain = [b], growth = CHUNK_SIZE\<rparr>" using ap(2) b by simp
  then show ?thesis using ap(1) b by (auto simp: coalesce_def appContent_def)
qed

lemma until_received:
  assumes rv: "recv (appLength a) s = (Received bs, s1)" and st: "stream_recv recv incoming" and pos: "0 < appLength a"
    and ap: "appender_ok T a" "growth a = CHUNK_SIZE" "appContent a = appContent (appenderOf c)"
    and go: "(if appLength (appenderOf c) = 0 then ensure (appenderOf c) CHUNK_SIZE else Inr (appenderOf c)) = Inr a"
    and sz: "\<forall>b \<in> set (achain a). bufCap b < 2 ^ 62" "length (achain a) \<le> 2"
  shows "\<exists>c1 b1. appender_ok T (appenderOf c1) \<and> chainData (bufs c1) (rbuf c1) = chainData (bufs c) (rbuf c) @ bs \<and>
    rbuf c1 = [b1] \<and>
    (length (achain a) = 1 \<longrightarrow> b1 = (hd (achain a))\<lparr>dataLen := dataLen (hd (achain a)) + length bs\<rparr>) \<and>
    untilLoop (Suc n) recv timedOut bytes False c s =
      (if occurs bytes (chainData (bufs c1) (rbuf c1)) then Inr (0, c1, s1)
       else untilLoop n recv timedOut bytes (length (achain a) > 1) c1 s1)"
proof -
  have S: "0 < length bs" "length bs \<le> appLength a"
    using st [unfolded stream_recv_def, rule_format, OF pos, of s] unfolding rv by auto
  obtain a1 where w: "writeTail a bs = Inr a1" "appender_ok T a1" "appContent a1 = appContent a @ bs" "growth a1 = growth a"
    by (rule writeTail_ok [OF ap(1) S(2)])
  have ne: "achain a \<noteq> []" using ap(1) by (simp add: appender_ok_def)
  note sh = writeTail_shape [OF w(1) ne]
  have caps: "\<forall>b \<in> set (achain a1). bufCap b < 2 ^ 62"
    unfolding sh(1) using sz(1) last_in_set [OF ne] by (auto dest: in_set_butlastD)
  obtain h b where C: "coalesce (aheap a1) (achain a1) = Inr (h, [b])" "length (achain a1) = 1 \<longrightarrow> [b] = achain a1"
    "appender_ok T \<lparr>aheap = h, achain = [b], growth = CHUNK_SIZE\<rparr>" "chainData h [b] = appContent a1"
    using coalesce_appender [OF w(2) _ caps] w(4) ap(2) sh(2) sz(2) by auto
  obtain r where q: "qfind (=) (chainData h [b]) bytes = Inr r" "r \<noteq> None \<longleftrightarrow> occurs bytes (chainData h [b])"
    using qfind_occurs by blast
  define c1 where "c1 = c\<lparr>bufs := h, rbuf := [b]\<rparr>"
  have "appender_ok T (appenderOf c1)" using C(3) by (simp add: c1_def appenderOf_def)
  moreover have "chainData (bufs c1) (rbuf c1) = chainData (bufs c) (rbuf c) @ bs"
    using C(4) w(3) ap(3) by (simp add: c1_def appContent_def appenderOf_def)
  moreover have "length (achain a) = 1 \<longrightarrow> b = (hd (achain a))\<lparr>dataLen := dataLen (hd (achain a)) + length bs\<rparr>"
    using C(2) sh(1,2) by (cases "achain a") auto
  moreover have "untilLoop (Suc n) recv timedOut bytes False c s =
      (if occurs bytes (chainData (bufs c1) (rbuf c1)) then Inr (0, c1, s1)
       else untilLoop n recv timedOut bytes (length (achain a) > 1) c1 s1)"
  proof -
    have "untilLoop (Suc n) recv timedOut bytes False c s =
      (if r \<noteq> None then Inr (0, c1, s1) else untilLoop n recv timedOut bytes (length (achain a1) > 1) c1 s1)"
      using go rv w(1) C(1) q(1) by (simp add: guard_def Let_def c1_def)
    then show ?thesis using q(2) sh(2) by (simp add: c1_def)
  qed
  ultimately show ?thesis by (intro exI [of _ c1] exI [of _ b]) (simp add: c1_def)
qed

text \<open>
  From a single buffer the call returns with what has arrived, or it needs more
  bytes than the buffer had room for and then uses the buffer that \<^verbatim>\<open>coalesce\<close> released.
\<close>

lemma untilLoop_ok:
  assumes st: "stream_recv recv incoming"
    and "appender_ok T (appenderOf c)" "rbuf c = [b]" "bufCap b < 2 ^ 62" "tailroom b + 2 \<le> n"
  shows "(\<exists>r c' s' bs. untilLoop n recv timedOut bytes False c s = Inr (r, c', s') \<and>
      until_outcome T bytes incoming c s r c' s' bs) \<or>
    untilLoop n recv timedOut bytes False c s = Inl Undefined \<and>
    (\<exists>bs s'. incoming s = bs @ incoming s' \<and> tailroom b < length bs \<and> \<not> occurs bytes (chainData (bufs c) (rbuf c) @ bs))"
  using assms(2-)
proof (induction n arbitrary: b c s)
  case (Suc n)
  let ?a = "appenderOf c"
  have g: "growth ?a = CHUNK_SIZE" "achain ?a = [b]" "appLength ?a = tailroom b"
    using Suc.prems(2) by (simp_all add: appenderOf_def appLength_def)
  define a where "a = (if tailroom b = 0 then growBy ?a CHUNK_SIZE else ?a)"
  have f: "fits CHUNK_SIZE" by (simp add: fits_def CHUNK_SIZE_def)
  note G = growBy_ok [OF Suc.prems(1) f]
  have go: "(if appLength ?a = 0 then ensure ?a CHUNK_SIZE else Inr ?a) = Inr a"
    by (simp add: a_def g ensure_def CHUNK_SIZE_def)
  have pos: "0 < appLength a" using G(3) g(3) by (auto simp: a_def CHUNK_SIZE_def)
  have A: "appender_ok T a" "growth a = CHUNK_SIZE" "appContent a = appContent ?a"
    using G Suc.prems(1) g by (auto simp: a_def)
  have sz: "\<forall>x \<in> set (achain a). bufCap x < 2 ^ 62" "length (achain a) \<le> 2"
    "length (achain a) > 1 \<longleftrightarrow> tailroom b = 0"
    using growBy_cap [OF Suc.prems(1)] g Suc.prems(3) by (auto simp: a_def)
  obtain ans s1 where rv: "recv (appLength a) s = (ans, s1)" by fastforce
  show ?case
  proof (cases "\<exists>bs. ans = Received bs")
    case False
    then show ?thesis using until_stop [OF rv _ st pos A go, of n timedOut bytes] by blast
  next
    case True
    then obtain bs where rv': "recv (appLength a) s = (Received bs, s1)" using rv by blast
    have S: "0 < length bs" "length bs \<le> appLength a" "incoming s = bs @ incoming s1"
      using st [unfolded stream_recv_def, rule_format, OF pos, of s] unfolding rv' by auto
    obtain c1 b1 where R: "appender_ok T (appenderOf c1)"
      "chainData (bufs c1) (rbuf c1) = chainData (bufs c) (rbuf c) @ bs" "rbuf c1 = [b1]"
      "length (achain a) = 1 \<longrightarrow> b1 = (hd (achain a))\<lparr>dataLen := dataLen (hd (achain a)) + length bs\<rparr>"
      "untilLoop (Suc n) recv timedOut bytes False c s =
        (if occurs bytes (chainData (bufs c1) (rbuf c1)) then Inr (0, c1, s1)
         else untilLoop n recv timedOut bytes (length (achain a) > 1) c1 s1)"
      using until_received [OF rv' st pos A go sz(1,2), of n timedOut bytes] by blast
    show ?thesis
    proof (cases "occurs bytes (chainData (bufs c1) (rbuf c1))")
      case True
      then have "until_outcome T bytes incoming c s 0 c1 s1 bs"
        using R(1,2) S(3) by (auto simp: until_outcome_def codes_def)
      then show ?thesis using R(5) True by auto
    next
      case miss: False
      show ?thesis
      proof (cases "tailroom b = 0")
        case True
        obtain k where "n = Suc k" using Suc.prems(4) by (cases n) auto
        then have "untilLoop (Suc n) recv timedOut bytes False c s = Inl Undefined"
          using R(5) miss True sz(3) by (simp add: guard_def del: untilLoop.simps(2)) (simp add: guard_def)
        moreover have "tailroom b < length bs" using True S(1) by simp
        ultimately show ?thesis using S(3) R(2) miss by metis
      next
        case room: False
        then have b1: "b1 = b\<lparr>dataLen := dataLen b + length bs\<rparr>" "appLength a = tailroom b"
          using R(4) g by (auto simp: a_def)
        then have t: "tailroom b1 = tailroom b - length bs" "bufCap b1 = bufCap b" by (simp_all add: tailroom_def)
        have n: "tailroom b1 + 2 \<le> n" using Suc.prems(4) t(1) S(1,2) b1(2) by linarith
        have step: "untilLoop (Suc n) recv timedOut bytes False c s = untilLoop n recv timedOut bytes False c1 s1"
          using R(5) miss room sz(3) by simp
        from Suc.IH [OF R(1,3) _ n, of s1] t(2) Suc.prems(3)
        consider (ret) r c' s' bs' where "untilLoop n recv timedOut bytes False c1 s1 = Inr (r, c', s')"
            "until_outcome T bytes incoming c1 s1 r c' s' bs'"
          | (uaf) bs' s' where "untilLoop n recv timedOut bytes False c1 s1 = Inl Undefined"
            "incoming s1 = bs' @ incoming s'" "tailroom b1 < length bs'"
            "\<not> occurs bytes (chainData (bufs c1) (rbuf c1) @ bs')" by auto
        then show ?thesis
        proof cases
          case ret
          then have "until_outcome T bytes incoming c s r c' s' (bs @ bs')"
            using R(2) S(3) miss by (auto simp: until_outcome_def)
          then show ?thesis using step ret(1) by auto
        next
          case uaf
          then have "incoming s = (bs @ bs') @ incoming s'" "tailroom b < length (bs @ bs')"
            "\<not> occurs bytes (chainData (bufs c) (rbuf c) @ (bs @ bs'))"
            using S R(2) t(1) by auto
          then show ?thesis using step uaf(1) by metis
        qed
      qed
    qed
  qed
qed simp

lemma until_full_dangles:
  assumes st: "stream_recv recv incoming" and ap: "appender_ok T (appenderOf c)" and b: "rbuf c = [b]" "bufCap b < 2 ^ 62"
    and full: "tailroom b = 0" and rv: "recv 4096 s = (Received bs, s1)"
    and miss: "\<not> occurs bytes (chainData (bufs c) (rbuf c) @ bs)"
  shows "untilLoop (Suc (Suc n)) recv timedOut bytes False c s = Inl Undefined"
proof -
  let ?a = "appenderOf c"
  let ?g = "growBy ?a CHUNK_SIZE"
  have f: "fits CHUNK_SIZE" by (simp add: fits_def CHUNK_SIZE_def)
  note G = growBy_ok [OF ap f]
  have len0: "appLength ?a = 0" using b(1) full by (simp add: appLength_def appenderOf_def)
  have gr: "growth ?a = CHUNK_SIZE" by (simp add: appenderOf_def)
  have go: "(if appLength ?a = 0 then ensure ?a CHUNK_SIZE else Inr ?a) = Inr ?g"
    using len0 gr by (simp add: ensure_def CHUNK_SIZE_def)
  obtain nb where nb: "achain ?g = achain ?a @ [nb]" "bufCap nb = 4096" "dataOff nb = 0" "dataLen nb = 0"
    using growBy_cap [OF ap] by blast
  have cap: "appLength ?g = 4096" by (simp add: appLength_def nb tailroom_def)
  have ch: "achain ?g = [b, nb]" using nb(1) b(1) by (simp add: appenderOf_def)
  have rv': "recv (appLength ?g) s = (Received bs, s1)" "0 < appLength ?g" using rv cap by simp_all
  have A: "appender_ok T ?g" "growth ?g = CHUNK_SIZE" "appContent ?g = appContent ?a" using G gr by simp_all
  have sz: "\<forall>x \<in> set (achain ?g). bufCap x < 2 ^ 62" "length (achain ?g) \<le> 2" using ch b(2) nb(2) by simp_all
  obtain c1 where "chainData (bufs c1) (rbuf c1) = chainData (bufs c) (rbuf c) @ bs"
    "untilLoop (Suc (Suc n)) recv timedOut bytes False c s =
      (if occurs bytes (chainData (bufs c1) (rbuf c1)) then Inr (0, c1, s1)
       else untilLoop (Suc n) recv timedOut bytes (length (achain ?g) > 1) c1 s1)"
    using until_received [OF rv'(1) st rv'(2) A go sz, of "Suc n" timedOut bytes] by blast
  then show ?thesis using miss ch by (simp add: guard_def)
qed

lemma write_step:
  assumes "write_outcome outgoing (drop (wlen c) F) c s r c' s' m" "wlen c \<le> length F"
  shows "r \<in> {-1, 0, 1}" "bufs c' = bufs c" "wbuf c' = wbuf c" "wlen c' \<le> length F"
    "outgoing s' = outgoing s @ drop (wlen c) (take (wlen c') F)" "r = 0 \<longleftrightarrow> wlen c' = length F" "wlen c \<le> wlen c'"
proof -
  have e: "c'\<lparr>isTimeout := isTimeout c\<rparr> = c\<lparr>wlen := wlen c + m\<rparr>" using assms(1) by (simp add: write_outcome_def)
  have w: "wlen c' = wlen c + m" "bufs c' = bufs c" "wbuf c' = wbuf c"
    using arg_cong [OF e, of wlen] arg_cong [OF e, of bufs] arg_cong [OF e, of wbuf] by simp_all
  then show "bufs c' = bufs c" "wbuf c' = wbuf c" "wlen c \<le> wlen c'" by simp_all
  show "r \<in> {-1, 0, 1}" using assms(1) by (auto simp: write_outcome_def)
  show "wlen c' \<le> length F" using assms w(1) by (auto simp: write_outcome_def)
  show "outgoing s' = outgoing s @ drop (wlen c) (take (wlen c') F)"
    using assms(1) w(1) by (simp add: write_outcome_def drop_take)
  show "r = 0 \<longleftrightarrow> wlen c' = length F" using assms w(1) by (auto simp: write_outcome_def)
qed

section \<open>The properties\<close>

text \<open>Blocks are smaller than half of the address space.\<close>

definition small_blocks :: "bufheap \<Rightarrow> bool" where
  "small_blocks h \<longleftrightarrow> (\<forall>b k. blocks h b = Some k \<longrightarrow> length (cells k) < 2 ^ 62)"

lemma small_caps:
  assumes "seg_ok h b" "small_blocks h"
  shows "bufCap b < 2 ^ 62"
proof (cases "bufBlock b")
  case (Some i)
  obtain k where "blocks h i = Some k" "bufCap b \<le> length (cells k)" using seg_ok_block [OF assms(1) Some] by metis
  then show ?thesis using assms(2) unfolding small_blocks_def by (meson le_less_trans)
qed (use assms in \<open>simp add: seg_ok_def\<close>)

lemma decode_received:
  assumes ap: "appender_ok T (appenderOf c)" and F: "chainData (bufs c) (rbuf c) = frameOf d"
    and sm: "small_blocks (bufs c)" and d: "length d < 2 ^ 32"
  shows "\<exists>h ch. decodeData (bufs c) (rbuf c) = Inr (d, h, ch)"
proof -
  have ok: "heap_ok (bufs c) (mset (rbuf c) + T)" and ne: "rbuf c \<noteq> []"
    using ap by (simp_all add: appender_ok_def appenderOf_def)
  have seg: "\<And>b. b \<in> set (rbuf c) \<Longrightarrow> seg_ok (bufs c) b" using heap_okD(1) [OF ok] by fastforce
  have "bufCap (hd (rbuf c)) < 2 ^ 62" "bufCap (last (rbuf c)) < 2 ^ 62"
    using small_caps [OF seg sm] ne by simp_all
  moreover have "headroom (hd (rbuf c)) \<le> bufCap (hd (rbuf c))"
    using seg [OF hd_in_set [OF ne]] by (simp add: seg_ok_def headroom_def)
  ultimately have "fits (length (chainData (bufs c) (rbuf c)) + headroom (hd (rbuf c)) + tailroom (last (rbuf c)))"
    using F d by (simp add: frameOf_def fits_def tailroom_def)
  then show ?thesis using decodeData_ok [OF ok ne, of "length d" d] F by (simp add: frameOf_def)
qed

text \<open>
  C10: Receiving a message. However a frame's bytes arrive, in whatever pieces and
  with however many calls, the reader of the binary protocol never faults, loses
  no byte and takes none of what follows the frame; it answers \<open>complete\<close> exactly when
  the frame is in its buffers, and then decoding returns the message.
\<close>

theorem frame_received:
  assumes "stream_recv recv incoming" and "appender_ok T (appenderOf c)"
    and "rbuf c = [b]" "dataLen b = 0" "4 \<le> tailroom b"
    and "length d < 2 ^ 32" and "incoming s = frameOf d @ rest"
  shows "\<exists>r c' s'. readCalls (binaryReadData recv timedOut) k c s = Inr (r, c', s') \<and> r \<in> {-1, 0, 1, 2} \<and>
    chainData (bufs c') (rbuf c') @ incoming s' = frameOf d @ rest \<and> (r = 0 \<longleftrightarrow> incoming s' = rest) \<and>
    (r = 0 \<and> small_blocks (bufs c') \<longrightarrow> (\<exists>h ch. decodeData (bufs c') (rbuf c') = Inr (d, h, ch)))"
proof -
  have ok: "heap_ok (bufs c) (mset (rbuf c) + T)" using assms(2) by (simp add: appender_ok_def appenderOf_def)
  then have "seg_ok (bufs c) b" using heap_okD(1) [OF ok] assms(3) by simp
  then have D: "chainData (bufs c) (rbuf c) = []"
    using length_segData [of "bufs c" b] assms(3,4) by (simp add: chainData_def)
  have F: "length (frameOf d) = 4 + length d" "ntohl (take 4 (frameOf d)) = length (frameOf d) - 4"
    using assms(6) by (simp_all add: frameOf_def ntohl_htonl)
  have fs: "frame_state 4 (frameOf d) c" using D assms(3,5) by (simp add: frame_state_def)
  obtain r c' s' where R: "readCalls (binaryReadData recv timedOut) k c s = Inr (r, c', s')"
    "frame_step T 4 (frameOf d) incoming c s r c' s'"
    using readCalls_step [where bodyLength = ntohl and timedOut = timedOut and k = k and s = s and rest = rest,
        OF assms(1,2) fs _ _ F(2)] F(1) D assms(6,7) unfolding binaryReadData_def by (auto simp: fits_def)
  let ?D = "chainData (bufs c') (rbuf c')"
  have all: "?D @ incoming s' = frameOf d @ rest" using R(2) D assms(7) by (simp add: frame_step_def)
  then have len: "length ?D = length (frameOf d) \<longleftrightarrow> incoming s' = rest"
    using arg_cong [OF all, of length] by (metis append_same_eq append_eq_append_conv)
  moreover have "?D = frameOf d" if "r = 0"
  proof -
    have "length ?D = length (frameOf d)" using that R(2) by (simp add: frame_step_def)
    then show ?thesis using all append_eq_append_conv [of ?D "frameOf d"] by blast
  qed
  ultimately show ?thesis
    using R all decode_received [of T c' d] assms(6) by (auto simp: frame_step_def codes_def)
qed

text \<open>A stream given by its segments, each of which \<^verbatim>\<open>recv\<close> may hand out in parts.\<close>

fun segRecv :: "byte list list receiver" where
  "segRecv n [] = (RecvBlock, [])"
| "segRecv n ([] # xs) = (RecvBlock, xs)"
| "segRecv n ((y # ys) # xs) = (Received (take n (y # ys)), drop n (y # ys) # xs)"

lemma segRecv_stream: "stream_recv segRecv concat"
  unfolding stream_recv_def
proof (intro allI impI)
  fix n :: nat and s :: "byte list list"
  assume "0 < n"
  then show "case segRecv n s of (Received bs, s1) \<Rightarrow> 0 < length bs \<and> length bs \<le> n \<and> concat s = bs @ concat s1
    | (_, s1) \<Rightarrow> concat s1 = concat s" by (cases "(n, s)" rule: segRecv.cases) auto
qed

definition noBlocks :: bufheap where
  "noBlocks = \<lparr>blocks = (\<lambda>_. None), fresh = 0, freeLog = [], junk = (\<lambda>_. 0)\<rparr>"

definition freshConn :: "nat \<Rightarrow> conn" where
  "freshConn n = \<lparr>bufs = fst (create noBlocks n), rbuf = [snd (create noBlocks n)], rlen = 0, wbuf = [], wlen = 0,
     isTimeout = False\<rparr>"

lemma freshConn_ok:
  assumes "fits n"
  shows "appender_ok {#} (appenderOf (freshConn n))" and "dataLen (snd (create noBlocks n)) = 0"
    and "n \<le> tailroom (snd (create noBlocks n))"
proof -
  have "heap_ok noBlocks {#}" by (simp add: heap_ok_def noBlocks_def)
  note C = create_ok [OF this assms surjective_pairing]
  have "exclusive (snd (create noBlocks n)) {#}" by (rule exclusive_unmarked [OF C(1,6,7)])
  then show "appender_ok {#} (appenderOf (freshConn n))"
    using C by (simp add: appender_ok_def appenderOf_def freshConn_def fits_def CHUNK_SIZE_def)
  show "dataLen (snd (create noBlocks n)) = 0" "n \<le> tailroom (snd (create noBlocks n))"
    using C by (simp_all add: tailroom_def)
qed

theorem frame_received_witness:
  "\<exists>r c' s'. readCalls (binaryReadData segRecv (\<lambda>_. False)) 2 (freshConn 16) [[0, 0], [0, 2, 7], [], [8, 9]] = Inr (r, c', s') \<and>
    r \<in> {-1, 0, 1, 2} \<and> chainData (bufs c') (rbuf c') @ concat s' = frameOf [7, 8] @ [9] \<and> (r = 0 \<longleftrightarrow> concat s' = [9]) \<and>
    (r = 0 \<and> small_blocks (bufs c') \<longrightarrow> (\<exists>h ch. decodeData (bufs c') (rbuf c') = Inr ([7, 8], h, ch)))"
proof (rule frame_received)
  show "stream_recv segRecv concat" by (rule segRecv_stream)
  show "appender_ok {#} (appenderOf (freshConn 16))" by (rule freshConn_ok) (simp add: fits_def)
  show "rbuf (freshConn 16) = [snd (create noBlocks 16)]" by (simp add: freshConn_def)
  show "dataLen (snd (create noBlocks 16)) = 0" "4 \<le> tailroom (snd (create noBlocks 16))"
    using freshConn_ok(2,3) [of 16] by (simp_all add: fits_def)
  show "length ([7, 8] :: byte list) < 2 ^ 32" by simp
  show "concat [[0, 0], [0, 2, 7], [], [8, 9]] = frameOf [7, 8] @ [9]"
    by code_simp
qed

text \<open>
  C11: Sending a message. Encoding into an empty buffer makes the frame; however
  much of it each call of \<^verbatim>\<open>send\<close> takes, what has gone out after any number of calls is
  exactly the first \<^verbatim>\<open>wlen\<close> bytes of the frame, each once and in order, and the answer
  is \<open>complete\<close> exactly when all have.
\<close>

theorem frame_sent:
  assumes "stream_send send outgoing" and "heap_ok (bufs c) (mset [w] + T)" "exclusive w T"
    and "wbuf c = [w]" "dataLen w = 0" "bufCap w < 2 ^ 31" "wlen c = 0" and "length d < 2 ^ 32"
  shows "\<exists>h ch. encodeData (bufs c) (wbuf c) d = Inr (h, ch) \<and> chainData h ch = frameOf d \<and>
    (\<forall>t \<in># T. segData h t = segData (bufs c) t) \<and>
    (\<exists>r c' s'. readCalls (protocolWriteData send timedOut) k (c\<lparr>bufs := h, wbuf := ch\<rparr>) s = Inr (r, c', s') \<and>
       r \<in> {-1, 0, 1} \<and> wlen c' \<le> length (frameOf d) \<and> outgoing s' = outgoing s @ take (wlen c') (frameOf d) \<and>
       (r = 0 \<longleftrightarrow> wlen c' = length (frameOf d)))"
proof -
  have "segData (bufs c) w = []"
    using length_segData [of "bufs c" w] heap_okD(1) [OF assms(2)] assms(5) by simp
  then obtain h ch where E: "encodeData (bufs c) [w] d = Inr (h, ch)" "ch \<noteq> []" "chainData h ch = frameOf d"
    "\<forall>t \<in># T. segData h t = segData (bufs c) t"
    using encodeData_ok [OF assms(2,3,6,8)] by auto
  let ?c = "c\<lparr>bufs := h, wbuf := ch\<rparr>"
  have "\<exists>r c' s'. readCalls (protocolWriteData send timedOut) k ?c s = Inr (r, c', s') \<and> r \<in> {-1, 0, 1} \<and>
    bufs c' = h \<and> wbuf c' = ch \<and> wlen c' \<le> length (frameOf d) \<and> outgoing s' = outgoing s @ take (wlen c') (frameOf d) \<and>
    (r = 0 \<longleftrightarrow> wlen c' = length (frameOf d))"
  proof (induction k)
    case 0
    have "wbuf ?c \<noteq> []" "wlen ?c \<le> length (chainData (bufs ?c) (wbuf ?c))" using E(2) assms(7) by simp_all
    from protocolWriteData_ok [OF assms(1) this, where s = s and timedOut = timedOut] obtain r c' s' m where
      W: "protocolWriteData send timedOut ?c s = Inr (r, c', s')"
        "write_outcome outgoing (drop (wlen ?c) (frameOf d)) ?c s r c' s' m" using E(3) by auto
    then show ?case using write_step [OF W(2)] assms(7) by auto
  next
    case (Suc k)
    then obtain r c1 s1 where R: "readCalls (protocolWriteData send timedOut) k ?c s = Inr (r, c1, s1)"
      "r \<in> {-1, 0, 1}" "bufs c1 = h" "wbuf c1 = ch" "wlen c1 \<le> length (frameOf d)"
      "outgoing s1 = outgoing s @ take (wlen c1) (frameOf d)" "r = 0 \<longleftrightarrow> wlen c1 = length (frameOf d)" by blast
    show ?case
    proof (cases "r = 1")
      case True
      have "wbuf c1 \<noteq> []" "wlen c1 \<le> length (chainData (bufs c1) (wbuf c1))" using E(2,3) R by simp_all
      from protocolWriteData_ok [OF assms(1) this, where s = s1 and timedOut = timedOut] obtain r' c' s' m where
        W: "protocolWriteData send timedOut c1 s1 = Inr (r', c', s')"
          "write_outcome outgoing (drop (wlen c1) (frameOf d)) c1 s1 r' c' s' m" using E(3) R(3,4) by auto
      note w = write_step [OF W(2) R(5)]
      have "take (wlen c1) (frameOf d) @ drop (wlen c1) (take (wlen c') (frameOf d)) = take (wlen c') (frameOf d)"
        using w(7) by (metis append_take_drop_id min.absorb1 take_take)
      then have "outgoing s' = outgoing s @ take (wlen c') (frameOf d)" using w(5) R(6) by simp
      then show ?thesis using W(1) R w True by auto
    qed (use R in auto)
  qed
  then show ?thesis using E assms(4) by auto
qed

definition oneByteSend :: "byte list sender" where
  "oneByteSend d s = (case d of [] \<Rightarrow> (SendBlock, s) | x # xs \<Rightarrow> (Sent 1, s @ [x]))"

theorem frame_sent_witness:
  "\<exists>h ch. encodeData (bufs ((freshConn 2)\<lparr>wbuf := rbuf (freshConn 2)\<rparr>)) (wbuf ((freshConn 2)\<lparr>wbuf := rbuf (freshConn 2)\<rparr>)) [5, 6]
      = Inr (h, ch) \<and> chainData h ch = frameOf [5, 6] \<and>
    (\<forall>t \<in># {#}. segData h t = segData (bufs ((freshConn 2)\<lparr>wbuf := rbuf (freshConn 2)\<rparr>)) t) \<and>
    (\<exists>r c' s'. readCalls (protocolWriteData oneByteSend (\<lambda>_. False)) 1
         ((freshConn 2)\<lparr>wbuf := rbuf (freshConn 2), bufs := h, wbuf := ch\<rparr>) [] = Inr (r, c', s') \<and>
       r \<in> {-1, 0, 1} \<and> wlen c' \<le> length (frameOf [5, 6]) \<and> s' = [] @ take (wlen c') (frameOf [5, 6]) \<and>
       (r = 0 \<longleftrightarrow> wlen c' = length (frameOf [5, 6])))"
proof (rule frame_sent [where outgoing = "\<lambda>s. s" and w = "snd (create noBlocks 2)"])
  show "stream_send oneByteSend (\<lambda>s. s)"
    by (auto simp: stream_send_def oneByteSend_def split: list.splits)
  have f: "fits 2" by (simp add: fits_def)
  show "heap_ok (bufs ((freshConn 2)\<lparr>wbuf := rbuf (freshConn 2)\<rparr>)) (mset [snd (create noBlocks 2)] + {#})"
    "exclusive (snd (create noBlocks 2)) {#}"
    using freshConn_ok(1) [OF f] by (simp_all add: appender_ok_def appenderOf_def freshConn_def)
  show "dataLen (snd (create noBlocks 2)) = 0" by (rule freshConn_ok(2) [OF f])
  show "bufCap (snd (create noBlocks 2)) < 2 ^ 31"
    by (simp add: create_def createCombined_def newBlock_def noBlocks_def nullBuf_def Let_def)
qed (simp_all add: freshConn_def)

text \<open>
  C12: Reading up to a delimiter. From one buffer the call either returns, with
  what has arrived behind what there was, and answers \<open>complete\<close> only when the
  delimiter is there; or more bytes are needed than the buffer has room for. In that case it
  is undefined: once the buffer is full and the delimiter not in what the next call of
  \<^verbatim>\<open>recv\<close> brings, the appender goes on with a buffer that \<^verbatim>\<open>coalesce\<close> has released.
\<close>

theorem read_until_delimiter:
  assumes "stream_recv recv incoming" and "appender_ok T (appenderOf c)" and "rbuf c = [b]" "bufCap b < 2 ^ 62"
  shows "((\<exists>r c' s' bs. protocolReadDataUntil recv timedOut bytes c s = Inr (r, c', s') \<and>
        until_outcome T bytes incoming c s r c' s' bs) \<or>
      protocolReadDataUntil recv timedOut bytes c s = Inl Undefined \<and>
      (\<exists>bs s'. incoming s = bs @ incoming s' \<and> tailroom b < length bs \<and>
         \<not> occurs bytes (chainData (bufs c) (rbuf c) @ bs))) \<and>
    (\<forall>bs s1. tailroom b = 0 \<and> recv 4096 s = (Received bs, s1) \<and> \<not> occurs bytes (chainData (bufs c) (rbuf c) @ bs) \<longrightarrow>
      protocolReadDataUntil recv timedOut bytes c s = Inl Undefined)"
proof (intro conjI allI impI)
  have n: "protocolReadDataUntil recv timedOut bytes c s = untilLoop (tailroom b + 2) recv timedOut bytes False c s"
    using assms(3) by (simp add: protocolReadDataUntil_def)
  show "(\<exists>r c' s' bs. protocolReadDataUntil recv timedOut bytes c s = Inr (r, c', s') \<and>
        until_outcome T bytes incoming c s r c' s' bs) \<or>
      protocolReadDataUntil recv timedOut bytes c s = Inl Undefined \<and>
      (\<exists>bs s'. incoming s = bs @ incoming s' \<and> tailroom b < length bs \<and>
         \<not> occurs bytes (chainData (bufs c) (rbuf c) @ bs))"
    unfolding n by (rule untilLoop_ok [OF assms order_refl])
  fix bs s1
  assume h: "tailroom b = 0 \<and> recv 4096 s = (Received bs, s1) \<and> \<not> occurs bytes (chainData (bufs c) (rbuf c) @ bs)"
  show "protocolReadDataUntil recv timedOut bytes c s = Inl Undefined"
    using until_full_dangles [OF assms] h n by simp
qed

theorem read_until_delimiter_witness:
  "protocolReadDataUntil segRecv (\<lambda>_. False) [10] (freshConn 0) [[1], [2, 10]] = Inl Undefined"
proof -
  let ?b = "snd (create noBlocks 0)"
  have f: "fits 0" by (simp add: fits_def)
  have b: "bufCap ?b = 0" "dataOff ?b = 0" "dataLen ?b = 0" "bufBlock ?b = Some 0"
    by (simp_all add: create_def createCombined_def newBlock_def noBlocks_def nullBuf_def Let_def)
  have "rbuf (freshConn 0) = [?b]" by (simp add: freshConn_def)
  moreover have "\<not> occurs [10] (chainData (bufs (freshConn 0)) (rbuf (freshConn 0)) @ [1])"
    by (auto simp: occurs_def occursAt_def freshConn_def chainData_def segData_def b)
  moreover have "segRecv 4096 [[1], [2, 10]] = (Received [1], [[], [2, 10]])" by simp
  moreover have "bufCap ?b < 2 ^ 62" "tailroom ?b = 0" by (simp_all add: b tailroom_def)
  ultimately show ?thesis using read_until_delimiter [OF segRecv_stream freshConn_ok(1) [OF f]] by blast
qed

section \<open>The blocking client sends only its first buffer\<close>

lemma writeTail_caps: "writeTail a d = Inr a' \<Longrightarrow> achain a \<noteq> [] \<Longrightarrow> \<forall>b \<in> set (achain a). bufCap b \<le> m \<Longrightarrow>
    (\<forall>b \<in> set (achain a'). bufCap b \<le> m) \<and> growth a' = growth a \<and> achain a' \<noteq> []"
  using writeTail_shape(1) [of a d a']
  by (auto simp: writeTail_def appAppend_def Let_def result_simps dest: in_set_butlastD)

lemma pushLoop_caps:
  assumes "\<forall>b \<in> set (achain a). bufCap b \<le> 4096" "growth a = CHUNK_SIZE" "achain a \<noteq> []" "pushLoop n a d m = Inr (a', k)"
  shows "\<forall>b \<in> set (achain a'). bufCap b \<le> 4096"
  using assms
proof (induction n arbitrary: a d m)
  case (Suc n)
  show ?case
  proof (cases "length d \<le> appLength a")
    case True
    then show ?thesis using Suc.prems writeTail_caps [of a d a' 4096] by (auto simp: result_simps)
  next
    case False
    let ?v = "appLength a"
    obtain a1 where w: "writeTail a (take ?v d) = Inr a1" using Suc.prems(4) False by (auto simp: Let_def result_simps)
    note W = writeTail_caps [OF w Suc.prems(3,1)]
    have g: "tryGrowChain a1 = (True, growBy a1 CHUNK_SIZE)" using W Suc.prems(2) by (simp add: tryGrowChain_def CHUNK_SIZE_def)
    have "pushLoop n (growBy a1 CHUNK_SIZE) (drop ?v d) (m + ?v) = Inr (a', k)"
      using Suc.prems(4) False w g by (simp add: Let_def)
    moreover have "\<forall>b \<in> set (achain (growBy a1 CHUNK_SIZE)). bufCap b \<le> 4096"
      using W by (auto simp: growBy_def create_def createSeparate_def allocExtBuffer_def initExtBuffer_def
          goodExtBufferSize_def CHUNK_SIZE_def newBlock_def nullBuf_def Let_def)
    moreover have "growth (growBy a1 CHUNK_SIZE) = CHUNK_SIZE" "achain (growBy a1 CHUNK_SIZE) \<noteq> []"
      using W Suc.prems(2) by (simp_all add: growBy_def case_prod_beta)
    ultimately show ?thesis using Suc.IH by blast
  qed
qed simp

text \<open>A request of more than 4092 bytes in a fresh buffer is not sent whole, and the rest of it never.\<close>

lemma transport_truncates:
  assumes st: "stream_send send outgoing" and w: "heap_ok h (mset [w] + T)" "exclusive w T" "dataLen w = 0"
    "bufCap w = 4096" "dataOff w = 0" and d: "4092 < length d" "length d < 2 ^ 32"
  shows "\<exists>h' ch' s' k. transportSend send h [w] d s = Inr (h', ch', s') \<and>
    outgoing s' = outgoing s @ take k (frameOf d) \<and> k < length (frameOf d)"
proof -
  have seg: "segData h w = []" using length_segData [of h w] heap_okD(1) [OF w(1)] w(3) by simp
  have c31: "bufCap w < 2 ^ 31" using w(4) by simp
  obtain h1 ch1 where E: "encodeData h [w] d = Inr (h1, ch1)" "ch1 \<noteq> []" "heap_ok h1 (mset ch1 + T)" "chainData h1 ch1 = frameOf d"
    using encodeData_ok [OF w(1,2) c31 d(2)] seg by auto
  have caps: "\<forall>b \<in> set ch1. bufCap b \<le> 4096"
  proof -
    obtain h0 b0 where P: "typedPush h [w] (htonl (length d)) = Inr (h0, [b0])"
      using typedPush_ok [OF w(1,2) c31, of "htonl (length d)"] by auto
    then have b0: "bufCap b0 = 4096"
      using w(3-5) by (auto simp: typedPush_def tailroom_def appendTo_def guard_def result_simps split: if_splits)
    let ?a = "\<lparr>aheap = h0, achain = [b0], growth = CHUNK_SIZE\<rparr>"
    obtain a k where "pushAtMost ?a d = Inr (a, k)" "achain a = ch1"
      using E(1) P d(2) by (auto simp: encodeData_def Let_def result_simps)
    then show ?thesis using pushLoop_caps [of ?a "length d + 1" d 0 a k] b0 by (simp add: pushAtMost_def)
  qed
  let ?ps = "chainPieces h1 ch1"
  have ne: "?ps \<noteq> []" using E(2) by (simp add: chainPieces_def)
  obtain p cur where pk: "peek ?ps newCursor = (p, cur)" "cursor_ok ?ps cur" "p = curData ?ps cur"
    "\<exists>tl. remaining ?ps newCursor = p @ tl" "p = [] \<longleftrightarrow> remaining ?ps newCursor = []"
    using peek_spec [OF newCursor_ok [OF ne]] by blast
  have all: "remaining ?ps newCursor = frameOf d"
    using remaining_new [OF ne] E(4) by (simp add: chainPieces_def chainData_def)
  have "length p \<le> 4096"
  proof -
    have i: "crtBuf cur < length ch1" using pk(2) by (simp add: cursor_ok_def chainPieces_def)
    then have "seg_ok h1 (ch1 ! crtBuf cur)" using heap_okD(1) [OF E(3)] by simp
    then have "length (?ps ! crtBuf cur) \<le> bufCap (ch1 ! crtBuf cur)"
      using i length_segData [of h1 "ch1 ! crtBuf cur"] by (simp add: chainPieces_def seg_ok_def)
    also have "\<dots> \<le> 4096" using caps i by simp
    finally show ?thesis using pk(3) by (simp add: curLength_def)
  qed
  moreover have "p \<noteq> []" using pk(5) all d(1) by (auto simp: frameOf_def)
  moreover obtain ans s1 where sd: "send p s = (ans, s1)" by fastforce
  moreover obtain tl where tl: "frameOf d = p @ tl" using pk(4) all by auto
  moreover have S: "case (ans, s1) of (Sent k, s1) \<Rightarrow> 0 < k \<and> k \<le> length p \<and> outgoing s1 = outgoing s @ take k p
      | (_, s1) \<Rightarrow> outgoing s1 = outgoing s"
    using st [unfolded stream_send_def, rule_format, OF \<open>p \<noteq> []\<close>, of s] unfolding sd .
  ultimately have "\<exists>k. k \<le> 4096 \<and> outgoing s1 = outgoing s @ take k (frameOf d)"
  proof (cases ans)
    case (Sent k)
    then show ?thesis using S tl \<open>length p \<le> 4096\<close> by (intro exI [of _ k]) auto
  qed (auto intro!: exI [of _ 0])
  then obtain k where "k \<le> 4096" "outgoing s1 = outgoing s @ take k (frameOf d)" by blast
  then show ?thesis using E(1) pk(1) sd d(1) by (auto simp: transportSend_def frameOf_def intro!: exI [of _ k])
qed

end
