(* ===== verification/Chain_Links.thy ===== *)
theory Chain_Links
  imports IO_Buffer
begin

text \<open>
  The links of buffer chains: \<^verbatim>\<open>next_\<close> and \<^verbatim>\<open>prev_\<close> of \<^verbatim>\<open>IOBuf\<close> (\<^verbatim>\<open>src/raster/io/IOBuf.h\<close>, \<^verbatim>\<open>IOBuf.cpp\<close>) and the
  operations that relink them, on a store of objects named by their addresses.
  \<open>IO_Buffer\<close> describes a chain by the list of its elements; this theory shows
  that the ring of links implements that list.
\<close>

section \<open>Links\<close>

record links =
  nextOf :: "nat \<Rightarrow> nat"
  prevOf :: "nat \<Rightarrow> nat"

abbreviation setNext :: "nat \<Rightarrow> nat \<Rightarrow> links \<Rightarrow> links" where
  "setNext a b l \<equiv> l\<lparr>nextOf := (nextOf l)(a := b)\<rparr>"

abbreviation setPrev :: "nat \<Rightarrow> nat \<Rightarrow> links \<Rightarrow> links" where
  "setPrev a b l \<equiv> l\<lparr>prevOf := (prevOf l)(a := b)\<rparr>"

text \<open>A new element is a chain of its own.\<close>

definition newElement :: "nat \<Rightarrow> links \<Rightarrow> links" where
  "newElement a l = setPrev a a (setNext a a l)"

definition isChained :: "nat \<Rightarrow> links \<Rightarrow> bool result" where
  "isChained this l =
     guard ((nextOf l this = this) = (prevOf l this = this)) Assert_Failed (Inr (nextOf l this \<noteq> this))"

definition prependChain :: "nat \<Rightarrow> nat \<Rightarrow> links \<Rightarrow> links" where
  "prependChain this other l =
     (let otherTail = prevOf l other;
          l1 = setNext (prevOf l this) other l;
          l2 = setPrev other (prevOf l1 this) l1;
          l3 = setNext otherTail this l2
      in setPrev this otherTail l3)"

definition appendChain :: "nat \<Rightarrow> nat \<Rightarrow> links \<Rightarrow> links" where
  "appendChain this other l = prependChain (nextOf l this) other l"

definition unlink :: "nat \<Rightarrow> links \<Rightarrow> links" where
  "unlink this l =
     (let l1 = setPrev (nextOf l this) (prevOf l this) l;
          l2 = setNext (prevOf l1 this) (nextOf l1 this) l1;
          l3 = setPrev this this l2
      in setNext this this l3)"

definition popElement :: "nat \<Rightarrow> links \<Rightarrow> nat option \<times> links" where
  "popElement this l =
     (let nx = nextOf l this;
          l1 = setPrev (nextOf l this) (prevOf l this) l;
          l2 = setNext (prevOf l1 this) (nextOf l1 this) l1;
          l3 = setPrev this this l2;
          l4 = setNext this this l3
      in (if nx = this then None else Some nx, l4))"

definition separateChain :: "nat \<Rightarrow> nat \<Rightarrow> nat \<Rightarrow> links \<Rightarrow> links result" where
  "separateChain this head tail l =
     guard (head \<noteq> this \<and> tail \<noteq> this) Assert_Failed
       (let l1 = setNext (prevOf l head) (nextOf l tail) l;
            l2 = setPrev (nextOf l1 tail) (prevOf l1 head) l1;
            l3 = setPrev head tail l2
        in Inr (setNext tail head l3))"

text \<open>The relinking of the move assignment, \<^verbatim>\<open>this\<close> being a chain of its own by then.\<close>

definition moveLinks :: "nat \<Rightarrow> nat \<Rightarrow> links \<Rightarrow> links" where
  "moveLinks this other l =
     (if nextOf l other \<noteq> other
      then let l1 = setNext this (nextOf l other) l;
               l2 = setPrev (nextOf l1 this) this l1;
               l3 = setNext other other l2;
               l4 = setPrev this (prevOf l3 other) l3;
               l5 = setNext (prevOf l4 this) this l4
           in setPrev other other l5
      else l)"

text \<open>
  The loops over a chain, from \<open>current\<close> until they are back at \<open>this\<close>; \<open>n\<close> bounds
  their turns.
\<close>

fun walk :: "nat \<Rightarrow> links \<Rightarrow> nat \<Rightarrow> nat \<Rightarrow> nat list result" where
  "walk 0 l this current = (if current = this then Inr [] else Inl Diverges)"
| "walk (Suc n) l this current =
     (if current = this then Inr []
      else res_bind (walk n l this (nextOf l current)) (\<lambda>cs. Inr (current # cs)))"

definition elements :: "nat \<Rightarrow> links \<Rightarrow> nat \<Rightarrow> nat list result" where
  "elements n l this = res_bind (walk n l this (nextOf l this)) (\<lambda>cs. Inr (this # cs))"

definition countChainElements :: "nat \<Rightarrow> links \<Rightarrow> nat \<Rightarrow> nat result" where
  "countChainElements n l this = res_bind (walk n l this (nextOf l this)) (\<lambda>cs. Inr (length cs + 1))"

text \<open>The bytes of the chain at \<open>this\<close>, given the buffer object at every address.\<close>

definition bytesAt :: "bufheap \<Rightarrow> (nat \<Rightarrow> iobuf) \<Rightarrow> nat \<Rightarrow> links \<Rightarrow> nat \<Rightarrow> byte list result" where
  "bytesAt h obj n l this = res_bind (elements n l this) (\<lambda>as. Inr (chainData h (map obj as)))"

text \<open>The destructor unlinks, and so destroys, the next element until it is alone.\<close>

fun destroyRest :: "nat \<Rightarrow> nat \<Rightarrow> links \<Rightarrow> (nat list \<times> links) result" where
  "destroyRest 0 this l = (if nextOf l this = this then Inr ([], l) else Inl Diverges)"
| "destroyRest (Suc n) this l =
     (if nextOf l this = this then Inr ([], l)
      else res_bind (destroyRest n this (unlink (nextOf l this) l)) (\<lambda>(ds, l').
        Inr (nextOf l this # ds, l')))"

section \<open>Rings\<close>

text \<open>Neighbours in \<open>xs\<close> are linked in both directions; a ring closes the list.\<close>

fun linked :: "links \<Rightarrow> nat list \<Rightarrow> bool" where
  "linked l (a # b # xs) \<longleftrightarrow> nextOf l a = b \<and> prevOf l b = a \<and> linked l (b # xs)"
| "linked l _ \<longleftrightarrow> True"

definition ring :: "links \<Rightarrow> nat list \<Rightarrow> bool" where
  "ring l xs \<longleftrightarrow> xs \<noteq> [] \<and> distinct xs \<and> linked l xs \<and>
     nextOf l (last xs) = hd xs \<and> prevOf l (hd xs) = last xs"

lemma linked_append:
  assumes "xs \<noteq> []" "ys \<noteq> []"
  shows "linked l (xs @ ys) \<longleftrightarrow> linked l xs \<and> nextOf l (last xs) = hd ys \<and> prevOf l (hd ys) = last xs \<and> linked l ys"
  using assms
proof (induction xs)
  case (Cons a xs)
  then show ?case by (cases xs; cases ys) auto
qed simp

lemma linked_cong:
  assumes "\<And>a. a \<in> set (butlast xs) \<Longrightarrow> nextOf l' a = nextOf l a"
    and "\<And>a. a \<in> set (tl xs) \<Longrightarrow> prevOf l' a = prevOf l a"
  shows "linked l' xs = linked l xs"
  using assms by (induction l xs rule: linked.induct) auto

lemma ring_rotate: "ring l (xs @ ys) \<longleftrightarrow> ring l (ys @ xs)"
  by (cases "xs = []"; cases "ys = []") (auto simp: ring_def linked_append)

lemma distinct_butlast_last: "distinct xs \<Longrightarrow> xs \<noteq> [] \<Longrightarrow> last xs \<notin> set (butlast xs)"
  by (induction xs) auto

lemma distinct_hd_tl: "distinct xs \<Longrightarrow> xs \<noteq> [] \<Longrightarrow> hd xs \<notin> set (tl xs)"
  by (cases xs) auto

lemma notin_butlast: "a \<notin> set xs \<Longrightarrow> a \<notin> set (butlast xs)"
  by (meson in_set_butlastD)

lemma notin_tl: "a \<notin> set xs \<Longrightarrow> a \<notin> set (tl xs)"
  by (cases xs) auto

lemmas ring_facts = distinct_butlast_last distinct_hd_tl notin_butlast notin_tl

text \<open>A ring is untouched when the links of others change.\<close>

lemma ring_frame:
  assumes "ring l xs" "\<forall>a \<in> set xs. nextOf l' a = nextOf l a \<and> prevOf l' a = prevOf l a"
  shows "ring l' xs"
proof -
  have "linked l' ys = linked l ys" if "set ys \<subseteq> set xs" for ys
    using that assms(2) by (induction l ys rule: linked.induct) auto
  then show ?thesis using assms by (auto simp: ring_def)
qed

lemma ring_next: "ring l (a # b # xs) \<Longrightarrow> nextOf l a = b"
  by (simp add: ring_def)

lemma ring_prev: "ring l (a # xs) \<Longrightarrow> prevOf l a = last (a # xs)"
  by (simp add: ring_def)

section \<open>The operations on rings\<close>

lemma linked_segment:
  assumes xs: "distinct xs" "linked l xs"
    and n: "\<And>a. a \<in> set xs \<Longrightarrow> a \<noteq> last xs \<Longrightarrow> nextOf l' a = nextOf l a"
    and p: "\<And>a. a \<in> set xs \<Longrightarrow> a \<noteq> hd xs \<Longrightarrow> prevOf l' a = prevOf l a"
  shows "linked l' xs"
proof (cases "xs = []")
  case False
  then have "last xs \<notin> set (butlast xs)" "hd xs \<notin> set (tl xs)"
    using xs by (simp_all add: ring_facts)
  then have "linked l' xs = linked l xs"
    using n p False by (intro linked_cong) (metis in_set_butlastD list.set_sel(2))+
  then show ?thesis using xs by simp
qed simp

text \<open>
  Two linked segments that are closed into a ring by the four links at their
  ends, all others unchanged.
\<close>

lemma ring_join:
  assumes xs: "distinct xs" "linked l xs" "xs \<noteq> []" and ys: "distinct ys" "linked l ys" "ys \<noteq> []"
    and dis: "set xs \<inter> set ys = {}"
    and n: "\<And>a. a \<in> set (xs @ ys) \<Longrightarrow> a \<noteq> last xs \<Longrightarrow> a \<noteq> last ys \<Longrightarrow> nextOf l' a = nextOf l a"
    and p: "\<And>a. a \<in> set (xs @ ys) \<Longrightarrow> a \<noteq> hd xs \<Longrightarrow> a \<noteq> hd ys \<Longrightarrow> prevOf l' a = prevOf l a"
    and ends: "nextOf l' (last xs) = hd ys" "prevOf l' (hd ys) = last xs"
      "nextOf l' (last ys) = hd xs" "prevOf l' (hd xs) = last ys"
  shows "ring l' (xs @ ys)"
proof -
  have "last xs \<in> set xs" "last ys \<in> set ys" "hd xs \<in> set xs" "hd ys \<in> set ys" using xs ys by auto
  note m = this
  have "linked l' xs"
  proof (rule linked_segment [OF xs(1,2)])
    fix a assume a: "a \<in> set xs"
    then have "a \<noteq> last ys" "a \<noteq> hd ys" using m dis by auto
    then show "a \<noteq> last xs \<Longrightarrow> nextOf l' a = nextOf l a" "a \<noteq> hd xs \<Longrightarrow> prevOf l' a = prevOf l a"
      using n [of a] p [of a] a by simp_all
  qed
  moreover have "linked l' ys"
  proof (rule linked_segment [OF ys(1,2)])
    fix a assume a: "a \<in> set ys"
    then have "a \<noteq> last xs" "a \<noteq> hd xs" using m dis by auto
    then show "a \<noteq> last ys \<Longrightarrow> nextOf l' a = nextOf l a" "a \<noteq> hd ys \<Longrightarrow> prevOf l' a = prevOf l a"
      using n [of a] p [of a] a by simp_all
  qed
  ultimately show ?thesis using xs ys dis ends by (simp add: ring_def linked_append)
qed

lemma ring_close:
  assumes xs: "distinct xs" "linked l xs" "xs \<noteq> []"
    and n: "\<And>a. a \<in> set xs \<Longrightarrow> a \<noteq> last xs \<Longrightarrow> nextOf l' a = nextOf l a"
    and p: "\<And>a. a \<in> set xs \<Longrightarrow> a \<noteq> hd xs \<Longrightarrow> prevOf l' a = prevOf l a"
    and ends: "nextOf l' (last xs) = hd xs" "prevOf l' (hd xs) = last xs"
  shows "ring l' xs"
  using linked_segment [OF xs(1,2), of l'] n p xs ends by (simp add: ring_def)

lemma prependChain_links:
  assumes "ring l bs" "ring l ds" "b = hd bs" "d = hd ds" "set bs \<inter> set ds = {}"
  shows "nextOf (prependChain b d l) = (nextOf l)(last bs := d, last ds := b)"
    "prevOf (prependChain b d l) = (prevOf l)(d := last bs, b := last ds)"
  using assms by (auto simp: prependChain_def Let_def ring_def)

lemma prependChain_ring:
  assumes r: "ring l bs" "ring l ds" and e: "b = hd bs" "d = hd ds" and dis: "set bs \<inter> set ds = {}"
  shows "ring (prependChain b d l) (bs @ ds)"
proof (rule ring_join [of bs l ds])
  have m: "last bs \<in> set bs" "last ds \<in> set ds" "hd bs \<in> set bs" "hd ds \<in> set ds"
    using r by (auto simp: ring_def)
  note k = prependChain_links [OF r e dis]
  have ne: "last bs \<noteq> last ds" "hd bs \<noteq> hd ds" using m dis by auto
  show "nextOf (prependChain b d l) (last bs) = hd ds" "prevOf (prependChain b d l) (hd ds) = last bs"
    "nextOf (prependChain b d l) (last ds) = hd bs" "prevOf (prependChain b d l) (hd bs) = last ds"
    using k e ne by auto
  show "nextOf (prependChain b d l) a = nextOf l a" if "a \<noteq> last bs" "a \<noteq> last ds" for a
    using k that by simp
  show "prevOf (prependChain b d l) a = prevOf l a" if "a \<noteq> hd bs" "a \<noteq> hd ds" for a
    using k e that by simp
qed (use r dis in \<open>auto simp: ring_def\<close>)

lemma appendChain_ring:
  assumes r: "ring l (b # bs)" "ring l ds" and d: "d = hd ds" and dis: "set (b # bs) \<inter> set ds = {}"
  shows "ring (appendChain b d l) (b # ds @ bs)"
proof (cases bs)
  case Nil
  then have "nextOf l b = b" using r by (simp add: ring_def)
  moreover have "ring (prependChain b d l) ((b # bs) @ ds)"
    by (rule prependChain_ring [OF r _ d dis]) simp
  ultimately show ?thesis using Nil by (simp add: appendChain_def)
next
  case (Cons c cs)
  then have n: "nextOf l b = c" using r by (simp add: ring_def)
  have "ring l (bs @ [b])" using r(1) ring_rotate [of l "[b]" bs] by simp
  then have "ring (prependChain c d l) ((bs @ [b]) @ ds)"
    by (rule prependChain_ring) (use r(2) d dis Cons in auto)
  then show ?thesis using n ring_rotate [of _ bs "b # ds"] by (simp add: appendChain_def)
qed

lemma unlink_links:
  assumes "ring l (b # bs)" "bs \<noteq> []"
  shows "nextOf (unlink b l) = (nextOf l)(last bs := hd bs, b := b)"
    "prevOf (unlink b l) = (prevOf l)(hd bs := last bs, b := b)"
proof -
  obtain c cs where c: "bs = c # cs" using assms by (cases bs) auto
  then show "nextOf (unlink b l) = (nextOf l)(last bs := hd bs, b := b)"
    "prevOf (unlink b l) = (prevOf l)(hd bs := last bs, b := b)"
    using assms by (auto simp: unlink_def Let_def ring_def)
qed

lemma unlink_alone: "ring l [b] \<Longrightarrow> unlink b l = l"
  by (rule links.equality) (auto simp: unlink_def Let_def ring_def)

lemma ring_single: "ring l [b] \<longleftrightarrow> nextOf l b = b \<and> prevOf l b = b"
  by (simp add: ring_def)

lemma unlink_ring:
  assumes r: "ring l (b # bs)"
  shows "ring (unlink b l) [b]" and "bs \<noteq> [] \<Longrightarrow> ring (unlink b l) bs"
proof -
  show "ring (unlink b l) [b]"
    using r unlink_alone [of l b] unlink_links [OF r] by (cases "bs = []") (auto simp: ring_single)
next
  assume ne: "bs \<noteq> []"
  obtain c cs where c: "bs = c # cs" using ne by (cases bs) auto
  show "ring (unlink b l) bs"
    using unlink_links [OF r ne] r c
    by (intro ring_close [of bs l]) (auto simp: ring_def)
qed

lemma popElement_unlink:
  assumes r: "ring l (b # bs)"
  shows "popElement b l = (if bs = [] then None else Some (hd bs), unlink b l)"
  using r by (cases bs) (auto simp: popElement_def unlink_def Let_def ring_def)

lemma separateChain_links:
  assumes r: "ring l (xs @ ys)" and ne: "xs \<noteq> []" "ys \<noteq> []" and th: "this \<in> set xs"
  shows "\<exists>l'. separateChain this (hd ys) (last ys) l = Inr l' \<and>
    nextOf l' = (nextOf l)(last xs := hd xs, last ys := hd ys) \<and>
    prevOf l' = (prevOf l)(hd xs := last xs, hd ys := last ys)"
proof -
  have dis: "set xs \<inter> set ys = {}" and e: "prevOf l (hd ys) = last xs" "nextOf l (last ys) = hd xs"
    using r ne by (auto simp: ring_def linked_append)
  have m: "last xs \<in> set xs" "last ys \<in> set ys" "hd xs \<in> set xs" "hd ys \<in> set ys" using ne by auto
  then have "hd ys \<noteq> this" "last ys \<noteq> this" "last ys \<noteq> last xs" "hd ys \<noteq> hd xs" using dis th by auto
  then show ?thesis using e by (auto simp: separateChain_def Let_def fun_upd_twist)
qed

lemma separateChain_ring:
  assumes r: "ring l (xs @ ys)" and ne: "xs \<noteq> []" "ys \<noteq> []" and th: "this \<in> set xs"
  shows "\<exists>l'. separateChain this (hd ys) (last ys) l = Inr l' \<and> ring l' xs \<and> ring l' ys \<and>
     (\<forall>a. a \<notin> set (xs @ ys) \<longrightarrow> nextOf l' a = nextOf l a \<and> prevOf l' a = prevOf l a)"
proof -
  obtain l' where l': "separateChain this (hd ys) (last ys) l = Inr l'"
    and k: "nextOf l' = (nextOf l)(last xs := hd xs, last ys := hd ys)"
      "prevOf l' = (prevOf l)(hd xs := last xs, hd ys := last ys)"
    using separateChain_links [OF assms] by blast
  have dis: "set xs \<inter> set ys = {}" and lk: "distinct xs" "distinct ys" "linked l xs" "linked l ys"
    using r ne by (auto simp: ring_def linked_append)
  have m: "last xs \<in> set xs" "last ys \<in> set ys" "hd xs \<in> set xs" "hd ys \<in> set ys" using ne by auto
  have "last xs \<notin> set ys" "hd xs \<notin> set ys" "last ys \<notin> set xs" "hd ys \<notin> set xs" using m dis by auto
  note m = m this
  have "ring l' xs" using k lk ne m dis by (intro ring_close [of xs l]) auto
  moreover have "ring l' ys" using k lk ne m dis by (intro ring_close [of ys l]) auto
  moreover have "nextOf l' a = nextOf l a \<and> prevOf l' a = prevOf l a" if "a \<notin> set (xs @ ys)" for a
    using k m that by auto
  ultimately show ?thesis using l' by blast
qed


lemma moveLinks_links:
  assumes r: "ring l [b]" "ring l (d # ds)" and ne: "ds \<noteq> []" "b \<notin> set (d # ds)"
  shows "nextOf (moveLinks b d l) = (nextOf l)(b := hd ds, d := d, last ds := b)"
    "prevOf (moveLinks b d l) = (prevOf l)(hd ds := b, b := last ds, d := d)"
proof -
  obtain c cs where c: "ds = c # cs" using ne by (cases ds) auto
  have k: "nextOf l d = c" "prevOf l d = last ds" "c \<noteq> d" "d \<noteq> b" "c \<noteq> b" "last ds \<noteq> b" "last ds \<noteq> d"
    using r ne c by (auto simp: ring_def)
  show "nextOf (moveLinks b d l) = (nextOf l)(b := hd ds, d := d, last ds := b)"
    "prevOf (moveLinks b d l) = (prevOf l)(hd ds := b, b := last ds, d := d)"
    using k c by (auto simp: moveLinks_def Let_def)
qed

lemma moveLinks_ring:
  assumes r: "ring l [b]" "ring l (d # ds)" and b: "b \<notin> set (d # ds)"
  shows "ring (moveLinks b d l) (b # ds)" and "ring (moveLinks b d l) [d]"
proof -
  show "ring (moveLinks b d l) [d]"
    using r b moveLinks_links [OF r _ b]
    by (cases "ds = []") (auto simp: ring_def moveLinks_def split: if_splits)
  show "ring (moveLinks b d l) (b # ds)"
  proof (cases "ds = []")
    case True
    then show ?thesis using r by (simp add: moveLinks_def ring_def)
  next
    case False
    note k = moveLinks_links [OF r False b]
    have m: "last ds \<in> set ds" "hd ds \<in> set ds" "d \<notin> set ds" and lk: "distinct ds" "linked l ds"
      using r False by (auto simp: ring_def) (cases ds; simp)
    have "ring (moveLinks b d l) ([b] @ ds)"
      using k m lk False b by (intro ring_join [of "[b]" l ds]) auto
    then show ?thesis by simp
  qed
qed

lemma walk_ring:
  assumes "linked l (c # cs @ [b])" "b \<notin> set (c # cs)" "length (c # cs) \<le> n"
  shows "walk n l b c = Inr (c # cs)"
  using assms
proof (induction cs arbitrary: c n)
  case Nil
  then obtain m where "n = Suc m" by (cases n) auto
  then show ?case using Nil by (cases m) auto
next
  case (Cons d cs)
  then obtain m where n: "n = Suc m" by (cases n) auto
  then show ?case using Cons.IH [of d m] Cons.prems by auto
qed

lemma elements_ring:
  assumes r: "ring l (b # bs)" and n: "length bs \<le> n"
  shows "elements n l b = Inr (b # bs)" "countChainElements n l b = Inr (length (b # bs))"
proof -
  have "walk n l b (nextOf l b) = Inr bs"
  proof (cases bs)
    case Nil
    then show ?thesis using r by (cases n) (auto simp: ring_def)
  next
    case (Cons c cs)
    have "linked l (bs @ [b])" using r ring_rotate [of l "[b]" bs] by (simp add: ring_def)
    then show ?thesis using walk_ring [of l c cs b n] r n Cons by (auto simp: ring_def)
  qed
  then show "elements n l b = Inr (b # bs)" "countChainElements n l b = Inr (length (b # bs))"
    by (simp_all add: elements_def countChainElements_def)
qed

lemma destroyRest_ring:
  assumes "ring l (b # bs)" "length bs \<le> n"
  shows "\<exists>l'. destroyRest n b l = Inr (bs, l') \<and> ring l' [b]"
  using assms
proof (induction bs arbitrary: l n)
  case Nil
  then show ?case by (cases n) (auto simp: ring_def)
next
  case (Cons c cs)
  then obtain m where n: "n = Suc m" by (cases n) auto
  have c: "nextOf l b = c" "c \<noteq> b" using Cons.prems by (auto simp: ring_def)
  have "ring l (c # cs @ [b])" using Cons.prems(1) ring_rotate [of l "[b]" "c # cs"] by simp
  then have "ring (unlink c l) (cs @ [b])" using unlink_ring(2) by blast
  then have "ring (unlink c l) (b # cs)" using ring_rotate [of _ cs "[b]"] by simp
  then show ?case using Cons.IH [of "unlink c l" m] Cons.prems n c by auto
qed


lemma prependChain_frame:
  assumes "ring l (b # bs)" "ring l (d # ds)" "set (b # bs) \<inter> set (d # ds) = {}"
    "ring l zs" "set zs \<inter> set (b # bs @ d # ds) = {}"
  shows "ring (prependChain b d l) zs"
proof (rule ring_frame [OF assms(4)])
  have "last (b # bs) \<in> set (b # bs)" "last (d # ds) \<in> set (d # ds)" by (rule last_in_set; simp)+
  then show "\<forall>a \<in> set zs. nextOf (prependChain b d l) a = nextOf l a \<and> prevOf (prependChain b d l) a = prevOf l a"
    using prependChain_links [OF assms(1,2)] assms(3,5) by auto
qed

lemma unlink_frame:
  assumes "ring l (b # bs)" "ring l zs" "set zs \<inter> set (b # bs) = {}"
  shows "ring (unlink b l) zs"
proof (cases "bs = []")
  case True
  then show ?thesis using assms unlink_alone by simp
next
  case False
  then have "last bs \<in> set bs" "hd bs \<in> set bs" by auto
  then show ?thesis using unlink_links [OF assms(1) False] assms(3)
    by (intro ring_frame [OF assms(2)]) auto
qed

lemma bytesAt_ring:
  assumes "ring l (b # bs)" "length bs \<le> n"
  shows "bytesAt h obj n l b = Inr (chainData h (map obj (b # bs)))"
  using elements_ring(1) [OF assms] by (simp add: bytesAt_def)

text \<open>
  C35: The links implement lists. For two chains \<open>b # bs\<close> and \<open>d # ds\<close> without a common
  element: \<^verbatim>\<open>prependChain\<close> on \<open>b\<close> puts the other chain at the end as seen from \<open>b\<close>, and
  \<^verbatim>\<open>appendChain\<close> right behind \<open>b\<close>, with the bytes to match; \<^verbatim>\<open>unlink\<close> and \<^verbatim>\<open>pop\<close> leave \<open>b\<close> alone and
  the rest as a chain; \<^verbatim>\<open>separateChain\<close> cuts any part out that does not hold \<open>b\<close>, and
  no assertion fails; a move hands the rest of a chain over to an element that
  was alone. The loops over a chain end and meet every element once, and the
  destructor destroys every other element once. Third chains keep their links.
\<close>

theorem links_implement_chains:
  assumes b: "ring l (b # bs)" and d: "ring l (d # ds)" and dis: "set (b # bs) \<inter> set (d # ds) = {}"
    and z: "ring l zs" "set zs \<inter> set (b # bs @ d # ds) = {}"
  shows "(\<forall>n \<ge> length bs. elements n l b = Inr (b # bs) \<and> countChainElements n l b = Inr (length (b # bs)) \<and>
        (\<exists>l'. destroyRest n b l = Inr (bs, l') \<and> ring l' [b])) \<and>
    ring (prependChain b d l) (b # bs @ d # ds) \<and> ring (appendChain b d l) (b # d # ds @ bs) \<and>
    bytesAt h obj (length (bs @ d # ds)) (prependChain b d l) b =
      Inr (chainData h (map obj (b # bs)) @ chainData h (map obj (d # ds))) \<and>
    ring (unlink b l) [b] \<and> (bs \<noteq> [] \<longrightarrow> ring (unlink b l) bs) \<and>
    popElement b l = (if bs = [] then None else Some (hd bs), unlink b l) \<and>
    (\<forall>us vs ws. bs = us @ vs @ ws \<and> vs \<noteq> [] \<longrightarrow>
      (\<exists>l'. separateChain b (hd vs) (last vs) l = Inr l' \<and> ring l' (b # us @ ws) \<and> ring l' vs \<and> ring l' zs)) \<and>
    (bs = [] \<longrightarrow> ring (moveLinks b d l) (b # ds) \<and> ring (moveLinks b d l) [d]) \<and>
    ring (prependChain b d l) zs \<and> ring (unlink b l) zs"
proof -
  have p: "ring (prependChain b d l) (b # bs @ d # ds)"
    using prependChain_ring [OF b d _ _ dis, of b d] by simp
  have sep: "\<exists>l'. separateChain b (hd vs) (last vs) l = Inr l' \<and> ring l' (b # us @ ws) \<and> ring l' vs \<and> ring l' zs"
    if e: "bs = us @ vs @ ws" "vs \<noteq> []" for us vs ws
  proof -
    have "ring l ((ws @ b # us) @ vs)"
      using b e ring_rotate [of l "b # us @ vs" ws] by simp
    then obtain l' where l': "separateChain b (hd vs) (last vs) l = Inr l'" "ring l' (ws @ b # us)" "ring l' vs"
      and f: "\<forall>a. a \<notin> set ((ws @ b # us) @ vs) \<longrightarrow> nextOf l' a = nextOf l a \<and> prevOf l' a = prevOf l a"
      using separateChain_ring [of l "ws @ b # us" vs b] e by auto
    have "ring l' zs" using f z e by (intro ring_frame [OF z(1)]) auto
    moreover have "ring l' (b # us @ ws)" using l'(2) ring_rotate [of l' ws "b # us"] by simp
    ultimately show ?thesis using l' by blast
  qed
  have "chainData h (map obj (b # bs @ d # ds)) = chainData h (map obj (b # bs)) @ chainData h (map obj (d # ds))"
    by (simp add: chainData_def)
  with bytesAt_ring [OF p, of "length (bs @ d # ds)" h obj]
  have bytes: "bytesAt h obj (length (bs @ d # ds)) (prependChain b d l) b =
      Inr (chainData h (map obj (b # bs)) @ chainData h (map obj (d # ds)))" by simp
  have "ring (appendChain b d l) (b # d # ds @ bs)"
    using appendChain_ring [OF b d _ dis, of d] by simp
  moreover have "\<forall>n \<ge> length bs. elements n l b = Inr (b # bs) \<and> countChainElements n l b = Inr (length (b # bs)) \<and>
        (\<exists>l'. destroyRest n b l = Inr (bs, l') \<and> ring l' [b])"
    using elements_ring [OF b] destroyRest_ring [OF b] by blast
  moreover have "bs = [] \<longrightarrow> ring (moveLinks b d l) (b # ds) \<and> ring (moveLinks b d l) [d]"
    using moveLinks_ring [of l b d ds] b d dis by auto
  moreover have "ring (unlink b l) zs" using unlink_frame [OF b z(1)] z(2) by auto
  ultimately show ?thesis
    using p bytes sep unlink_ring [OF b] popElement_unlink [OF b] prependChain_frame [OF b d dis z] by blast
qed

theorem links_implement_chains_witness:
  "\<exists>l. ring l [1, 2] \<and> ring l [3, 4] \<and> ring l [5] \<and> ring (prependChain 1 3 l) [1, 2, 3, 4] \<and>
     ring (appendChain 1 3 l) [1, 3, 4, 2] \<and> ring (unlink 1 l) [2]"
proof -
  define l where "l = \<lparr>nextOf = (\<lambda>a. if a = 1 then 2 else if a = 2 then 1 else if a = 3 then 4
      else if a = 4 then 3 else a), prevOf = (\<lambda>a. if a = 1 then 2 else if a = 2 then 1 else if a = 3 then 4
      else if a = 4 then 3 else a)\<rparr>"
  have "ring l [1, 2]" "ring l [3, 4]" "ring l [5]" by (simp_all add: ring_def l_def)
  with links_implement_chains [of l 1 "[2]" 3 "[4]" "[5]"] show ?thesis by auto
qed

end
