(* ===== verification/Evicting_Cache.thy ===== *)
theory Evicting_Cache
  imports Prelude
begin

text \<open>
  The least-recently-used cache \<^verbatim>\<open>EvictingCacheMap\<close> of \<^verbatim>\<open>src/raster/util/EvictingCacheMap.h\<close>:
  an index from keys to nodes and a list of the same nodes, most recently used
  first. Keys are unique, so a node is named by its key; the hash index is the
  map it implements.
\<close>

section \<open>State\<close>

record ('k, 'v) cache =
  index :: "'k \<rightharpoonup> 'v"
  lru :: "'k list"
  maxSize :: nat
  clearSize :: nat

text \<open>
  A prune hook is a callback of the user: \<open>hook k v\<close> says whether it throws. An
  operation that prunes returns the cache, the entries given to the hook in
  order, and whether the hook's exception left the operation.
\<close>

type_synonym ('k, 'v) hook = "'k \<Rightarrow> 'v \<Rightarrow> bool"
type_synonym ('k, 'v) pruned = "('k, 'v) cache \<times> ('k \<times> 'v) list \<times> bool"

definition newCache :: "nat \<Rightarrow> nat \<Rightarrow> ('k, 'v) cache" where
  "newCache maxSz clearSz = \<lparr>index = Map.empty, lru = [], maxSize = maxSz, clearSize = clearSz\<rparr>"

definition cacheSize :: "('k, 'v) cache \<Rightarrow> nat" where
  "cacheSize c = card (dom (index c))"

text \<open>\<^verbatim>\<open>lru_.erase(...); lru_.push_front(...)\<close>\<close>

definition promote :: "'k \<Rightarrow> ('k, 'v) cache \<Rightarrow> ('k, 'v) cache" where
  "promote k c = c\<lparr>lru := k # remove1 k (lru c)\<rparr>"

definition cacheExists :: "'k \<Rightarrow> ('k, 'v) cache \<Rightarrow> bool" where
  "cacheExists k c = (index c k \<noteq> None)"

definition cacheFind :: "'k \<Rightarrow> ('k, 'v) cache \<Rightarrow> 'v option \<times> ('k, 'v) cache" where
  "cacheFind k c = (case index c k of None \<Rightarrow> (None, c) | Some v \<Rightarrow> (Some v, promote k c))"

definition cacheGet :: "'k \<Rightarrow> ('k, 'v) cache \<Rightarrow> ('v \<times> ('k, 'v) cache) result" where
  "cacheGet k c = (case cacheFind k c of (None, c1) \<Rightarrow> Inl Out_Of_Range | (Some v, c1) \<Rightarrow> Inr (v, c1))"

definition getWithoutPromotion :: "'k \<Rightarrow> ('k, 'v) cache \<Rightarrow> 'v result" where
  "getWithoutPromotion k c = (case index c k of None \<Rightarrow> Inl Out_Of_Range | Some v \<Rightarrow> Inr v)"

definition cacheErase :: "'k \<Rightarrow> ('k, 'v) cache \<Rightarrow> bool \<times> ('k, 'v) cache" where
  "cacheErase k c =
     (case index c k of
        None \<Rightarrow> (False, c)
      | Some v \<Rightarrow> (True, c\<lparr>index := (index c)(k := None), lru := remove1 k (lru c)\<rparr>))"

text \<open>
  The loop of \<^verbatim>\<open>pruneWithFailSafeOption\<close>: the node is unlinked before the hook runs,
  and an exception of the hook leaves the loop unless \<open>failSafe\<close> is set.
\<close>

fun pruneLoop :: "nat \<Rightarrow> ('k, 'v) hook option \<Rightarrow> bool \<Rightarrow> ('k, 'v) cache \<Rightarrow> ('k, 'v) pruned" where
  "pruneLoop 0 ph failSafe c = (c, [], False)"
| "pruneLoop (Suc n) ph failSafe c =
     (if lru c = [] then (c, [], False)
      else let k = last (lru c);
               c1 = c\<lparr>index := (index c)(k := None), lru := butlast (lru c)\<rparr>
           in case index c k of
                None \<Rightarrow> (c1, [], False)
              | Some v \<Rightarrow>
                  (case ph of
                     None \<Rightarrow> pruneLoop n ph failSafe c1
                   | Some hook \<Rightarrow>
                       if hook k v \<and> \<not> failSafe then (c1, [(k, v)], True)
                       else let (c2, ps, thrown) = pruneLoop n ph failSafe c1
                            in (c2, (k, v) # ps, thrown)))"

text \<open>The hook given to the call, or the one set on the cache.\<close>

definition pruneWithFailSafeOption ::
  "('k, 'v) hook option \<Rightarrow> nat \<Rightarrow> ('k, 'v) hook option \<Rightarrow> bool \<Rightarrow> ('k, 'v) cache \<Rightarrow> ('k, 'v) pruned" where
  "pruneWithFailSafeOption own n ph failSafe c =
     pruneLoop n (case ph of None \<Rightarrow> own | Some hook \<Rightarrow> Some hook) failSafe c"

definition prune ::
  "('k, 'v) hook option \<Rightarrow> nat \<Rightarrow> ('k, 'v) hook option \<Rightarrow> ('k, 'v) cache \<Rightarrow> ('k, 'v) pruned" where
  "prune own n ph c = pruneWithFailSafeOption own n ph False c"

definition cacheClear ::
  "('k, 'v) hook option \<Rightarrow> ('k, 'v) hook option \<Rightarrow> ('k, 'v) cache \<Rightarrow> ('k, 'v) pruned" where
  "cacheClear own ph c = prune own (cacheSize c) ph c"

text \<open>The destructor: the cache's hook is unset first, so no hook runs.\<close>

definition cacheDestroy :: "('k, 'v) cache \<Rightarrow> ('k, 'v) pruned" where
  "cacheDestroy c = pruneWithFailSafeOption None (cacheSize c) None True c"

definition setMaxSize ::
  "('k, 'v) hook option \<Rightarrow> nat \<Rightarrow> ('k, 'v) hook option \<Rightarrow> ('k, 'v) cache \<Rightarrow> ('k, 'v) pruned" where
  "setMaxSize own n ph c =
     (let (c1, ps, thrown) =
            (if n \<noteq> 0 \<and> n < cacheSize c then prune own (max (cacheSize c - n) (clearSize c)) ph c
             else (c, [], False))
      in if thrown then (c1, ps, True) else (c1\<lparr>maxSize := n\<rparr>, ps, False))"

definition setClearSize :: "nat \<Rightarrow> ('k, 'v) cache \<Rightarrow> ('k, 'v) cache" where
  "setClearSize n c = c\<lparr>clearSize := n\<rparr>"

definition cacheSet ::
  "('k, 'v) hook option \<Rightarrow> 'k \<Rightarrow> 'v \<Rightarrow> bool \<Rightarrow> ('k, 'v) hook option \<Rightarrow> ('k, 'v) cache \<Rightarrow> ('k, 'v) pruned" where
  "cacheSet own k v promo ph c =
     (case index c k of
        Some old \<Rightarrow>
          (let c1 = c\<lparr>index := (index c)(k \<mapsto> v)\<rparr>
           in ((if promo then promote k c1 else c1), [], False))
      | None \<Rightarrow>
          (let c1 = c\<lparr>index := (index c)(k \<mapsto> v), lru := k # lru c\<rparr>
           in if maxSize c1 > 0 \<and> cacheSize c1 > maxSize c1 then prune own (clearSize c1) ph c1
              else (c1, [], False)))"

section \<open>Abstract cache\<close>

text \<open>The entries, most recently used first, and what each operation means on them.\<close>

definition entries :: "('k, 'v) cache \<Rightarrow> ('k \<times> 'v) list" where
  "entries c = map (\<lambda>k. (k, the (index c k))) (lru c)"

definition cache_ok :: "('k, 'v) cache \<Rightarrow> bool" where
  "cache_ok c \<longleftrightarrow> distinct (lru c) \<and> set (lru c) = dom (index c)"

definition without :: "'k \<Rightarrow> ('k \<times> 'v) list \<Rightarrow> ('k \<times> 'v) list" where
  "without k es = filter (\<lambda>e. fst e \<noteq> k) es"

definition touch :: "'k \<Rightarrow> ('k \<times> 'v) list \<Rightarrow> ('k \<times> 'v) list" where
  "touch k es = (case map_of es k of None \<Rightarrow> es | Some v \<Rightarrow> (k, v) # without k es)"

lemma length_entries: "cache_ok c \<Longrightarrow> length (entries c) = cacheSize c"
  by (simp add: entries_def cacheSize_def cache_ok_def distinct_card flip: distinct_card)

lemma map_of_entries: "cache_ok c \<Longrightarrow> map_of (entries c) k = index c k"
  by (auto simp: entries_def cache_ok_def map_of_map_restrict restrict_map_def dom_def)

lemma entries_without:
  assumes "cache_ok c"
  shows "map (\<lambda>j. (j, the (index c j))) (remove1 k (lru c)) = without k (entries c)"
proof -
  have "remove1 k (lru c) = filter (\<lambda>j. j \<noteq> k) (lru c)"
    using assms by (simp add: cache_ok_def distinct_remove1_removeAll removeAll_filter_not_eq) (metis)
  then show ?thesis by (simp add: without_def entries_def filter_map comp_def)
qed

lemma newCache_ok: "cache_ok (newCache m n)" "entries (newCache m n) = []"
  by (simp_all add: cache_ok_def newCache_def entries_def)

lemma promote_ok:
  assumes "cache_ok c" and "index c k = Some v"
  shows "cache_ok (promote k c)" and "entries (promote k c) = (k, v) # without k (entries c)"
proof -
  have "k \<in> set (lru c)" using assms by (auto simp: cache_ok_def)
  then show "cache_ok (promote k c)" using assms(1) by (auto simp: cache_ok_def promote_def)
  have "entries (promote k c) = (k, the (index c k)) # map (\<lambda>j. (j, the (index c j))) (remove1 k (lru c))"
    by (simp add: entries_def promote_def)
  then show "entries (promote k c) = (k, v) # without k (entries c)"
    using entries_without [OF assms(1), of k] assms(2) by simp
qed

lemma find_ok:
  assumes "cache_ok c"
  shows "cacheFind k c = (map_of (entries c) k, c') \<Longrightarrow> cache_ok c' \<and> entries c' = touch k (entries c)"
    and "fst (cacheFind k c) = map_of (entries c) k"
  using promote_ok [OF assms, of k] map_of_entries [OF assms, of k] assms
  by (auto simp: cacheFind_def touch_def split: option.splits)

lemma erase_ok:
  assumes "cache_ok c" and "cacheErase k c = (found, c')"
  shows "cache_ok c'" and "entries c' = without k (entries c)" and "found \<longleftrightarrow> k \<in> fst ` set (entries c)"
proof -
  have keys: "fst ` set (entries c) = dom (index c)"
    using assms(1) by (force simp: entries_def cache_ok_def)
  have "cache_ok c' \<and> entries c' = without k (entries c) \<and> (found \<longleftrightarrow> k \<in> fst ` set (entries c))"
  proof (cases "index c k")
    case None
    then have "without k (entries c) = entries c"
      using keys by (force simp: without_def filter_id_conv)
    with None assms keys show ?thesis by (auto simp: cacheErase_def)
  next
    case (Some v)
    then have c': "found" "c' = c\<lparr>index := (index c)(k := None), lru := remove1 k (lru c)\<rparr>"
      using assms(2) by (auto simp: cacheErase_def)
    have "entries c' = map (\<lambda>j. (j, the (index c j))) (remove1 k (lru c))"
      using assms(1) by (auto simp: entries_def c'(2) cache_ok_def)
    with entries_without [OF assms(1), of k] Some c' keys assms(1) show ?thesis
      by (auto simp: cache_ok_def)
  qed
  then show "cache_ok c'" "entries c' = without k (entries c)" "found \<longleftrightarrow> k \<in> fst ` set (entries c)" by blast+
qed

section \<open>Pruning\<close>

text \<open>One turn of the loop takes the last entry away.\<close>

lemma drop_last_ok:
  assumes "cache_ok c" and "lru c \<noteq> []"
    and "c1 = c\<lparr>index := (index c)(last (lru c) := None), lru := butlast (lru c)\<rparr>"
  shows "cache_ok c1" and "entries c = entries c1 @ [(last (lru c), the (index c (last (lru c))))]"
    and "index c (last (lru c)) \<noteq> None"
proof -
  let ?k = "last (lru c)"
  have l: "lru c = butlast (lru c) @ [?k]" using assms(2) by simp
  have d: "distinct (butlast (lru c) @ [?k])" "set (butlast (lru c) @ [?k]) = dom (index c)"
    using assms(1) unfolding l [symmetric] by (simp_all add: cache_ok_def)
  then have nin: "?k \<notin> set (butlast (lru c))" by simp
  from d have "set (butlast (lru c)) = dom (index c) - {?k}" by auto
  with d nin show "cache_ok c1" by (simp add: cache_ok_def assms(3))
  have "map (\<lambda>k. (k, the (index c k))) (butlast (lru c)) = entries c1"
    using nin by (auto simp: entries_def assms(3))
  then show "entries c = entries c1 @ [(?k, the (index c ?k))]"
    unfolding entries_def [of c] by (subst l) simp
  have "?k \<in> dom (index c)" using d by auto
  then show "index c ?k \<noteq> None" by (simp add: dom_def)
qed

text \<open>
  Without an exception the last \<open>n\<close> entries go, oldest first, each handed to the
  hook; the first throwing hook stops after its entry.
\<close>

lemma pruneLoop_ok:
  assumes "cache_ok c" and "pruneLoop n ph failSafe c = (c', ps, thrown)"
  shows "cache_ok c' \<and> maxSize c' = maxSize c \<and> clearSize c' = clearSize c \<and>
    (\<exists>m \<le> n. entries c = entries c' @ rev (take m (rev (entries c))) \<and>
      (ph \<noteq> None \<longrightarrow> ps = take m (rev (entries c))) \<and> (ph = None \<longrightarrow> ps = []) \<and>
      (if thrown then \<not> failSafe \<and> 0 < m \<and> (\<exists>hook k v. ph = Some hook \<and> ps \<noteq> [] \<and> last ps = (k, v) \<and> hook k v)
       else m = min n (cacheSize c)))"
  using assms
proof (induction n arbitrary: c c' ps thrown)
  case 0
  then show ?case by (auto intro: exI [of _ 0])
next
  case (Suc n)
  show ?case
  proof (cases "lru c = []")
    case True
    then have "entries c = []" "cacheSize c = 0" using length_entries [OF Suc.prems(1)] by (simp_all add: entries_def)
    with Suc.prems True show ?thesis by (auto intro!: exI [of _ 0])
  next
    case False
    define k where "k = last (lru c)"
    define c1 where "c1 = c\<lparr>index := (index c)(k := None), lru := butlast (lru c)\<rparr>"
    note D = drop_last_ok [OF Suc.prems(1) False c1_def [unfolded k_def], folded k_def]
    obtain v where v: "index c k = Some v" using D(3) by blast
    have es: "rev (entries c) = (k, v) # rev (entries c1)" using D(2) v by simp
    have sz: "cacheSize c = Suc (cacheSize c1)"
      using length_entries [OF Suc.prems(1)] length_entries [OF D(1)] D(2) by simp
    have keep: "maxSize c1 = maxSize c" "clearSize c1 = clearSize c" by (simp_all add: c1_def)
    obtain c2 qs th where rest: "pruneLoop n ph failSafe c1 = (c2, qs, th)" by (metis prod_cases3)
    from Suc.IH [OF D(1) rest] obtain m where m: "m \<le> n" "cache_ok c2" "maxSize c2 = maxSize c" "clearSize c2 = clearSize c"
      "entries c1 = entries c2 @ rev (take m (rev (entries c1)))"
      "ph \<noteq> None \<longrightarrow> qs = take m (rev (entries c1))" "ph = None \<longrightarrow> qs = []"
      "if th then \<not> failSafe \<and> 0 < m \<and> (\<exists>hook k v. ph = Some hook \<and> qs \<noteq> [] \<and> last qs = (k, v) \<and> hook k v)
       else m = min n (cacheSize c1)" unfolding keep by blast
    have split: "entries c = entries c2 @ rev (take (Suc m) (rev (entries c)))"
      unfolding es using D(2) v m(5) by simp
    show ?thesis
    proof (cases ph)
      case None
      then have "c' = c2" "ps = qs" "thrown = th" using Suc.prems(2) False v rest by (auto simp: Let_def k_def c1_def)
      with None m split sz show ?thesis by (auto intro!: exI [of _ "Suc m"] split: if_splits)
    next
      case (Some hook)
      show ?thesis
      proof (cases "hook k v \<and> \<not> failSafe")
        case True
        then have r: "c' = c1" "ps = [(k, v)]" "thrown"
          using Suc.prems(2) False v Some by (auto simp: Let_def k_def c1_def)
        have "entries c = entries c1 @ rev (take 1 (rev (entries c)))" using es D(2) v by simp
        with r True Some D(1) keep es show ?thesis by (auto intro!: exI [of _ 1])
      next
        case no: False
        then have r: "c' = c2" "ps = (k, v) # qs" "thrown = th"
          using Suc.prems(2) False v Some rest by (auto simp: Let_def k_def c1_def)
        with Some m split sz es show ?thesis
          by (intro conjI exI [of _ "Suc m"]) (auto split: if_splits)
      qed
    qed
  qed
qed

lemma prune_ok:
  assumes "cache_ok c" and "prune own n ph c = (c', ps, thrown)"
  shows "cache_ok c' \<and> maxSize c' = maxSize c \<and> clearSize c' = clearSize c \<and>
    (\<exists>m \<le> n. entries c = entries c' @ rev (take m (rev (entries c))) \<and> (\<not> thrown \<longrightarrow> m = min n (cacheSize c)))"
  using pruneLoop_ok [OF assms(1) assms(2) [unfolded prune_def pruneWithFailSafeOption_def]]
  by (auto split: if_splits)

section \<open>Setting\<close>

text \<open>What \<open>set\<close> means on the entries: \<open>room\<close> is the number of entries that stay.\<close>

definition set_entries :: "'k \<Rightarrow> 'v \<Rightarrow> bool \<Rightarrow> ('k \<times> 'v) list \<Rightarrow> ('k \<times> 'v) list" where
  "set_entries k v promo es =
     (if map_of es k = None then (k, v) # es
      else if promo then (k, v) # without k es
      else map (\<lambda>(j, w). if j = k then (j, v) else (j, w)) es)"

lemma without_replaced:
  "without k (map (\<lambda>(j, w). if j = k then (j, v) else (j, w)) es) = without k es"
  by (induction es) (auto simp: without_def split: if_splits)

lemma map_of_replaced:
  "map_of es k = Some old \<Longrightarrow> map_of (map (\<lambda>(j, w). if j = k then (j, v) else (j, w)) es) k = Some v"
  by (induction es) (auto split: if_splits)

lemma set_present:
  assumes "cache_ok c" and "index c k = Some old"
  shows "cacheSet own k v promo ph c = (c', ps, th) \<Longrightarrow>
    cache_ok c' \<and> entries c' = set_entries k v promo (entries c) \<and> ps = [] \<and> \<not> th \<and>
    maxSize c' = maxSize c \<and> clearSize c' = clearSize c"
proof -
  assume run: "cacheSet own k v promo ph c = (c', ps, th)"
  define c1 where "c1 = c\<lparr>index := (index c)(k \<mapsto> v)\<rparr>"
  have ok1: "cache_ok c1" using assms by (auto simp: cache_ok_def c1_def)
  have e1: "entries c1 = map (\<lambda>(j, w). if j = k then (j, v) else (j, w)) (entries c)"
    by (simp add: entries_def c1_def)
  have wo: "without k (entries c1) = without k (entries c)"
    unfolding e1 by (rule without_replaced)
  have r: "c' = (if promo then promote k c1 else c1)" "ps = []" "\<not> th"
    using run assms(2) by (auto simp: cacheSet_def c1_def Let_def)
  have i1: "index c1 k = Some v" by (simp add: c1_def)
  note P = promote_ok [OF ok1 i1]
  have "maxSize c' = maxSize c" "clearSize c' = clearSize c" using r(1) by (simp_all add: promote_def c1_def)
  with r P ok1 e1 wo assms map_of_entries [OF assms(1), of k] show ?thesis by (auto simp: set_entries_def)
qed

lemma insert_ok:
  assumes "cache_ok c" and "index c k = None" and "c1 = c\<lparr>index := (index c)(k \<mapsto> v), lru := k # lru c\<rparr>"
  shows "cache_ok c1" and "entries c1 = (k, v) # entries c" and "cacheSize c1 = Suc (cacheSize c)"
proof -
  have k: "k \<notin> set (lru c)" using assms(1,2) by (auto simp: cache_ok_def)
  then show ok: "cache_ok c1" using assms(1,3) by (auto simp: cache_ok_def)
  show es: "entries c1 = (k, v) # entries c" using k by (auto simp: entries_def assms(3))
  show "cacheSize c1 = Suc (cacheSize c)"
    using length_entries [OF assms(1)] length_entries [OF ok] es by simp
qed

lemma set_ok:
  assumes "cache_ok c" and "cacheSet own k v promo ph c = (c', ps, thrown)"
  shows "cache_ok c' \<and> maxSize c' = maxSize c \<and> clearSize c' = clearSize c \<and>
    (\<exists>m. entries c' = take m (set_entries k v promo (entries c)) \<and>
      (\<not> thrown \<longrightarrow> m = (if index c k = None \<and> 0 < maxSize c \<and> maxSize c \<le> cacheSize c
         then Suc (cacheSize c) - clearSize c else length (set_entries k v promo (entries c)))))"
proof (cases "index c k")
  case (Some old)
  from set_present [OF assms(1) Some assms(2)] Some show ?thesis by auto
next
  case None
  define c1 where "c1 = c\<lparr>index := (index c)(k \<mapsto> v), lru := k # lru c\<rparr>"
  note I = insert_ok [OF assms(1) None c1_def]
  have keep: "maxSize c1 = maxSize c" "clearSize c1 = clearSize c" by (simp_all add: c1_def)
  have es: "set_entries k v promo (entries c) = entries c1"
    using None map_of_entries [OF assms(1), of k] I(2) by (simp add: set_entries_def)
  show ?thesis
  proof (cases "0 < maxSize c \<and> maxSize c < cacheSize c1")
    case True
    then have "prune own (clearSize c1) ph c1 = (c', ps, thrown)"
      using assms(2) None keep by (simp add: cacheSet_def c1_def [symmetric] Let_def)
    from prune_ok [OF I(1) this] obtain m where m: "cache_ok c'" "maxSize c' = maxSize c" "clearSize c' = clearSize c"
      "entries c1 = entries c' @ rev (take m (rev (entries c1)))"
      "\<not> thrown \<longrightarrow> m = min (clearSize c) (cacheSize c1)" unfolding keep by blast
    have "rev (take m (rev (entries c1))) = drop (length (entries c1) - m) (entries c1)"
      by (simp add: take_rev)
    then have "entries c' = take (cacheSize c1 - m) (entries c1)"
      using m(4) length_entries [OF I(1)] by (metis append_same_eq append_take_drop_id)
    moreover have "\<not> thrown \<longrightarrow> cacheSize c1 - m = Suc (cacheSize c) - clearSize c" using m(5) I(3) by auto
    ultimately show ?thesis using m(1-3) None True I(3) es by auto
  next
    case False
    then have "c' = c1" "\<not> thrown"
      using assms(2) None keep by (auto simp: cacheSet_def c1_def [symmetric] Let_def split: if_splits)
    with I es keep None False length_entries [OF I(1)] show ?thesis by auto
  qed
qed

section \<open>Properties\<close>

text \<open>
  C38: the cache implements a list of entries ordered by use: lookups return the entry and
  move it to the front, erasing removes it, and \<open>set\<close> puts a new entry in front and drops
  from the end, when the cache was full, \<open>clearSize\<close> entries; the index and the list always
  hold the same keys. The hook is taken not to throw.
\<close>

theorem cache_refines_lru:
  assumes "cache_ok c"
  shows "(\<forall>r c1. cacheFind k c = (r, c1) \<longrightarrow>
        r = map_of (entries c) k \<and> cache_ok c1 \<and> entries c1 = touch k (entries c)) \<and>
    (\<forall>f c1. cacheErase k c = (f, c1) \<longrightarrow>
        cache_ok c1 \<and> entries c1 = without k (entries c) \<and> (f \<longleftrightarrow> map_of (entries c) k \<noteq> None)) \<and>
    (\<forall>c1 ps. cacheSet own k v promo ph c = (c1, ps, False) \<longrightarrow> cache_ok c1 \<and>
        entries c1 = take (if map_of (entries c) k = None \<and> 0 < maxSize c \<and> maxSize c \<le> cacheSize c
            then Suc (cacheSize c) - clearSize c else Suc (cacheSize c))
          (set_entries k v promo (entries c)))"
proof -
  have len: "length (set_entries k v promo (entries c)) \<le> Suc (cacheSize c)"
    using length_filter_le [of _ "entries c"] length_entries [OF assms] by (simp add: set_entries_def without_def le_SucI)
  have "\<forall>r c1. cacheFind k c = (r, c1) \<longrightarrow> r = map_of (entries c) k \<and> cache_ok c1 \<and> entries c1 = touch k (entries c)"
    using find_ok [OF assms, of k] by (metis fst_conv)
  moreover have "\<forall>f c1. cacheErase k c = (f, c1) \<longrightarrow>
        cache_ok c1 \<and> entries c1 = without k (entries c) \<and> (f \<longleftrightarrow> map_of (entries c) k \<noteq> None)"
    using erase_ok [OF assms, of k] by (auto simp: map_of_eq_None_iff)
  moreover have "cache_ok c1 \<and> entries c1 = take (if map_of (entries c) k = None \<and> 0 < maxSize c \<and> maxSize c \<le> cacheSize c
            then Suc (cacheSize c) - clearSize c else Suc (cacheSize c)) (set_entries k v promo (entries c))"
    if "cacheSet own k v promo ph c = (c1, ps, False)" for c1 ps
    using set_ok [OF assms that] len map_of_entries [OF assms, of k] by auto
  ultimately show ?thesis by blast
qed

theorem cache_refines_lru_witness:
  "cacheSet None (7 :: nat) ''x'' True None (newCache 2 1) =
     (\<lparr>index = [7 \<mapsto> ''x''], lru = [7], maxSize = 2, clearSize = 1\<rparr>, [], False) \<and>
   entries (\<lparr>index = [7 \<mapsto> ''x''], lru = [7 :: nat], maxSize = 2, clearSize = 1\<rparr>) = [(7, ''x'')]"
proof -
  have run: "cacheSet None (7 :: nat) ''x'' True None (newCache 2 1) =
     (\<lparr>index = [7 \<mapsto> ''x''], lru = [7], maxSize = 2, clearSize = 1\<rparr>, [], False)"
    by (simp add: cacheSet_def newCache_def cacheSize_def)
  with cache_refines_lru [OF newCache_ok(1), of 7 2 1 None "''x''" True None] show ?thesis
    by (auto simp: newCache_ok set_entries_def cacheSize_def newCache_def)
qed

text \<open>
  With a limit and a clear size between one and the limit, \<open>set\<close> never leaves more
  entries than the limit, and the entry just set is there; the hook is taken not to throw.
\<close>

theorem cache_bounded:
  assumes "cache_ok c" and "0 < maxSize c" and "0 < clearSize c" and "clearSize c \<le> maxSize c"
    and "cacheSize c \<le> maxSize c" and "cacheSet own k v promo ph c = (c', ps, False)"
  shows "cacheSize c' \<le> maxSize c' \<and> getWithoutPromotion k c' = Inr v"
proof -
  obtain m where m: "cache_ok c'" "maxSize c' = maxSize c" "entries c' = take m (set_entries k v promo (entries c))"
    "m = (if index c k = None \<and> 0 < maxSize c \<and> maxSize c \<le> cacheSize c
         then Suc (cacheSize c) - clearSize c else length (set_entries k v promo (entries c)))"
    using set_ok [OF assms(1,6)] by auto
  have ix: "index c' k = map_of (entries c') k" using map_of_entries [OF m(1)] by simp
  note L = length_entries [OF assms(1)] length_entries [OF m(1)]
  show ?thesis
  proof (cases "index c k")
    case None
    then have es: "set_entries k v promo (entries c) = (k, v) # entries c"
      using map_of_entries [OF assms(1), of k] by (simp add: set_entries_def)
    have "0 < m" "m \<le> maxSize c" using m(4) None es L assms(2-5) by (auto split: if_splits)
    then have "map_of (entries c') k = Some v" "length (entries c') \<le> maxSize c"
      using m(3) es by (simp_all add: take_Cons')
    with ix m(2) L show ?thesis by (simp add: getWithoutPromotion_def)
  next
    case (Some old)
    then have pr: "map_of (entries c) k = Some old" using map_of_entries [OF assms(1)] by simp
    have "length (set_entries k v promo (entries c)) \<le> cacheSize c"
      using pr length_filter_less [of "(k, old)" "entries c" "\<lambda>e. fst e \<noteq> k"] map_of_SomeD [OF pr] L
      by (simp add: set_entries_def without_def)
    moreover have "map_of (set_entries k v promo (entries c)) k = Some v"
      using pr map_of_replaced [OF pr, of v] by (simp add: set_entries_def)
    ultimately show ?thesis using m Some ix assms(5) L by (auto simp: getWithoutPromotion_def simp flip: L(2))
  qed
qed

theorem cache_bounded_witness:
  "getWithoutPromotion (9 :: nat) (fst (cacheSet None 9 ''y'' True None
     \<lparr>index = [7 \<mapsto> ''x''], lru = [7], maxSize = 1, clearSize = 1\<rparr>)) = Inr ''y''"
proof -
  let ?c = "\<lparr>index = [7 \<mapsto> ''x''], lru = [7 :: nat], maxSize = 1, clearSize = 1\<rparr>"
  have run: "cacheSet None 9 ''y'' True None ?c =
     (\<lparr>index = ((index ?c)(9 \<mapsto> ''y''))(7 := None), lru = [9], maxSize = 1, clearSize = 1\<rparr>, [], False)"
    by (simp add: cacheSet_def cacheSize_def prune_def pruneWithFailSafeOption_def)
  have "cache_ok ?c" by (simp add: cache_ok_def)
  from cache_bounded [OF this _ _ _ _ run] show ?thesis unfolding run by (simp add: cacheSize_def)
qed

end
