(* ===== verification/Generators.thy ===== *)
theory Generators
  imports Prelude
begin

text \<open>
  Push-style generators: \<^verbatim>\<open>GenImpl\<close> and \<^verbatim>\<open>Chain\<close> of \<^verbatim>\<open>src/raster/gen/Core-inl.h\<close>, the sources,
  operators and sinks of \<^verbatim>\<open>Base-inl.h\<close>, and \<^verbatim>\<open>Interleave\<close> and \<^verbatim>\<open>Zip\<close> of
  \<^verbatim>\<open>Combine-inl.h\<close>. A generator sends its values one by one to a handler, a
  closure that answers whether it wants more. What a closure answers is
  determined by the calls it has had, so a handler is a function of the list
  of values received so far, the current one last. \<open>gApply\<close> gives the values
  the handler received and the boolean that \<^verbatim>\<open>apply\<close> returns, or \<open>None\<close> when it
  does not return, because it runs forever or throws; \<open>gForeach\<close> gives the values sent to a body that takes them all.
\<close>

section \<open>Generators\<close>

type_synonym 'a handler = "'a list \<Rightarrow> bool"

record 'a gen =
  gApply :: "'a handler \<Rightarrow> ('a list \<times> bool) option"
  gForeach :: "'a list option"

text \<open>\<^verbatim>\<open>GenImpl::foreach\<close>: the default, through \<^verbatim>\<open>apply\<close> with a handler that always wants more.\<close>

definition defaultForeach :: "('a handler \<Rightarrow> ('a list \<times> bool) option) \<Rightarrow> 'a list option" where
  "defaultForeach app = map_option fst (app (\<lambda>xs. True))"

section \<open>Sources\<close>

text \<open>The loop over a container: \<open>seen\<close> has been sent.\<close>

fun deliver :: "'a handler \<Rightarrow> 'a list \<Rightarrow> 'a list \<Rightarrow> 'a list \<times> bool" where
  "deliver h seen [] = (seen, True)"
| "deliver h seen (x # xs) =
     (if \<not> h (seen @ [x]) then (seen @ [x], False) else deliver h (seen @ [x]) xs)"

definition referencedSource :: "'a list \<Rightarrow> 'a gen" where
  "referencedSource container = \<lparr>gApply = (\<lambda>h. Some (deliver h [] container)), gForeach = Some container\<rparr>"

definition copiedSource :: "'a list \<Rightarrow> 'a gen" where
  "copiedSource container = \<lparr>gApply = (\<lambda>h. Some (deliver h [] container)), gForeach = Some container\<rparr>"

definition rangeSource :: "'a list \<Rightarrow> 'a gen" where
  "rangeSource rg = \<lparr>gApply = (\<lambda>h. Some (deliver h [] rg)), gForeach = Some rg\<rparr>"

text \<open>The output of \<^verbatim>\<open>GroupBy\<close>: a key with its values, a generator of the values.\<close>

datatype ('k, 'a) group = Group (groupKey: 'k) (groupValues: "'a list")

definition groupGen :: "('k, 'a) group \<Rightarrow> 'a gen" where
  "groupGen g = \<lparr>gApply = (\<lambda>h. Some (deliver h [] (groupValues g))), gForeach = Some (groupValues g)\<rparr>"

text \<open>\<^verbatim>\<open>Sequence\<close>: the loop ends when the test fails, which it may never do.\<close>

partial_function (option) seqLoop ::
  "('a \<Rightarrow> bool) \<Rightarrow> ('a \<Rightarrow> 'a) \<Rightarrow> 'a handler \<Rightarrow> 'a list \<Rightarrow> 'a \<Rightarrow> ('a list \<times> bool) option" where
  "seqLoop test step h seen current =
     (if test current
      then if \<not> h (seen @ [current]) then Some (seen @ [current], False)
           else seqLoop test step h (seen @ [current]) (step current)
      else Some (seen, True))"

partial_function (option) seqBody :: "('a \<Rightarrow> bool) \<Rightarrow> ('a \<Rightarrow> 'a) \<Rightarrow> 'a list \<Rightarrow> 'a \<Rightarrow> 'a list option" where
  "seqBody test step seen current =
     (if test current then seqBody test step (seen @ [current]) (step current) else Some seen)"

definition sequenceGen :: "('a \<Rightarrow> bool) \<Rightarrow> ('a \<Rightarrow> 'a) \<Rightarrow> 'a \<Rightarrow> 'a gen" where
  "sequenceGen test step start =
     \<lparr>gApply = (\<lambda>h. seqLoop test step h [] start), gForeach = seqBody test step [] start\<rparr>"

text \<open>The sequence implementations, on unsigned 64-bit values: \<open>++\<close> and \<open>+=\<close> wrap.\<close>

definition rangeImpl :: "64 word \<Rightarrow> 64 word \<Rightarrow> 64 word gen" where
  "rangeImpl start stop = sequenceGen (\<lambda>c. c < stop) (\<lambda>c. c + 1) start"

definition rangeWithStepImpl :: "64 word \<Rightarrow> 64 word \<Rightarrow> 64 word \<Rightarrow> 64 word gen" where
  "rangeWithStepImpl start stop step = sequenceGen (\<lambda>c. c < stop) (\<lambda>c. c + step) start"

definition seqImpl :: "64 word \<Rightarrow> 64 word \<Rightarrow> 64 word gen" where
  "seqImpl first stop = sequenceGen (\<lambda>c. c \<le> stop) (\<lambda>c. c + 1) first"

definition seqWithStepImpl :: "64 word \<Rightarrow> 64 word \<Rightarrow> 64 word \<Rightarrow> 64 word gen" where
  "seqWithStepImpl first stop step = sequenceGen (\<lambda>c. c \<le> stop) (\<lambda>c. c + step) first"

definition infiniteImpl :: "64 word \<Rightarrow> 64 word gen" where
  "infiniteImpl first = sequenceGen (\<lambda>c. True) (\<lambda>c. c + 1) first"

text \<open>
  \<^verbatim>\<open>Yield\<close>: user code that calls a body with values one after the other; the body
  throws \<^verbatim>\<open>Break\<close> when the handler has enough. \<open>yields\<close> is what the user code
  would send if it were never stopped.
\<close>

definition yieldGen :: "'a list \<Rightarrow> 'a gen" where
  "yieldGen yields = \<lparr>gApply = (\<lambda>h. Some (deliver h [] yields)), gForeach = Some yields\<rparr>"

definition emptyGen :: "'a gen" where
  "emptyGen = \<lparr>gApply = (\<lambda>h. Some ([], True)), gForeach = Some []\<rparr>"

definition singleReference :: "'a \<Rightarrow> 'a gen" where
  "singleReference v = \<lparr>gApply = (\<lambda>h. Some ([v], h [v])), gForeach = Some [v]\<rparr>"

definition singleCopy :: "'a \<Rightarrow> 'a gen" where
  "singleCopy v = \<lparr>gApply = (\<lambda>h. Some ([v], h [v])), gForeach = Some [v]\<rparr>"

text \<open>\<^verbatim>\<open>Chain\<close>: the second generator runs only when the first returned true.\<close>

definition chainGen :: "'a gen \<Rightarrow> 'a gen \<Rightarrow> 'a gen" where
  "chainGen first second =
     \<lparr>gApply = (\<lambda>h. case gApply first h of
         None \<Rightarrow> None
       | Some (xs, r) \<Rightarrow>
           if \<not> r then Some (xs, False)
           else map_option (\<lambda>(ys, r2). (xs @ ys, r2)) (gApply second (\<lambda>ys. h (xs @ ys)))),
      gForeach = (case gForeach first of
         None \<Rightarrow> None | Some xs \<Rightarrow> map_option (\<lambda>ys. xs @ ys) (gForeach second))\<rparr>"

section \<open>Operators\<close>

text \<open>
  An operator gives its source a handler of its own: a lambda that captures the
  handler \<open>h\<close> behind it. \<open>xs\<close> is what the lambda received, \<open>last xs\<close> the current value.
\<close>

definition mapGen :: "('a \<Rightarrow> 'b) \<Rightarrow> 'a gen \<Rightarrow> 'b gen" where
  "mapGen f source =
     \<lparr>gApply = (\<lambda>h. map_option (\<lambda>(xs, r). (map f xs, r)) (gApply source (\<lambda>xs. h (map f xs)))),
      gForeach = map_option (map f) (gForeach source)\<rparr>"

definition filterGen :: "('a \<Rightarrow> bool) \<Rightarrow> 'a gen \<Rightarrow> 'a gen" where
  "filterGen p source =
     \<lparr>gApply = (\<lambda>h. map_option (\<lambda>(xs, r). (filter p xs, r))
        (gApply source (\<lambda>xs. if p (last xs) then h (filter p xs) else True))),
      gForeach = map_option (filter p) (gForeach source)\<rparr>"

text \<open>\<^verbatim>\<open>cancelled\<close> is set when the handler, not the predicate, stopped the source.\<close>

definition untilApply :: "('a \<Rightarrow> bool) \<Rightarrow> 'a gen \<Rightarrow> 'a handler \<Rightarrow> ('a list \<times> bool) option" where
  "untilApply p source h =
     map_option (\<lambda>(xs, r).
         if xs \<noteq> [] \<and> p (last xs) then (butlast xs, True)
         else (xs, \<not> (xs \<noteq> [] \<and> \<not> h xs)))
       (gApply source (\<lambda>xs. if p (last xs) then False else h xs))"

definition untilGen :: "('a \<Rightarrow> bool) \<Rightarrow> 'a gen \<Rightarrow> 'a gen" where
  "untilGen p source = \<lparr>gApply = untilApply p source, gForeach = defaultForeach (untilApply p source)\<rparr>"

text \<open>\<^verbatim>\<open>--n\<close> counts a \<^verbatim>\<open>size_t\<close> down from the limit; at zero the source stops.\<close>

definition takeApply :: "nat \<Rightarrow> 'a gen \<Rightarrow> 'a handler \<Rightarrow> ('a list \<times> bool) option" where
  "takeApply limit source h =
     (if limit = 0 then Some ([], False)
      else map_option (\<lambda>(xs, r). (xs, \<not> (xs \<noteq> [] \<and> \<not> h xs)))
        (gApply source (\<lambda>xs. if \<not> h xs then False
           else (of_nat limit - of_nat (length xs) :: 64 word) \<noteq> 0)))"

definition takeGen :: "nat \<Rightarrow> 'a gen \<Rightarrow> 'a gen" where
  "takeGen limit source = \<lparr>gApply = takeApply limit source, gForeach = defaultForeach (takeApply limit source)\<rparr>"

text \<open>
  The captured \<^verbatim>\<open>distance\<close>, a \<^verbatim>\<open>size_t\<close>, starts at the stride, so that the first value
  passes, unless incrementing it wraps.
\<close>

fun strideRun :: "nat \<Rightarrow> nat \<Rightarrow> 'a list \<Rightarrow> 'a list" where
  "strideRun stride distance [] = []"
| "strideRun stride distance (x # xs) =
     (if size_inc distance \<ge> stride then x # strideRun stride 0 xs else strideRun stride (size_inc distance) xs)"

fun strideDistance :: "nat \<Rightarrow> nat \<Rightarrow> 'a list \<Rightarrow> nat" where
  "strideDistance stride distance [] = distance"
| "strideDistance stride distance (x # xs) =
     strideDistance stride (if size_inc distance \<ge> stride then 0 else size_inc distance) xs"

definition strideGen :: "nat \<Rightarrow> 'a gen \<Rightarrow> 'a gen" where
  "strideGen stride source =
     \<lparr>gApply = (\<lambda>h. map_option (\<lambda>(xs, r). (strideRun stride stride xs, r))
        (gApply source (\<lambda>xs. if size_inc (strideDistance stride stride (butlast xs)) \<ge> stride
           then h (strideRun stride stride xs) else True))),
      gForeach = map_option (strideRun stride stride) (gForeach source)\<rparr>"

definition newStride :: "nat \<Rightarrow> ('a gen \<Rightarrow> 'a gen) result" where
  "newStride stride = (if stride = 0 then Inl Invalid_Argument else Inr (strideGen stride))"

definition skipGen :: "nat \<Rightarrow> 'a gen \<Rightarrow> 'a gen" where
  "skipGen limit source =
     \<lparr>gApply = (\<lambda>h. if limit = 0 then gApply source h
        else map_option (\<lambda>(xs, r). (drop limit xs, r))
          (gApply source (\<lambda>xs. if length xs - 1 < limit then True else h (drop limit xs)))),
      gForeach = (if limit = 0 then gForeach source else map_option (drop limit) (gForeach source))\<rparr>"

text \<open>\<open>keysSeen\<close> is the captured set of keys.\<close>

fun distinctRun :: "('a \<Rightarrow> 'k) \<Rightarrow> 'k set \<Rightarrow> 'a list \<Rightarrow> 'a list" where
  "distinctRun selector keysSeen [] = []"
| "distinctRun selector keysSeen (x # xs) =
     (if selector x \<in> keysSeen then distinctRun selector keysSeen xs
      else x # distinctRun selector (insert (selector x) keysSeen) xs)"

definition distinctGen :: "('a \<Rightarrow> 'k) \<Rightarrow> 'a gen \<Rightarrow> 'a gen" where
  "distinctGen selector source =
     \<lparr>gApply = (\<lambda>h. map_option (\<lambda>(xs, r). (distinctRun selector {} xs, r))
        (gApply source (\<lambda>xs. if selector (last xs) \<notin> selector ` set (butlast xs)
           then h (distinctRun selector {} xs) else True))),
      gForeach = map_option (distinctRun selector {}) (gForeach source)\<rparr>"

text \<open>\<^verbatim>\<open>Batch\<close>: the batches sent so far and the values that wait in \<^verbatim>\<open>batch_\<close>.\<close>

fun batchRun :: "nat \<Rightarrow> 'a list \<Rightarrow> 'a list \<Rightarrow> 'a list list \<times> 'a list" where
  "batchRun sz batch [] = ([], batch)"
| "batchRun sz batch (x # xs) =
     (if length (batch @ [x]) = sz
      then let (bs, rest) = batchRun sz [] xs in ((batch @ [x]) # bs, rest)
      else batchRun sz (batch @ [x]) xs)"

text \<open>\<open>room\<close> is the largest number of values for which \<^verbatim>\<open>batch_.reserve\<close> does not throw.\<close>

definition batchApply :: "nat \<Rightarrow> nat \<Rightarrow> 'a gen \<Rightarrow> 'a list handler \<Rightarrow> ('a list list \<times> bool) option" where
  "batchApply room sz source h =
     (if room < sz then None
      else case gApply source (\<lambda>xs. if snd (batchRun sz [] xs) = [] then h (fst (batchRun sz [] xs)) else True) of
        None \<Rightarrow> None
      | Some (xs, shouldContinue) \<Rightarrow>
          let (bs, batch) = batchRun sz [] xs
          in if shouldContinue \<and> batch \<noteq> [] then Some (bs @ [batch], h (bs @ [batch]))
             else Some (bs, shouldContinue))"

definition batchGen :: "nat \<Rightarrow> nat \<Rightarrow> 'a gen \<Rightarrow> 'a list gen" where
  "batchGen room sz source =
     \<lparr>gApply = batchApply room sz source, gForeach = defaultForeach (batchApply room sz source)\<rparr>"

definition newBatch :: "nat \<Rightarrow> nat \<Rightarrow> ('a gen \<Rightarrow> 'a list gen) result" where
  "newBatch room sz = (if sz = 0 then Inl Invalid_Argument else Inr (batchGen room sz))"

text \<open>\<^verbatim>\<open>RangeConcat\<close>: the values of the containers that the source sends.\<close>

fun concatSeen :: "'a handler \<Rightarrow> 'a list \<Rightarrow> 'a list list \<Rightarrow> 'a list \<times> bool" where
  "concatSeen h seen [] = (seen, True)"
| "concatSeen h seen (r # rs) =
     (case deliver h seen r of (ys, c) \<Rightarrow> if \<not> c then (ys, False) else concatSeen h ys rs)"

definition rangeConcatGen :: "'a list gen \<Rightarrow> 'a gen" where
  "rangeConcatGen source =
     \<lparr>gApply = (\<lambda>h. map_option (\<lambda>(rs, r). (fst (concatSeen h [] rs), r))
        (gApply source (\<lambda>rs. snd (deliver h (concat (butlast rs)) (last rs))))),
      gForeach = map_option concat (gForeach source)\<rparr>"

text \<open>\<^verbatim>\<open>Dereference\<close>: null pointers are dropped.\<close>

definition dereferenceGen :: "'a option gen \<Rightarrow> 'a gen" where
  "dereferenceGen source =
     \<lparr>gApply = (\<lambda>h. map_option (\<lambda>(xs, r). (List.map_filter id xs, r))
        (gApply source (\<lambda>xs. if last xs \<noteq> None then h (List.map_filter id xs) else True))),
      gForeach = map_option (List.map_filter id) (gForeach source)\<rparr>"

text \<open>
  \<^verbatim>\<open>Sample\<close>: reservoir sampling; \<open>rng i\<close> is the \<open>i\<close>-th number of the random
  generator, \<open>n\<close> the captured counter.
\<close>

fun reservoir :: "nat \<Rightarrow> (nat \<Rightarrow> nat) \<Rightarrow> nat \<Rightarrow> nat \<Rightarrow> 'a list \<Rightarrow> 'a list \<Rightarrow> 'a list" where
  "reservoir limit rng i n v [] = v"
| "reservoir limit rng i n v (x # xs) =
     (if length v < limit then reservoir limit rng i (n + 1) (v @ [x]) xs
      else let idx = rng i mod n
           in reservoir limit rng (i + 1) (n + 1) (if idx < length v then v[idx := x] else v) xs)"

definition sampleApply :: "nat \<Rightarrow> (nat \<Rightarrow> nat) \<Rightarrow> 'a gen \<Rightarrow> 'a handler \<Rightarrow> ('a list \<times> bool) option" where
  "sampleApply limit rng source h =
     (if limit = 0 then Some ([], False)
      else map_option (\<lambda>xs. deliver h [] (reservoir limit rng 0 1 [] xs)) (gForeach source))"

definition sampleGen :: "nat \<Rightarrow> (nat \<Rightarrow> nat) \<Rightarrow> 'a gen \<Rightarrow> 'a gen" where
  "sampleGen limit rng source =
     \<lparr>gApply = sampleApply limit rng source, gForeach = defaultForeach (sampleApply limit rng source)\<rparr>"

text \<open>
  \<^verbatim>\<open>GroupBy\<close>: a hash map from keys to the vectors of values; \<open>iter\<close> is the order in which
  it is iterated, given the keys in the order of their first value.
\<close>

definition groupsOf :: "('a \<Rightarrow> 'k) \<Rightarrow> ('k list \<Rightarrow> 'k list) \<Rightarrow> 'a list \<Rightarrow> ('k, 'a) group list" where
  "groupsOf selector iter xs =
     map (\<lambda>k. Group k (filter (\<lambda>x. selector x = k) xs)) (iter (map selector (distinctRun selector {} xs)))"

definition groupByApply ::
  "('a \<Rightarrow> 'k) \<Rightarrow> ('k list \<Rightarrow> 'k list) \<Rightarrow> 'a gen \<Rightarrow> ('k, 'a) group handler \<Rightarrow> (('k, 'a) group list \<times> bool) option" where
  "groupByApply selector iter source h =
     map_option (\<lambda>xs. deliver h [] (groupsOf selector iter xs)) (gForeach source)"

definition groupByGen :: "('a \<Rightarrow> 'k) \<Rightarrow> ('k list \<Rightarrow> 'k list) \<Rightarrow> 'a gen \<Rightarrow> ('k, 'a) group gen" where
  "groupByGen selector iter source =
     \<lparr>gApply = groupByApply selector iter source,
      gForeach = defaultForeach (groupByApply selector iter source)\<rparr>"

text \<open>
  \<^verbatim>\<open>Cycle\<close> with a limit: \<open>cont\<close> is the answer of the last call of the handler in the
  turn, and false when there was none.
\<close>

fun cycleLoop :: "nat \<Rightarrow> 'a gen \<Rightarrow> 'a handler \<Rightarrow> 'a list \<Rightarrow> ('a list \<times> bool) option" where
  "cycleLoop 0 source h seen = Some (seen, True)"
| "cycleLoop (Suc n) source h seen =
     (case gApply source (\<lambda>ys. h (seen @ ys)) of
        None \<Rightarrow> None
      | Some (ys, r) \<Rightarrow>
          let cont = (ys \<noteq> [] \<and> h (seen @ ys))
          in if \<not> cont then Some (seen @ ys, False) else cycleLoop n source h (seen @ ys))"

definition cycleGen :: "nat \<Rightarrow> 'a gen \<Rightarrow> 'a gen" where
  "cycleGen limit source =
     \<lparr>gApply = (\<lambda>h. cycleLoop limit source h []),
      gForeach = defaultForeach (\<lambda>h. cycleLoop limit source h [])\<rparr>"

text \<open>\<^verbatim>\<open>Cycle<true>\<close>: the loop has no limit.\<close>

partial_function (option) cycleForever :: "'a gen \<Rightarrow> 'a handler \<Rightarrow> 'a list \<Rightarrow> ('a list \<times> bool) option" where
  "cycleForever source h seen =
     (case gApply source (\<lambda>ys. h (seen @ ys)) of
        None \<Rightarrow> None
      | Some (ys, r) \<Rightarrow>
          if \<not> (ys \<noteq> [] \<and> h (seen @ ys)) then Some (seen @ ys, False)
          else cycleForever source h (seen @ ys))"

text \<open>
  \<^verbatim>\<open>GuardImpl\<close>: \<open>throws\<close> says when the handler behind throws the guarded exception,
  and \<open>onError\<close> is what the error handler answers. What a handler that did not
  throw answered is not used.
\<close>

definition guardApply ::
  "('a \<Rightarrow> bool) \<Rightarrow> 'a gen \<Rightarrow> 'a handler \<Rightarrow> ('a list \<Rightarrow> bool) \<Rightarrow> ('a list \<times> bool) option" where
  "guardApply onError source h throws = gApply source (\<lambda>xs. if throws xs then onError (last xs) else True)"

definition guardGen :: "('a \<Rightarrow> bool) \<Rightarrow> 'a gen \<Rightarrow> 'a gen" where
  "guardGen onError source =
     \<lparr>gApply = (\<lambda>h. guardApply onError source h (\<lambda>xs. False)),
      gForeach = defaultForeach (\<lambda>h. guardApply onError source h (\<lambda>xs. False))\<rparr>"

text \<open>
  \<^verbatim>\<open>Order\<close>: \<^verbatim>\<open>foreach\<close> sorts the values, \<^verbatim>\<open>apply\<close> pops them from a heap, the least key first. The
  order of values with equal keys is left open by the standard library; the model takes
  the first of them.
\<close>

fun heapPops :: "('a \<Rightarrow> 'k :: linorder) \<Rightarrow> nat \<Rightarrow> 'a list \<Rightarrow> 'a list" where
  "heapPops selector 0 heap = []"
| "heapPops selector (Suc n) heap =
     (if heap = [] then []
      else let t = arg_min_list selector heap in t # heapPops selector n (remove1 t heap))"

definition orderGen :: "('a \<Rightarrow> 'k :: linorder) \<Rightarrow> 'a gen \<Rightarrow> 'a gen" where
  "orderGen selector source =
     \<lparr>gApply = (\<lambda>h. map_option (\<lambda>xs. deliver h [] (heapPops selector (length xs) xs)) (gForeach source)),
      gForeach = map_option (sort_key selector) (gForeach source)\<rparr>"

text \<open>\<^verbatim>\<open>Composed\<close>: two operators as one. \<^verbatim>\<open>VirtualGen\<close>: a generator behind a virtual interface.\<close>

definition composedOp :: "('a gen \<Rightarrow> 'b gen) \<Rightarrow> ('b gen \<Rightarrow> 'c gen) \<Rightarrow> 'a gen \<Rightarrow> 'c gen" where
  "composedOp first second source = second (first source)"

definition virtualGen :: "'a gen \<Rightarrow> 'a gen" where
  "virtualGen wrapped = \<lparr>gApply = (\<lambda>h. gApply wrapped h), gForeach = gForeach wrapped\<rparr>"

section \<open>Combining with a container\<close>

text \<open>The values sent on by \<^verbatim>\<open>Interleave\<close> when the source has sent \<open>xs\<close>; \<open>cs\<close> is the container.\<close>

fun interleaveSeen :: "'a handler \<Rightarrow> 'a list \<Rightarrow> 'a list \<Rightarrow> 'a list \<Rightarrow> 'a list \<times> bool" where
  "interleaveSeen h seen cs [] = (seen, True)"
| "interleaveSeen h seen [] (x # xs) = (seen, False)"
| "interleaveSeen h seen (c # cs) (x # xs) =
     (if \<not> h (seen @ [x]) then (seen @ [x], False)
      else if \<not> h (seen @ [x, c]) then (seen @ [x, c], False)
      else interleaveSeen h (seen @ [x, c]) cs xs)"

definition interleaveGen :: "'a list \<Rightarrow> 'a gen \<Rightarrow> 'a gen" where
  "interleaveGen cs source =
     (let app = (\<lambda>h. map_option (\<lambda>(xs, r). (fst (interleaveSeen h [] cs xs), r))
        (gApply source (\<lambda>xs. snd (interleaveSeen h [] cs xs))))
      in \<lparr>gApply = app, gForeach = defaultForeach app\<rparr>)"

definition zipGen :: "'b list \<Rightarrow> 'a gen \<Rightarrow> ('a \<times> 'b) gen" where
  "zipGen cs source =
     (let app = (\<lambda>h. map_option (\<lambda>(xs, r). (zip xs cs, r))
        (gApply source (\<lambda>xs. if length xs - 1 = length cs then False else h (zip xs cs))))
      in \<lparr>gApply = app, gForeach = defaultForeach app\<rparr>)"

section \<open>Sinks\<close>

text \<open>\<open>None\<close>: the source does not end.\<close>

definition foldlSink :: "'s \<Rightarrow> ('s \<Rightarrow> 'a \<Rightarrow> 's) \<Rightarrow> 'a gen \<Rightarrow> 's option" where
  "foldlSink seed f source = map_option (foldl f seed) (gForeach source)"

definition firstSink :: "'a gen \<Rightarrow> 'a option option" where
  "firstSink source =
     map_option (\<lambda>(xs, r). if xs = [] then None else Some (last xs)) (gApply source (\<lambda>xs. False))"

definition isEmptySink :: "bool \<Rightarrow> 'a gen \<Rightarrow> bool option" where
  "isEmptySink emptyResult source =
     map_option (\<lambda>(xs, r). if xs = [] then emptyResult else \<not> emptyResult) (gApply source (\<lambda>xs. False))"

fun reduceRun :: "('a \<Rightarrow> 'a \<Rightarrow> 'a) \<Rightarrow> 'a option \<Rightarrow> 'a list \<Rightarrow> 'a option" where
  "reduceRun reducer accum [] = accum"
| "reduceRun reducer accum (v # vs) =
     reduceRun reducer (case accum of Some a \<Rightarrow> Some (reducer a v) | None \<Rightarrow> Some v) vs"

definition reduceSink :: "('a \<Rightarrow> 'a \<Rightarrow> 'a) \<Rightarrow> 'a gen \<Rightarrow> 'a option option" where
  "reduceSink reducer source = map_option (reduceRun reducer None) (gForeach source)"

definition countSink :: "'a gen \<Rightarrow> nat option" where
  "countSink source = foldlSink 0 (\<lambda>accum v. (accum + 1) mod 2 ^ 64) source"

definition sumSink :: "'a :: monoid_add gen \<Rightarrow> 'a option" where
  "sumSink source = foldlSink 0 (\<lambda>accum v. accum + v) source"

definition containsSink :: "'a \<Rightarrow> 'a gen \<Rightarrow> bool option" where
  "containsSink needle source = map_option (\<lambda>(xs, r). \<not> r) (gApply source (\<lambda>xs. needle \<noteq> last xs))"

fun minRun :: "('a \<Rightarrow> 'k) \<Rightarrow> ('k \<Rightarrow> 'k \<Rightarrow> bool) \<Rightarrow> ('a \<times> 'k) option \<Rightarrow> 'a list \<Rightarrow> ('a \<times> 'k) option" where
  "minRun selector comparer m [] = m"
| "minRun selector comparer m (v # vs) =
     minRun selector comparer
       (case m of None \<Rightarrow> Some (v, selector v)
        | Some (w, key) \<Rightarrow> if comparer (selector v) key then Some (v, selector v) else m) vs"

definition minSink :: "('a \<Rightarrow> 'k) \<Rightarrow> ('k \<Rightarrow> 'k \<Rightarrow> bool) \<Rightarrow> 'a gen \<Rightarrow> 'a option option" where
  "minSink selector comparer source = map_option (\<lambda>xs. map_option fst (minRun selector comparer None xs)) (gForeach source)"

definition appendSink :: "'a list \<Rightarrow> 'a gen \<Rightarrow> 'a list option" where
  "appendSink collection source = foldlSink collection (\<lambda>c v. c @ [v]) source"

definition collectSink :: "'a gen \<Rightarrow> 'a list option" where
  "collectSink source = foldlSink [] (\<lambda>c v. c @ [v]) source"

definition collectTemplateSink :: "'a gen \<Rightarrow> 'a list option" where
  "collectTemplateSink source = foldlSink [] (\<lambda>c v. c @ [v]) source"

definition unwrapOr :: "'a option \<Rightarrow> 'a \<Rightarrow> 'a" where
  "unwrapOr opt fallback = (case opt of Some v \<Rightarrow> v | None \<Rightarrow> fallback)"

definition unwrap :: "'a option \<Rightarrow> 'a result" where
  "unwrap opt = (case opt of Some v \<Rightarrow> Inr v | None \<Rightarrow> Inl Runtime_Error)"

section \<open>The contract of a generator\<close>

text \<open>
  \<open>lawful g xs\<close>: \<open>g\<close> is the sequence \<open>xs\<close>. \<^verbatim>\<open>apply\<close> sends its values in order until the
  handler answers no, and returns false exactly when it did; \<^verbatim>\<open>foreach\<close> sends them all.
\<close>

definition lawful :: "'a gen \<Rightarrow> 'a list \<Rightarrow> bool" where
  "lawful g xs \<longleftrightarrow> (\<forall>h. gApply g h = Some (deliver h [] xs)) \<and> gForeach g = Some xs"

lemma deliver_all: "deliver (\<lambda>xs. True) seen xs = (seen @ xs, True)"
  by (induction xs arbitrary: seen) simp_all

lemma deliver_append:
  "deliver h seen (xs @ ys) =
     (case deliver h seen xs of (zs, r) \<Rightarrow> if r then deliver h zs ys else (zs, False))"
  by (induction xs arbitrary: seen) (simp_all split: prod.split)

lemma deliver_True: "deliver h seen xs = (ys, True) \<Longrightarrow> ys = seen @ xs"
  by (induction xs arbitrary: seen) (force split: if_splits)+

text \<open>Where delivery stops: the answer belongs to the last value received.\<close>

lemma deliver_last:
  assumes "deliver h seen xs = (ys, r)"
  shows "\<exists>k \<le> length xs. ys = seen @ take k xs \<and> (r \<longrightarrow> k = length xs) \<and>
    (\<not> r \<longrightarrow> 0 < k \<and> \<not> h ys) \<and> (r \<longrightarrow> 0 < k \<longrightarrow> h ys)"
  using assms
proof (induction xs arbitrary: seen)
  case (Cons x xs)
  show ?case
  proof (cases "h (seen @ [x])")
    case True
    with Cons.prems have d: "deliver h (seen @ [x]) xs = (ys, r)" by simp
    from Cons.IH [OF d] obtain k where k: "k \<le> length xs" "ys = (seen @ [x]) @ take k xs"
      "r \<longrightarrow> k = length xs" "\<not> r \<longrightarrow> 0 < k \<and> \<not> h ys" "r \<longrightarrow> 0 < k \<longrightarrow> h ys" by blast
    show ?thesis
      by (rule exI [of _ "Suc k"]) (use k True in \<open>cases k; auto\<close>)
  next
    case False
    with Cons.prems show ?thesis by (intro exI [of _ 1]) auto
  qed
qed simp

lemma deliver_shift:
  "deliver h (pre @ seen) xs = (case deliver (\<lambda>ys. h (pre @ ys)) seen xs of (ys, r) \<Rightarrow> (pre @ ys, r))"
  by (induction xs arbitrary: seen) (auto split: prod.split)

text \<open>The default of \<^verbatim>\<open>foreach\<close> keeps the contract.\<close>

lemma lawfulI_default:
  assumes "\<And>h. app h = Some (deliver h [] xs)"
  shows "lawful \<lparr>gApply = app, gForeach = defaultForeach app\<rparr> xs"
  using assms by (simp add: lawful_def defaultForeach_def deliver_all)

text \<open>
  An operator that sends on at most one value for each it receives: \<open>fwd\<close> is what it
  has sent on, and its lambda \<open>k\<close> asks the handler behind exactly when it sends.
\<close>

lemma deliver_fwd:
  assumes "\<And>xs x. (fwd (xs @ [x]) = fwd xs \<and> k (xs @ [x])) \<or>
      (\<exists>y. fwd (xs @ [x]) = fwd xs @ [y] \<and> k (xs @ [x]) = h (fwd xs @ [y]))"
    and "fwd (seen @ zs) = fwd seen @ rest"
  shows "(case deliver k seen zs of (ys, r) \<Rightarrow> (fwd ys, r)) = deliver h (fwd seen) rest"
  using assms(2)
proof (induction zs arbitrary: seen rest)
  case (Cons z zs)
  have grow: "\<exists>more. fwd (us @ vs) = fwd us @ more" for us vs
  proof (induction vs rule: rev_induct)
    case (snoc v vs)
    then show ?case using assms(1) [of "us @ vs" v] by auto
  qed simp
  obtain more where more: "fwd ((seen @ [z]) @ zs) = fwd (seen @ [z]) @ more" using grow by blast
  from assms(1) [of seen z] show ?case
  proof
    assume a: "fwd (seen @ [z]) = fwd seen \<and> k (seen @ [z])"
    with more Cons.prems have "more = rest" by simp
    with Cons.IH [OF more] a show ?thesis by simp
  next
    assume "\<exists>y. fwd (seen @ [z]) = fwd seen @ [y] \<and> k (seen @ [z]) = h (fwd seen @ [y])"
    then obtain y where y: "fwd (seen @ [z]) = fwd seen @ [y]" "k (seen @ [z]) = h (fwd seen @ [y])" by blast
    with more Cons.prems have "rest = y # more" by simp
    with Cons.IH [OF more] y show ?thesis by simp
  qed
qed simp

lemma lawful_fwd:
  assumes "lawful g xs" and "fwd [] = []"
    and "\<And>h ys y. (fwd (ys @ [y]) = fwd ys \<and> k h (ys @ [y])) \<or>
      (\<exists>z. fwd (ys @ [y]) = fwd ys @ [z] \<and> k h (ys @ [y]) = h (fwd ys @ [z]))"
  shows "lawful \<lparr>gApply = (\<lambda>h. map_option (\<lambda>(ys, r). (fwd ys, r)) (gApply g (k h))),
    gForeach = map_option fwd (gForeach g)\<rparr> (fwd xs)"
proof -
  have "gApply g (k h) = Some (deliver (k h) [] xs)" for h using assms(1) by (simp add: lawful_def)
  moreover have "(case deliver (k h) [] xs of (ys, r) \<Rightarrow> (fwd ys, r)) = deliver h [] (fwd xs)" for h
    using deliver_fwd [of fwd "k h" h "[]" xs "fwd xs"] assms(2,3) by simp
  ultimately show ?thesis using assms(1) by (simp add: lawful_def)
qed

section \<open>Sources\<close>

named_theorems lawful_intros \<open>the sequences of sources and operators\<close>

lemma lawful_sources [lawful_intros]:
  "lawful (referencedSource xs) xs" "lawful (copiedSource xs) xs" "lawful (rangeSource xs) xs"
  "lawful (yieldGen xs) xs" "lawful (groupGen (Group key xs)) xs" "lawful emptyGen []"
  "lawful (singleReference v) [v]" "lawful (singleCopy v) [v]"
  by (simp_all add: lawful_def referencedSource_def copiedSource_def rangeSource_def yieldGen_def groupGen_def
      emptyGen_def singleReference_def singleCopy_def)

lemma lawful_chain [lawful_intros]:
  assumes "lawful g xs" and "lawful g2 ys"
  shows "lawful (chainGen g g2) (xs @ ys)"
proof -
  have "gApply (chainGen g g2) h = Some (deliver h [] (xs @ ys))" for h
  proof (cases "deliver h [] xs")
    case (Pair zs r)
    with assms deliver_shift [of h zs "[]" ys] show ?thesis
      by (simp add: lawful_def chainGen_def deliver_append)
  qed
  with assms show ?thesis by (simp add: lawful_def chainGen_def)
qed

section \<open>Operators\<close>

lemma lawful_map [lawful_intros]: "lawful g xs \<Longrightarrow> lawful (mapGen f g) (map f xs)"
  unfolding mapGen_def by (rule lawful_fwd) auto

lemma lawful_filter [lawful_intros]: "lawful g xs \<Longrightarrow> lawful (filterGen p g) (filter p xs)"
  unfolding filterGen_def by (rule lawful_fwd) auto

lemma strideRun_append:
  "strideRun s d (xs @ ys) = strideRun s d xs @ strideRun s (strideDistance s d xs) ys"
  by (induction s d xs rule: strideRun.induct) auto

lemma lawful_stride [lawful_intros]: "lawful g xs \<Longrightarrow> lawful (strideGen s g) (strideRun s s xs)"
  unfolding strideGen_def by (rule lawful_fwd) (auto simp: strideRun_append)

text \<open>A stride keeps the values at the multiples of it.\<close>

lemma strideRun_nths:
  assumes "0 < n" and "n < 2 ^ 64 - 1" and "d \<le> n"
  shows "strideRun n d xs = nths xs {i. n - 1 - d \<le> i \<and> n dvd i - (n - 1 - d)}"
  using assms(3)
proof (induction xs arbitrary: d)
  case (Cons x xs)
  have inc: "size_inc d = d + 1" using assms(2) Cons.prems by (simp add: size_inc_small)
  show ?case
  proof (cases "n \<le> d + 1")
    case True
    then have z: "n - 1 - d = 0" by simp
    have "{j. n dvd Suc j} = {i. n - 1 \<le> i \<and> n dvd i - (n - 1)}"
    proof (rule Collect_cong)
      fix j
      show "n dvd Suc j \<longleftrightarrow> n - 1 \<le> j \<and> n dvd j - (n - 1)"
      proof (cases "n - 1 \<le> j")
        case True
        have "Suc j = j - (n - 1) + n" using True assms(1) by simp
        then have "n dvd Suc j \<longleftrightarrow> n dvd j - (n - 1)" by (metis dvd_add_triv_right_iff)
        with True show ?thesis by simp
      next
        case False
        then have "\<not> n dvd Suc j" using dvd_imp_le [of n "Suc j"] by linarith
        with False show ?thesis by simp
      qed
    qed
    with True inc z Cons.IH [of 0] show ?thesis by (simp add: nths_Cons)
  next
    case False
    let ?m = "n - 1 - (d + 1)"
    have m: "n - 1 - d = Suc ?m" using False by simp
    from False inc m Cons.IH [of "d + 1"] show ?thesis by (simp add: nths_Cons)
  qed
qed simp

lemma lawful_stride_nths:
  assumes "lawful g xs" and "0 < n" and "n < 2 ^ 64 - 1"
  shows "lawful (strideGen n g) (nths xs {i. n dvd i})"
  using lawful_stride [OF assms(1), of n] strideRun_nths [OF assms(2,3) order_refl, of xs] by simp

text \<open>The largest stride wraps the distance, and the first value is dropped.\<close>

lemma largest_stride_drops_first: "strideRun (2 ^ 64 - 1) (2 ^ 64 - 1) [x] = []"
  by (simp add: size_inc_def)

lemma lawful_skip [lawful_intros]:
  assumes "lawful g xs"
  shows "lawful (skipGen n g) (drop n xs)"
proof (cases "n = 0")
  case True
  with assms show ?thesis by (simp add: skipGen_def lawful_def)
next
  case False
  have "lawful \<lparr>gApply = (\<lambda>h. map_option (\<lambda>(xs, r). (drop n xs, r))
      (gApply g (\<lambda>xs. if length xs - 1 < n then True else h (drop n xs)))),
      gForeach = map_option (drop n) (gForeach g)\<rparr> (drop n xs)"
    by (rule lawful_fwd [OF assms]) (auto simp: Suc_diff_le)
  with False show ?thesis by (simp add: skipGen_def)
qed

lemma distinctRun_append:
  "distinctRun f K (xs @ ys) = distinctRun f K xs @ distinctRun f (K \<union> f ` set xs) ys"
  by (induction f K xs rule: distinctRun.induct) (auto simp: insert_absorb Un_insert_left)

lemma lawful_distinct [lawful_intros]: "lawful g xs \<Longrightarrow> lawful (distinctGen f g) (distinctRun f {} xs)"
  unfolding distinctGen_def by (rule lawful_fwd) (auto simp: distinctRun_append)

text \<open>Of the values with one key, the first is kept.\<close>

lemma distinctRun_nths:
  "distinctRun f K xs = nths xs {i. f (xs ! i) \<notin> K \<union> f ` set (take i xs)}"
proof (induction xs arbitrary: K)
  case (Cons x xs)
  show ?case
  proof (cases "f x \<in> K")
    case True
    then have "{j. f (xs ! j) \<notin> K \<union> f ` set (take j xs)} = {j. f (xs ! j) \<notin> K \<and> f (xs ! j) \<noteq> f x \<and> f (xs ! j) \<notin> f ` set (take j xs)}"
      by auto
    with True Cons.IH [of K] show ?thesis by (simp add: nths_Cons)
  next
    case False
    have "{j. f (xs ! j) \<notin> insert (f x) K \<union> f ` set (take j xs)} = {j. f (xs ! j) \<notin> K \<and> f (xs ! j) \<noteq> f x \<and> f (xs ! j) \<notin> f ` set (take j xs)}"
      by auto
    with False Cons.IH [of "insert (f x) K"] show ?thesis by (simp add: nths_Cons)
  qed
qed simp

lemma lawful_dereference [lawful_intros]:
  "lawful g xs \<Longrightarrow> lawful (dereferenceGen g) (List.map_filter id xs)"
  unfolding dereferenceGen_def by (rule lawful_fwd) (auto simp: List.map_filter_def)

text \<open>Until: what stops the source is the predicate or the handler.\<close>

lemma deliver_until:
  assumes "deliver (\<lambda>xs. if p (last xs) then False else h xs) seen zs = (ys, r)" and "seen = [] \<or> \<not> p (last seen) \<and> h seen"
  shows "(if ys \<noteq> [] \<and> p (last ys) then (butlast ys, True) else (ys, \<not> (ys \<noteq> [] \<and> \<not> h ys)))
    = deliver h seen (takeWhile (\<lambda>x. \<not> p x) zs)"
  using assms
proof (induction zs arbitrary: seen)
  case (Cons z zs)
  show ?case
  proof (cases "p z \<or> \<not> h (seen @ [z])")
    case True
    with Cons.prems show ?thesis by (auto split: if_splits)
  next
    case False
    with Cons.prems Cons.IH [of "seen @ [z]"] show ?thesis by auto
  qed
qed auto

lemma lawful_until [lawful_intros]:
  assumes "lawful g xs"
  shows "lawful (untilGen p g) (takeWhile (\<lambda>x. \<not> p x) xs)"
  unfolding untilGen_def
proof (rule lawfulI_default)
  fix h
  obtain ys r where d: "deliver (\<lambda>xs. if p (last xs) then False else h xs) [] xs = (ys, r)" by fastforce
  with deliver_until [OF d] assms show "untilApply p g h = Some (deliver h [] (takeWhile (\<lambda>x. \<not> p x) xs))"
    by (simp add: untilApply_def lawful_def)
qed

lemma deliver_take:
  assumes "deliver (\<lambda>xs. if \<not> h xs then False else (of_nat n - of_nat (length xs) :: 64 word) \<noteq> 0) seen zs = (ys, r)"
    and "length seen < n" and "n < 2 ^ 64" and "seen = [] \<or> h seen"
  shows "(ys, \<not> (ys \<noteq> [] \<and> \<not> h ys)) = deliver h seen (take (n - length seen) zs)"
  using assms
proof (induction zs arbitrary: seen)
  case (Cons z zs)
  have cont: "(of_nat n - of_nat (length (seen @ [z])) :: 64 word) \<noteq> 0 \<longleftrightarrow> Suc (length seen) < n"
    using Cons.prems(2,3) word_of_nat_eq_iff [of n "Suc (length seen)", where 'a = 64]
    by (auto simp: take_bit_nat_eq_self)
  have tk: "take (n - length seen) (z # zs) = z # take (n - length (seen @ [z])) zs"
    using Cons.prems(2) by (simp add: Suc_diff_Suc [symmetric] del: diff_Suc_Suc)
  show ?case
  proof (cases "h (seen @ [z]) \<and> Suc (length seen) < n")
    case True
    with Cons.prems cont Cons.IH [of "seen @ [z]"] tk show ?thesis by simp
  next
    case False
    with Cons.prems(1) cont have ys: "ys = seen @ [z]" by (auto split: if_splits)
    show ?thesis
    proof (cases "h (seen @ [z])")
      case True
      with False Cons.prems(2) have "n - length (seen @ [z]) = 0" by simp
      with tk ys True show ?thesis by simp
    qed (simp add: tk ys)
  qed
qed auto

lemma lawful_take [lawful_intros]:
  assumes "lawful g xs" and "0 < n" and "n < 2 ^ 64"
  shows "lawful (takeGen n g) (take n xs)"
  unfolding takeGen_def
proof (rule lawfulI_default)
  fix h
  obtain ys r where d: "deliver (\<lambda>xs. if \<not> h xs then False else (of_nat n - of_nat (length xs) :: 64 word) \<noteq> 0) [] xs
    = (ys, r)" by fastforce
  have "(ys, \<not> (ys \<noteq> [] \<and> \<not> h ys)) = deliver h [] (take (n - length ([] :: 'a list)) xs)"
    by (rule deliver_take [OF d]) (use assms in auto)
  with d assms show "takeApply n g h = Some (deliver h [] (take n xs))"
    by (simp add: takeApply_def lawful_def)
qed

lemma batchRun_append:
  "batchRun n b (xs @ ys) = (let (bs, b') = batchRun n b xs; (cs, b'') = batchRun n b' ys in (bs @ cs, b''))"
  by (induction n b xs rule: batchRun.induct) (auto simp: Let_def split: prod.splits)

lemma batchRun_snoc:
  assumes "batchRun n [] xs = (bs, b)"
  shows "batchRun n [] (xs @ [x]) = (if Suc (length b) = n then (bs @ [b @ [x]], []) else (bs, b @ [x]))"
  using batchRun_append [of n "[]" xs "[x]"] assms by auto

text \<open>The full batches are what the source's handler passes on; the rest is flushed at the end.\<close>

definition batches :: "nat \<Rightarrow> 'a list \<Rightarrow> 'a list list" where
  "batches n xs = (case batchRun n [] xs of (bs, b) \<Rightarrow> if b = [] then bs else bs @ [b])"

lemma lawful_batch [lawful_intros]:
  assumes "lawful g xs" and "0 < n" and "n \<le> room"
  shows "lawful (batchGen room n g) (batches n xs)"
  unfolding batchGen_def
proof (rule lawfulI_default)
  fix h :: "'a list handler"
  let ?k = "\<lambda>xs :: 'a list. if snd (batchRun n [] xs) = [] then h (fst (batchRun n [] xs)) else True"
  let ?f = "\<lambda>xs :: 'a list. fst (batchRun n [] xs)"
  have step: "(?f (ys @ [y]) = ?f ys \<and> ?k (ys @ [y])) \<or> (\<exists>z. ?f (ys @ [y]) = ?f ys @ [z] \<and> ?k (ys @ [y]) = h (?f ys @ [z]))"
    for ys y by (cases "batchRun n [] ys") (simp add: batchRun_snoc)
  obtain ys r where d: "deliver ?k [] xs = (ys, r)" by fastforce
  from deliver_fwd [of ?f ?k h "[]" xs "?f xs", OF step] d have e: "deliver h [] (?f xs) = (?f ys, r)" by simp
  obtain bs b where B: "batchRun n [] xs = (bs, b)" by fastforce
  have ys: "r \<Longrightarrow> ys = xs" using deliver_True [of ?k "[]" xs ys] d by simp
  have app: "gApply g ?k = Some (ys, r)" using assms(1) d by (simp add: lawful_def)
  show "batchApply room n g h = Some (deliver h [] (batches n xs))"
  proof (cases "r \<and> b \<noteq> []")
    case True
    then have "batches n xs = bs @ [b]" "ys = xs" using B ys by (simp_all add: batches_def)
    moreover have "deliver h [] (bs @ [b]) = (bs @ [b], h (bs @ [b]))"
      using e True B ys by (simp add: deliver_append)
    ultimately show ?thesis using app True B assms(3) by (simp add: batchApply_def)
  next
    case False
    then have "deliver h [] (batches n xs) = (?f ys, r)"
      using e B by (auto simp: batches_def deliver_append)
    moreover have "\<not> (r \<and> snd (batchRun n [] ys) \<noteq> [])" using False ys B by auto
    ultimately show ?thesis using app assms(3) by (cases "batchRun n [] ys") (auto simp: batchApply_def)
  qed
qed

lemma batchRun_sizes:
  assumes "batchRun n b xs = (bs, b')" and "length b < n"
  shows "(\<forall>c \<in> set bs. length c = n) \<and> length b' < n"
  using assms
proof (induction xs arbitrary: b bs b')
  case (Cons x xs)
  show ?case
  proof (cases "length (b @ [x]) = n")
    case True
    obtain cs b2 where r: "batchRun n [] xs = (cs, b2)" by fastforce
    with Cons.prems True Cons.IH [OF r] show ?thesis by auto
  qed (use Cons in auto)
qed simp

lemma batches_sizes:
  assumes "0 < n"
  shows "(\<forall>b \<in> set (butlast (batches n xs)). length b = n) \<and>
    (batches n xs \<noteq> [] \<longrightarrow> 0 < length (last (batches n xs)) \<and> length (last (batches n xs)) \<le> n)"
proof -
  obtain bs b where r: "batchRun n [] xs = (bs, b)" by fastforce
  with batchRun_sizes [OF r] assms have "\<forall>c \<in> set bs. length c = n" "length b < n" by simp_all
  with r assms show ?thesis
    by (cases "b = []") (auto simp: batches_def dest: in_set_butlastD)
qed

lemma concat_batches: "0 < n \<Longrightarrow> concat (batches n xs) = xs"
proof -
  have "concat (fst (batchRun n b xs)) @ snd (batchRun n b xs) = b @ xs" for b
    by (induction n b xs rule: batchRun.induct) (auto simp: Let_def split: prod.splits)
  from this [of "[]"] show ?thesis by (auto simp: batches_def split: prod.splits)
qed

lemma batches_size:
  "0 < n \<Longrightarrow> length c < n \<Longrightarrow>
     (\<forall>b \<in> set (fst (batchRun n c xs)). length b = n) \<and> length (snd (batchRun n c xs)) < n"
proof (induction xs arbitrary: c)
  case (Cons x xs)
  show ?case
  proof (cases "Suc (length c) = n")
    case True
    with Cons.IH [of "[]"] Cons.prems show ?thesis by (cases "batchRun n [] xs") auto
  next
    case False
    with Cons.IH [of "c @ [x]"] Cons.prems show ?thesis by simp
  qed
qed simp

lemma concatSeen_concat: "concatSeen h seen rs = deliver h seen (concat rs)"
  by (induction rs arbitrary: seen) (auto simp: deliver_append split: prod.splits)

lemma lawful_rangeConcat [lawful_intros]:
  assumes "lawful g rs"
  shows "lawful (rangeConcatGen g) (concat rs)"
proof -
  let ?k = "\<lambda>h rs. snd (deliver h (concat (butlast rs)) (last rs))"
  have "(case deliver (?k h) seen zs of (ys, r) \<Rightarrow> (fst (deliver h [] (concat ys)), r)) =
      deliver h (concat seen) (concat zs)" if "deliver h [] (concat seen) = (concat seen, True)" for h seen zs
    using that
  proof (induction zs arbitrary: seen)
    case (Cons z zs)
    obtain ys r where d: "deliver h (concat seen) z = (ys, r)" by fastforce
    show ?case
    proof (cases r)
      case True
      then have "ys = concat (seen @ [z])" using deliver_True [of h "concat seen" z ys] d by simp
      moreover from this have "deliver h [] (concat (seen @ [z])) = (concat (seen @ [z]), True)"
        using Cons.prems d True by (simp add: deliver_append)
      ultimately show ?thesis using Cons.IH [of "seen @ [z]"] d True by (simp add: deliver_append)
    next
      case False
      with Cons.prems d show ?thesis by (simp add: deliver_append)
    qed
  qed simp
  note D = this [of _ "[]"]
  have "gApply (rangeConcatGen g) h = Some (deliver h [] (concat rs))" for h
    using D [of h rs] assms
    by (cases "deliver (?k h) [] rs") (simp add: lawful_def rangeConcatGen_def concatSeen_concat)
  with assms show ?thesis by (simp add: lawful_def rangeConcatGen_def)
qed

text \<open>A cycle of a source that sends something.\<close>

lemma lawful_cycle [lawful_intros]:
  assumes "lawful g xs" and "xs \<noteq> []"
  shows "lawful (cycleGen n g) (concat (replicate n xs))"
proof -
  have "cycleLoop n g h seen = Some (deliver h seen (concat (replicate n xs)))" for h seen
  proof (induction n arbitrary: seen)
    case (Suc n)
    obtain ys r where d: "deliver (\<lambda>ys. h (seen @ ys)) [] xs = (ys, r)" by fastforce
    from deliver_last [OF d] assms(2) obtain k where k: "ys = take k xs" "r \<longrightarrow> k = length xs"
      "\<not> r \<longrightarrow> 0 < k \<and> \<not> h (seen @ ys)" "r \<longrightarrow> 0 < k \<longrightarrow> h (seen @ ys)" by auto
    have "ys \<noteq> [] \<and> h (seen @ ys) \<longleftrightarrow> r" using k assms(2) by auto
    moreover have "deliver h seen xs = (seen @ ys, r)" using deliver_shift [of h seen "[]" xs] d by simp
    moreover have "gApply g (\<lambda>ys. h (seen @ ys)) = Some (ys, r)" using assms(1) d by (simp add: lawful_def)
    ultimately show ?case using Suc.IH [of "seen @ ys"] by (auto simp: deliver_append Let_def)
  qed simp
  then show ?thesis unfolding cycleGen_def by (intro lawfulI_default) simp
qed

section \<open>Counting sequences\<close>

lemma iterates_Suc:
  "map (\<lambda>i. (step ^^ i) a) [0..<Suc n] = a # map (\<lambda>i. (step ^^ i) (step a)) [0..<n]"
  by (simp only: upt_conv_Cons map_Suc_upt [symmetric] zero_less_Suc list.map funpow_0 map_map comp_def
      funpow_swap1 funpow.simps id_apply)

lemma seqLoop_list:
  assumes "\<forall>i < n. test ((step ^^ i) a)" and "\<not> test ((step ^^ n) a)"
  shows "seqLoop test step h seen a = Some (deliver h seen (map (\<lambda>i. (step ^^ i) a) [0..<n]))"
  using assms
proof (induction n arbitrary: a seen)
  case 0
  then show ?case by (subst seqLoop.simps) simp
next
  case (Suc n)
  have "\<forall>i < n. test ((step ^^ i) (step a))" "\<not> test ((step ^^ n) (step a))"
    using Suc.prems by (auto simp: funpow_swap1 dest: spec [of _ "Suc i" for i])
  note IH = Suc.IH [OF this, of "seen @ [a]"]
  have t: "test a" using Suc.prems(1) by auto
  show ?case unfolding iterates_Suc by (subst seqLoop.simps) (simp add: t IH)
qed

lemma seqBody_list:
  assumes "\<forall>i < n. test ((step ^^ i) a)" and "\<not> test ((step ^^ n) a)"
  shows "seqBody test step seen a = Some (seen @ map (\<lambda>i. (step ^^ i) a) [0..<n])"
  using assms
proof (induction n arbitrary: a seen)
  case 0
  then show ?case by (subst seqBody.simps) simp
next
  case (Suc n)
  have "\<forall>i < n. test ((step ^^ i) (step a))" "\<not> test ((step ^^ n) (step a))"
    using Suc.prems by (auto simp: funpow_swap1 dest: spec [of _ "Suc i" for i])
  note IH = Suc.IH [OF this, of "seen @ [a]"]
  have t: "test a" using Suc.prems(1) by auto
  show ?case unfolding iterates_Suc by (subst seqBody.simps) (simp add: t IH)
qed

lemma lawful_sequence:
  assumes "\<forall>i < n. test ((step ^^ i) a)" and "\<not> test ((step ^^ n) a)"
  shows "lawful (sequenceGen test step a) (map (\<lambda>i. (step ^^ i) a) [0..<n])"
  using seqLoop_list [OF assms] seqBody_list [OF assms] by (simp add: lawful_def sequenceGen_def)

lemma word_steps: "((\<lambda>c :: 64 word. c + s) ^^ i) a = a + of_nat i * s"
  by (induction i) (simp_all add: algebra_simps)

lemma unat_small: "m < 2 ^ 64 \<Longrightarrow> unat (of_nat m :: 64 word) = m"
  by (simp add: unat_of_nat)

text \<open>
  Counting up to a bound in steps of \<open>s\<close>, as long as the last step does not pass the
  end of the type.
\<close>

lemma lawful_range_step:
  assumes "0 < unat s" and "k = (unat b - unat a + unat s - 1) div unat s"
    and "unat a + k * unat s < 2 ^ 64" and "a \<le> b"
  shows "lawful (rangeWithStepImpl a b s) (map (\<lambda>i. a + of_nat i * s) [0..<k])"
proof -
  let ?s = "unat s"
  have nat: "unat (a + of_nat i * s) = unat a + i * ?s" if "i \<le> k" for i
  proof -
    have "unat a + i * ?s < 2 ^ 64" using assms(3) that
      by (meson add_left_mono le_less_trans mult_le_mono1)
    from unat_small [OF this] show ?thesis by simp
  qed
  have le: "unat a \<le> unat b" using assms(4) by (simp add: word_le_nat_alt)
  have test: "a + of_nat i * s < b \<longleftrightarrow> i * ?s < unat b - unat a" if "i \<le> k" for i
    using nat [OF that] le by (auto simp: word_less_nat_alt)
  have below: "i * ?s < unat b - unat a" if "i < k" for i
  proof -
    have "(i + 1) * ?s \<le> k * ?s" using that by (intro mult_le_mono1) simp
    also have "\<dots> \<le> unat b - unat a + ?s - 1" unfolding assms(2) by (rule div_times_less_eq_dividend)
    finally show ?thesis using assms(1) by simp
  qed
  have "unat b - unat a \<le> k * ?s"
  proof -
    have "unat b - unat a + ?s - 1 < k * ?s + ?s"
      unfolding assms(2) using dividend_less_div_times [OF assms(1), of "unat b - unat a + ?s - 1"]
      by (simp add: add.commute)
    then show ?thesis using assms(1) by simp
  qed
  then show ?thesis
    using lawful_sequence [of k "\<lambda>c. c < b" "\<lambda>c. c + s" a] below test
    unfolding rangeWithStepImpl_def word_steps by simp
qed

lemma lawful_range:
  assumes "a \<le> b"
  shows "lawful (rangeImpl a b) (map (\<lambda>i. a + of_nat i) [0..<unat b - unat a])"
proof -
  have "unat a + (unat b - unat a) * unat (1 :: 64 word) < 2 ^ 64"
    using assms unsigned_less [of b] by (simp add: word_le_nat_alt)
  with lawful_range_step [of 1 "unat b - unat a" b a] assms show ?thesis
    by (simp add: rangeImpl_def rangeWithStepImpl_def)
qed

text \<open>
  \<open>seq\<close> includes its end. When the end is the largest value of the type no value
  fails the test, and the loop never ends.
\<close>

lemma lawful_seq:
  assumes "a \<le> b" and "b \<noteq> - 1"
  shows "lawful (seqImpl a b) (map (\<lambda>i. a + of_nat i) [0..<Suc (unat b - unat a)])"
proof -
  have "unat b \<noteq> unat (- 1 :: 64 word)" using assms(2) by (metis word_unat_eq_iff)
  then have "unat b + 1 < 2 ^ 64" using unsigned_less [of b, where 'a = nat] by (simp add: unsigned_minus_1_eq_mask mask_eq_exp_minus_1)
  from unat_small [OF this] have nb: "unat (b + 1) = unat b + 1" by (simp add: add.commute)
  have "c \<le> b \<longleftrightarrow> c < b + 1" for c using nb by (simp add: word_le_nat_alt word_less_nat_alt less_Suc_eq_le)
  then have "seqImpl a b = rangeImpl a (b + 1)" by (simp add: seqImpl_def rangeImpl_def)
  moreover have "a \<le> b + 1" "unat (b + 1) - unat a = Suc (unat b - unat a)"
    using assms(1) nb by (simp_all add: word_le_nat_alt)
  ultimately show ?thesis using lawful_range [of a "b + 1"] by simp
qed

lemma seqLoop_never:
  assumes "seqLoop test step h seen a = Some y"
  shows "(\<forall>c. test c) \<longrightarrow> (\<forall>xs. h xs) \<longrightarrow> False"
proof (rule seqLoop.raw_induct [where P = "\<lambda>test step h seen a y. (\<forall>c. test c) \<longrightarrow> (\<forall>xs. h xs) \<longrightarrow> False", OF _ assms])
  fix loop test step h seen current y
  assume IH: "\<And>test step h seen a y. loop test step h seen a = Some y \<Longrightarrow> (\<forall>c. test c) \<longrightarrow> (\<forall>xs. h xs) \<longrightarrow> False"
    and run: "(if test current then if \<not> h (seen @ [current]) then Some (seen @ [current], False)
        else loop test step h (seen @ [current]) (step current) else Some (seen, True)) = Some y"
  show "(\<forall>c. test c) \<longrightarrow> (\<forall>xs. h xs) \<longrightarrow> False"
  proof (intro impI)
    assume all: "\<forall>c. test c" "\<forall>xs. h xs"
    with run have "loop test step h (seen @ [current]) (step current) = Some y" by simp
    from IH [OF this] all show False by blast
  qed
qed

section \<open>Sinks\<close>

text \<open>What a sink relies on: a generator that is a sequence.\<close>

locale generator =
  fixes g :: "'a gen" and xs :: "'a list"
  assumes is_sequence: "lawful g xs"
begin

lemma foreach_eq: "gForeach g = Some xs"
  using is_sequence by (simp add: lawful_def)

lemma apply_eq: "gApply g h = Some (deliver h [] xs)"
  using is_sequence by (simp add: lawful_def)

lemma foldl_eq: "foldlSink seed f g = Some (foldl f seed xs)"
  by (simp add: foldlSink_def foreach_eq)

lemma collect_eq: "collectSink g = Some xs" "collectTemplateSink g = Some xs" "appendSink c g = Some (c @ xs)"
proof -
  have "foldl (\<lambda>c v. c @ [v]) c xs = c @ xs" for c by (induction xs arbitrary: c) simp_all
  then show "collectSink g = Some xs" "collectTemplateSink g = Some xs" "appendSink c g = Some (c @ xs)"
    by (simp_all add: collectSink_def collectTemplateSink_def appendSink_def foldl_eq)
qed

lemma count_eq: "countSink g = Some (length xs mod 2 ^ 64)"
proof -
  have "foldl (\<lambda>accum v. (accum + 1) mod 2 ^ 64) (a mod 2 ^ 64) ys = (a + length ys) mod 2 ^ 64" for a :: nat and ys :: "'a list"
  proof (induction ys arbitrary: a)
    case (Cons y ys)
    have "foldl (\<lambda>accum v. (accum + 1) mod 2 ^ 64) (a mod 2 ^ 64) (y # ys)
        = foldl (\<lambda>accum v. (accum + 1) mod 2 ^ 64) ((a + 1) mod 2 ^ 64) ys"
      by (simp only: foldl_Cons mod_add_left_eq)
    also have "\<dots> = (a + 1 + length ys) mod 2 ^ 64" by (rule Cons.IH)
    also have "a + 1 + length ys = a + length (y # ys)" by simp
    finally show ?case .
  qed simp
  from this [of 0 xs] show ?thesis by (simp add: countSink_def foldl_eq)
qed

lemma first_eq: "firstSink g = Some (if xs = [] then None else Some (hd xs))"
  by (cases xs) (simp_all add: firstSink_def apply_eq)

lemma isEmpty_eq: "isEmptySink e g = Some (if xs = [] then e else \<not> e)"
  by (cases xs) (simp_all add: isEmptySink_def apply_eq)

lemma contains_eq: "containsSink v g = Some (v \<in> set xs)"
proof -
  have "snd (deliver (\<lambda>xs. v \<noteq> last xs) seen ys) = (v \<notin> set ys)" for seen ys
    by (induction ys arbitrary: seen) auto
  then show ?thesis by (simp add: containsSink_def apply_eq case_prod_beta)
qed

lemma reduce_eq: "reduceSink f g = Some (if xs = [] then None else Some (foldl f (hd xs) (tl xs)))"
proof -
  have "reduceRun f (Some a) ys = Some (foldl f a ys)" for a ys by (induction ys arbitrary: a) simp_all
  then show ?thesis by (cases xs) (simp_all add: reduceSink_def foreach_eq)
qed

end

lemma foldl_sum: "foldl (\<lambda>accum v. accum + v) a xs = a + sum_list (xs :: 'a :: monoid_add list)"
  by (induction xs arbitrary: a) (simp_all add: add.assoc)

interpretation rs: generator "referencedSource xs" xs for xs
  by unfold_locales (rule lawful_sources)

text \<open>\<^verbatim>\<open>min\<close> and \<^verbatim>\<open>max\<close> keep the first value whose key no later key beats.\<close>

lemma minRun_ok:
  assumes "minRun f (<) m vs = Some (w, key)" and "case m of None \<Rightarrow> True | Some (v, k) \<Rightarrow> k = f v"
  shows "key = f w \<and> (w \<in> set vs \<or> m = Some (w, key)) \<and> (\<forall>v \<in> set vs. key \<le> f v) \<and>
    (case m of None \<Rightarrow> True | Some (v, k) \<Rightarrow> key \<le> (k :: 'k :: linorder))"
  using assms
proof (induction vs arbitrary: m)
  case (Cons v vs)
  let ?m = "case m of None \<Rightarrow> Some (v, f v) | Some (w, key) \<Rightarrow> if f v < key then Some (v, f v) else m"
  from Cons.prems Cons.IH [of ?m] show ?case
    by (cases m) (auto split: if_splits)
qed auto

lemma minRun_None: "minRun f c m vs = None \<longleftrightarrow> m = None \<and> vs = []"
  by (induction f c m vs rule: minRun.induct) (auto split: option.splits prod.splits if_splits)

section \<open>Sampling and grouping\<close>

text \<open>
  The reservoir never invents or repeats a value, and is full when the source has enough.
\<close>

lemma reservoir_ok:
  assumes "length v \<le> limit"
  shows "length (reservoir limit rng i n v xs) = min limit (length v + length xs) \<and>
    mset (reservoir limit rng i n v xs) \<subseteq># mset v + mset xs"
  using assms
proof (induction limit rng i n v xs rule: reservoir.induct)
  case (2 limit rng i n v x xs)
  show ?case
  proof (cases "length v < limit")
    case True
    with "2.IH"(1) [OF True] show ?thesis by simp
  next
    case False
    define w where "w = (if rng i mod n < length v then v[rng i mod n := x] else v)"
    have len: "length w = length v" by (simp add: w_def)
    have sub: "mset w \<subseteq># add_mset x (mset v)"
      by (auto simp: w_def mset_update intro: diff_subset_eq_self subset_mset.trans)
    have step: "reservoir limit rng i n v (x # xs) = reservoir limit rng (i + 1) (n + 1) w xs"
      using False by (simp add: w_def Let_def)
    have "length w \<le> limit" using len "2.prems" by simp
    from "2.IH"(2) [OF False refl, folded w_def, OF this]
    have IH: "length (reservoir limit rng (i + 1) (n + 1) w xs) = min limit (length w + length xs)"
      "mset (reservoir limit rng (i + 1) (n + 1) w xs) \<subseteq># mset w + mset xs" by blast+
    have "mset w + mset xs \<subseteq># mset v + mset (x # xs)"
      using sub by (simp add: mset_subset_eq_mono_add_right_cancel [symmetric])
    with IH(2) have "mset (reservoir limit rng (i + 1) (n + 1) w xs) \<subseteq># mset v + mset (x # xs)"
      by (rule subset_mset.trans)
    with IH(1) step len False "2.prems" show ?thesis by (simp del: reservoir.simps)
  qed
qed simp

lemma lawful_sample [lawful_intros]:
  assumes "lawful g xs" and "0 < limit"
  shows "lawful (sampleGen limit rng g) (reservoir limit rng 0 1 [] xs)"
  unfolding sampleGen_def by (rule lawfulI_default) (use assms in \<open>simp add: sampleApply_def lawful_def\<close>)

lemma lawful_groupBy [lawful_intros]:
  assumes "lawful g xs"
  shows "lawful (groupByGen f iter g) (groupsOf f iter xs)"
  unfolding groupByGen_def by (rule lawfulI_default) (use assms in \<open>simp add: groupByApply_def lawful_def\<close>)

lemma set_distinctRun: "f ` set (distinctRun f K xs) = f ` set xs - K"
  by (induction f K xs rule: distinctRun.induct) auto

lemma distinct_distinctRun: "distinct (map f (distinctRun f K xs))"
  by (induction f K xs rule: distinctRun.induct) (auto simp: set_distinctRun)

text \<open>The groups hold every value once, each in the group of its key, in source order.\<close>

lemma groupsOf_ok:
  assumes "\<And>ks. mset (iter ks) = mset ks"
  shows "\<forall>gr \<in> set (groupsOf f iter xs). groupValues gr = filter (\<lambda>x. f x = groupKey gr) xs \<and> groupValues gr \<noteq> []"
    and "distinct (map groupKey (groupsOf f iter xs))"
    and "groupKey ` set (groupsOf f iter xs) = f ` set xs"
proof -
  let ?ks = "iter (map f (distinctRun f {} xs))"
  have ks: "set ?ks = f ` set xs" "distinct ?ks"
    using mset_eq_setD [OF assms] set_distinctRun [of f "{}" xs] distinct_distinctRun [of f "{}" xs]
      mset_eq_imp_distinct_iff [OF assms] by auto
  then show "\<forall>gr \<in> set (groupsOf f iter xs). groupValues gr = filter (\<lambda>x. f x = groupKey gr) xs \<and> groupValues gr \<noteq> []"
    by (auto simp: groupsOf_def filter_empty_conv)
  show "distinct (map groupKey (groupsOf f iter xs))" using ks(2) by (simp add: groupsOf_def comp_def)
  show "groupKey ` set (groupsOf f iter xs) = f ` set xs" using ks(1) by (simp add: groupsOf_def image_image)
qed

section \<open>Combining with a container\<close>

lemma zip_snoc: "zip (xs @ [x]) cs = (if length xs < length cs then zip xs cs @ [(x, cs ! length xs)] else zip xs cs)"
proof (induction xs arbitrary: cs)
  case Nil
  then show ?case by (cases cs) simp_all
next
  case (Cons y xs)
  then show ?case by (cases cs) simp_all
qed

text \<open>The pairs are those of the two sequences; the boolean is not the one of the contract.\<close>

lemma deliver_zip:
  assumes "deliver (\<lambda>xs. if length xs - 1 = length cs then False else h (zip xs cs)) seen zs = (ys, r)"
    and "length seen \<le> length cs"
  shows "deliver h (zip seen cs) (drop (length seen) (zip (seen @ zs) cs)) = (zip ys cs, r \<or> length cs < length ys) \<and>
    (length cs < length ys \<longrightarrow> \<not> r)"
  using assms
proof (induction zs arbitrary: seen)
  case (Cons z zs)
  show ?case
  proof (cases "length seen = length cs")
    case True
    with Cons.prems(1) have "ys = seen @ [z]" "\<not> r" by (auto split: if_splits)
    with True show ?thesis by (simp add: zip_snoc)
  next
    case False
    with Cons.prems(2) have lt: "length seen < length cs" by simp
    have z: "zip (seen @ [z]) cs = zip seen cs @ [(z, cs ! length seen)]" using lt by (simp add: zip_snoc)
    have d: "drop (length seen) (zip (seen @ z # zs) cs) =
        (z, cs ! length seen) # drop (length (seen @ [z])) (zip ((seen @ [z]) @ zs) cs)"
      using lt by (simp add: zip_append1 drop_zip take_zip Cons_nth_drop_Suc [symmetric])
    show ?thesis
    proof (cases "h (zip (seen @ [z]) cs)")
      case True
      with Cons.prems(1) lt have run: "deliver (\<lambda>xs. if length xs - 1 = length cs then False else h (zip xs cs)) (seen @ [z]) zs = (ys, r)"
        by simp
      have "length (seen @ [z]) \<le> length cs" using lt by simp
      from Cons.IH [OF run this] True show ?thesis unfolding d by (simp add: z)
    next
      case False
      with Cons.prems(1) lt have "ys = seen @ [z]" "\<not> r" by (auto split: if_splits)
      with False lt show ?thesis unfolding d by (simp add: z)
    qed
  qed
qed auto

lemma heapPops_ok:
  assumes "length xs \<le> n"
  shows "mset (heapPops f n xs) = mset xs \<and> sorted (map f (heapPops f n xs))"
  using assms
proof (induction n arbitrary: xs)
  case (Suc n)
  show ?case
  proof (cases "xs = []")
    case False
    define t where "t = arg_min_list f xs"
    have t: "t \<in> set xs" "f t = Min (f ` set xs)"
      using arg_min_list_in [OF False, of f] f_arg_min_list_f [OF False, of f] by (simp_all add: t_def)
    have pops: "heapPops f (Suc n) xs = t # heapPops f n (remove1 t xs)" using False by (simp add: t_def Let_def)
    have "length (remove1 t xs) \<le> n" using t(1) Suc.prems by (simp add: length_remove1)
    note IH = Suc.IH [OF this]
    have "set (heapPops f n (remove1 t xs)) = set (remove1 t xs)" using IH mset_eq_setD by blast
    then have "\<forall>x \<in> set (heapPops f n (remove1 t xs)). f t \<le> f x"
      using t(2) notin_set_remove1 by (metis List.finite_set Min_le finite_imageI image_eqI)
    with IH t(1) show ?thesis unfolding pops by simp
  qed simp
qed simp

text \<open>With distinct keys the two ways of running \<open>order\<close> agree.\<close>

lemma lawful_order [lawful_intros]:
  assumes "lawful g xs" and "distinct (map f xs)"
  shows "lawful (orderGen f g) (sort_key f xs)"
proof -
  let ?p = "heapPops f (length xs) xs"
  have p: "mset ?p = mset xs" "sorted (map f ?p)" using heapPops_ok [of xs "length xs" f] by simp_all
  have "sort_key f xs = ?p"
  proof (rule properties_for_sort_key [OF p(1) _ p(2)])
    have inj: "inj_on f (set xs)" "distinct xs" using assms(2) by (simp_all add: distinct_map)
    fix k assume "k \<in> set ?p"
    then have k: "k \<in> set xs" using mset_eq_setD [OF p(1)] by simp
    have one: "filter (\<lambda>y. f k = f y) zs = [k]" if "mset zs = mset xs" for zs
    proof -
      have "mset (filter (\<lambda>y. f k = f y) zs) = filter_mset (\<lambda>y. f k = f y) (mset xs)" using that by simp
      also have "\<dots> = filter_mset (\<lambda>y. y = k) (mset xs)"
        using inj(1) k by (intro filter_mset_cong) (auto dest: inj_onD)
      also have "\<dots> = {#k#}" using inj(2) k by (simp add: filter_eq_replicate_mset distinct_count_atmost_1)
      finally show ?thesis by (metis mset_single_iff)
    qed
    show "filter (\<lambda>y. f k = f y) ?p = filter (\<lambda>y. f k = f y) xs" using one [OF refl] one [OF p(1)] by simp
  qed
  then show ?thesis using assms(1) by (simp add: lawful_def orderGen_def)
qed

lemma lawful_virtual [lawful_intros]: "lawful g xs \<Longrightarrow> lawful (virtualGen g) xs"
  by (simp add: lawful_def virtualGen_def)

section \<open>Properties\<close>

text \<open>
  C39: on a source that is a sequence, \<^verbatim>\<open>map\<close>, \<^verbatim>\<open>filter\<close>, \<^verbatim>\<open>until\<close>, \<^verbatim>\<open>take\<close>, \<^verbatim>\<open>skip\<close>, \<^verbatim>\<open>stride\<close>, \<^verbatim>\<open>distinct\<close>, \<^verbatim>\<open>batch\<close>,
  the concatenation of batches and chaining are the sequence their name promises,
  for both ways of running them, and keep the contract of \<open>apply\<close> that chaining relies on:
  values in order, nothing after the handler has said no, and false exactly then. \<^verbatim>\<open>stride(n)\<close>
  keeps the values at the multiples of \<open>n\<close>, \<^verbatim>\<open>distinct\<close> the first value of every key, and \<^verbatim>\<open>batch(n)\<close> gives
  groups of exactly \<open>n\<close> values with only the last one shorter and none empty. The number \<open>n\<close> is positive and
  less than \<open>2 ^ 64 - 1\<close>, and a batch of it fits into a vector. (\<^verbatim>\<open>take(0)\<close>, \<^verbatim>\<open>sample(0)\<close>, \<^verbatim>\<open>guard\<close>, \<^verbatim>\<open>zip\<close> and
  \<^verbatim>\<open>interleave\<close> do not keep the contract.)
\<close>

theorem operators_are_sequences:
  assumes "lawful g xs" and "0 < n" and "n < 2 ^ 64 - 1" and "n \<le> room"
  shows "lawful (mapGen f g) (map f xs) \<and> lawful (filterGen p g) (filter p xs) \<and>
    lawful (untilGen p g) (takeWhile (\<lambda>x. \<not> p x) xs) \<and> lawful (takeGen n g) (take n xs) \<and>
    lawful (skipGen n g) (drop n xs) \<and> lawful (strideGen n g) (nths xs {i. n dvd i}) \<and>
    lawful (distinctGen sel g) (nths xs {i. sel (xs ! i) \<notin> sel ` set (take i xs)}) \<and>
    (\<exists>bs. lawful (batchGen room n g) bs \<and> concat bs = xs \<and> (\<forall>b \<in> set (butlast bs). length b = n) \<and>
       (bs \<noteq> [] \<longrightarrow> 0 < length (last bs) \<and> length (last bs) \<le> n) \<and>
       lawful (rangeConcatGen (batchGen room n g)) xs) \<and>
    lawful (chainGen g (referencedSource ys)) (xs @ ys)"
proof -
  have b: "lawful (batchGen room n g) (batches n xs)" "concat (batches n xs) = xs"
    by (rule lawful_batch [OF assms(1,2,4)]) (rule concat_batches [OF assms(2)])
  moreover have "lawful (rangeConcatGen (batchGen room n g)) (concat (batches n xs))"
    by (rule lawful_rangeConcat [OF b(1)])
  moreover have "n < 2 ^ 64" using assms(3) by simp
  moreover have "lawful (distinctGen sel g) (nths xs {i. sel (xs ! i) \<notin> sel ` set (take i xs)})"
    using lawful_distinct [OF assms(1), of sel] distinctRun_nths [of sel "{}" xs] by simp
  ultimately show ?thesis
    using lawful_map [OF assms(1), of f] lawful_filter [OF assms(1), of p] lawful_until [OF assms(1), of p]
      lawful_take [OF assms(1,2)] lawful_skip [OF assms(1), of n] lawful_stride_nths [OF assms(1-3)]
      lawful_chain [OF assms(1) lawful_sources(1) [of ys]] batches_sizes [OF assms(2), of xs] by auto
qed

theorem operators_are_sequences_witness:
  "lawful (takeGen 2 (referencedSource [5, 6, 7 :: nat])) [5, 6] \<and>
   lawful (rangeConcatGen (batchGen 100 2 (referencedSource [5, 6, 7 :: nat]))) [5, 6, 7]"
  using operators_are_sequences [OF lawful_sources(1) [of "[5, 6, 7 :: nat]"],
      of 2 100 id "\<lambda>x. False" id "[]"] by auto

text \<open>
  On a source that is a sequence the sinks compute the functions of the sequence they
  are named for, stopping early or not; counting wraps at the width of \<open>size_t\<close>.
\<close>

theorem sinks_compute:
  assumes "lawful g xs"
  shows "collectSink g = Some xs \<and> countSink g = Some (length xs mod 2 ^ 64) \<and>
    firstSink g = Some (if xs = [] then None else Some (hd xs)) \<and>
    isEmptySink True g = Some (xs = []) \<and> containsSink v g = Some (v \<in> set xs) \<and>
    reduceSink f g = Some (if xs = [] then None else Some (foldl f (hd xs) (tl xs))) \<and>
    foldlSink seed k g = Some (foldl k seed xs) \<and>
    (xs \<noteq> [] \<longrightarrow> (\<exists>w. minSink sel (<) g = Some (Some w) \<and> w \<in> set xs \<and>
        (\<forall>x \<in> set xs. sel w \<le> (sel x :: 'k :: linorder))))"
proof -
  have gen: "generator g xs" by (rule generator.intro [OF assms])
  have "\<exists>w. minSink sel (<) g = Some (Some w) \<and> w \<in> set xs \<and> (\<forall>x \<in> set xs. sel w \<le> sel x)" if ne: "xs \<noteq> []"
  proof -
    obtain w key where m: "minRun sel (<) None xs = Some (w, key)"
      using minRun_None [of sel "(<)" None xs] ne by fastforce
    with minRun_ok [OF m] generator.foreach_eq [OF gen] show ?thesis by (auto simp: minSink_def)
  qed
  with generator.collect_eq(1) [OF gen] generator.count_eq [OF gen] generator.first_eq [OF gen]
    generator.isEmpty_eq [OF gen, of True] generator.contains_eq [OF gen, of v] generator.reduce_eq [OF gen, of f]
    generator.foldl_eq [OF gen, of seed k] show ?thesis by simp
qed

theorem sinks_compute_witness:
  "containsSink 6 (referencedSource [5, 6 :: nat]) = Some True \<and>
   (\<exists>w. minSink id (<) (referencedSource [5, 6 :: nat]) = Some (Some w) \<and> w \<le> 5)"
  using sinks_compute [OF lawful_sources(1) [of "[5, 6 :: nat]"], of 6 "(+)" "0 :: nat" "(+)" id] by auto

text \<open>
  Reservoir sampling keeps as many values as asked for, or all when there are fewer,
  takes none twice and none that the source did not send, whatever the random numbers.
\<close>

theorem sample_of_source:
  assumes "lawful g xs" and "0 < limit"
  shows "\<exists>ys. lawful (sampleGen limit rng g) ys \<and> length ys = min limit (length xs) \<and> mset ys \<subseteq># mset xs"
  using lawful_sample [OF assms, of rng] reservoir_ok [of "[]" limit rng 0 1 xs] by auto

theorem sample_of_source_witness:
  "\<exists>ys. lawful (sampleGen 1 (\<lambda>i. 4) (referencedSource [5, 6 :: nat])) ys \<and> length ys = 1"
  using sample_of_source [OF lawful_sources(1) [of "[5, 6 :: nat]"], of 1 "\<lambda>i. 4"] by auto

text \<open>
  The contract of \<open>apply\<close> fails for \<open>take(0)\<close>: it returns false although no handler was asked,
  and so a chain drops everything that comes after it.
\<close>

lemma take_zero_ends_chain:
  "gApply (chainGen (takeGen 0 g) (referencedSource ys)) (\<lambda>xs. True) = Some ([], False) \<and>
   collectSink (chainGen (takeGen 0 g) (referencedSource ys)) = Some ys"
proof -
  have "gForeach (takeGen 0 g) = Some []" by (simp add: takeGen_def takeApply_def defaultForeach_def)
  then have "gForeach (chainGen (takeGen 0 g) (referencedSource ys)) = Some ys"
    by (simp add: chainGen_def referencedSource_def)
  moreover have "foldl (\<lambda>c v. c @ [v]) c ys = c @ ys" for c by (induction ys arbitrary: c) simp_all
  ultimately show ?thesis
    by (simp add: collectSink_def foldlSink_def) (simp add: chainGen_def takeGen_def takeApply_def)
qed

text \<open>
  \<open>guard\<close> does not pass on what the handler behind it answers: with nothing thrown, \<open>first\<close>
  behind a guard returns the last value, \<open>contains\<close> never finds anything and \<open>take\<close> takes all.
\<close>

theorem guard_ignores_answers:
  assumes "lawful g xs" and "xs \<noteq> []"
  shows "firstSink (guardGen onError g) = Some (Some (last xs)) \<and>
    containsSink v (guardGen onError g) = Some False \<and>
    (0 < n \<longrightarrow> collectSink (takeGen n (guardGen onError g)) = Some xs)"
proof -
  have app: "gApply (guardGen onError g) h = Some (xs, True)" for h
    using assms(1) by (simp add: guardGen_def guardApply_def lawful_def deliver_all)
  have "foldl (\<lambda>c v. c @ [v]) c xs = c @ xs" for c by (induction xs arbitrary: c) simp_all
  with app assms(2) show ?thesis
    by (auto simp: firstSink_def containsSink_def collectSink_def foldlSink_def takeGen_def takeApply_def
        defaultForeach_def)
qed

theorem guard_ignores_answers_witness:
  "firstSink (guardGen (\<lambda>x. True) (referencedSource [5, 6 :: nat])) = Some (Some 6)"
  using guard_ignores_answers [OF lawful_sources(1) [of "[5, 6 :: nat]"]] by simp

text \<open>
  \<open>range(a, b)\<close> and \<open>seq(a, b)\<close> of unsigned values are the numbers from \<open>a\<close> below \<open>b\<close>, and
  up to \<open>b\<close>, except that a \<open>seq\<close> up to the largest value never ends.
\<close>

theorem counting_sequences:
  assumes "a \<le> b"
  shows "lawful (rangeImpl a b) (map (\<lambda>i. a + of_nat i) [0..<unat b - unat a]) \<and>
    (if b = - 1 then gApply (seqImpl a b) (\<lambda>xs. True) = None
     else lawful (seqImpl a b) (map (\<lambda>i. a + of_nat i) [0..<Suc (unat b - unat a)]))"
proof -
  have "gApply (seqImpl a (- 1)) (\<lambda>xs. True) = None"
  proof (cases "gApply (seqImpl a (- 1)) (\<lambda>xs. True)")
    case (Some y)
    then have "seqLoop (\<lambda>c. c \<le> - 1) (\<lambda>c. c + 1) (\<lambda>xs. True) [] a = Some y"
      by (simp add: seqImpl_def sequenceGen_def)
    from seqLoop_never [OF this] show ?thesis by simp
  qed
  with lawful_range [OF assms] lawful_seq [OF assms] show ?thesis by auto
qed

theorem counting_sequences_witness:
  "gApply (seqImpl 3 (- 1)) (\<lambda>xs. True) = None \<and> lawful (seqImpl 3 5) [3, 4, 5]"
proof -
  have "map (\<lambda>i. 3 + of_nat i :: 64 word) [0..<Suc (unat (5 :: 64 word) - unat (3 :: 64 word))] = [3, 4, 5]"
    by (simp add: upt_rec)
  with counting_sequences [of 3 "- 1"] counting_sequences [of 3 5] show ?thesis by simp
qed

text \<open>
  \<open>zip\<close> sends the pairs of the source and the container, but when the container runs out
  first it returns false although the handler never said no.
\<close>

theorem zip_pairs:
  assumes "lawful g xs"
  shows "\<exists>r. gApply (zipGen cs g) h = Some (fst (deliver h [] (zip xs cs)), r) \<and>
    (length xs \<le> length cs \<longrightarrow> r = snd (deliver h [] (zip xs cs))) \<and>
    (length cs < length xs \<longrightarrow> \<not> r) \<and> gForeach (zipGen cs g) = Some (zip xs cs)"
proof -
  have Z: "\<exists>ys r. gApply g (\<lambda>xs. if length xs - 1 = length cs then False else h (zip xs cs)) = Some (ys, r) \<and>
      deliver h [] (zip xs cs) = (zip ys cs, r \<or> length cs < length ys) \<and> (length cs < length ys \<longrightarrow> \<not> r) \<and>
      (r \<longrightarrow> ys = xs) \<and> length ys \<le> length xs" for h
  proof -
    let ?k = "\<lambda>xs. if length xs - 1 = length cs then False else h (zip xs cs)"
    obtain ys r where d: "deliver ?k [] xs = (ys, r)" by fastforce
    from deliver_zip [OF d] have "deliver h [] (zip xs cs) = (zip ys cs, r \<or> length cs < length ys)"
      "length cs < length ys \<longrightarrow> \<not> r" by simp_all
    moreover have "length ys \<le> length xs" "r \<longrightarrow> ys = xs" using deliver_last [OF d] by auto
    ultimately show ?thesis using assms d by (auto simp: lawful_def)
  qed
  obtain ys r where y: "gApply g (\<lambda>xs. if length xs - 1 = length cs then False else h (zip xs cs)) = Some (ys, r)"
    "deliver h [] (zip xs cs) = (zip ys cs, r \<or> length cs < length ys)" "length cs < length ys \<longrightarrow> \<not> r"
    "r \<longrightarrow> ys = xs" "length ys \<le> length xs" using Z [of h] by blast
  obtain zs q where z: "gApply g (\<lambda>xs. if length xs - 1 = length cs then False else True) = Some (zs, q)"
    "(zip xs cs, True) = (zip zs cs, q \<or> length cs < length zs)" using Z [of "\<lambda>xs. True"] by (auto simp: deliver_all)
  have "gForeach (zipGen cs g) = Some (zip xs cs)"
    using z by (simp add: zipGen_def defaultForeach_def Let_def)
  with y show ?thesis by (auto simp: zipGen_def Let_def)
qed

theorem zip_pairs_witness:
  "\<exists>r. gApply (zipGen [True] (referencedSource [5, 6 :: nat])) (\<lambda>xs. True) = Some ([(5, True)], r) \<and> \<not> r"
  using zip_pairs [OF lawful_sources(1) [of "[5, 6 :: nat]"], of "[True]" "\<lambda>xs. True"]
  by (auto simp: deliver_all)

end
