(* ===== verification/Producer_Consumer.thy ===== *)
theory Producer_Consumer
  imports Prelude "HOL-Library.Word" "HOL-Library.Sublist"
begin

text \<open>
  The lock-free queue between one producer and one consumer thread,
  \<^verbatim>\<open>ProducerConsumerQueue\<close> of \<^verbatim>\<open>src/raster/util/ProducerConsumerQueue.h\<close>. Every access to one of the two
  atomic indices, and every construction, move and destruction of a record, is a
  step of its thread; a schedule interleaves the steps of the two threads in any
  order. The acquire and release orders of the source make the records written
  before an index is stored visible to the thread that loads it, so that
  interleaving is the right view of the memory.
\<close>

section \<open>The queue\<close>

text \<open>\<open>records i\<close> is \<open>None\<close> where no object is alive in the raw memory.\<close>

record 'a pcq =
  qSize :: nat
  records :: "nat \<Rightarrow> 'a option"
  readIndex :: nat
  writeIndex :: nat

definition newPcq :: "nat \<Rightarrow> 'a pcq result" where
  "newPcq n = guard (n \<ge> 2) Assert_Failed
     (Inr \<lparr>qSize = n, records = (\<lambda>_. None), readIndex = 0, writeIndex = 0\<rparr>)"

text \<open>The indices are unsigned 32-bit numbers.\<close>

definition nextRecord :: "nat \<Rightarrow> nat \<Rightarrow> nat" where
  "nextRecord n i = (let nx = (i + 1) mod 2 ^ 32 in if nx = n then 0 else nx)"

definition pcqIsEmpty :: "('a, 'z) pcq_scheme \<Rightarrow> bool" where
  "pcqIsEmpty q \<longleftrightarrow> readIndex q = writeIndex q"

definition pcqIsFull :: "('a, 'z) pcq_scheme \<Rightarrow> bool" where
  "pcqIsFull q \<longleftrightarrow> nextRecord (qSize q) (writeIndex q) = readIndex q"

text \<open>The difference is computed unsigned, stored in an \<^verbatim>\<open>int\<close> and returned as \<^verbatim>\<open>size_t\<close>.\<close>

definition sizeGuess :: "('a, 'z) pcq_scheme \<Rightarrow> nat" where
  "sizeGuess q =
     (let ret = (word_of_nat (writeIndex q) - word_of_nat (readIndex q) :: 32 word);
          ret' = (if sint ret < 0 then ret + word_of_nat (qSize q) else ret)
      in unat (signed ret' :: 64 word))"

text \<open>The destructor; the loop passes each index at most once.\<close>

fun destroyLoop :: "nat \<Rightarrow> ('a, 'z) pcq_scheme \<Rightarrow> nat \<Rightarrow> nat \<Rightarrow> 'a list result" where
  "destroyLoop 0 q i e = (if i = e then Inr [] else Inl Diverges)"
| "destroyLoop (Suc n) q i e =
     (if i = e then Inr []
      else case records q i of
        None \<Rightarrow> Inl Undefined
      | Some v \<Rightarrow> res_bind (destroyLoop n q (if i + 1 = qSize q then 0 else i + 1) e) (\<lambda>vs. Inr (v # vs)))"

definition destroyPcq :: "('a, 'z) pcq_scheme \<Rightarrow> 'a list result" where
  "destroyPcq q = destroyLoop (qSize q) q (readIndex q) (writeIndex q)"

section \<open>The threads\<close>

text \<open>
  Where the producer is in \<^verbatim>\<open>write(x)\<close>: outside, after loading \<^verbatim>\<open>writeIndex_\<close>, after
  finding a free record, after constructing the value in it.
\<close>

datatype 'a producer = PIdle | PLoaded 'a nat | PFree 'a nat nat | PBuilt 'a nat

text \<open>
  Where the consumer is: in \<^verbatim>\<open>read\<close> (after each of the two loads, after the move), in \<^verbatim>\<open>frontPtr\<close>,
  holding the pointer it returned, in \<^verbatim>\<open>popFront\<close> (after each load), and before the
  final store of either, when the record has been destroyed.
\<close>

datatype 'a consumer = CIdle | CReading nat | CFound nat | CMoved nat 'a
  | CFronting nat | CFront nat | CPop nat | CPopping nat | CDestroyed nat 'a

text \<open>\<open>sent\<close>, \<open>refused\<close> and \<open>received\<close> log the writes that returned true and false and the values taken.\<close>

record 'a pcq_run = "'a pcq" +
  producer :: "'a producer"
  consumer :: "'a consumer"
  sent :: "'a list"
  refused :: "'a list"
  received :: "'a list"

definition startPcq :: "nat \<Rightarrow> 'a pcq_run result" where
  "startPcq n = res_bind (newPcq n) (\<lambda>q.
     Inr (pcq.extend q (pcq_run.fields PIdle CIdle [] [] [])))"

text \<open>A step of the producer; \<open>v\<close> is the value of the call it starts when it is outside \<^verbatim>\<open>write\<close>.\<close>

definition prodStep :: "'a \<Rightarrow> 'a pcq_run \<Rightarrow> 'a pcq_run result" where
  "prodStep v s =
     (case producer s of
        PIdle \<Rightarrow> Inr (s\<lparr>producer := PLoaded v (writeIndex s)\<rparr>)
      | PLoaded x currentWrite \<Rightarrow>
          (let nx = nextRecord (qSize s) currentWrite
           in if nx \<noteq> readIndex s then Inr (s\<lparr>producer := PFree x currentWrite nx\<rparr>)
              else Inr (s\<lparr>producer := PIdle, refused := refused s @ [x]\<rparr>))
      | PFree x currentWrite nx \<Rightarrow>
          guard (currentWrite < qSize s \<and> records s currentWrite = None) Undefined
            (Inr (s\<lparr>records := (records s)(currentWrite \<mapsto> x), producer := PBuilt x nx\<rparr>))
      | PBuilt x nx \<Rightarrow> Inr (s\<lparr>writeIndex := nx, producer := PIdle, sent := sent s @ [x]\<rparr>))"

text \<open>\<^verbatim>\<open>records_[i].~T()\<close>, which needs a live record; \<open>v\<close> is the value the consumer has taken from it.\<close>

definition destroyRecord :: "nat \<Rightarrow> 'a \<Rightarrow> 'a pcq_run \<Rightarrow> 'a pcq_run result" where
  "destroyRecord i v s =
     guard (records s i \<noteq> None) Undefined
       (Inr (s\<lparr>records := (records s)(i := None),
              consumer := CDestroyed (nextRecord (qSize s) i) v\<rparr>))"

text \<open>
  A step of the consumer. Outside a call, \<open>c\<close> chooses \<^verbatim>\<open>read\<close> or \<^verbatim>\<open>frontPtr\<close>; with a front
  pointer in hand it chooses whether to call \<^verbatim>\<open>popFront\<close>, which the source allows
  on a non-empty queue only.
\<close>

definition consStep :: "bool \<Rightarrow> 'a pcq_run \<Rightarrow> 'a pcq_run result" where
  "consStep c s =
     (case consumer s of
        CIdle \<Rightarrow> Inr (s\<lparr>consumer := (if c then CReading (readIndex s) else CFronting (readIndex s))\<rparr>)
      | CReading currentRead \<Rightarrow>
          Inr (s\<lparr>consumer := (if currentRead = writeIndex s then CIdle else CFound currentRead)\<rparr>)
      | CFound currentRead \<Rightarrow>
          (case records s currentRead of
             None \<Rightarrow> Inl Undefined
           | Some v \<Rightarrow> Inr (s\<lparr>consumer := CMoved currentRead v\<rparr>))
      | CMoved currentRead v \<Rightarrow> destroyRecord currentRead v s
      | CFronting currentRead \<Rightarrow>
          Inr (s\<lparr>consumer := (if currentRead = writeIndex s then CIdle else CFront currentRead)\<rparr>)
      | CFront p \<Rightarrow> Inr (s\<lparr>consumer := (if c then CPop (readIndex s) else CIdle)\<rparr>)
      | CPop currentRead \<Rightarrow>
          guard (currentRead \<noteq> writeIndex s) Assert_Failed (Inr (s\<lparr>consumer := CPopping currentRead\<rparr>))
      | CPopping currentRead \<Rightarrow>
          (case records s currentRead of
             None \<Rightarrow> Inl Undefined
           | Some v \<Rightarrow> destroyRecord currentRead v s)
      | CDestroyed nx v \<Rightarrow>
          Inr (s\<lparr>readIndex := nx, consumer := CIdle, received := received s @ [v]\<rparr>))"

datatype 'a action = Produce 'a | Consume bool

fun runPcq :: "'a action list \<Rightarrow> 'a pcq_run \<Rightarrow> 'a pcq_run result" where
  "runPcq [] s = Inr s"
| "runPcq (Produce v # acts) s = res_bind (prodStep v s) (runPcq acts)"
| "runPcq (Consume c # acts) s = res_bind (consStep c s) (runPcq acts)"

section \<open>The invariant\<close>

text \<open>
  The values are numbered in the order of the writes: the indices are the
  numbers of values taken and sent, modulo the size, and value \<open>k\<close> lives in record
  \<open>k mod n\<close>. A producer that has found room, and a consumer that has found a
  value, still have them: the other thread can only add to them.
\<close>

lemma mod_window_inj:
  fixes n :: nat
  assumes "k mod n = j mod n" "m \<le> k" "k < m + n" "m \<le> j" "j < m + n"
  shows "k = j"
proof -
  have aux: "a = b" if "a \<le> b" "a mod n = b mod n" "m \<le> a" "b < m + n" for a b :: nat
  proof -
    have "n dvd b - a" using that by (metis mod_eq_dvd_iff_nat)
    moreover have "b - a < n" using that by linarith
    ultimately have "b - a = 0" by (metis nat_dvd_not_less gr0I)
    then show ?thesis using that by simp
  qed
  show ?thesis using aux [of k j] aux [of j k] assms by (metis nat_le_linear)
qed

lemma mod_window_iff:
  fixes n :: nat
  assumes "m \<le> k" "k < m + n" "m \<le> j" "j < m + n"
  shows "k mod n = j mod n \<longleftrightarrow> k = j"
  using mod_window_inj [of k n j m] assms by blast

lemma nextRecord_mod:
  assumes "n < 2 ^ 32" "0 < n"
  shows "nextRecord n (k mod n) = Suc k mod n"
proof -
  have "k mod n + 1 < 2 ^ 32"
    using assms mod_less_divisor [of n k] by linarith
  then show ?thesis by (simp add: nextRecord_def mod_Suc)
qed

text \<open>\<open>slots n f m vs\<close>: the records \<open>f\<close> hold the values of \<open>vs\<close> from number \<open>m\<close> on and nothing else.\<close>

definition slots :: "nat \<Rightarrow> (nat \<Rightarrow> 'a option) \<Rightarrow> nat \<Rightarrow> 'a list \<Rightarrow> bool" where
  "slots n f m vs \<longleftrightarrow> length vs \<le> m + n \<and>
     (\<forall>k. m \<le> k \<and> k < m + n \<longrightarrow> f (k mod n) = (if k < length vs then Some (vs ! k) else None))"

lemma slots_at:
  assumes "slots n f m vs" "m \<le> k" "k < m + n"
  shows "f (k mod n) = (if k < length vs then Some (vs ! k) else None)"
  using assms by (simp add: slots_def)

lemma slots_push:
  assumes s: "slots n f m vs" and room: "m \<le> length vs" "length vs < m + n"
  shows "slots n (f(length vs mod n \<mapsto> x)) m (vs @ [x])"
  unfolding slots_def
proof (intro conjI allI impI)
  show "length (vs @ [x]) \<le> m + n" using room by simp
  fix k assume k: "m \<le> k \<and> k < m + n"
  show "(f(length vs mod n \<mapsto> x)) (k mod n) =
      (if k < length (vs @ [x]) then Some ((vs @ [x]) ! k) else None)"
    using slots_at [OF s, of k] k room mod_window_iff [of m k n "length vs"]
    by (auto simp: nth_append)
qed

lemma slots_pop:
  assumes s: "slots n f m vs" and n: "0 < n"
  shows "slots n (f(m mod n := None)) (Suc m) vs"
  unfolding slots_def
proof (intro conjI allI impI)
  show "length vs \<le> Suc m + n" using s by (simp add: slots_def)
  fix k assume k: "Suc m \<le> k \<and> k < Suc m + n"
  show "(f(m mod n := None)) (k mod n) = (if k < length vs then Some (vs ! k) else None)"
  proof (cases "k = m + n")
    case True
    then show ?thesis using s by (simp add: slots_def)
  next
    case False
    then have "k mod n \<noteq> m mod n" using mod_window_iff [of m k n m] k n by auto
    then show ?thesis using slots_at [OF s, of k] k False by auto
  qed
qed

fun gone :: "'a consumer \<Rightarrow> nat" where
  "gone (CDestroyed nx v) = 1"
| "gone c = 0"

fun made :: "'a producer \<Rightarrow> 'a list" where
  "made (PBuilt x nx) = [x]"
| "made p = []"

definition firstLive :: "'a pcq_run \<Rightarrow> nat" where
  "firstLive s = length (received s) + gone (consumer s)"

definition built :: "'a pcq_run \<Rightarrow> 'a list" where
  "built s = sent s @ made (producer s)"

fun producer_ok :: "nat \<Rightarrow> nat \<Rightarrow> nat \<Rightarrow> 'a producer \<Rightarrow> bool" where
  "producer_ok n R W PIdle = True"
| "producer_ok n R W (PLoaded x cw) = (cw = W mod n)"
| "producer_ok n R W (PFree x cw nx) = (cw = W mod n \<and> nx = Suc W mod n \<and> Suc W < R + n)"
| "producer_ok n R W (PBuilt x nx) = (nx = Suc W mod n \<and> Suc W < R + n)"

fun consumer_ok :: "nat \<Rightarrow> nat \<Rightarrow> 'a list \<Rightarrow> 'a consumer \<Rightarrow> bool" where
  "consumer_ok n R xs CIdle = True"
| "consumer_ok n R xs (CReading cr) = (cr = R mod n)"
| "consumer_ok n R xs (CFronting cr) = (cr = R mod n)"
| "consumer_ok n R xs (CFound cr) = (cr = R mod n \<and> R < length xs)"
| "consumer_ok n R xs (CFront cr) = (cr = R mod n \<and> R < length xs)"
| "consumer_ok n R xs (CPop cr) = (cr = R mod n \<and> R < length xs)"
| "consumer_ok n R xs (CPopping cr) = (cr = R mod n \<and> R < length xs)"
| "consumer_ok n R xs (CMoved cr v) = (cr = R mod n \<and> R < length xs \<and> v = xs ! R)"
| "consumer_ok n R xs (CDestroyed nx v) = (nx = Suc R mod n \<and> R < length xs \<and> v = xs ! R)"

definition pcq_inv :: "nat \<Rightarrow> 'a pcq_run \<Rightarrow> bool" where
  "pcq_inv n s \<longleftrightarrow>
     qSize s = n \<and> readIndex s = length (received s) mod n \<and> writeIndex s = length (sent s) mod n \<and>
     length (received s) \<le> length (sent s) \<and> length (sent s) < length (received s) + n \<and>
     prefix (received s) (sent s) \<and>
     slots n (records s) (firstLive s) (built s) \<and>
     producer_ok n (length (received s)) (length (sent s)) (producer s) \<and>
     consumer_ok n (length (received s)) (sent s) (consumer s)"

lemma pcq_inv_start:
  assumes "2 \<le> n"
  obtains s where "startPcq n = Inr s" "pcq_inv n s"
  using that assms
  by (simp add: startPcq_def newPcq_def guard_def pcq.defs pcq_run.defs pcq_inv_def slots_def
      firstLive_def built_def)

lemma consumer_ok_append: "consumer_ok n R xs c \<Longrightarrow> consumer_ok n R (xs @ [x]) c"
  by (cases c) (auto simp: nth_append)

lemma producer_ok_grow: "producer_ok n R W p \<Longrightarrow> producer_ok n (Suc R) W p"
  by (cases p) auto

lemma firstLive_bounds: "length (received s) \<le> firstLive s" "firstLive s \<le> Suc (length (received s))"
  by (cases "consumer s"; simp add: firstLive_def)+

lemma pcq_inv_firstLive:
  assumes "pcq_inv n s"
  shows "firstLive s \<le> length (sent s)"
  using assms by (cases "consumer s") (auto simp: pcq_inv_def firstLive_def)

lemma prodStep_inv:
  assumes inv: "pcq_inv n s" and n: "2 \<le> n" "n < 2 ^ 32"
  shows "\<exists>s'. prodStep v s = Inr s' \<and> pcq_inv n s'"
proof (cases "producer s")
  case PIdle
  then show ?thesis using inv by (auto simp: prodStep_def pcq_inv_def firstLive_def built_def)
next
  case (PLoaded x cw)
  have nx: "nextRecord n cw = Suc (length (sent s)) mod n"
    using inv PLoaded n nextRecord_mod [of n "length (sent s)"] by (simp add: pcq_inv_def)
  have "Suc (length (sent s)) < length (received s) + n"
    if "Suc (length (sent s)) mod n \<noteq> length (received s) mod n"
  proof (rule ccontr)
    assume "\<not> ?thesis"
    then have "Suc (length (sent s)) = length (received s) + n"
      using inv by (simp add: pcq_inv_def)
    then show False using that by simp
  qed
  then show ?thesis using inv PLoaded nx
    by (auto simp: prodStep_def pcq_inv_def firstLive_def built_def Let_def)
next
  case (PFree x cw nx)
  have cw: "cw = length (sent s) mod n" and room: "Suc (length (sent s)) < length (received s) + n"
    using inv PFree by (simp_all add: pcq_inv_def)
  have b: "built s = sent s" using PFree by (simp add: built_def)
  have sl: "slots n (records s) (firstLive s) (sent s)" using inv b by (simp add: pcq_inv_def)
  have w: "firstLive s \<le> length (sent s)" "length (sent s) < firstLive s + n"
    using pcq_inv_firstLive [OF inv] firstLive_bounds [of s] room by simp_all
  have "records s cw = None" using slots_at [OF sl w] cw by simp
  moreover have "cw < n" using cw n by simp
  ultimately show ?thesis using inv PFree slots_push [OF sl w, of x] cw
    by (auto simp: prodStep_def pcq_inv_def firstLive_def built_def)
next
  case (PBuilt x nx)
  then show ?thesis using inv
    by (auto simp: prodStep_def pcq_inv_def firstLive_def built_def consumer_ok_append)
qed

lemma consumer_reads:
  assumes inv: "pcq_inv n s" and n: "2 \<le> n"
    and c: "gone (consumer s) = 0" "length (received s) < length (sent s)"
  shows "records s (length (received s) mod n) = Some (sent s ! length (received s))"
proof -
  have "slots n (records s) (length (received s)) (built s)"
    using inv c by (simp add: pcq_inv_def firstLive_def)
  then show ?thesis
    using slots_at [of n "records s" "length (received s)" "built s" "length (received s)"] n c
    by (simp add: built_def nth_append)
qed

lemma destroyRecord_inv:
  assumes inv: "pcq_inv n s" and n: "2 \<le> n" "n < 2 ^ 32"
    and c: "gone (consumer s) = 0" "length (received s) < length (sent s)"
  shows "\<exists>s'. destroyRecord (length (received s) mod n) (sent s ! length (received s)) s = Inr s' \<and>
     pcq_inv n s'"
proof -
  have "slots n (records s) (length (received s)) (built s)"
    using inv c by (simp add: pcq_inv_def firstLive_def)
  then have "slots n ((records s)(length (received s) mod n := None)) (Suc (length (received s))) (built s)"
    using slots_pop n by fastforce
  moreover have "qSize s = n" using inv by (simp add: pcq_inv_def)
  ultimately show ?thesis
    using consumer_reads [OF inv n(1) c] inv c n
    by (auto simp: destroyRecord_def pcq_inv_def firstLive_def built_def nextRecord_mod)
qed

lemma consStep_inv:
  assumes inv: "pcq_inv n s" and n: "2 \<le> n" "n < 2 ^ 32"
  shows "\<exists>s'. consStep c s = Inr s' \<and> pcq_inv n s'"
proof -
  let ?R = "length (received s)" and ?W = "length (sent s)"
  have "?R \<le> ?W" using inv by (simp add: pcq_inv_def)
  then have ne: "?R < ?W" if "?R mod n \<noteq> ?W mod n" using that by (metis le_neq_implies_less)
  have en: "?R mod n \<noteq> ?W mod n" if "?R < ?W"
    using inv that mod_window_iff [of ?R ?R n ?W] by (auto simp: pcq_inv_def)
  note defs = consStep_def pcq_inv_def firstLive_def built_def
  show ?thesis
  proof (cases "consumer s")
    case (CFound cr)
    then show ?thesis using inv consumer_reads [OF inv n(1)] by (auto simp: defs)
  next
    case (CMoved cr v)
    then show ?thesis using inv destroyRecord_inv [OF inv n] by (auto simp: consStep_def pcq_inv_def)
  next
    case (CPopping cr)
    then show ?thesis using inv destroyRecord_inv [OF inv n] consumer_reads [OF inv n(1)]
      by (auto simp: consStep_def pcq_inv_def)
  next
    case (CDestroyed nx v)
    then have "prefix (received s @ [v]) (sent s)"
      using inv append_one_prefix [of "received s" "sent s"] by (simp add: pcq_inv_def)
    then show ?thesis using inv producer_ok_grow [of n ?R ?W "producer s"] CDestroyed
      by (simp add: defs)
  qed (use inv ne en in \<open>auto simp: defs\<close>)
qed

lemma runPcq_inv:
  assumes "pcq_inv n s" "2 \<le> n" "n < 2 ^ 32"
  shows "\<exists>s'. runPcq acts s = Inr s' \<and> pcq_inv n s'"
  using assms(1)
proof (induction acts arbitrary: s)
  case (Cons a acts)
  then show ?case
    using prodStep_inv [OF _ assms(2,3)] consStep_inv [OF _ assms(2,3)]
    by (cases a) (fastforce simp: res_bind_eq_Inr)+
qed simp

section \<open>First in, first out\<close>

lemma pcq_full_iff:
  assumes inv: "pcq_inv n s" and n: "2 \<le> n" "n < 2 ^ 32"
  shows "pcqIsFull s \<longleftrightarrow> length (sent s) = length (received s) + (n - 1)"
proof -
  let ?R = "length (received s)" and ?W = "length (sent s)"
  have b: "?R \<le> ?W" "?W < ?R + n" using inv by (simp_all add: pcq_inv_def)
  have "pcqIsFull s \<longleftrightarrow> Suc ?W mod n = (?R + n) mod n"
    using inv n nextRecord_mod [of n ?W] by (simp add: pcqIsFull_def pcq_inv_def)
  also have "\<dots> \<longleftrightarrow> Suc ?W = ?R + n"
    using mod_window_iff [of "Suc ?R" "Suc ?W" n "?R + n"] b n by simp
  finally show ?thesis using n by auto
qed

lemma pcq_empty_iff:
  assumes inv: "pcq_inv n s"
  shows "pcqIsEmpty s \<longleftrightarrow> received s = sent s"
proof -
  let ?R = "length (received s)" and ?W = "length (sent s)"
  have b: "?R \<le> ?W" "?W < ?R + n" and p: "prefix (received s) (sent s)"
    using inv by (simp_all add: pcq_inv_def)
  have "pcqIsEmpty s \<longleftrightarrow> ?R = ?W"
    using inv mod_window_iff [of ?R ?R n ?W] b by (simp add: pcqIsEmpty_def pcq_inv_def)
  also have "\<dots> \<longleftrightarrow> received s = sent s" using p by (metis prefix_length_prefix prefix_order.antisym
     prefix_order.order_refl order_refl)
  finally show ?thesis .
qed

lemma destroyLoop_slots:
  assumes "slots (qSize q) (records q) m xs" "length xs = k + d" "m \<le> k" "0 < qSize q"
    "length xs < m + qSize q" "d \<le> fuel"
  shows "destroyLoop fuel q (k mod qSize q) (length xs mod qSize q) = Inr (drop k xs)"
  using assms(2-)
proof (induction d arbitrary: k fuel)
  case 0
  then show ?case by (cases fuel) auto
next
  case (Suc d)
  obtain f where f: "fuel = Suc f" using Suc.prems by (cases fuel) auto
  have "records q (k mod qSize q) = Some (xs ! k)"
    using slots_at [OF assms(1), of k] Suc.prems by simp
  moreover have "k mod qSize q \<noteq> length xs mod qSize q"
    using mod_window_iff [of m k "qSize q" "length xs"] Suc.prems by simp
  moreover have "(if k mod qSize q + 1 = qSize q then 0 else k mod qSize q + 1) = Suc k mod qSize q"
    by (simp add: mod_Suc)
  moreover have "drop k xs = xs ! k # drop (Suc k) xs"
    using Suc.prems by (simp add: Cons_nth_drop_Suc)
  ultimately show ?case using Suc.IH [of "Suc k" f] Suc.prems f by simp
qed

lemma destroyPcq_rest:
  assumes inv: "pcq_inv n s" and n: "2 \<le> n" and idle: "producer s = PIdle" "consumer s = CIdle"
  shows "destroyPcq s = Inr (drop (length (received s)) (sent s))"
proof -
  let ?R = "length (received s)" and ?W = "length (sent s)"
  have "slots n (records s) ?R (sent s)" "?R \<le> ?W" "?W < ?R + n" "qSize s = n"
    using inv idle by (simp_all add: pcq_inv_def firstLive_def built_def)
  then show ?thesis
    using destroyLoop_slots [of s ?R "sent s" ?R "?W - ?R" n] inv n
    by (simp add: destroyPcq_def pcq_inv_def)
qed

lemma word_small:
  assumes "d < 2 ^ 31"
  shows "sint (word_of_nat d :: 32 word) = int d" "unat (signed (word_of_nat d :: 32 word) :: 64 word) = d"
proof -
  show s: "sint (word_of_nat d :: 32 word) = int d"
    using assms signed_take_bit_int_eq_self [of 31 "int d"] by (simp add: signed_of_nat)
  have "(signed (word_of_nat d :: 32 word) :: 64 word) = word_of_nat d"
    using assms signed_take_bit_int_eq_self [of 31 "int d"] by (simp add: signed_of_nat)
  then show "unat (signed (word_of_nat d :: 32 word) :: 64 word) = d"
    using assms by (simp add: unat_of_nat)
qed

lemma word_negative:
  assumes "0 < d" "d < 2 ^ 31"
  shows "sint (- word_of_nat d :: 32 word) < 0"
proof -
  have "sint (- word_of_nat d :: 32 word) = - int d"
    using assms word_small(1) [of d] signed_take_bit_int_eq_self [of 31 "- int d"]
    by (simp add: sint_word_minus)
  then show ?thesis using assms by simp
qed

lemma sizeGuess_exact:
  assumes inv: "pcq_inv n s" and n: "2 \<le> n" "n \<le> 2 ^ 31"
  shows "sizeGuess s = length (sent s) - length (received s)"
proof -
  let ?R = "length (received s)" and ?W = "length (sent s)"
  define d where "d = ?W - ?R"
  define r where "r = ?R mod n"
  have d: "d < n" "?W = ?R + d" using inv by (auto simp: pcq_inv_def d_def)
  have w: "?W mod n = (if r + d < n then r + d else r + d - n)"
  proof -
    have "?W mod n = (r + d) mod n" unfolding r_def mod_add_left_eq by (rule arg_cong [OF d(2)])
    moreover have "r < n" using n by (simp add: r_def)
    ultimately show ?thesis using d(1) by (auto simp: le_mod_geq)
  qed
  have q: "readIndex s = r" "writeIndex s = ?W mod n" "qSize s = n"
    using inv by (simp_all add: pcq_inv_def r_def)
  have "sizeGuess s = d"
  proof (cases "r + d < n")
    case True
    then have "(word_of_nat (writeIndex s) - word_of_nat (readIndex s) :: 32 word) = word_of_nat d"
      using q w by simp
    then show ?thesis using word_small [of d] d(1) n q by (simp add: sizeGuess_def Let_def)
  next
    case False
    then have "(word_of_nat (writeIndex s) - word_of_nat (readIndex s) :: 32 word) = - word_of_nat (n - d)"
      using q w d(1) by (simp add: of_nat_diff)
    moreover have "- word_of_nat (n - d) + word_of_nat n = (word_of_nat d :: 32 word)"
      using d(1) by (simp add: of_nat_diff)
    moreover have "r < n" using n by (simp add: r_def)
    then have "0 < n - d" "n - d < 2 ^ 31" using False d(1) n by simp_all
    then have "sint (- word_of_nat (n - d) :: 32 word) < 0" by (rule word_negative)
    ultimately show ?thesis
      using word_small [of d] d(1) n q
      by (simp add: sizeGuess_def Let_def)
  qed
  then show ?thesis by (simp add: d_def)
qed

text \<open>
  A size above \<open>2\<^sup>3\<^sup>1\<close> does not fit the \<^verbatim>\<open>int\<close> in which \<^verbatim>\<open>sizeGuess\<close> computes: a queue
  that holds three thousand million values reports a number that is off.
\<close>

lemma sizeGuess_large:
  "sizeGuess \<lparr>qSize = 4294967295, records = (\<lambda>_. None), readIndex = 0, writeIndex = 3000000000\<rparr> \<noteq> 3000000000"
  by (simp add: sizeGuess_def Let_def)

text \<open>
  C8: First in, first out under every interleaving. However the steps of the two
  threads alternate, no step fails: no value is constructed over a live one,
  none is moved from or destroyed where none lives, and the assertion of
  \<^verbatim>\<open>popFront\<close> holds. The values taken are the first of the values sent, in order,
  and at most \<open>n - 1\<close> are under way. A write is refused exactly when \<open>n - 1\<close> are, a
  read exactly when none is, as seen at the load that decides; a front pointer
  shows the next value as long as it is held. With both threads outside a call
  the destructor destroys exactly the values still under way, and \<^verbatim>\<open>sizeGuess\<close>
  counts them (for sizes up to \<open>2\<^sup>3\<^sup>1\<close>).
\<close>

theorem pcq_fifo:
  assumes "2 \<le> n" "n < 2 ^ 32"
  shows "\<exists>s0 s. startPcq n = Inr s0 \<and> runPcq acts s0 = Inr s \<and>
    prefix (received s) (sent s) \<and> length (sent s) \<le> length (received s) + (n - 1) \<and>
    (pcqIsFull s \<longleftrightarrow> length (sent s) = length (received s) + (n - 1)) \<and>
    (pcqIsEmpty s \<longleftrightarrow> received s = sent s) \<and>
    (\<forall>x cw v. producer s = PLoaded x cw \<longrightarrow>
       (if pcqIsFull s then prodStep v s = Inr (s\<lparr>producer := PIdle, refused := refused s @ [x]\<rparr>)
        else \<exists>nx. prodStep v s = Inr (s\<lparr>producer := PFree x cw nx\<rparr>))) \<and>
    (\<forall>cr c. consumer s = CReading cr \<longrightarrow>
       consStep c s = Inr (s\<lparr>consumer := if pcqIsEmpty s then CIdle else CFound cr\<rparr>)) \<and>
    (\<forall>p. consumer s = CFront p \<longrightarrow> records s p = Some (sent s ! length (received s))) \<and>
    (producer s = PIdle \<and> consumer s = CIdle \<longrightarrow>
       destroyPcq s = Inr (drop (length (received s)) (sent s)) \<and>
       (n \<le> 2 ^ 31 \<longrightarrow> sizeGuess s = length (sent s) - length (received s)))"
proof -
  obtain s0 :: "'a pcq_run" where s0: "startPcq n = Inr s0" "pcq_inv n s0"
    using pcq_inv_start assms by blast
  obtain s where s: "runPcq acts s0 = Inr s" and inv: "pcq_inv n s"
    using runPcq_inv [OF s0(2) assms] by blast
  have "\<forall>p. consumer s = CFront p \<longrightarrow> records s p = Some (sent s ! length (received s))"
    using consumer_reads [OF inv assms(1)] inv by (auto simp: pcq_inv_def)
  moreover have "\<forall>x cw v. producer s = PLoaded x cw \<longrightarrow>
       (if pcqIsFull s then prodStep v s = Inr (s\<lparr>producer := PIdle, refused := refused s @ [x]\<rparr>)
        else \<exists>nx. prodStep v s = Inr (s\<lparr>producer := PFree x cw nx\<rparr>))"
    using inv by (auto simp: pcq_inv_def prodStep_def pcqIsFull_def Let_def)
  moreover have "\<forall>cr c. consumer s = CReading cr \<longrightarrow>
       consStep c s = Inr (s\<lparr>consumer := if pcqIsEmpty s then CIdle else CFound cr\<rparr>)"
    using inv by (auto simp: pcq_inv_def consStep_def pcqIsEmpty_def)
  moreover have "prefix (received s) (sent s)" "length (sent s) \<le> length (received s) + (n - 1)"
    using inv by (auto simp: pcq_inv_def)
  ultimately show ?thesis
    using s0(1) s pcq_full_iff [OF inv assms] pcq_empty_iff [OF inv] destroyPcq_rest [OF inv assms(1)]
      sizeGuess_exact [OF inv assms(1)] by blast
qed

theorem pcq_fifo_witness:
  "\<exists>s0 s. startPcq 2 = Inr s0 \<and>
     runPcq (map Produce [7, 8, 9, 10 :: nat, 11, 12] @ [Consume True, Consume True, Consume True]) s0 = Inr s \<and>
     sent s = [7] \<and> refused s = [11] \<and> consumer s = CMoved 0 7 \<and> prefix (received s) (sent s)"
  using pcq_fifo [of 2 "map Produce [7, 8, 9, 10 :: nat, 11, 12] @ [Consume True, Consume True, Consume True]"]
  by (auto simp: startPcq_def newPcq_def prodStep_def consStep_def nextRecord_def pcq.defs pcq_run.defs)

end
