(* ===== verification/Spin_Locks.thy ===== *)
theory Spin_Locks
  imports Prelude
begin

unbundle bit_operations_syntax

text \<open>
  The spinning locks: \<^verbatim>\<open>MicroSpinLock\<close> of \<^verbatim>\<open>src/raster/util/SpinLock.h\<close> and the readers-writer lock
  \<^verbatim>\<open>RWSpinLock\<close> of \<^verbatim>\<open>src/raster/util/RWSpinLock.h\<close>. Any number of threads take and release
  a lock; every access to the atomic word is one step, and a schedule names the
  thread of every step. The check in \<^verbatim>\<open>unlock()\<close> reads a byte that only its own thread
  can change by then, so check and store are one step. The pauses of the spinning loops (\<^verbatim>\<open>Sleeper\<close>, \<^verbatim>\<open>sched_yield\<close>)
  only delay the next attempt.
\<close>

section \<open>Locks that are taken by trying\<close>

text \<open>A thread in the loop of \<^verbatim>\<open>lock()\<close>, about to try, or holding the lock.\<close>

datatype spinner = Spin | Attempt | Hold

text \<open>
  Thread \<open>t\<close> makes a step on the lock word \<open>w\<close>: it looks whether a try is worth it,
  tries, or releases the lock it holds.
\<close>

definition lockStep ::
  "('w \<Rightarrow> bool) \<Rightarrow> ('w \<Rightarrow> bool \<times> 'w) \<Rightarrow> ('w \<Rightarrow> 'w result) \<Rightarrow> nat \<Rightarrow> 'w \<times> spinner list \<Rightarrow> ('w \<times> spinner list) result" where
  "lockStep look tryL rel t s =
     (case s of (w, ts) \<Rightarrow>
       (case ts ! t of
          Spin \<Rightarrow> Inr (w, if look w then ts[t := Attempt] else ts)
        | Attempt \<Rightarrow> (case tryL w of (got, w') \<Rightarrow> Inr (w', ts[t := if got then Hold else Spin]))
        | Hold \<Rightarrow> res_bind (rel w) (\<lambda>w'. Inr (w', ts[t := Spin]))))"

fun lockRun ::
  "('w \<Rightarrow> bool) \<Rightarrow> ('w \<Rightarrow> bool \<times> 'w) \<Rightarrow> ('w \<Rightarrow> 'w result) \<Rightarrow> nat list \<Rightarrow> 'w \<times> spinner list \<Rightarrow> ('w \<times> spinner list) result" where
  "lockRun look tryL rel [] s = Inr s"
| "lockRun look tryL rel (t # sched) s = res_bind (lockStep look tryL rel t s) (lockRun look tryL rel sched)"

text \<open>What a lock promises: a try succeeds exactly on a free lock and leaves a taken one as it is.\<close>

locale exclusive_lock =
  fixes look :: "'w \<Rightarrow> bool" and tryL :: "'w \<Rightarrow> bool \<times> 'w" and rel :: "'w \<Rightarrow> 'w result"
    and free :: "'w \<Rightarrow> bool" and taken :: "'w \<Rightarrow> bool"
  assumes free_not_taken: "free w \<Longrightarrow> \<not> taken w"
    and look_free: "free w \<Longrightarrow> look w"
    and try_free: "free w \<Longrightarrow> \<exists>w'. tryL w = (True, w') \<and> taken w'"
    and try_taken: "taken w \<Longrightarrow> tryL w = (False, w)"
    and rel_taken: "taken w \<Longrightarrow> \<exists>w'. rel w = Inr w' \<and> free w'"
begin

definition lock_inv :: "'w \<times> spinner list \<Rightarrow> bool" where
  "lock_inv s \<longleftrightarrow> (case s of (w, ts) \<Rightarrow>
     (free w \<and> count_list ts Hold = 0) \<or> (taken w \<and> count_list ts Hold = 1))"

lemma step_inv:
  assumes inv: "lock_inv s" and t: "t < length (snd s)"
  shows "\<exists>s'. lockStep look tryL rel t s = Inr s' \<and> lock_inv s' \<and> length (snd s') = length (snd s)"
proof -
  obtain w ts where s: "s = (w, ts)" by fastforce
  have u: "count_list (ts[t := p]) Hold + (if ts ! t = Hold then 1 else 0) =
      count_list ts Hold + (if p = Hold then 1 else 0)" for p
    using count_list_update [of t ts p Hold] t s by simp
  show ?thesis
  proof (cases "ts ! t")
    case Spin
    then show ?thesis using inv u [of Attempt] s by (auto simp: lockStep_def lock_inv_def)
  next
    case Attempt
    then show ?thesis using inv u [of Hold] u [of Spin] s try_free [of w] try_taken [of w]
      by (auto simp: lockStep_def lock_inv_def)
  next
    case Hold
    then have "0 < count_list ts Hold"
      using t s by (metis count_list_pos_iff nth_mem snd_conv)
    then have "taken w" "count_list ts Hold = 1" using inv s by (auto simp: lock_inv_def)
    then show ?thesis using Hold u [of Spin] s rel_taken [of w]
      by (auto simp: lockStep_def lock_inv_def)
  qed
qed

lemma run_inv:
  assumes "lock_inv s" "\<forall>t \<in> set sched. t < length (snd s)"
  shows "\<exists>s'. lockRun look tryL rel sched s = Inr s' \<and> lock_inv s' \<and> length (snd s') = length (snd s)"
  using assms
proof (induction sched arbitrary: s)
  case (Cons t sched)
  then obtain s1 where "lockStep look tryL rel t s = Inr s1" "lock_inv s1" "length (snd s1) = length (snd s)"
    using step_inv [of s t] by auto
  with Cons.IH [of s1] Cons.prems show ?case by auto
qed simp

text \<open>Mutual exclusion, and a free lock goes to whoever comes next.\<close>

lemma excludes:
  assumes "free w" "\<forall>t \<in> set sched. t < n"
  shows "\<exists>w' ts. lockRun look tryL rel sched (w, replicate n Spin) = Inr (w', ts) \<and> length ts = n \<and>
     count_list ts Hold \<le> 1 \<and> (taken w' \<longleftrightarrow> Hold \<in> set ts) \<and>
     (Hold \<notin> set ts \<longrightarrow> (\<forall>t < n. \<exists>w''. \<exists>sched' \<in> {[t], [t, t]}.
        lockRun look tryL rel sched' (w', ts) = Inr (w'', ts[t := Hold])))"
proof -
  have "lock_inv (w, replicate n Spin)" using assms(1) by (simp add: lock_inv_def count_list_0_iff)
  then obtain w' ts where r: "lockRun look tryL rel sched (w, replicate n Spin) = Inr (w', ts)"
    and inv: "lock_inv (w', ts)" and len: "length ts = n"
    using run_inv [of "(w, replicate n Spin)" sched] assms(2) by auto
  have h: "count_list ts Hold \<le> 1" "taken w' \<longleftrightarrow> Hold \<in> set ts" "Hold \<notin> set ts \<Longrightarrow> free w'"
    using inv free_not_taken [of w'] count_list_0_iff [of ts Hold] by (auto simp: lock_inv_def)
  have "\<exists>w''. \<exists>sched' \<in> {[t], [t, t]}. lockRun look tryL rel sched' (w', ts) = Inr (w'', ts[t := Hold])"
    if nh: "Hold \<notin> set ts" "t < n" for t
  proof -
    obtain w'' where w'': "tryL w' = (True, w'')" using try_free [of w'] h(3) nh by auto
    have "ts ! t \<noteq> Hold" using nh len by (metis nth_mem)
    then show ?thesis using look_free [of w'] h(3) nh len w''
      by (cases "ts ! t") (auto simp: lockStep_def)
  qed
  with r len h show ?thesis by blast
qed

end

section \<open>The small spin lock\<close>

text \<open>The lock is one byte.\<close>

definition FREE :: "8 word" where "FREE = 0"
definition LOCKED :: "8 word" where "LOCKED = 1"

definition msCas :: "8 word \<Rightarrow> 8 word \<Rightarrow> 8 word \<Rightarrow> bool \<times> 8 word" where
  "msCas compare newVal w = (if w = compare then (True, newVal) else (False, w))"

definition msTryLock :: "8 word \<Rightarrow> bool \<times> 8 word" where
  "msTryLock w = msCas FREE LOCKED w"

text \<open>The inner loop of \<^verbatim>\<open>lock()\<close> waits until the byte reads free.\<close>

definition msLook :: "8 word \<Rightarrow> bool" where
  "msLook w \<longleftrightarrow> \<not> w \<noteq> FREE"

definition msUnlock :: "8 word \<Rightarrow> 8 word result" where
  "msUnlock w = guard (w = LOCKED) Check_Failed (Inr FREE)"

interpretation ms: exclusive_lock msLook msTryLock msUnlock "\<lambda>w. w = FREE" "\<lambda>w. w = LOCKED"
  by unfold_locales (auto simp: msLook_def msTryLock_def msCas_def msUnlock_def FREE_def LOCKED_def)

text \<open>
  The spin lock excludes: whatever the schedule of any number of threads,
  each of which takes the lock by \<^verbatim>\<open>lock()\<close> and releases it by \<^verbatim>\<open>unlock()\<close>, the check in
  \<^verbatim>\<open>unlock()\<close> never fails, at most one thread holds the lock, the byte says whether
  one does, and while none does any thread gets the lock within two steps of
  its own.
\<close>

theorem spinlock_excludes:
  assumes "\<forall>t \<in> set sched. t < n"
  shows "\<exists>w ts. lockRun msLook msTryLock msUnlock sched (FREE, replicate n Spin) = Inr (w, ts) \<and>
     length ts = n \<and> count_list ts Hold \<le> 1 \<and> (w = LOCKED \<longleftrightarrow> Hold \<in> set ts) \<and>
     (Hold \<notin> set ts \<longrightarrow> (\<forall>t < n. \<exists>w'. \<exists>sched' \<in> {[t], [t, t]}.
        lockRun msLook msTryLock msUnlock sched' (w, ts) = Inr (w', ts[t := Hold])))"
  using ms.excludes [of FREE sched n] assms by simp

theorem spinlock_excludes_witness:
  "\<exists>w ts. lockRun msLook msTryLock msUnlock [0, 1, 0, 1, 1] (FREE, replicate 2 Spin) = Inr (w, ts) \<and>
     ts = [Hold, Spin] \<and> w = LOCKED \<and> count_list ts Hold \<le> 1"
  using spinlock_excludes [of "[0, 1, 0, 1, 1]" 2]
  by (auto simp: lockStep_def msLook_def msTryLock_def msCas_def FREE_def LOCKED_def numeral_2_eq_2)

section \<open>The readers-writer spin lock\<close>

definition READER :: "32 word" where "READER = 2"
definition WRITER :: "32 word" where "WRITER = 1"

definition rwTryLock :: "32 word \<Rightarrow> bool \<times> 32 word" where
  "rwTryLock b = (if b = 0 then (True, WRITER) else (False, b))"

definition rwUnlock :: "32 word \<Rightarrow> 32 word" where
  "rwUnlock b = b + (- WRITER)"

definition rwUnlockShared :: "32 word \<Rightarrow> 32 word" where
  "rwUnlockShared b = b + (- READER)"

text \<open>
  \<^verbatim>\<open>try_lock_shared\<close> adds its reader first and takes it back in a second step when it
  has seen a writer: such a thread is \<open>Backing\<close>.
\<close>

datatype rw_thread = Outside | Backing | Reading | Writing

definition tryLockShared :: "32 word \<Rightarrow> rw_thread \<times> 32 word" where
  "tryLockShared b = (if b AND WRITER \<noteq> 0 then Backing else Reading, b + READER)"

text \<open>\<open>c\<close> says whether a thread outside goes for the write lock.\<close>

definition rwStep :: "nat \<times> bool \<Rightarrow> 32 word \<times> rw_thread list \<Rightarrow> 32 word \<times> rw_thread list" where
  "rwStep a s = (case (a, s) of ((t, c), (b, ts)) \<Rightarrow>
     (case ts ! t of
        Outside \<Rightarrow>
          if c then (case rwTryLock b of (got, b') \<Rightarrow> (b', ts[t := if got then Writing else Outside]))
          else (case tryLockShared b of (p, b') \<Rightarrow> (b', ts[t := p]))
      | Backing \<Rightarrow> (b + (- READER), ts[t := Outside])
      | Reading \<Rightarrow> (rwUnlockShared b, ts[t := Outside])
      | Writing \<Rightarrow> (rwUnlock b, ts[t := Outside])))"

definition rwRun :: "(nat \<times> bool) list \<Rightarrow> 32 word \<times> rw_thread list \<Rightarrow> 32 word \<times> rw_thread list" where
  "rwRun sched s = fold rwStep sched s"

text \<open>The word counts two for every reader, also one that is backing out, and one for the writer.\<close>

definition rwWeight :: "rw_thread list \<Rightarrow> nat" where
  "rwWeight ts = 2 * (count_list ts Reading + count_list ts Backing) + count_list ts Writing"

definition rw_inv :: "nat \<Rightarrow> 32 word \<times> rw_thread list \<Rightarrow> bool" where
  "rw_inv n s \<longleftrightarrow> (case s of (b, ts) \<Rightarrow> length ts = n \<and> b = of_nat (rwWeight ts) \<and>
     count_list ts Writing \<le> 1 \<and> (count_list ts Writing = 1 \<longrightarrow> count_list ts Reading = 0))"

lemma rw_counts: "count_list ts Reading + count_list ts Backing + count_list ts Writing + count_list ts Outside = length ts"
proof (induction ts)
  case (Cons p ts)
  then show ?case by (cases p) auto
qed simp

lemma rwWeight_small: "rwWeight ts \<le> 2 * length ts"
  using rw_counts [of ts] by (simp add: rwWeight_def)

lemma rw_zero_iff:
  assumes "rw_inv n (b, ts)" "n < 2 ^ 30"
  shows "b = 0 \<longleftrightarrow> rwWeight ts = 0"
proof -
  have "rwWeight ts < 2 ^ 32" using rwWeight_small [of ts] assms by (simp add: rw_inv_def)
  then show ?thesis using assms by (auto simp: rw_inv_def word_of_nat_eq_0_iff dest: nat_dvd_not_less)
qed

lemma rw_writer_iff:
  assumes "rw_inv n (b, ts)"
  shows "b AND WRITER \<noteq> 0 \<longleftrightarrow> count_list ts Writing = 1"
proof -
  have "bit (word_of_nat m :: 32 word) 0 \<longleftrightarrow> bit m 0" for m by (simp add: bit_simps del: bit_0)
  then have "b AND WRITER = of_bool (odd (rwWeight ts))"
    using assms by (simp add: rw_inv_def WRITER_def and_one_eq mod_2_eq_odd bit_0)
  moreover have "odd (rwWeight ts) \<longleftrightarrow> odd (count_list ts Writing)" by (simp add: rwWeight_def)
  ultimately show ?thesis using assms by (auto simp: rw_inv_def le_Suc_eq)
qed

lemma rwWeight_one [simp]: "rwWeight [p] = (case p of Outside \<Rightarrow> 0 | Writing \<Rightarrow> 1 | _ \<Rightarrow> 2)"
  by (cases p) (simp_all add: rwWeight_def)

lemma rwWeight_zero: "rwWeight ts = 0 \<longleftrightarrow> set ts \<subseteq> {Outside}"
proof (induction ts)
  case (Cons p ts)
  have "rwWeight (p # ts) = rwWeight [p] + rwWeight ts" by (simp only: rwWeight_def count_list.simps) simp
  then show ?case using Cons by (cases p) simp_all
qed (simp add: rwWeight_def)

lemma rwWeight_update:
  assumes "t < length ts"
  shows "rwWeight (ts[t := p]) + rwWeight [ts ! t] = rwWeight ts + rwWeight [p]"
  using count_list_update [OF assms, of p Reading] count_list_update [OF assms, of p Backing]
    count_list_update [OF assms, of p Writing]
  unfolding rwWeight_def by (simp split: if_splits)

lemma rw_inv_leave:
  assumes inv: "rw_inv n (b, ts)" and t: "t < n" and out: "ts ! t \<noteq> Outside"
    and b': "b' = b - of_nat (rwWeight [ts ! t])"
  shows "rw_inv n (b', ts[t := Outside])"
proof -
  have len: "t < length ts" using inv t by (simp add: rw_inv_def)
  have "rwWeight (ts[t := Outside]) + rwWeight [ts ! t] = rwWeight ts"
    using rwWeight_update [OF len, of Outside] by simp
  then have "b = of_nat (rwWeight (ts[t := Outside])) + of_nat (rwWeight [ts ! t])"
    using inv unfolding rw_inv_def by (metis (mono_tags, lifting) of_nat_add case_prod_conv)
  then have "b' = of_nat (rwWeight (ts[t := Outside]))" using b' by simp
  moreover have "count_list (ts[t := Outside]) x \<le> count_list ts x" if "x \<noteq> Outside" for x
    using count_list_update [OF len, of Outside x] that by (auto split: if_splits)
  from this [of Writing] this [of Reading]
  have "count_list (ts[t := Outside]) Writing \<le> 1 \<and>
      (count_list (ts[t := Outside]) Writing = 1 \<longrightarrow> count_list (ts[t := Outside]) Reading = 0)"
    using inv unfolding rw_inv_def by simp linarith
  ultimately show ?thesis using inv by (simp add: rw_inv_def)
qed


lemma rw_inv_read:
  assumes inv: "rw_inv n (b, ts)" and t: "t < n" "ts ! t = Outside"
    and p: "p = (if count_list ts Writing = 1 then Backing else Reading)"
  shows "rw_inv n (b + READER, ts[t := p])"
proof -
  have len: "t < length ts" using inv t by (simp add: rw_inv_def)
  have "rwWeight (ts[t := p]) = rwWeight ts + 2"
    using rwWeight_update [OF len, of p] t(2) p by simp
  moreover have "count_list (ts[t := p]) Writing = count_list ts Writing"
    using count_list_update [OF len, of p Writing] t(2) p by simp
  moreover have "count_list ts Writing = 1 \<Longrightarrow> count_list (ts[t := p]) Reading = count_list ts Reading"
    using count_list_update [OF len, of p Reading] t(2) p by simp
  ultimately show ?thesis using inv by (simp add: rw_inv_def READER_def)
qed

lemma rw_inv_write:
  assumes inv: "rw_inv n (0, ts)" and t: "t < n" and n: "n < 2 ^ 30"
  shows "rw_inv n (WRITER, ts[t := Writing])"
proof -
  have len: "t < length ts" using inv t by (simp add: rw_inv_def)
  have z: "rwWeight ts = 0" using rw_zero_iff [OF inv n] by simp
  then have "set ts \<subseteq> {Outside}" by (simp only: rwWeight_zero)
  then have out: "ts ! t = Outside" using nth_mem [OF len] by blast
  moreover have "count_list ts Writing = 0" "count_list ts Reading = 0"
    using z by (simp_all add: rwWeight_def)
  moreover have "rwWeight (ts[t := Writing]) = 1"
    using rwWeight_update [OF len, of Writing] out z by simp
  ultimately show ?thesis
    using count_list_update [OF len, of Writing Writing] count_list_update [OF len, of Writing Reading] inv
    by (simp add: rw_inv_def WRITER_def)
qed

lemma rwStep_inv:
  assumes inv: "rw_inv n s" and t: "fst a < n" and n: "n < 2 ^ 30"
  shows "rw_inv n (rwStep a s)"
proof -
  obtain b ts tt c where s: "s = (b, ts)" and a: "a = (tt, c)" by fastforce
  have t: "tt < n" using t a by simp
  have same: "ts[tt := Outside] = ts" if "ts ! tt = Outside" using that by (metis list_update_id)
  show ?thesis
  proof (cases "ts ! tt")
    case Outside
    then show ?thesis
      using rw_inv_write [of n ts tt] rw_inv_read [of n b ts tt] inv t n s a same rw_writer_iff [of n b ts]
      by (auto simp: rwStep_def rwTryLock_def tryLockShared_def)
  qed (use rw_inv_leave [of n b ts tt] inv t s a in
      \<open>simp_all add: rwStep_def rwUnlockShared_def rwUnlock_def READER_def WRITER_def\<close>)
qed

lemma rwRun_inv:
  assumes "rw_inv n s" "\<forall>a \<in> set sched. fst a < n" "n < 2 ^ 30"
  shows "rw_inv n (rwRun sched s)"
  using assms(1,2)
  by (induction sched arbitrary: s) (simp_all add: rwRun_def rwStep_inv [OF _ _ assms(3)])

text \<open>
  C9: The readers-writer lock excludes: under every schedule of fewer than \<open>2\<^sup>3\<^sup>0\<close>
  threads at most one thread writes, and none reads while one writes. The word
  always counts the threads inside exactly, those included that are taking
  back a failed try, so that no failed try leaves a trace: a try for writing
  succeeds exactly when every thread is outside, and one for reading exactly
  when no thread writes.
\<close>

theorem rwlock_excludes:
  assumes "n < 2 ^ 30" "\<forall>a \<in> set sched. fst a < n"
  shows "\<exists>b ts. rwRun sched (0, replicate n Outside) = (b, ts) \<and> length ts = n \<and>
     count_list ts Writing \<le> 1 \<and> (Writing \<in> set ts \<longrightarrow> Reading \<notin> set ts) \<and>
     b = of_nat (2 * (count_list ts Reading + count_list ts Backing) + count_list ts Writing) \<and>
     (fst (rwTryLock b) \<longleftrightarrow> set ts \<subseteq> {Outside}) \<and>
     (fst (tryLockShared b) = Reading \<longleftrightarrow> Writing \<notin> set ts)"
proof -
  obtain b ts where r: "rwRun sched (0, replicate n Outside) = (b, ts)" by fastforce
  have "rw_inv n (0, replicate n Outside)"
    by (simp add: rw_inv_def rwWeight_def count_list_0_iff)
  then have inv: "rw_inv n (b, ts)" using rwRun_inv assms r by metis
  have w: "count_list ts Writing = 1 \<longleftrightarrow> Writing \<in> set ts"
    using inv count_list_0_iff [of ts Writing] by (auto simp: rw_inv_def le_Suc_eq)
  then have "Writing \<in> set ts \<longrightarrow> Reading \<notin> set ts"
    using inv count_list_0_iff [of ts Reading] by (simp add: rw_inv_def)
  moreover have "fst (rwTryLock b) \<longleftrightarrow> set ts \<subseteq> {Outside}"
    using rw_zero_iff [OF inv assms(1)] rwWeight_zero [of ts] by (simp add: rwTryLock_def)
  moreover have "fst (tryLockShared b) = Reading \<longleftrightarrow> Writing \<notin> set ts"
    using rw_writer_iff [OF inv] w by (simp add: tryLockShared_def)
  ultimately show ?thesis using inv r by (simp add: rw_inv_def rwWeight_def)
qed

theorem rwlock_excludes_witness:
  "\<exists>b ts. rwRun [(0, True), (1, False), (0, True), (1, False), (1, False), (0, False), (2, True)]
       (0, replicate 3 Outside) = (b, ts) \<and>
     ts = [Reading, Reading, Outside] \<and> b = 4 \<and> (Writing \<in> set ts \<longrightarrow> Reading \<notin> set ts)"
  using rwlock_excludes [of 3 "[(0, True), (1, False), (0, True), (1, False), (1, False), (0, False), (2, True)]"]
  by (simp add: rwRun_def rwStep_def rwTryLock_def tryLockShared_def rwUnlock_def rwUnlockShared_def
      READER_def WRITER_def numeral_3_eq_3)

end
