(* ===== verification/Base64_Codec.thy ===== *)
theory Base64_Codec
  imports Prelude
begin

unbundle bit_operations_syntax

text \<open>
  Base64: \<^verbatim>\<open>base64Encode\<close> and \<^verbatim>\<open>base64Decode\<close> of \<^verbatim>\<open>src/raster/util/Base64-inl.h\<close>, with the two alphabets
  of \<^verbatim>\<open>Base64EncodeMode\<close>. Both shift the input through an unsigned 32-bit accumulator
  whose old bits fall out at the top, and write into an output that was sized
  beforehand; a write behind its end is undefined.
\<close>

section \<open>The alphabets\<close>

datatype encode_mode = COMMON | URI

definition kBase64EncTable :: string where
  "kBase64EncTable = ''ABCDEFGHIJKLMNOPQRSTUVWXYZabcdefghijklmnopqrstuvwxyz0123456789''"

definition encodeChar :: "encode_mode \<Rightarrow> nat \<Rightarrow> char" where
  "encodeChar mode i =
     (if i = 0x3e then (if mode = URI then CHR ''-'' else CHR ''+'')
      else if i = 0x3f then (if mode = URI then CHR ''_'' else CHR ''/'')
      else kBase64EncTable ! i)"

definition kPad :: char where "kPad = CHR ''=''"

text \<open>The table of signed characters; the entry of the padding character is 0.\<close>

definition kBase64DecTable :: "int list" where
  "kBase64DecTable =
     [-1,-1,-1,-1, -1,-1,-1,-1, -1,-1,-1,-1, -1,-1,-1,-1,
      -1,-1,-1,-1, -1,-1,-1,-1, -1,-1,-1,-1, -1,-1,-1,-1,
      -1,-1,-1,-1, -1,-1,-1,-1, -1,-1,-1,62, -1,62,-1,63,
      52,53,54,55, 56,57,58,59, 60,61,-1,-1, -1, 0,-1,-1,
      -1, 0, 1, 2,  3, 4, 5, 6,  7, 8, 9,10, 11,12,13,14,
      15,16,17,18, 19,20,21,22, 23,24,25,-1, -1,-1,-1,63,
      -1,26,27,28, 29,30,31,32, 33,34,35,36, 37,38,39,40,
      41,42,43,44, 45,46,47,48, 49,50,51,-1, -1,-1,-1,-1]"

text \<open>\<^verbatim>\<open>c = decode(c)\<close> turns \<open>-1\<close> into the unsigned character 255.\<close>

definition decodeChar :: "nat \<Rightarrow> nat" where
  "decodeChar c = nat (kBase64DecTable ! c mod 256)"

section \<open>Encoding\<close>

text \<open>\<^verbatim>\<open>while (leftbits >= 6)\<close>\<close>

fun encEmit :: "encode_mode \<Rightarrow> 32 word \<Rightarrow> nat \<Rightarrow> string \<times> nat" where
  "encEmit mode leftchar leftbits =
     (if leftbits \<ge> 6
      then (case encEmit mode leftchar (leftbits - 6) of (cs, l) \<Rightarrow>
        (encodeChar mode (unat (drop_bit (leftbits - 6) leftchar AND 0x3f)) # cs, l))
      else ([], leftbits))"

declare encEmit.simps [simp del]

definition shiftByte :: "32 word \<Rightarrow> 8 word \<Rightarrow> 32 word" where
  "shiftByte leftchar b = push_bit 8 leftchar OR ucast b"

fun encLoop :: "encode_mode \<Rightarrow> 32 word \<Rightarrow> nat \<Rightarrow> 8 word list \<Rightarrow> string \<times> 32 word \<times> nat" where
  "encLoop mode leftchar leftbits [] = ([], leftchar, leftbits)"
| "encLoop mode leftchar leftbits (b # bs) =
     (let leftchar' = shiftByte leftchar b
      in case encEmit mode leftchar' (leftbits + 8) of (cs, l) \<Rightarrow>
         (case encLoop mode leftchar' l bs of (rest, r) \<Rightarrow> (cs @ rest, r)))"

definition encTail :: "encode_mode \<Rightarrow> 32 word \<Rightarrow> nat \<Rightarrow> string" where
  "encTail mode leftchar leftbits =
     (if leftbits = 2 then [encodeChar mode (unat (push_bit 4 (leftchar AND 0x3))), kPad, kPad]
      else if leftbits = 4 then [encodeChar mode (unat (push_bit 2 (leftchar AND 0xf))), kPad]
      else [])"

text \<open>What is not written of the sized output stays zero.\<close>

definition base64Encode :: "encode_mode \<Rightarrow> 8 word list \<Rightarrow> string result" where
  "base64Encode mode input =
     (let sz = ((length input + 2) mod 2 ^ 64 div 3 * 4) mod 2 ^ 64
      in case encLoop mode 0 0 input of (cs, leftchar, leftbits) \<Rightarrow>
         (let out = cs @ encTail mode leftchar leftbits
          in guard (length out \<le> sz) Undefined (Inr (out @ replicate (sz - length out) (CHR 0x00)))))"

section \<open>Decoding\<close>

text \<open>\<^verbatim>\<open>while (bits >= 8)\<close>\<close>

fun decEmit :: "32 word \<Rightarrow> nat \<Rightarrow> 8 word list \<times> nat" where
  "decEmit val bits =
     (if bits \<ge> 8
      then (case decEmit val (bits - 8) of (bs, l) \<Rightarrow> (ucast (drop_bit (bits - 8) val AND 0xff) # bs, l))
      else ([], bits))"

declare decEmit.simps [simp del]

definition shiftSextet :: "32 word \<Rightarrow> 32 word \<Rightarrow> 32 word" where
  "shiftSextet val c = push_bit 6 val OR c"

fun decLoop :: "32 word \<Rightarrow> nat \<Rightarrow> string \<Rightarrow> 8 word list \<times> nat" where
  "decLoop val bits [] = ([], bits)"
| "decLoop val bits (ch # chs) =
     (if (of_char ch :: nat) > 0x7f then decLoop val bits chs
      else if ch = kPad then ([], 0)
      else let c = decodeChar (of_char ch)
        in if c = 255 then decLoop val bits chs
           else let val' = shiftSextet val (word_of_nat c)
             in case decEmit val' (bits + 6) of (bs, l) \<Rightarrow>
                (case decLoop val' l chs of (rest, r) \<Rightarrow> (bs @ rest, r)))"

definition base64Decode :: "string \<Rightarrow> (8 word list \<times> bool) result" where
  "base64Decode input =
     (let sz = ((length input + 3) mod 2 ^ 64 div 4 * 3) mod 2 ^ 64
      in case decLoop 0 0 input of (out, bits) \<Rightarrow>
         guard (length out \<le> sz) Undefined (Inr (out, bits = 0)))"

section \<open>One group of three bytes\<close>

lemma emit_eval:
  "l < 6 \<Longrightarrow> encEmit mode w l = ([], l)"
  "l < 6 \<Longrightarrow> encEmit mode w (l + 6) = ([encodeChar mode (unat (take_bit 6 (drop_bit l w)))], l)"
  "l < 8 \<Longrightarrow> decEmit w l = ([], l)"
  "l < 8 \<Longrightarrow> decEmit w (l + 8) = ([ucast (drop_bit l w)], l)"
proof -
  have m: "(0x3f :: 32 word) = mask 6" "(0xff :: 32 word) = mask 8" by (simp_all add: mask_eq_exp_minus_1)
  have "ucast (w AND mask 8) = (ucast w :: 8 word)" for w :: "32 word"
    by (rule bit_word_eqI) (simp add: bit_simps)
  note this [simp]
  show "l < 6 \<Longrightarrow> encEmit mode w l = ([], l)"
    "l < 6 \<Longrightarrow> encEmit mode w (l + 6) = ([encodeChar mode (unat (take_bit 6 (drop_bit l w)))], l)"
    "l < 8 \<Longrightarrow> decEmit w l = ([], l)"
    "l < 8 \<Longrightarrow> decEmit w (l + 8) = ([ucast (drop_bit l w)], l)"
    by (simp_all add: encEmit.simps [of mode w] decEmit.simps [of w] m take_bit_eq_mask)
qed

lemma decTable_nth:
  "i < 26 \<Longrightarrow> decodeChar (65 + i) = i"
  "i < 26 \<Longrightarrow> decodeChar (97 + i) = 26 + i"
  "i < 10 \<Longrightarrow> decodeChar (48 + i) = 52 + i"
  "decodeChar 43 = 62" "decodeChar 45 = 62" "decodeChar 47 = 63" "decodeChar 95 = 63"
  by (auto simp: decodeChar_def kBase64DecTable_def less_Suc_eq numeral_eq_Suc)

lemma encTable_nth:
  "i < 26 \<Longrightarrow> of_char (kBase64EncTable ! i) = (65 + i :: nat)"
  "i < 26 \<Longrightarrow> of_char (kBase64EncTable ! (26 + i)) = (97 + i :: nat)"
  "i < 10 \<Longrightarrow> of_char (kBase64EncTable ! (52 + i)) = (48 + i :: nat)"
  by (auto simp: kBase64EncTable_def less_Suc_eq numeral_eq_Suc)


lemma decodeChar_encodeChar:
  assumes "i < 64"
  shows "decodeChar (of_char (encodeChar mode i)) = i" "(of_char (encodeChar mode i) :: nat) \<le> 0x7f"
    "encodeChar mode i \<noteq> kPad"
proof -
  have pad: "(of_char kPad :: nat) = 61" by (simp add: kPad_def)
  consider "i < 26" | "26 \<le> i" "i < 52" | "52 \<le> i" "i < 62" | "i = 62" | "i = 63"
    using assms by linarith
  then have "decodeChar (of_char (encodeChar mode i)) = i \<and> (of_char (encodeChar mode i) :: nat) \<le> 0x7f \<and>
      (of_char (encodeChar mode i) :: nat) \<noteq> 61"
  proof cases
    case 1
    then show ?thesis using encTable_nth(1) [of i] decTable_nth(1) [of i] by (simp add: encodeChar_def)
  next
    case 2
    then show ?thesis using encTable_nth(2) [of "i - 26"] decTable_nth(2) [of "i - 26"]
      by (simp add: encodeChar_def)
  next
    case 3
    then show ?thesis using encTable_nth(3) [of "i - 52"] decTable_nth(3) [of "i - 52"]
      by (simp add: encodeChar_def) linarith
  qed (cases mode; simp add: encodeChar_def decTable_nth)+
  then show "decodeChar (of_char (encodeChar mode i)) = i" "(of_char (encodeChar mode i) :: nat) \<le> 0x7f"
    "encodeChar mode i \<noteq> kPad" using pad by auto
qed

text \<open>The four sextets of three bytes, and of the one or two that are left at the end.\<close>

definition sextets :: "8 word \<Rightarrow> 8 word \<Rightarrow> 8 word \<Rightarrow> (32 word) list" where
  "sextets a b c = [drop_bit 2 (ucast a), push_bit 4 (take_bit 2 (ucast a)) OR drop_bit 4 (ucast b),
     push_bit 2 (take_bit 4 (ucast b)) OR drop_bit 6 (ucast c), take_bit 6 (ucast c)]"

lemma bit_byte: "bit (a :: 8 word) n \<Longrightarrow> n < 8"
  using bit_imp_le_length [of a n] by simp

lemma sextets_encoded:
  "take_bit 6 (drop_bit 2 (shiftByte w a)) = sextets a b c ! 0"
  "take_bit 6 (drop_bit 4 (shiftByte (shiftByte w a) b)) = sextets a b c ! 1"
  "take_bit 6 (drop_bit 6 (shiftByte (shiftByte w b) c)) = sextets a b c ! 2"
  "take_bit 6 (shiftByte w c) = sextets a b c ! 3"
  unfolding shiftByte_def
  by (rule bit_word_eqI, force simp: sextets_def bit_simps dest: bit_byte)+

lemma sextets_small: "x \<in> set (sextets a b c) \<Longrightarrow> take_bit 6 x = x"
  by (rule bit_word_eqI, force simp: sextets_def bit_simps dest: bit_byte)

lemma byte_eqI:
  assumes "list_all (\<lambda>n. bit (a :: 8 word) n = bit b n) [0, 1, 2, 3, 4, 5, 6, 7]"
  shows "a = b"
proof (rule bit_word_eqI)
  fix n assume "n < LENGTH(8)"
  then have "n \<in> {0, 1, 2, 3, 4, 5, 6, 7}" by auto
  then show "bit a n = bit b n" using assms by auto
qed

lemma sextets_decoded:
  "ucast (drop_bit 4 (shiftSextet (shiftSextet v (sextets a b c ! 0)) (sextets a b c ! 1))) = a"
  "ucast (drop_bit 2 (shiftSextet (shiftSextet v (sextets a b c ! 1)) (sextets a b c ! 2))) = b"
  "ucast (shiftSextet (shiftSextet v (sextets a b c ! 2)) (sextets a b c ! 3)) = c"
  unfolding shiftSextet_def
  by (rule byte_eqI, auto simp: sextets_def bit_simps simp flip: numeral_2_eq_2 numeral_3_eq_3 dest: bit_byte)+

lemma decLoop_char:
  assumes x: "take_bit 6 x = x"
  shows "decLoop v l (encodeChar mode (unat x) # chs) =
    (case decEmit (shiftSextet v x) (l + 6) of (bs, l') \<Rightarrow>
       (case decLoop (shiftSextet v x) l' chs of (rest, r) \<Rightarrow> (bs @ rest, r)))"
proof -
  have "unat x = take_bit 6 (unat x)" using x by (metis unsigned_take_bit_eq)
  also have "\<dots> < 64" using take_bit_nat_less_exp [of 6 "unat x"] by simp
  finally show ?thesis using decodeChar_encodeChar [of "unat x" mode] by (simp add: Let_def)
qed

text \<open>A full group leaves no bits behind on either side.\<close>

definition groupText :: "encode_mode \<Rightarrow> 8 word \<Rightarrow> 8 word \<Rightarrow> 8 word \<Rightarrow> string" where
  "groupText mode a b c = map (\<lambda>i. encodeChar mode (unat (sextets a b c ! i))) [0, 1, 2, 3]"

lemma encEmit_12: "encEmit mode w 12 =
  ([encodeChar mode (unat (take_bit 6 (drop_bit 6 w))), encodeChar mode (unat (take_bit 6 w))], 0)"
  using emit_eval(2) [of 0 mode w]
  by (subst encEmit.simps) (simp add: take_bit_eq_mask mask_eq_exp_minus_1)

lemma encLoop_group:
  "\<exists>w'. encLoop mode w 0 (a # b # c # bs) =
     (case encLoop mode w' 0 bs of (cs, r) \<Rightarrow> (groupText mode a b c @ cs, r))"
  using emit_eval(2) [of 2 mode] emit_eval(2) [of 4 mode] encEmit_12
  by (auto simp: Let_def groupText_def sextets_encoded [where a = a and b = b and c = c]
      intro!: exI [of _ "shiftByte (shiftByte (shiftByte w a) b) c"] split: prod.split)

lemma decLoop_group:
  "\<exists>v'. decLoop v 0 (groupText mode a b c @ chs) =
     (case decLoop v' 0 chs of (bs, r) \<Rightarrow> (a # b # c # bs, r))"
proof -
  have "take_bit 6 (sextets a b c ! i) = sextets a b c ! i" if "i < 4" for i
    using that sextets_small [of "sextets a b c ! i" a b c] nth_mem [of i "sextets a b c"]
    by (simp add: sextets_def)
  then have step: "decLoop w l (encodeChar mode (unat (sextets a b c ! i)) # cs) =
      (case decEmit (shiftSextet w (sextets a b c ! i)) (l + 6) of (bs, l') \<Rightarrow>
         (case decLoop (shiftSextet w (sextets a b c ! i)) l' cs of (rest, r) \<Rightarrow> (bs @ rest, r)))"
    if "i < 4" for w l i cs
    using that decLoop_char by blast
  define v1 where "v1 = shiftSextet v (sextets a b c ! 0)"
  define v2 where "v2 = shiftSextet v1 (sextets a b c ! 1)"
  define v3 where "v3 = shiftSextet v2 (sextets a b c ! 2)"
  define v4 where "v4 = shiftSextet v3 (sextets a b c ! 3)"
  note vs = v1_def [symmetric] v2_def [symmetric] v3_def [symmetric] v4_def [symmetric]
  have "ucast (drop_bit 4 v2) = a" "ucast (drop_bit 2 v3) = b" "ucast v4 = c"
    unfolding v4_def v3_def v2_def v1_def by (rule sextets_decoded)+
  then have "decEmit v1 6 = ([], 6)" "decEmit v2 12 = ([a], 4)" "decEmit v3 10 = ([b], 2)" "decEmit v4 8 = ([c], 0)"
    using emit_eval(3) [of 6 v1] emit_eval(4) [of 4 v2] emit_eval(4) [of 2 v3] emit_eval(4) [of 0 v4] by simp_all
  then have "decLoop v 0 (groupText mode a b c @ chs) = (case decLoop v4 0 chs of (bs, r) \<Rightarrow> (a # b # c # bs, r))"
    by (simp add: groupText_def step vs del: decLoop.simps One_nat_def split: prod.split)
  then show ?thesis by blast
qed


section \<open>Round trip\<close>

text \<open>The one or two bytes that are left, with their padding.\<close>

definition tailText :: "encode_mode \<Rightarrow> 8 word list \<Rightarrow> string" where
  "tailText mode bs =
     (case bs of
        [a] \<Rightarrow> [encodeChar mode (unat (sextets a 0 0 ! 0)), encodeChar mode (unat (sextets a 0 0 ! 1)), kPad, kPad]
      | [a, b] \<Rightarrow> [encodeChar mode (unat (sextets a b 0 ! 0)), encodeChar mode (unat (sextets a b 0 ! 1)),
                  encodeChar mode (unat (sextets a b 0 ! 2)), kPad]
      | _ \<Rightarrow> [])"

fun base64Text :: "encode_mode \<Rightarrow> 8 word list \<Rightarrow> string" where
  "base64Text mode (a # b # c # bs) = groupText mode a b c @ base64Text mode bs"
| "base64Text mode [] = tailText mode []"
| "base64Text mode [a] = tailText mode [a]"
| "base64Text mode [a, b] = tailText mode [a, b]"

lemma tail_encoded:
  "push_bit 4 (shiftByte w a AND 0x3) = sextets a 0 0 ! 1"
  "push_bit 2 (shiftByte w b AND 0xf) = sextets a b 0 ! 2"
proof -
  have m: "(0x3 :: 32 word) = mask 2" "(0xf :: 32 word) = mask 4" by (simp_all add: mask_eq_exp_minus_1)
  show "push_bit 4 (shiftByte w a AND 0x3) = sextets a 0 0 ! 1"
    "push_bit 2 (shiftByte w b AND 0xf) = sextets a b 0 ! 2"
    unfolding shiftByte_def m
    by (rule bit_word_eqI, force simp: sextets_def bit_simps simp flip: take_bit_eq_mask dest: bit_byte)+
qed

lemma encTail_eval:
  "encTail mode (shiftByte w a) 2 = [encodeChar mode (unat (sextets a 0 0 ! 1)), kPad, kPad]"
  "encTail mode (shiftByte w b) 4 = [encodeChar mode (unat (sextets a b 0 ! 2)), kPad]"
  unfolding encTail_def tail_encoded(1) tail_encoded(2) [where a = a] by simp_all

lemma encode_text:
  "case encLoop mode w 0 bs of (cs, w', l) \<Rightarrow> cs @ encTail mode w' l = base64Text mode bs"
proof (induction mode bs arbitrary: w rule: base64Text.induct)
  case (1 mode a b c bs)
  obtain w' where e: "encLoop mode w 0 (a # b # c # bs) =
      (case encLoop mode w' 0 bs of (cs, r) \<Rightarrow> (groupText mode a b c @ cs, r))"
    using encLoop_group by blast
  show ?case using 1 [of w'] unfolding e by (auto split: prod.splits)
next
  case (3 mode a)
  then show ?case using emit_eval(2) [of 2 mode "shiftByte w a"]
    by (simp add: tailText_def encTail_eval sextets_encoded(1) [where b = 0 and c = 0])
next
  case (4 mode a b)
  then show ?case
    using emit_eval(2) [of 2 mode "shiftByte w a"] emit_eval(2) [of 4 mode "shiftByte (shiftByte w a) b"]
    by (simp add: tailText_def encTail_eval(2) [where a = a] sextets_encoded [where a = a and b = b and c = 0])
qed (simp add: tailText_def encTail_def)


lemma sextets_nth_small: "i < 4 \<Longrightarrow> take_bit 6 (sextets a b c ! i) = sextets a b c ! i"
  using sextets_small [of "sextets a b c ! i" a b c] nth_mem [of i "sextets a b c"]
  by (simp add: sextets_def)

lemma decode_text: "decLoop v 0 (base64Text mode bs) = (bs, 0)"
proof (induction mode bs arbitrary: v rule: base64Text.induct)
  case (1 mode a b c bs)
  then show ?case using decLoop_group [of v mode a b c "base64Text mode bs"] by auto
next
  case (3 mode a)
  define v1 where "v1 = shiftSextet v (sextets a 0 0 ! 0)"
  define v2 where "v2 = shiftSextet v1 (sextets a 0 0 ! 1)"
  have "ucast (drop_bit 4 v2) = a" unfolding v2_def v1_def by (rule sextets_decoded)
  then have "decEmit v1 6 = ([], 6)" "decEmit v2 12 = ([a], 4)"
    using emit_eval(3) [of 6 v1] emit_eval(4) [of 4 v2] by simp_all
  moreover have "decLoop w l (kPad # cs) = ([], 0)" for w l cs by (simp add: kPad_def)
  ultimately show ?case
    by (simp add: tailText_def decLoop_char sextets_nth_small v1_def [symmetric] v2_def [symmetric]
        del: decLoop.simps One_nat_def)
next
  case (4 mode a b)
  define v1 where "v1 = shiftSextet v (sextets a b 0 ! 0)"
  define v2 where "v2 = shiftSextet v1 (sextets a b 0 ! 1)"
  define v3 where "v3 = shiftSextet v2 (sextets a b 0 ! 2)"
  have "ucast (drop_bit 4 v2) = a" "ucast (drop_bit 2 v3) = b"
    unfolding v3_def v2_def v1_def by (rule sextets_decoded)+
  then have "decEmit v1 6 = ([], 6)" "decEmit v2 12 = ([a], 4)" "decEmit v3 10 = ([b], 2)"
    using emit_eval(3) [of 6 v1] emit_eval(4) [of 4 v2] emit_eval(4) [of 2 v3] by simp_all
  moreover have "decLoop w l (kPad # cs) = ([], 0)" for w l cs by (simp add: kPad_def)
  ultimately show ?case
    by (simp add: tailText_def decLoop_char sextets_nth_small
        v1_def [symmetric] v2_def [symmetric] v3_def [symmetric] del: decLoop.simps One_nat_def)
qed (simp add: tailText_def)

lemma base64Text_length: "length (base64Text mode bs) = (length bs + 2) div 3 * 4"
proof (induction mode bs rule: base64Text.induct)
  case (1 mode a b c bs)
  moreover have "(length bs + 5) div 3 = (length bs + 2) div 3 + 1" by presburger
  ultimately show ?case by (simp add: groupText_def add.commute)
qed (simp_all add: tailText_def)


lemma sextets_index: "i < 4 \<Longrightarrow> encodeChar mode (unat (sextets a b c ! i)) \<in> encodeChar mode ` {..<64}"
proof (rule imageI)
  assume i: "i < 4"
  have "unat (sextets a b c ! i) = take_bit 6 (unat (sextets a b c ! i))"
    using sextets_nth_small [OF i, of a b c] by (metis unsigned_take_bit_eq)
  also have "\<dots> < 64" using take_bit_nat_less_exp [of 6 "unat (sextets a b c ! i)"] by simp
  finally show "unat (sextets a b c ! i) \<in> {..<64}" by simp
qed

lemma base64Text_alphabet: "set (base64Text mode bs) \<subseteq> encodeChar mode ` {..<64} \<union> {kPad}"
proof (induction mode bs rule: base64Text.induct)
  case (1 mode a b c bs)
  moreover have "set (groupText mode a b c) \<subseteq> encodeChar mode ` {..<64}"
    unfolding groupText_def by (auto simp only: set_map list.set sextets_index intro: sextets_index)
  ultimately show ?case by auto
qed (simp_all add: tailText_def sextets_index del: One_nat_def)

text \<open>Decoding never writes behind its output, whatever the text: it gains six bits per character.\<close>

lemma decEmit_bits: "8 * length (fst (decEmit v l)) + snd (decEmit v l) = l"
proof (induction l rule: less_induct)
  case (less l)
  show ?case
  proof (cases "8 \<le> l")
    case True
    then show ?thesis using less [of "l - 8"] by (subst (1 2) decEmit.simps) (auto split: prod.split)
  qed (simp add: decEmit.simps)
qed

lemma decLoop_bits: "8 * length (fst (decLoop v l cs)) + snd (decLoop v l cs) \<le> l + 6 * length cs"
proof (induction cs arbitrary: v l)
  case (Cons ch cs)
  define w where "w = shiftSextet v (word_of_nat (decodeChar (of_char ch)))"
  obtain bs l' rest r where e: "decEmit w (l + 6) = (bs, l')" "decLoop w l' cs = (rest, r)" by fastforce
  then have "8 * length bs + l' = l + 6" "8 * length rest + r \<le> l' + 6 * length cs"
    using decEmit_bits [of w "l + 6"] Cons.IH [of w l'] by simp_all
  then show ?case using e Cons.IH [of v l] by (simp add: Let_def w_def [symmetric])
qed simp

lemma base64Decode_in_bounds:
  assumes "length str < 2 ^ 60"
  shows "\<exists>bs valid. base64Decode str = Inr (bs, valid)"
proof -
  obtain bs l where e: "decLoop 0 0 str = (bs, l)" by fastforce
  then have "8 * length bs \<le> 6 * length str" using decLoop_bits [of 0 0 str] by simp
  then have "length bs \<le> (length str + 3) div 4 * 3" by linarith
  then show ?thesis using assms by (simp add: base64Decode_def e Let_def)
qed

text \<open>
  C21: What is encoded is decoded: for every input that fits the address space,
  and in both alphabets, \<^verbatim>\<open>base64Encode\<close> writes exactly the output it has sized, four
  characters for every started group of three bytes and none of them outside
  the alphabet of the mode, and \<^verbatim>\<open>base64Decode\<close> of that text returns true and the input.
  On any other text it stays inside its output as well.
\<close>

theorem base64_roundtrip:
  assumes "length bs < 2 ^ 60"
  shows "\<exists>txt. base64Encode mode bs = Inr txt \<and> length txt = (length bs + 2) div 3 * 4 \<and>
    set txt \<subseteq> encodeChar mode ` {..<64} \<union> {kPad} \<and> base64Decode txt = Inr (bs, True) \<and>
    (\<forall>other. length other < 2 ^ 60 \<longrightarrow> base64Decode other \<noteq> Inl Undefined)"
proof -
  let ?t = "base64Text mode bs"
  have len: "length ?t = (length bs + 2) div 3 * 4" by (rule base64Text_length)
  have "base64Encode mode bs = Inr ?t"
  proof -
    obtain cs w l where e: "encLoop mode 0 0 bs = (cs, w, l)" by (cases "encLoop mode 0 0 bs") auto
    have out: "cs @ encTail mode w l = ?t" using encode_text [of mode bs 0] e by simp
    show ?thesis using assms unfolding base64Encode_def e prod.case Let_def out len by simp
  qed
  moreover have "length bs \<le> ((length ?t + 3) mod 2 ^ 64 div 4 * 3) mod 2 ^ 64"
  proof -
    define k where "k = (length bs + 2) div 3"
    have k: "length bs \<le> 3 * k" "k < 2 ^ 60" using assms unfolding k_def by linarith+
    then have "(length ?t + 3) mod 2 ^ 64 div 4 * 3 = 3 * k" using len k_def by simp
    with k show ?thesis by simp
  qed
  then have "base64Decode ?t = Inr (bs, True)"
    using decode_text [of 0 mode bs] by (simp add: base64Decode_def guard_def Let_def)
  ultimately show ?thesis using len base64Text_alphabet base64Decode_in_bounds by fastforce
qed

theorem base64_roundtrip_witness:
  "\<exists>txt. base64Encode URI [251, 255, 191, 1] = Inr txt \<and> txt = ''-_-_AQ=='' \<and> base64Decode txt = Inr ([251, 255, 191, 1], True)"
  using base64_roundtrip [of "[251, 255, 191, 1]" URI]
  by (auto simp: base64Encode_def shiftByte_def encEmit.simps encTail_def encodeChar_def kBase64EncTable_def kPad_def guard_def)

end
