(* ===== verification/Number_Text.thy ===== *)
theory Number_Text
  imports Prelude
begin

text \<open>
  Integers and text: \<^verbatim>\<open>src/raster/util/Conv.h\<close> and \<^verbatim>\<open>Conv.cpp\<close>. An integral type is a width (8,
  16, 32 or 64 bits) and whether it is signed; its values are mathematical
  integers, and what the machine reduces is reduced modulo a power of two.
  \<^verbatim>\<open>std::range_error\<close> is \<open>Range_Error\<close>. Floating point is left to double-conversion.
\<close>

section \<open>Integers to text\<close>

text \<open>\<^verbatim>\<open>63 - __builtin_clzll(v)\<close>, the position of the highest bit.\<close>

fun highBit :: "nat \<Rightarrow> nat" where
  "highBit v = (if v < 2 then 0 else 1 + highBit (v div 2))"

declare highBit.simps [simp del]

definition powersOf10 :: "nat list" where
  "powersOf10 =
    [1, 10, 100, 1000, 10000, 100000, 1000000, 10000000, 100000000, 1000000000,
     10000000000, 100000000000, 1000000000000, 10000000000000, 100000000000000,
     1000000000000000, 10000000000000000, 100000000000000000,
     1000000000000000000, 10000000000000000000]"

definition digits10 :: "nat \<Rightarrow> nat result" where
  "digits10 v =
     (if v = 0 then Inr 1
      else let bits = highBit v; minLength = 1 + bits * 77 div 2 ^ 8
           in guard (minLength < length powersOf10) Undefined
                (Inr (minLength + (if v \<ge> powersOf10 ! minLength then 1 else 0))))"

definition digitChar :: "nat \<Rightarrow> char" where
  "digitChar r = char_of (48 + r)"

text \<open>The digits from right to left; a position outside of the buffer is undefined.\<close>

fun toBufferLoop :: "nat \<Rightarrow> nat \<Rightarrow> string \<Rightarrow> string result" where
  "toBufferLoop v pos buffer =
     guard (pos < length buffer) Undefined
       (if v \<ge> 10
        then guard (pos \<noteq> 0) Undefined
               (toBufferLoop (v div 10) (pos - 1) (buffer[pos := digitChar (v mod 10)]))
        else Inr (buffer[pos := digitChar v]))"

declare toBufferLoop.simps [simp del]

definition uint64ToBufferUnsafe :: "nat \<Rightarrow> string \<Rightarrow> (nat \<times> string) result" where
  "uint64ToBufferUnsafe v buffer =
     res_bind (digits10 v) (\<lambda>n. res_bind (toBufferLoop v (n - 1) buffer) (\<lambda>b. Inr (n, b)))"

text \<open>
  \<^verbatim>\<open>toAppend\<close> of an integer; \<open>junk\<close> is what the buffer of 20 characters holds. Types
  of less than 32 bits go through the 64-bit ones.
\<close>

definition appendUnsigned :: "string \<Rightarrow> nat \<Rightarrow> string \<Rightarrow> string result" where
  "appendUnsigned junk v acc = res_bind (uint64ToBufferUnsafe v junk) (\<lambda>(n, b). Inr (acc @ take n b))"

definition appendSigned :: "string \<Rightarrow> int \<Rightarrow> string \<Rightarrow> string result" where
  "appendSigned junk v acc =
     (if v < 0
      then res_bind (uint64ToBufferUnsafe (nat (- (v mod 2 ^ 64) mod 2 ^ 64)) junk) (\<lambda>(n, b).
             Inr ((acc @ ''-'') @ take n b))
      else appendUnsigned junk (nat v) acc)"

section \<open>Text to integers\<close>

definition isdigit :: "char \<Rightarrow> bool" where
  "isdigit c \<longleftrightarrow> 48 \<le> (of_char c :: nat) \<and> (of_char c :: nat) \<le> 57"

definition isspace :: "char \<Rightarrow> bool" where
  "isspace c \<longleftrightarrow> of_char c = (32 :: nat) \<or> 9 \<le> (of_char c :: nat) \<and> (of_char c :: nat) \<le> 13"

definition digitVal :: "char \<Rightarrow> nat" where
  "digitVal c = of_char c - 48"

text \<open>\<^verbatim>\<open>std::numeric_limits<Tgt>::digits10\<close> and \<^verbatim>\<open>MaxString<Tgt>::value\<close> of the unsigned types.\<close>

definition limitDigits :: "nat \<Rightarrow> nat" where
  "limitDigits w = (if w = 8 then 2 else if w = 16 then 4 else if w = 32 then 9 else 19)"

definition maxString :: "nat \<Rightarrow> string" where
  "maxString w =
     (if w = 8 then ''255'' else if w = 16 then ''65535'' else if w = 32 then ''4294967295''
      else ''18446744073709551615'')"

fun strLe :: "string \<Rightarrow> string \<Rightarrow> bool" where
  "strLe (x # xs) (y # ys) =
     ((of_char x :: nat) < of_char y \<or> (of_char x :: nat) = of_char y \<and> strLe xs ys)"
| "strLe [] ys = True"
| "strLe (x # xs) [] = False"

text \<open>
  The tables \<^verbatim>\<open>shift1\<close>, \<^verbatim>\<open>shift10\<close>, \<^verbatim>\<open>shift100\<close> and \<^verbatim>\<open>shift1000\<close>: the value of a digit times \<open>k\<close>, and 10000
  everywhere else. A negative character as index is undefined.
\<close>

definition shiftTable :: "nat \<Rightarrow> char \<Rightarrow> nat" where
  "shiftTable k c = (if isdigit c then k * digitVal c else 10000)"

definition shiftSum :: "nat list \<Rightarrow> string \<Rightarrow> nat result" where
  "shiftSum ks cs =
     guard (\<forall>c \<in> set cs. (of_char c :: nat) < 128) Undefined
       (let sum1 = sum_list (map2 shiftTable ks cs) in guard (sum1 < 10000) Assert_Failed (Inr sum1))"

fun digitsLoop :: "nat \<Rightarrow> nat \<Rightarrow> string \<Rightarrow> nat result" where
  "digitsLoop w r (a # b # c # d # cs) =
     res_bind (shiftSum [1000, 100, 10, 1] [a, b, c, d]) (\<lambda>s.
       digitsLoop w ((r * 10000 mod 2 ^ w + s) mod 2 ^ w) cs)"
| "digitsLoop w r [a, b, c] = res_bind (shiftSum [100, 10, 1] [a, b, c]) (\<lambda>s. Inr ((r * 1000 + s) mod 2 ^ w))"
| "digitsLoop w r [a, b] = res_bind (shiftSum [10, 1] [a, b]) (\<lambda>s. Inr ((r * 100 + s) mod 2 ^ w))"
| "digitsLoop w r [a] = res_bind (shiftSum [1] [a]) (\<lambda>s. Inr ((r * 10 + s) mod 2 ^ w))"
| "digitsLoop w r [] = Inr r"

function digits_to :: "nat \<Rightarrow> string \<Rightarrow> nat result" where
  "digits_to w s =
     (let size1 = length s;
          convert = (if size1 = 0 then Inl Range_Error else digitsLoop w 0 s)
      in if size1 \<ge> limitDigits w + 1
         then if s \<noteq> [] \<and> hd s = CHR ''0''
              then let s1 = dropWhile (\<lambda>c. c = CHR ''0'') (tl s)
                   in if s1 = [] then Inr 0 else digits_to w s1
              else if size1 = limitDigits w + 1 \<and> strLe s (maxString w) then convert
              else Inl Range_Error
         else convert)"
  by pat_completeness auto
termination
proof (relation "measure (\<lambda>(w, s). length s)", goal_cases)
  case (2 w s size1 convert s1)
  then have "length s1 \<le> length (tl s)" "s \<noteq> []" using length_dropWhile_le by blast+
  then show ?case by (cases s) auto
qed simp

declare digits_to.simps [simp del]

text \<open>What a value of the unsigned type becomes in the signed one of the same width.\<close>

definition toSigned :: "nat \<Rightarrow> int \<Rightarrow> int" where
  "toSigned w v = (let u = v mod 2 ^ w in if u < 2 ^ (w - 1) then u else u - 2 ^ w)"

text \<open>\<^verbatim>\<open>to<Tgt>(StringPiece*)\<close>: the value and what is left of the input.\<close>

definition parseIntegral :: "bool \<Rightarrow> nat \<Rightarrow> string \<Rightarrow> (int \<times> string) result" where
  "parseIntegral signed1 w src =
     (let b = dropWhile isspace src
      in guard (b \<noteq> []) Range_Error
        (let sign = signed1 \<and> \<not> isdigit (hd b); negative = (sign \<and> hd b = CHR ''-'')
         in guard (sign \<longrightarrow> hd b = CHR ''-'' \<or> hd b = CHR ''+'') Range_Error
           (let m = (if sign then tl b else b)
            in guard (m \<noteq> []) Range_Error (guard (isdigit (hd m)) Range_Error
              (let ds = hd m # takeWhile isdigit (tl m); rest = dropWhile isdigit (tl m)
               in res_bind (digits_to w ds) (\<lambda>t.
                  if \<not> signed1 then Inr (int t, rest)
                  else if negative
                  then let r = toSigned w (- int t) in guard (r \<le> 0) Range_Error (Inr (r, rest))
                  else let r = toSigned w (int t) in guard (r \<ge> 0) Range_Error (Inr (r, rest))))))))"

definition enforceWhitespace :: "string \<Rightarrow> unit result" where
  "enforceWhitespace s = guard (list_all isspace s) Range_Error (Inr ())"

definition toIntegral :: "bool \<Rightarrow> nat \<Rightarrow> string \<Rightarrow> int result" where
  "toIntegral signed1 w src =
     res_bind (parseIntegral signed1 w src) (\<lambda>(v, rest). res_bind (enforceWhitespace rest) (\<lambda>_. Inr v))"

text \<open>\<^verbatim>\<open>to<Tgt>(b, e)\<close>: no white space on either side, and for the signed types an optional sign.\<close>

definition toRange :: "bool \<Rightarrow> nat \<Rightarrow> string \<Rightarrow> int result" where
  "toRange signed1 w s =
     (if \<not> signed1 then res_bind (digits_to w s) (\<lambda>t. Inr (int t))
      else guard (s \<noteq> []) Range_Error
        (if \<not> isdigit (hd s) \<and> hd s = CHR ''-''
         then res_bind (digits_to w (tl s)) (\<lambda>t.
                let r = toSigned w (- int t) in guard (r \<le> 0) Range_Error (Inr r))
         else guard (isdigit (hd s) \<or> hd s = CHR ''+'') Range_Error
                (res_bind (digits_to w (if isdigit (hd s) then s else tl s)) (\<lambda>t.
                   let r = toSigned w (int t) in guard (r \<ge> 0) Range_Error (Inr r)))))"

section \<open>Text to truth values\<close>

definition tolower :: "char \<Rightarrow> char" where
  "tolower c =
     (if 65 \<le> (of_char c :: nat) \<and> (of_char c :: nat) \<le> 90 then char_of ((of_char c :: nat) + 32) else c)"

text \<open>The rest after the word, or nothing where the input does not start with it.\<close>

fun bool_str_cmp :: "string \<Rightarrow> string \<Rightarrow> string option" where
  "bool_str_cmp p [] = Some p"
| "bool_str_cmp [] (v # vs) = None"
| "bool_str_cmp (c # p) (v # vs) = (if tolower c \<noteq> v then None else bool_str_cmp p vs)"

fun boolDigits :: "bool \<Rightarrow> string \<Rightarrow> (bool \<times> string) result" where
  "boolDigits r (c # b) =
     (if isdigit c
      then guard (\<not> r \<and> (c = CHR ''0'' \<or> c = CHR ''1'')) Range_Error (boolDigits (c = CHR ''1'') b)
      else Inr (r, c # b))"
| "boolDigits r [] = Inr (r, [])"

definition str_to_bool :: "string \<Rightarrow> (bool \<times> string) result" where
  "str_to_bool src =
     (let b = dropWhile isspace src
      in guard (b \<noteq> []) Range_Error
        (let word = (\<lambda>r v. case bool_str_cmp b v of Some b' \<Rightarrow> Inr (r, b') | None \<Rightarrow> Inr (r, tl b))
         in if hd b = CHR ''0'' \<or> hd b = CHR ''1'' then boolDigits False b
            else if hd b = CHR ''y'' \<or> hd b = CHR ''Y'' then word True ''yes''
            else if hd b = CHR ''n'' \<or> hd b = CHR ''N'' then word False ''no''
            else if hd b = CHR ''t'' \<or> hd b = CHR ''T'' then word True ''true''
            else if hd b = CHR ''f'' \<or> hd b = CHR ''F'' then word False ''false''
            else if hd b = CHR ''o'' \<or> hd b = CHR ''O''
            then (case bool_str_cmp b ''on'' of
                    Some b' \<Rightarrow> Inr (True, b')
                  | None \<Rightarrow> (case bool_str_cmp b ''off'' of
                              Some b' \<Rightarrow> Inr (False, b')
                            | None \<Rightarrow> Inl Range_Error))
            else Inl Range_Error))"

definition toBool :: "string \<Rightarrow> bool result" where
  "toBool src =
     res_bind (str_to_bool src) (\<lambda>(v, rest). res_bind (enforceWhitespace rest) (\<lambda>_. Inr v))"

section \<open>Integers to integers\<close>

text \<open>
  An integral type is a pair of signedness and width. The usual arithmetic
  conversions promote to \<^verbatim>\<open>int\<close> first; of two types of different signedness the unsigned one
  wins unless the signed one is wider.
\<close>

type_synonym ityp = "bool \<times> nat"

fun typeMin :: "ityp \<Rightarrow> int" where
  "typeMin (s, w) = (if s then - (2 ^ (w - 1)) else 0)"

fun typeMax :: "ityp \<Rightarrow> int" where
  "typeMax (s, w) = (if s then 2 ^ (w - 1) - 1 else 2 ^ w - 1)"

fun castTo :: "ityp \<Rightarrow> int \<Rightarrow> int" where
  "castTo (s, w) v = (if s then toSigned w v else v mod 2 ^ w)"

fun promote :: "ityp \<Rightarrow> ityp" where
  "promote (s, w) = (if w < 32 then (True, 32) else (s, w))"

fun commonOf :: "ityp \<Rightarrow> ityp \<Rightarrow> ityp" where
  "commonOf (s, w) (s', w') =
     (if s = s' then (s, max w w')
      else let ws = (if s then w else w'); wu = (if s then w' else w)
           in if ws \<le> wu then (False, wu) else (True, ws))"

definition common :: "ityp \<Rightarrow> ityp \<Rightarrow> ityp" where
  "common a b = commonOf (promote a) (promote b)"

text \<open>The comparison \<^verbatim>\<open>x <= y\<close> of values of two types.\<close>

definition cmpLe :: "ityp \<Rightarrow> int \<Rightarrow> ityp \<Rightarrow> int \<Rightarrow> bool" where
  "cmpLe a x b y \<longleftrightarrow> castTo (common a b) x \<le> castTo (common a b) y"

definition convertInt :: "ityp \<Rightarrow> ityp \<Rightarrow> int \<Rightarrow> int result" where
  "convertInt tgt src v =
     guard (\<not> cmpLe src (typeMax src) tgt (typeMax tgt) \<longrightarrow> cmpLe src v tgt (typeMax tgt)) Range_Error
       (guard (fst src \<and> (\<not> fst tgt \<or> snd src > snd tgt) \<longrightarrow> cmpLe tgt (typeMin tgt) src v) Range_Error
          (Inr (castTo tgt v)))"

section \<open>Anything to text\<close>

text \<open>
  The arguments of \<^verbatim>\<open>toAppend\<close>: a character, a null or a real string, an integer or an
  enumeration with its signedness and width.
\<close>

datatype arg = Char_Arg char | Null_Arg | Str_Arg string | Int_Arg bool nat int | Enum_Arg bool nat int

definition enumWidth :: "nat \<Rightarrow> nat" where
  "enumWidth w = (if w \<le> 32 then 32 else 64)"

definition appendInt :: "string \<Rightarrow> bool \<Rightarrow> int \<Rightarrow> string \<Rightarrow> string result" where
  "appendInt junk s v acc = (if s then appendSigned junk v acc else appendUnsigned junk (nat v) acc)"

fun toAppend :: "string \<Rightarrow> arg \<Rightarrow> string \<Rightarrow> string result" where
  "toAppend junk (Char_Arg c) acc = Inr (acc @ [c])"
| "toAppend junk Null_Arg acc = Inr acc"
| "toAppend junk (Str_Arg s) acc = Inr (acc @ s)"
| "toAppend junk (Int_Arg s w v) acc = appendInt junk s v acc"
| "toAppend junk (Enum_Arg s w v) acc = appendInt junk s v acc"

fun toAppendStrImpl :: "string \<Rightarrow> arg list \<Rightarrow> string \<Rightarrow> string result" where
  "toAppendStrImpl junk [] acc = Inr acc"
| "toAppendStrImpl junk (v # vs) acc = res_bind (toAppend junk v acc) (toAppendStrImpl junk vs)"

fun toAppendDelimStrImpl :: "string \<Rightarrow> arg \<Rightarrow> arg list \<Rightarrow> string \<Rightarrow> string result" where
  "toAppendDelimStrImpl junk delim [] acc = Inr acc"
| "toAppendDelimStrImpl junk delim [v] acc = toAppend junk v acc"
| "toAppendDelimStrImpl junk delim (v # v' # vs) acc =
     res_bind (toAppend junk v acc) (\<lambda>acc1.
       res_bind (toAppend junk delim acc1) (toAppendDelimStrImpl junk delim (v' # vs)))"

text \<open>
  The space that is reserved. The negation of the least value of a signed type of 32 or
  64 bits overflows. The target, a pointer to a string, counts as \<^verbatim>\<open>sizeof(Src) + 1\<close>:
  the overload for pointers to strings tests the trait \<^verbatim>\<open>std::remove_pointer<Src>\<close>
  itself and never applies.
\<close>

definition estimateSigned :: "nat \<Rightarrow> int \<Rightarrow> nat result" where
  "estimateSigned w v =
     (if v < 0
      then guard (v \<noteq> - (2 ^ (w - 1))) Undefined (res_bind (digits10 (nat (- v))) (\<lambda>n. Inr (1 + n)))
      else digits10 (nat v))"

definition estimateInt :: "bool \<Rightarrow> nat \<Rightarrow> int \<Rightarrow> nat result" where
  "estimateInt s w v = (if s then estimateSigned (if w < 32 then 64 else w) v else digits10 (nat v))"

fun estimateSpaceNeeded :: "arg \<Rightarrow> nat result" where
  "estimateSpaceNeeded (Char_Arg c) = Inr 1"
| "estimateSpaceNeeded Null_Arg = Inr 0"
| "estimateSpaceNeeded (Str_Arg s) = Inr (length s)"
| "estimateSpaceNeeded (Int_Arg s w v) = estimateInt s w v"
| "estimateSpaceNeeded (Enum_Arg s w v) = estimateInt s (enumWidth w) v"

fun estimateSpaceToReserve :: "nat \<Rightarrow> arg list \<Rightarrow> nat result" where
  "estimateSpaceToReserve sofar [] = Inr sofar"
| "estimateSpaceToReserve sofar (v # vs) =
     res_bind (estimateSpaceNeeded v) (\<lambda>n. estimateSpaceToReserve (sofar + n) vs)"

definition targetEstimate :: nat where
  "targetEstimate = 8 + 1"

definition reserveInTarget :: "arg list \<Rightarrow> nat result" where
  "reserveInTarget vs = res_bind (estimateSpaceToReserve 0 vs) (\<lambda>n. Inr (n + targetEstimate))"

definition reserveInTargetDelim :: "arg \<Rightarrow> arg list \<Rightarrow> nat result" where
  "reserveInTargetDelim d vs =
     res_bind (estimateSpaceToReserve 0 [d]) (\<lambda>k.
       res_bind (estimateSpaceToReserve ((length vs - 1) * k) vs) (\<lambda>n. Inr (n + targetEstimate)))"

definition toAppendFit :: "string \<Rightarrow> arg list \<Rightarrow> string \<Rightarrow> string result" where
  "toAppendFit junk vs acc =
     (if vs = [] then Inr acc else res_bind (reserveInTarget vs) (\<lambda>_. toAppendStrImpl junk vs acc))"

definition toAppendDelimFit :: "string \<Rightarrow> arg \<Rightarrow> arg list \<Rightarrow> string \<Rightarrow> string result" where
  "toAppendDelimFit junk delim vs acc =
     (if vs = [] then Inr acc
      else res_bind (reserveInTargetDelim delim vs) (\<lambda>_. toAppendDelimStrImpl junk delim vs acc))"

definition toText :: "string \<Rightarrow> arg list \<Rightarrow> string result" where
  "toText junk vs = toAppendFit junk vs []"

definition toDelim :: "string \<Rightarrow> arg \<Rightarrow> arg list \<Rightarrow> string result" where
  "toDelim junk delim vs = toAppendDelimFit junk delim vs []"

section \<open>Decimal notation\<close>

fun decimal :: "nat \<Rightarrow> string" where
  "decimal n = (if n < 10 then [digitChar n] else decimal (n div 10) @ [digitChar (n mod 10)])"

declare decimal.simps [simp del]

definition decVal :: "string \<Rightarrow> nat" where
  "decVal s = foldl (\<lambda>a c. 10 * a + digitVal c) 0 s"

lemma foldl_decVal: "foldl (\<lambda>a c. 10 * a + digitVal c) k s = k * 10 ^ length s + decVal s"
proof (induction s arbitrary: k)
  case (Cons c s)
  have "foldl (\<lambda>a c. 10 * a + digitVal c) (digitVal c) s = digitVal c * 10 ^ length s + decVal s" by (rule Cons.IH)
  then show ?case using Cons.IH [of "10 * k + digitVal c"]
    by (simp add: decVal_def algebra_simps)
qed (simp add: decVal_def)

lemma decVal_simps [simp]:
  "decVal [] = 0" "decVal (c # s) = digitVal c * 10 ^ length s + decVal s"
  "decVal (xs @ ys) = decVal xs * 10 ^ length ys + decVal ys"
  using foldl_decVal [of "digitVal c" s] foldl_decVal [of "decVal xs" ys]
  by (simp_all add: decVal_def)

lemma digitChar [simp]: "r < 10 \<Longrightarrow> isdigit (digitChar r) \<and> digitVal (digitChar r) = r"
  by (simp add: digitChar_def isdigit_def digitVal_def of_char_of)

lemma digitVal_less: "isdigit c \<Longrightarrow> digitVal c < 10"
  by (auto simp: isdigit_def digitVal_def)

lemma decimal_val: "decVal (decimal n) = n" "list_all isdigit (decimal n)"
proof (induction n rule: decimal.induct)
  case (1 n)
  show "decVal (decimal n) = n" using 1 by (cases "n < 10") (subst decimal.simps, simp)+
  show "list_all isdigit (decimal n)" using 1 by (cases "n < 10") (subst decimal.simps, simp)+
qed

lemma decimal_nonempty: "decimal n \<noteq> []"
  by (subst decimal.simps) simp

lemma decVal_less: "list_all isdigit s \<Longrightarrow> decVal s < 10 ^ length s"
proof (induction s)
  case (Cons c s)
  then have "digitVal c * 10 ^ length s + decVal s < digitVal c * 10 ^ length s + 10 ^ length s" by simp
  also have "\<dots> = (digitVal c + 1) * 10 ^ length s" by simp
  also have "\<dots> \<le> 10 * 10 ^ length s" using digitVal_less [of c] Cons.prems by (intro mult_le_mono1) simp
  finally show ?case by simp
qed simp

lemma decimal_length:
  assumes "10 ^ k \<le> n" "n < 10 ^ Suc k"
  shows "length (decimal n) = Suc k"
  using assms
proof (induction k arbitrary: n)
  case 0
  then show ?case by (subst decimal.simps) simp
next
  case (Suc k)
  have "10 ^ k \<le> n div 10" "n div 10 < 10 ^ Suc k" "10 \<le> n"
    using Suc.prems by (auto simp: less_eq_div_iff_mult_less_eq less_mult_imp_div_less intro: order_trans [rotated])
  then show ?case using Suc.IH [of "n div 10"] by (subst decimal.simps) simp
qed

section \<open>The number of digits\<close>

lemma highBit_spec: "0 < v \<Longrightarrow> 2 ^ highBit v \<le> v \<and> v < 2 ^ Suc (highBit v)"
proof (induction v rule: highBit.induct)
  case (1 v)
  show ?case
  proof (cases "v < 2")
    case True
    then show ?thesis using 1(2) by (subst (1 2) highBit.simps) simp
  next
    case False
    then have "2 ^ highBit (v div 2) \<le> v div 2 \<and> v div 2 < 2 ^ Suc (highBit (v div 2))" using 1(1) by simp
    moreover have "highBit v = Suc (highBit (v div 2))" using False by (subst highBit.simps) simp
    ultimately show ?thesis by auto
  qed
qed

text \<open>The estimate of the length is right or one too small, for each of the 64 positions of the highest bit.\<close>

lemma estimate:
  assumes "bits < 64"
  shows "bits * 77 div 256 + 1 < 20 \<and> 10 ^ (bits * 77 div 256) \<le> (2 :: nat) ^ bits \<and>
    (2 :: nat) ^ Suc bits \<le> 10 ^ (bits * 77 div 256 + 2) \<and>
    powersOf10 ! (bits * 77 div 256 + 1) = 10 ^ (bits * 77 div 256 + 1)"
proof -
  have "list_all (\<lambda>bits. bits * 77 div 256 + 1 < 20 \<and> 10 ^ (bits * 77 div 256) \<le> (2 :: nat) ^ bits \<and>
    (2 :: nat) ^ Suc bits \<le> 10 ^ (bits * 77 div 256 + 2) \<and>
    powersOf10 ! (bits * 77 div 256 + 1) = 10 ^ (bits * 77 div 256 + 1)) [0..<64]"
    by (simp add: upt_conv_Cons powersOf10_def)
  then show ?thesis using assms by (simp add: list_all_iff)
qed

lemma digits10_spec:
  assumes "v < 2 ^ 64"
  shows "digits10 v = Inr (length (decimal v)) \<and> length (decimal v) \<le> 20"
proof (cases "v = 0")
  case True
  then show ?thesis by (simp add: digits10_def decimal.simps)
next
  case False
  let ?k = "highBit v * 77 div 256"
  have h: "2 ^ highBit v \<le> v" "v < 2 ^ Suc (highBit v)" using highBit_spec [of v] False by auto
  have "(2 :: nat) ^ highBit v < 2 ^ 64" using h(1) assms by (rule le_less_trans)
  then have "highBit v < 64" by (rule power_less_imp_less_exp [rotated]) simp
  note e = estimate [OF this]
  have len: "length powersOf10 = 20" by (simp add: powersOf10_def)
  have d: "digits10 v = Inr (?k + 1 + (if v \<ge> 10 ^ (?k + 1) then 1 else 0))"
    using False e len by (simp add: digits10_def Let_def guard_def)
  show ?thesis
  proof (cases "10 ^ (?k + 1) \<le> v")
    case True
    have "v < 10 ^ Suc (?k + 1)" using h(2) e by simp
    then show ?thesis using decimal_length [of "?k + 1" v] True d e by simp
  next
    case False
    have "10 ^ ?k \<le> v" using h(1) e by simp
    then show ?thesis using decimal_length [of ?k v] False d e by simp
  qed
qed

lemma toBufferLoop_spec:
  "length (decimal v) = Suc pos \<Longrightarrow> pos < length buf \<Longrightarrow>
     toBufferLoop v pos buf = Inr (decimal v @ drop (Suc pos) buf)"
proof (induction v pos buf rule: toBufferLoop.induct)
  case (1 v pos buf)
  show ?case
  proof (cases "v \<ge> 10")
    case True
    then have dec: "decimal v = decimal (v div 10) @ [digitChar (v mod 10)]" by (subst decimal.simps) simp
    then have len: "length (decimal (v div 10)) = pos" using 1(2) by simp
    then have pos: "pos \<noteq> 0" using decimal_nonempty [of "v div 10"] by auto
    have "toBufferLoop (v div 10) (pos - 1) (buf[pos := digitChar (v mod 10)]) =
      Inr (decimal (v div 10) @ drop pos (buf[pos := digitChar (v mod 10)]))"
      using 1(1) [OF True] 1(3) len pos by simp
    moreover have "drop pos (buf[pos := digitChar (v mod 10)]) = digitChar (v mod 10) # drop (Suc pos) buf"
      using Cons_nth_drop_Suc [of pos "buf[pos := digitChar (v mod 10)]"] 1(3) by simp
    ultimately show ?thesis using True pos 1(3) dec by (subst toBufferLoop.simps) (simp add: guard_def)
  next
    case False
    then have "decimal v = [digitChar v]" "pos = 0" using 1(2) by (auto simp: decimal.simps)
    then show ?thesis using False 1(3) by (subst toBufferLoop.simps) (cases buf, auto simp: guard_def)
  qed
qed

lemma appendUnsigned_spec:
  assumes "v < 2 ^ 64" "length junk = 20"
  shows "uint64ToBufferUnsafe v junk = Inr (length (decimal v), decimal v @ drop (length (decimal v)) junk)"
    and "appendUnsigned junk v acc = Inr (acc @ decimal v)"
proof -
  obtain k where k: "length (decimal v) = Suc k" using decimal_nonempty [of v] by (cases "decimal v") auto
  have d: "digits10 v = Inr (length (decimal v))" "length (decimal v) \<le> 20" using digits10_spec [OF assms(1)] by auto
  then show *: "uint64ToBufferUnsafe v junk = Inr (length (decimal v), decimal v @ drop (length (decimal v)) junk)"
    using toBufferLoop_spec [OF k, of junk] k assms(2) by (simp add: uint64ToBufferUnsafe_def)
  then show "appendUnsigned junk v acc = Inr (acc @ decimal v)" by (simp add: appendUnsigned_def)
qed

definition inRange :: "bool \<Rightarrow> nat \<Rightarrow> int \<Rightarrow> bool" where
  "inRange signed1 w v \<longleftrightarrow> (if signed1 then - (2 ^ (w - 1)) \<le> v \<and> v < 2 ^ (w - 1) else 0 \<le> v \<and> v < 2 ^ w)"

definition showInt :: "int \<Rightarrow> string" where
  "showInt v = (if v < 0 then ''-'' else []) @ decimal (nat \<bar>v\<bar>)"

lemma appendSigned_spec:
  assumes "- (2 ^ 63) \<le> v" "v < 2 ^ 63" "length junk = 20"
  shows "appendSigned junk v acc = Inr (acc @ showInt v)"
proof (cases "v < 0")
  case True
  have "- (v mod 2 ^ 64) mod 2 ^ 64 = (- v) mod 2 ^ 64" by (simp add: mod_minus_eq)
  also have "\<dots> = - v" using True assms(1) by (intro mod_pos_pos_trivial) simp_all
  finally have "nat (- (v mod 2 ^ 64) mod 2 ^ 64) = nat \<bar>v\<bar>" using True by simp
  moreover have "nat \<bar>v\<bar> < 2 ^ 64" using assms(1) True by simp
  ultimately show ?thesis using True appendUnsigned_spec(1) [of "nat \<bar>v\<bar>" junk] assms(3)
    by (simp add: appendSigned_def showInt_def)
next
  case False
  then show ?thesis using appendUnsigned_spec(2) [of "nat v" junk acc] assms
    by (simp add: appendSigned_def showInt_def)
qed

section \<open>Reading digits\<close>

definition width :: "nat \<Rightarrow> bool" where
  "width w \<longleftrightarrow> w = 8 \<or> w = 16 \<or> w = 32 \<or> w = 64"

lemma width_limits:
  assumes "width w"
  shows "10 ^ limitDigits w \<le> (2 :: nat) ^ w" "(2 :: nat) ^ w \<le> 10 ^ (limitDigits w + 1)"
    "decVal (maxString w) = 2 ^ w - 1" "length (maxString w) = limitDigits w + 1" "list_all isdigit (maxString w)"
  using assms by (auto simp: width_def limitDigits_def maxString_def isdigit_def digitVal_def)

lemma shiftSum_digits:
  assumes "list_all isdigit cs" "length ks = length cs" "sum_list (map2 (\<lambda>k c. k * digitVal c) ks cs) < 10000"
  shows "shiftSum ks cs = Inr (sum_list (map2 (\<lambda>k c. k * digitVal c) ks cs))"
proof -
  have "map2 shiftTable ks cs = map2 (\<lambda>k c. k * digitVal c) ks cs"
    using assms(1) by (auto simp: shiftTable_def list_all_iff dest: set_zip_rightD)
  then have "sum_list (map2 shiftTable ks cs) = sum_list (map2 (\<lambda>k c. k * digitVal c) ks cs)" by (rule arg_cong)
  moreover have "\<forall>c \<in> set cs. (of_char c :: nat) < 128" using assms(1) by (auto simp: list_all_iff isdigit_def)
  ultimately show ?thesis using assms(3) by (simp add: shiftSum_def guard_def Let_def)
qed

lemma digitsLoop_spec:
  "list_all isdigit s \<Longrightarrow> r < 2 ^ w \<Longrightarrow> digitsLoop w r s = Inr ((r * 10 ^ length s + decVal s) mod 2 ^ w)"
proof (induction w r s rule: digitsLoop.induct)
  case (1 w r a b c d cs)
  let ?s = "decVal [a, b, c, d]"
  have digits: "digitVal a < 10" "digitVal b < 10" "digitVal c < 10" "digitVal d < 10"
    using 1(2) digitVal_less by auto
  then have "shiftSum [1000, 100, 10, 1] [a, b, c, d] = Inr ?s"
    using 1(2) by (subst shiftSum_digits) auto
  then have "digitsLoop w r (a # b # c # d # cs) = digitsLoop w ((r * 10000 mod 2 ^ w + ?s) mod 2 ^ w) cs" by simp
  also have "\<dots> = Inr (((r * 10000 mod 2 ^ w + ?s) mod 2 ^ w * 10 ^ length cs + decVal cs) mod 2 ^ w)"
    using 1 by simp
  also have "((r * 10000 mod 2 ^ w + ?s) mod 2 ^ w * 10 ^ length cs + decVal cs) mod 2 ^ w =
    ((r * 10000 + ?s) * 10 ^ length cs + decVal cs) mod 2 ^ w"
    by (metis mod_add_left_eq mod_mult_left_eq)
  also have "(r * 10000 + ?s) * 10 ^ length cs + decVal cs = r * 10 ^ length (a # b # c # d # cs) + decVal (a # b # c # d # cs)"
    by (simp add: algebra_simps)
  finally show ?case .
next
  case (2 w r a b c)
  then have "digitVal a < 10" "digitVal b < 10" "digitVal c < 10" using digitVal_less by auto
  then have "shiftSum [100, 10, 1] [a, b, c] = Inr (decVal [a, b, c])" using 2 by (subst shiftSum_digits) auto
  then show ?case by simp
next
  case (3 w r a b)
  then have "digitVal a < 10" "digitVal b < 10" using digitVal_less by auto
  then have "shiftSum [10, 1] [a, b] = Inr (decVal [a, b])" using 3 by (subst shiftSum_digits) auto
  then show ?case by simp
next
  case (4 w r a)
  then have "digitVal a < 10" using digitVal_less by auto
  then have "shiftSum [1] [a] = Inr (decVal [a])" using 4 by (subst shiftSum_digits) auto
  then show ?case by simp
qed simp

lemma strLe_decVal:
  "list_all isdigit xs \<Longrightarrow> list_all isdigit ys \<Longrightarrow> length xs = length ys \<Longrightarrow> strLe xs ys \<longleftrightarrow> decVal xs \<le> decVal ys"
proof (induction xs ys rule: strLe.induct)
  case (1 x xs y ys)
  have b: "decVal xs < 10 ^ length xs" "decVal ys < 10 ^ length xs" using 1 decVal_less [of xs] decVal_less [of ys] by auto
  have cmp: "(of_char x :: nat) < of_char y \<longleftrightarrow> digitVal x < digitVal y" "(of_char x :: nat) = of_char y \<longleftrightarrow> digitVal x = digitVal y"
    using 1(2,3) by (auto simp: isdigit_def digitVal_def eq_diff_iff)
  have step: "m * 10 ^ length xs + 10 ^ length xs \<le> n * 10 ^ length xs" if "m < n" for m n :: nat
  proof -
    have "(m + 1) * 10 ^ length xs \<le> n * 10 ^ length xs" using that by (intro mult_le_mono1) simp
    then show ?thesis by simp
  qed
  consider "digitVal x < digitVal y" | "digitVal x = digitVal y" | "digitVal y < digitVal x" by linarith
  then show ?case
  proof cases
    case 1
    then show ?thesis using step [of "digitVal x" "digitVal y"] b \<open>length (x # xs) = length (y # ys)\<close> cmp by simp
  next
    case 2
    then show ?thesis using 1 cmp by simp
  next
    case 3
    then show ?thesis using step [of "digitVal y" "digitVal x"] b \<open>length (x # xs) = length (y # ys)\<close> cmp by simp
  qed
qed auto

lemma decVal_dropWhile: "decVal (dropWhile (\<lambda>c. c = CHR ''0'') s) = decVal s"
proof -
  have "digitVal CHR ''0'' = 0" by (simp add: digitVal_def)
  then show ?thesis by (induction s) auto
qed

lemma decVal_zeros: "s \<noteq> [] \<Longrightarrow> hd s = CHR ''0'' \<Longrightarrow> decVal (tl s) = decVal s"
  by (cases s) (simp_all add: digitVal_def)

lemma leading_digit:
  assumes "list_all isdigit s" "s \<noteq> []" "hd s \<noteq> CHR ''0''"
  shows "10 ^ (length s - 1) \<le> decVal s"
proof (cases s)
  case (Cons c t)
  have "(of_char c :: nat) \<noteq> of_char CHR ''0''" using assms(3) Cons by (metis list.sel(1) char_of_char)
  then have "1 \<le> digitVal c" using assms(1) Cons by (auto simp: isdigit_def digitVal_def)
  then have "1 * 10 ^ length t \<le> digitVal c * 10 ^ length t" by (rule mult_le_mono1)
  then have "10 ^ length t \<le> digitVal c * 10 ^ length t + decVal t" by linarith
  then show ?thesis using Cons by simp
qed (use assms in simp)

lemma digits_to_unfold:
  "length s < limitDigits w + 1 \<Longrightarrow> s \<noteq> [] \<Longrightarrow> digits_to w s = digitsLoop w 0 s"
  "limitDigits w + 1 \<le> length s \<Longrightarrow> hd s = CHR ''0'' \<Longrightarrow> digits_to w s =
     (if dropWhile (\<lambda>c. c = CHR ''0'') (tl s) = [] then Inr 0 else digits_to w (dropWhile (\<lambda>c. c = CHR ''0'') (tl s)))"
  "limitDigits w + 1 \<le> length s \<Longrightarrow> hd s \<noteq> CHR ''0'' \<Longrightarrow> digits_to w s =
     (if length s = limitDigits w + 1 \<and> strLe s (maxString w) then digitsLoop w 0 s else Inl Range_Error)"
  by (simp_all add: digits_to.simps [of w s] Let_def del: dropWhile_eq_Nil_conv) (auto simp del: dropWhile_eq_Nil_conv)

lemma digits_to_no_zero:
  assumes w: "width w" and d: "list_all isdigit s" "s \<noteq> []" and z: "hd s \<noteq> CHR ''0''" and l: "limitDigits w + 1 \<le> length s"
  shows "digits_to w s = (if decVal s < 2 ^ w then Inr (decVal s) else Inl Range_Error)"
proof (cases "length s = limitDigits w + 1")
  case True
  have "strLe s (maxString w) \<longleftrightarrow> decVal s < 2 ^ w"
    using strLe_decVal [OF d(1) width_limits(5) [OF w]] width_limits(3,4) [OF w] True
    by (simp add: le_diff_conv2 less_eq_Suc_le)
  then show ?thesis using digits_to_unfold(3) [OF l z] True digitsLoop_spec [OF d(1), of 0 w] by simp
next
  case False
  have "(2 :: nat) ^ w \<le> 10 ^ (limitDigits w + 1)" by (rule width_limits(2) [OF w])
  also have "\<dots> \<le> 10 ^ (length s - 1)" using False l by (intro power_increasing) simp_all
  also have "\<dots> \<le> decVal s" by (rule leading_digit [OF d z])
  finally show ?thesis using digits_to_unfold(3) [OF l z] False by simp
qed

lemma digits_to_short:
  assumes "width w" "list_all isdigit s" "s \<noteq> []" "length s < limitDigits w + 1"
  shows "digits_to w s = Inr (decVal s) \<and> decVal s < 2 ^ w"
proof -
  have "decVal s < 10 ^ length s" by (rule decVal_less [OF assms(2)])
  also have "\<dots> \<le> 10 ^ limitDigits w" using assms(4) by (intro power_increasing) simp_all
  also have "\<dots> \<le> 2 ^ w" by (rule width_limits(1) [OF assms(1)])
  finally show ?thesis using digits_to_unfold(1) [OF assms(4,3)] digitsLoop_spec [OF assms(2), of 0 w] by simp
qed

lemma digits_to_spec:
  assumes "width w" "list_all isdigit s" "s \<noteq> []"
  shows "digits_to w s = (if decVal s < 2 ^ w then Inr (decVal s) else Inl Range_Error)"
proof (cases "length s < limitDigits w + 1")
  case True
  then show ?thesis using digits_to_short [OF assms] by simp
next
  case long: False
  show ?thesis
  proof (cases "hd s = CHR ''0''")
    case False
    then show ?thesis using digits_to_no_zero [OF assms] long by simp
  next
    case True
    let ?t = "dropWhile (\<lambda>c. c = CHR ''0'') (tl s)"
    have val: "decVal ?t = decVal s" using decVal_dropWhile [of "tl s"] decVal_zeros [OF assms(3) True] by simp
    have dig: "list_all isdigit ?t" using assms(2)
      by (auto simp: list_all_iff dest!: set_dropWhileD dest: list.set_sel(2) [OF assms(3)])
    have step: "digits_to w s = (if ?t = [] then Inr 0 else digits_to w ?t)"
      using digits_to_unfold(2) [of w s] long True by simp
    show ?thesis
    proof (cases "?t = []")
      case True
      then have "decVal ?t = 0" by (simp only: decVal_simps)
      then show ?thesis using step val True by (simp del: dropWhile_eq_Nil_conv)
    next
      case False
      then have "hd ?t \<noteq> CHR ''0''" by (rule hd_dropWhile)
      then have "digits_to w ?t = (if decVal ?t < 2 ^ w then Inr (decVal ?t) else Inl Range_Error)"
        using digits_to_no_zero [OF assms(1) dig False] digits_to_short [OF assms(1) dig False]
        by (cases "length ?t < limitDigits w + 1") (simp_all del: dropWhile_eq_Nil_conv)
      then show ?thesis using step False val by (simp del: dropWhile_eq_Nil_conv)
    qed
  qed
qed

section \<open>Reading integers\<close>

text \<open>The value of a text of an optional sign and digits, and the texts that the conversion accepts.\<close>

definition signVal :: "string \<Rightarrow> int" where
  "signVal sg = (if sg = ''-'' then - 1 else 1)"

lemma digit_facts: "isdigit c \<Longrightarrow> \<not> isspace c \<and> c \<noteq> CHR ''-'' \<and> c \<noteq> CHR ''+''"
  by (auto simp: isdigit_def isspace_def)

lemma toSigned_range:
  assumes "0 < w" "0 \<le> v" "v < 2 ^ w"
  shows "toSigned w v = (if v < 2 ^ (w - 1) then v else v - 2 ^ w)"
    "toSigned w (- v) = (if v \<le> 2 ^ (w - 1) then - v else 2 ^ w - v)"
proof -
  have p: "(2 :: int) ^ w = 2 * 2 ^ (w - 1)" using assms(1) by (metis power_eq_if not_gr_zero)
  show "toSigned w v = (if v < 2 ^ (w - 1) then v else v - 2 ^ w)"
    using assms by (simp add: toSigned_def Let_def)
  show "toSigned w (- v) = (if v \<le> 2 ^ (w - 1) then - v else 2 ^ w - v)"
  proof (cases "v = 0")
    case False
    have "(- v) mod 2 ^ w = 2 ^ w - v" using assms False by (simp add: zmod_zminus1_eq_if)
    then show ?thesis using p by (auto simp: toSigned_def Let_def)
  qed (simp add: toSigned_def)
qed

lemma parseIntegral_spec:
  assumes w: "width w" and sg: "sg \<in> {'''', ''-'', ''+''}" "\<not> signed1 \<longrightarrow> sg = ''''"
    and ws: "list_all isspace ws" and ds: "list_all isdigit ds" "ds \<noteq> []"
    and rest: "rest \<noteq> [] \<longrightarrow> \<not> isdigit (hd rest)"
  shows "parseIntegral signed1 w (ws @ sg @ ds @ rest) =
    (if inRange signed1 w (signVal sg * int (decVal ds)) then Inr (signVal sg * int (decVal ds), rest) else Inl Range_Error)"
proof -
  obtain c t where c: "ds = c # t" "isdigit c" "list_all isdigit t" using ds by (cases ds) auto
  have drop: "dropWhile isspace (ws @ sg @ ds @ rest) = sg @ ds @ rest"
  proof -
    have "\<not> isspace (hd (sg @ ds @ rest))" using sg(1) c digit_facts [of c] by (auto simp: isspace_def)
    then have "dropWhile isspace (sg @ ds @ rest) = sg @ ds @ rest" using c(1) by (cases "sg @ ds @ rest") auto
    then show ?thesis using ws by (induction ws) auto
  qed
  have split: "takeWhile isdigit (t @ rest) = t \<and> dropWhile isdigit (t @ rest) = rest"
  proof -
    have "takeWhile isdigit rest = [] \<and> dropWhile isdigit rest = rest" using rest by (cases rest) auto
    then show ?thesis using c(3) by (induction t) auto
  qed
  have nd: "\<not> isdigit CHR ''-''" "\<not> isdigit CHR ''+''" by (auto simp: isdigit_def)
  have pos: "0 < w" using w by (auto simp: width_def)
  have p: "(2 :: int) ^ w = 2 * 2 ^ (w - 1)" using pos by (metis power_eq_if not_gr_zero)
  have lt: "decVal ds < 2 ^ w \<longleftrightarrow> int (decVal ds) < 2 ^ w" by (metis of_nat_less_iff of_nat_numeral of_nat_power)
  note dt = digits_to_spec [OF w ds, unfolded c(1)]
  have parse: "parseIntegral signed1 w (ws @ sg @ ds @ rest) = res_bind (digits_to w ds) (\<lambda>t.
    if \<not> signed1 then Inr (int t, rest)
    else if sg = ''-'' then let r = toSigned w (- int t) in guard (r \<le> 0) Range_Error (Inr (r, rest))
    else let r = toSigned w (int t) in guard (r \<ge> 0) Range_Error (Inr (r, rest)))"
    using sg c nd split drop digit_facts [OF c(2)] unfolding parseIntegral_def drop
    by (cases "digits_to w (c # t)"; elim insertE emptyE) (simp_all add: Let_def guard_def)
  show ?thesis
  proof (cases "decVal ds < 2 ^ w")
    case False
    then have "\<not> inRange signed1 w (signVal sg * int (decVal ds))"
      using lt p unfolding inRange_def signVal_def by (simp only: split: if_split) linarith
    then show ?thesis unfolding parse digits_to_spec [OF w ds] using False by simp
  next
    case True
    note ts = toSigned_range [OF pos _ True [unfolded lt]]
    show ?thesis unfolding parse digits_to_spec [OF w ds] using True sg ts p lt
      by (cases signed1) (simp_all add: Let_def guard_def inRange_def signVal_def)
  qed
qed

lemma toIntegral_spec:
  assumes w: "width w" and sg: "sg \<in> {'''', ''-'', ''+''}" "\<not> signed1 \<longrightarrow> sg = ''''"
    and ws: "list_all isspace ws" "list_all isspace ws'" and ds: "list_all isdigit ds" "ds \<noteq> []"
  shows "toIntegral signed1 w (ws @ sg @ ds @ ws') =
    (if inRange signed1 w (signVal sg * int (decVal ds)) then Inr (signVal sg * int (decVal ds)) else Inl Range_Error)"
proof -
  have rest: "ws' \<noteq> [] \<longrightarrow> \<not> isdigit (hd ws')" using ws(2) digit_facts by (cases ws') auto
  show ?thesis unfolding toIntegral_def parseIntegral_spec [OF w sg ws(1) ds rest]
    using ws(2) by (simp add: enforceWhitespace_def)
qed

text \<open>Whatever is accepted has this shape.\<close>

lemma toIntegral_shape:
  assumes "toIntegral signed1 w src = Inr v"
  obtains ws sg ds ws' where "src = ws @ sg @ ds @ ws'" "list_all isspace ws" "list_all isspace ws'"
    "list_all isdigit ds" "ds \<noteq> []" "sg \<in> {'''', ''-'', ''+''}" "\<not> signed1 \<longrightarrow> sg = ''''"
proof -
  define b sign where "b = dropWhile isspace src" and "sign \<longleftrightarrow> signed1 \<and> \<not> isdigit (hd b)"
  define m where "m = (if sign then tl b else b)"
  obtain r rest where p: "parseIntegral signed1 w src = Inr (r, rest)" "list_all isspace rest"
    using assms by (auto simp: toIntegral_def enforceWhitespace_def res_bind_eq_Inr guard_eq_Inr)
  then obtain t where b: "b \<noteq> []" "sign \<longrightarrow> hd b = CHR ''-'' \<or> hd b = CHR ''+''" "m \<noteq> []" "isdigit (hd m)"
    and t: "(if \<not> signed1 then Inr (int t, dropWhile isdigit (tl m))
      else if sign \<and> hd b = CHR ''-''
      then guard (toSigned w (- int t) \<le> 0) Range_Error (Inr (toSigned w (- int t), dropWhile isdigit (tl m)))
      else guard (toSigned w (int t) \<ge> 0) Range_Error (Inr (toSigned w (int t), dropWhile isdigit (tl m)))) = Inr (r, rest)"
    unfolding parseIntegral_def Let_def res_bind_eq_Inr guard_eq_Inr
      b_def [symmetric] sign_def [symmetric] m_def [symmetric] by blast
  have r: "rest = dropWhile isdigit (tl m)"
    using t by (cases signed1; cases "sign \<and> hd b = CHR ''-''") (simp_all add: guard_eq_Inr)
  have m: "m = (hd m # takeWhile isdigit (tl m)) @ rest" using b(3) r by (cases m) simp_all
  have "b = (if sign then [hd b] else []) @ m" using b(1) by (simp add: m_def)
  moreover have "src = takeWhile isspace src @ b" by (simp add: b_def)
  ultimately have src: "src = takeWhile isspace src @ (if sign then [hd b] else []) @ (hd m # takeWhile isdigit (tl m)) @ rest"
    using m by metis
  have ds: "list_all isdigit (hd m # takeWhile isdigit (tl m))" using b(4) by (auto simp: list_all_iff dest: set_takeWhileD)
  have ws: "list_all isspace (takeWhile isspace src)" by (auto simp: list_all_iff dest: set_takeWhileD)
  show ?thesis by (rule that [OF src ws p(2) ds]) (use b(2) in \<open>auto simp: sign_def\<close>)
qed

section \<open>Any argument to text\<close>

fun validArg :: "arg \<Rightarrow> bool" where
  "validArg (Int_Arg s w v) \<longleftrightarrow> width w \<and> inRange s w v"
| "validArg (Enum_Arg s w v) \<longleftrightarrow> width w \<and> inRange s w v"
| "validArg _ \<longleftrightarrow> True"

text \<open>The arguments whose space cannot be estimated: the least values of the types of 32 and 64 bits.\<close>

fun leastArg :: "arg \<Rightarrow> bool" where
  "leastArg (Int_Arg s w v) \<longleftrightarrow> s \<and> 32 \<le> w \<and> v = - (2 ^ (w - 1))"
| "leastArg (Enum_Arg s w v) \<longleftrightarrow> s \<and> v = - (2 ^ (enumWidth w - 1))"
| "leastArg _ \<longleftrightarrow> False"

fun argText :: "arg \<Rightarrow> string" where
  "argText (Char_Arg c) = [c]"
| "argText Null_Arg = ''''"
| "argText (Str_Arg s) = s"
| "argText (Int_Arg s w v) = showInt v"
| "argText (Enum_Arg s w v) = showInt v"

fun separated :: "arg \<Rightarrow> arg list \<Rightarrow> arg list" where
  "separated d (v # v' # vs) = v # d # separated d (v' # vs)"
| "separated d vs = vs"

lemma inRange_64:
  assumes "width w" "inRange s w v"
  shows "if s then - (2 ^ 63) \<le> v \<and> v < 2 ^ 63 else 0 \<le> v \<and> v < 2 ^ 64"
  using assms by (auto simp: width_def inRange_def)

lemma append_int:
  assumes "width w" "inRange s w v" "length junk = 20"
  shows "appendInt junk s v acc = Inr (acc @ showInt v)"
proof (cases s)
  case True
  then show ?thesis using inRange_64 [OF assms(1,2)] appendSigned_spec [OF _ _ assms(3)] by (simp add: appendInt_def)
next
  case False
  then have v: "0 \<le> v" "v < 2 ^ 64" using inRange_64 [OF assms(1,2)] by auto
  then have "nat v < 2 ^ 64" by (simp add: nat_less_iff)
  then show ?thesis using appendUnsigned_spec(2) [OF _ assms(3)] False v by (simp add: appendInt_def showInt_def)
qed

lemma toAppend_spec: "validArg a \<Longrightarrow> length junk = 20 \<Longrightarrow> toAppend junk a acc = Inr (acc @ argText a)"
  by (cases a) (auto simp: append_int)

lemma toAppendStrImpl_spec:
  "list_all validArg vs \<Longrightarrow> length junk = 20 \<Longrightarrow>
     toAppendStrImpl junk vs acc = Inr (acc @ concat (map argText vs))"
  by (induction vs arbitrary: acc) (simp_all add: toAppend_spec)

lemma toAppendDelim_separated: "toAppendDelimStrImpl junk d vs acc = toAppendStrImpl junk (separated d vs) acc"
proof (induction d vs arbitrary: acc rule: separated.induct, goal_cases)
  case (1 d v v' vs acc)
  then have "toAppendDelimStrImpl junk d (v' # vs) = toAppendStrImpl junk (separated d (v' # vs))" by (rule ext)
  then show ?case by (cases "toAppend junk v acc") simp_all
next
  case (3 d v acc)
  then show ?case by (cases "toAppend junk v acc") simp_all
qed simp

lemma estimateSigned_spec:
  assumes "- (2 ^ 63) \<le> v" "v < 2 ^ 63"
  shows "estimateSigned w v = (if v = - (2 ^ (w - 1)) then Inl Undefined else Inr (length (showInt v)))"
proof (cases "v < 0")
  case True
  have "nat (- v) < 2 ^ 64" using assms True by simp
  from digits10_spec [OF this] show ?thesis using True by (simp add: estimateSigned_def showInt_def)
next
  case False
  have "nat v < 2 ^ 64" using assms False by simp
  moreover have "v \<noteq> - (2 ^ (w - 1))" using False by (smt (verit) zero_less_power)
  ultimately show ?thesis using digits10_spec [of "nat v"] False by (simp add: estimateSigned_def showInt_def)
qed

lemma estimate_int:
  assumes "width w" "inRange s w v" "32 \<le> w' \<or> w < 32"
  shows "estimateInt s w' v =
    (if s \<and> 32 \<le> w' \<and> v = - (2 ^ (w' - 1)) then Inl Undefined else Inr (length (showInt v)))"
proof (cases s)
  case True
  have b: "- (2 ^ 63) \<le> v" "v < 2 ^ 63" using inRange_64 [OF assms(1,2)] True by auto
  have "w' < 32 \<Longrightarrow> v \<noteq> - (2 ^ 63)" using assms True by (auto simp: width_def inRange_def)
  then show ?thesis using estimateSigned_spec [OF b] True by (auto simp: estimateInt_def)
next
  case False
  then have v: "0 \<le> v" "v < 2 ^ 64" using inRange_64 [OF assms(1,2)] by auto
  then have "nat v < 2 ^ 64" by (simp add: nat_less_iff)
  then show ?thesis using digits10_spec [of "nat v"] False v by (simp add: estimateInt_def showInt_def)
qed

lemma estimateSpaceNeeded_spec:
  assumes "validArg a"
  shows "estimateSpaceNeeded a = (if leastArg a then Inl Undefined else Inr (length (argText a)))"
proof (cases a)
  case (Int_Arg s w v)
  then show ?thesis using assms estimate_int [of w s v w] by (cases "32 \<le> w") auto
next
  case (Enum_Arg s w v)
  have "32 \<le> enumWidth w" by (simp add: enumWidth_def)
  then show ?thesis using Enum_Arg assms estimate_int [of w s v "enumWidth w"]
    by simp
qed (simp_all)

lemma estimateSpaceToReserve_spec:
  "list_all validArg vs \<Longrightarrow> estimateSpaceToReserve k vs =
     (if list_ex leastArg vs then Inl Undefined else Inr (k + length (concat (map argText vs))))"
  by (induction vs arbitrary: k) (simp_all add: estimateSpaceNeeded_spec)

lemma separated_all [simp]:
  "P d \<Longrightarrow> list_all P (separated d vs) \<longleftrightarrow> list_all P vs"
  by (induction d vs rule: separated.induct) auto

text \<open>
  \<^verbatim>\<open>to<std::string>(v1, v2, ...)\<close> of arguments that fit their types gives the
  concatenation of their texts, decimal with a leading minus for integers, and the
  space that is reserved for it is enough; but where one of them is the least value of
  a signed type of 32 or 64 bits, the estimate of the space overflows and the call is
  undefined.
\<close>

theorem to_string_text:
  assumes "list_all validArg vs" "length junk = 20"
  shows "toText junk vs = (if list_ex leastArg vs then Inl Undefined else Inr (concat (map argText vs))) \<and>
    (\<forall>n. reserveInTarget vs = Inr n \<longrightarrow> n = length (concat (map argText vs)) + targetEstimate)"
  using estimateSpaceToReserve_spec [OF assms(1), of 0] toAppendStrImpl_spec [OF assms]
  by (cases vs) (auto simp: toText_def toAppendFit_def reserveInTarget_def)

theorem to_string_text_witness:
  "toText (replicate 20 CHR ''?'') [Str_Arg ''x='', Int_Arg True 32 (- 17), Char_Arg CHR '';''] = Inr ''x=-17;'' \<and>
   toText (replicate 20 CHR ''?'') [Int_Arg True 32 (- 2147483648)] = Inl Undefined"
proof -
  have d: "decimal 17 = ''17''" by code_simp
  show ?thesis
    using to_string_text [of "[Str_Arg ''x='', Int_Arg True 32 (- 17), Char_Arg CHR '';'']" "replicate 20 CHR ''?''"]
      to_string_text [of "[Int_Arg True 32 (- 2147483648)]" "replicate 20 CHR ''?''"] d
    by (simp add: width_def inRange_def showInt_def)
qed

lemma toDelim_text:
  assumes "list_all validArg vs" "validArg d" "\<not> list_ex leastArg vs" "\<not> leastArg d" "length junk = 20"
  shows "toDelim junk d vs = Inr (concat (map argText (separated d vs)))"
proof (cases vs)
  case (Cons v vs')
  have "\<exists>n. reserveInTargetDelim d vs = Inr n"
    using assms estimateSpaceToReserve_spec [OF assms(1)] estimateSpaceNeeded_spec [OF assms(2)]
    by (simp add: reserveInTargetDelim_def)
  then show ?thesis using Cons assms toAppendStrImpl_spec [of "separated d vs" junk "[]"]
    by (auto simp: toDelim_def toAppendDelimFit_def toAppendDelim_separated)
qed (simp add: toDelim_def toAppendDelimFit_def)

section \<open>The conversions and their inverses\<close>

lemma decimal_read:
  assumes "width w" "inRange s w v" "list_all isspace ws" "list_all isspace ws'"
  shows "toIntegral s w (ws @ showInt v @ ws') = Inr v"
proof -
  let ?sg = "if v < 0 then ''-'' else ''''"
  have "signVal ?sg * int (decVal (decimal (nat \<bar>v\<bar>))) = v" by (simp add: signVal_def decimal_val)
  moreover have "\<not> s \<longrightarrow> ?sg = ''''" using assms(2) by (cases s) (auto simp: inRange_def)
  ultimately show ?thesis
    using toIntegral_spec [OF assms(1) _ _ assms(3,4) decimal_val(2) decimal_nonempty, of ?sg s "nat \<bar>v\<bar>"] assms(2)
    by (simp add: showInt_def)
qed

text \<open>
  C28: Reading back what was written gives the same integer: for every type of 8 to 64
  bits, signed or not, and every value of it, \<^verbatim>\<open>toAppend\<close> appends a text that \<^verbatim>\<open>to<Tgt>\<close>
  converts to that value, also with white space on both sides.
\<close>

theorem integer_text_round_trip:
  assumes "width w" "inRange s w v" "length junk = 20" "list_all isspace ws" "list_all isspace ws'"
  shows "\<exists>t. toAppend junk (Int_Arg s w v) acc = Inr (acc @ t) \<and> toIntegral s w (ws @ t @ ws') = Inr v"
  using append_int [OF assms(1-3)] decimal_read [OF assms(1,2,4,5)] by auto

theorem integer_text_round_trip_witness:
  "\<exists>t. toAppend (replicate 20 CHR ''?'') (Int_Arg True 64 (- 9223372036854775808)) ''n: '' = Inr (''n: '' @ t) \<and>
     toIntegral True 64 ('' '' @ t @ '''') = Inr (- 9223372036854775808)"
  by (rule integer_text_round_trip) (simp_all add: width_def inRange_def isspace_def)

text \<open>
  C29: \<^verbatim>\<open>to<Tgt>(StringPiece)\<close> accepts exactly the texts of white space, for the signed
  types an optional sign, at least one digit and white space again whose value is in the
  range of the type, and the result is that value; however many leading zeros there are,
  and although the digits are summed four at a time in the width of the type.
\<close>

theorem text_to_integer:
  assumes "width w"
  shows "toIntegral s w src = Inr v \<longleftrightarrow>
    (\<exists>ws sg ds ws'. src = ws @ sg @ ds @ ws' \<and> list_all isspace ws \<and> list_all isspace ws' \<and>
       list_all isdigit ds \<and> ds \<noteq> [] \<and> sg \<in> {'''', ''-'', ''+''} \<and> (\<not> s \<longrightarrow> sg = '''') \<and>
       v = signVal sg * int (decVal ds) \<and> inRange s w v)"
proof
  assume v: "toIntegral s w src = Inr v"
  then obtain ws sg ds ws' where *: "src = ws @ sg @ ds @ ws'" "list_all isspace ws" "list_all isspace ws'"
    "list_all isdigit ds" "ds \<noteq> []" "sg \<in> {'''', ''-'', ''+''}" "\<not> s \<longrightarrow> sg = ''''" by (rule toIntegral_shape)
  have "v = signVal sg * int (decVal ds) \<and> inRange s w v"
    using toIntegral_spec [OF assms *(6,7,2,3,4,5)] v *(1) by (auto split: if_splits)
  then show "\<exists>ws sg ds ws'. src = ws @ sg @ ds @ ws' \<and> list_all isspace ws \<and> list_all isspace ws' \<and>
       list_all isdigit ds \<and> ds \<noteq> [] \<and> sg \<in> {'''', ''-'', ''+''} \<and> (\<not> s \<longrightarrow> sg = '''') \<and>
       v = signVal sg * int (decVal ds) \<and> inRange s w v" using * by blast
next
  assume "\<exists>ws sg ds ws'. src = ws @ sg @ ds @ ws' \<and> list_all isspace ws \<and> list_all isspace ws' \<and>
       list_all isdigit ds \<and> ds \<noteq> [] \<and> sg \<in> {'''', ''-'', ''+''} \<and> (\<not> s \<longrightarrow> sg = '''') \<and>
       v = signVal sg * int (decVal ds) \<and> inRange s w v"
  then obtain ws sg ds ws' where *: "src = ws @ sg @ ds @ ws'" "list_all isspace ws" "list_all isspace ws'"
    "list_all isdigit ds" "ds \<noteq> []" "sg \<in> {'''', ''-'', ''+''}" "\<not> s \<longrightarrow> sg = ''''"
    "v = signVal sg * int (decVal ds)" "inRange s w v" by blast
  then show "toIntegral s w src = Inr v" using toIntegral_spec [OF assms *(6,7,2,3,4,5)] by simp
qed

theorem text_to_integer_witness:
  "toIntegral True 8 '' -000128 '' = Inr (- 128)"
proof -
  have "\<exists>ws sg ds ws'. '' -000128 '' = ws @ sg @ ds @ ws' \<and> list_all isspace ws \<and> list_all isspace ws' \<and>
       list_all isdigit ds \<and> ds \<noteq> [] \<and> sg \<in> {'''', ''-'', ''+''} \<and> (\<not> True \<longrightarrow> sg = '''') \<and>
       - 128 = signVal sg * int (decVal ds) \<and> inRange True 8 (- 128)"
    by (rule exI [of _ "'' ''"], rule exI [of _ "''-''"], rule exI [of _ "''000128''"], rule exI [of _ "'' ''"])
      (simp add: isspace_def isdigit_def signVal_def digitVal_def inRange_def)
  then show ?thesis using text_to_integer [of 8 True "'' -000128 ''" "- 128"] by (simp only: width_def simp_thms)
qed

lemma castTo_in:
  assumes "0 < snd c" "typeMin c \<le> v" "v \<le> typeMax c"
  shows "castTo c v = v"
proof (cases c)
  case (Pair s w)
  have p: "(2 :: int) ^ w = 2 * 2 ^ (w - 1)" using assms(1) Pair by (metis power_eq_if not_gr_zero snd_conv)
  show ?thesis
  proof (cases "s \<and> v < 0")
    case True
    then have "v mod 2 ^ w = v + 2 ^ w"
      using mod_add_self2 [of v "2 ^ w"] mod_pos_pos_trivial [of "v + 2 ^ w" "2 ^ w"] assms Pair p by simp
    then show ?thesis using True Pair assms p by (simp add: toSigned_def Let_def)
  next
    case False
    then have "v mod 2 ^ w = v" using assms Pair p by (intro mod_pos_pos_trivial) (auto split: if_splits)
    then show ?thesis using False Pair assms by (auto simp: toSigned_def Let_def)
  qed
qed

text \<open>Which values keep their meaning in the common type of two types.\<close>

lemma common_facts:
  assumes "width w" "width w'"
  shows "0 < snd (common (s, w) (s', w')) \<and>
    typeMax (s, w) \<le> typeMax (common (s, w) (s', w')) \<and> typeMax (s', w') \<le> typeMax (common (s, w) (s', w')) \<and>
    typeMin (common (s, w) (s', w')) \<le> 0 \<and>
    (s \<and> (s' \<or> w' < 32 \<or> w' < w) \<longrightarrow>
       typeMin (common (s, w) (s', w')) \<le> typeMin (s, w) \<and> typeMin (common (s, w) (s', w')) \<le> typeMin (s', w')) \<and>
    (s \<and> \<not> s' \<and> 32 \<le> w' \<and> w \<le> w' \<longrightarrow> common (s, w) (s', w') = (False, w'))"
proof -
  have "list_all (\<lambda>(w, w', s, s'). 0 < snd (common (s, w) (s', w')) \<and>
    typeMax (s, w) \<le> typeMax (common (s, w) (s', w')) \<and> typeMax (s', w') \<le> typeMax (common (s, w) (s', w')) \<and>
    typeMin (common (s, w) (s', w')) \<le> 0 \<and>
    (s \<and> (s' \<or> w' < 32 \<or> w' < w) \<longrightarrow>
       typeMin (common (s, w) (s', w')) \<le> typeMin (s, w) \<and> typeMin (common (s, w) (s', w')) \<le> typeMin (s', w')) \<and>
    (s \<and> \<not> s' \<and> 32 \<le> w' \<and> w \<le> w' \<longrightarrow> common (s, w) (s', w') = (False, w')))
    (List.product [8, 16, 32, 64] (List.product [8, 16, 32, 64] (List.product [True, False] [True, False])))"
    by (simp add: common_def)
  note all = this [unfolded list_all_iff]
  have "(w, w', s, s') \<in>
    set (List.product [8, 16, 32, 64] (List.product [8, 16, 32, 64] (List.product [True, False] [True, False])))"
    using assms unfolding width_def by (elim disjE; cases s; cases s') simp_all
  from bspec [OF all this] show ?thesis unfolding prod.case .
qed

lemma common_holds:
  assumes "width w" "width w'"
  shows "0 < snd (common (s, w) (s', w'))"
    "typeMax (s, w) \<le> typeMax (common (s, w) (s', w'))" "typeMax (s', w') \<le> typeMax (common (s, w) (s', w'))"
    "typeMin (common (s, w) (s', w')) \<le> 0"
    "s \<Longrightarrow> s' \<or> w' < 32 \<or> w' < w \<Longrightarrow> typeMin (common (s, w) (s', w')) \<le> typeMin (s, w)"
    "s \<Longrightarrow> s' \<or> w' < 32 \<or> w' < w \<Longrightarrow> typeMin (common (s, w) (s', w')) \<le> typeMin (s', w')"
    "s \<Longrightarrow> \<not> s' \<Longrightarrow> 32 \<le> w' \<Longrightarrow> w \<le> w' \<Longrightarrow> common (s, w) (s', w') = (False, w')"
  using common_facts [OF assms, of s s'] by blast+

lemma common_sym: "common a b = common b a"
  by (cases "promote a"; cases "promote b") (auto simp: common_def Let_def)

lemma typeMax_pos: "0 < w \<Longrightarrow> 0 \<le> typeMax (s, w)"
  by simp

lemma inRange_type: "0 < w \<Longrightarrow> inRange s w v \<longleftrightarrow> typeMin (s, w) \<le> v \<and> v \<le> typeMax (s, w)"
  by (auto simp: inRange_def)

text \<open>Where the value keeps its meaning in the common type, the second check is the lower bound.\<close>

lemma lower_check:
  assumes "width w" "width w'" "inRange s w v" "castTo (common (s, w) (s', w')) v = v"
  shows "typeMin (s', w') \<le> v \<longleftrightarrow> (s \<and> (\<not> s' \<or> w > w') \<longrightarrow> cmpLe (s', w') (typeMin (s', w')) (s, w) v)"
proof (cases "s \<and> (\<not> s' \<or> w > w')")
  case True
  note h = common_holds [OF assms(1,2), where s = s and s' = s']
  have pos: "0 < w'" using assms(2) by (auto simp: width_def)
  have "typeMin (common (s, w) (s', w')) \<le> typeMin (s', w')" using h(4) h(6) True by (cases s') auto
  moreover have "typeMin (s', w') \<le> 0" by simp
  ultimately have "castTo (common (s, w) (s', w')) (typeMin (s', w')) = typeMin (s', w')"
    using h(3) typeMax_pos [OF pos, of s'] by (intro castTo_in [OF h(1)]) linarith+
  then show ?thesis using True assms(4) common_sym [of "(s', w')"] by (simp only: cmpLe_def simp_thms)
next
  case False
  have "0 < w" using assms(1) by (auto simp: width_def)
  then have "typeMin (s, w) \<le> v" using inRange_type assms(3) by blast
  moreover have "typeMin (s', w') \<le> typeMin (s, w)" using False by (cases s) (auto intro: power_increasing)
  ultimately show ?thesis using False by linarith
qed

text \<open>
  C30: The checked conversion between integral types rejects the values that the target
  cannot hold and keeps the others, with one exception: where the target is unsigned and
  at least as wide as the source and \<^verbatim>\<open>int\<close>, the comparison of a negative value with 0
  is done in the unsigned type, and the value is accepted modulo a power of two. So
  \<^verbatim>\<open>to<uint32_t>(-1)\<close> gives 4294967295 and not a \<^verbatim>\<open>std::range_error\<close>.
\<close>

theorem integer_conversion:
  assumes "width w" "width w'" "inRange s w v"
  shows "convertInt (s', w') (s, w) v =
    (if inRange s' w' v then Inr v
     else if s \<and> \<not> s' \<and> v < 0 \<and> 32 \<le> w' \<and> w \<le> w' then Inr (v + 2 ^ w')
     else Inl Range_Error)"
proof -
  let ?c = "common (s, w) (s', w')"
  have pos: "0 < w" "0 < w'" using assms by (auto simp: width_def)
  note h = common_holds [OF assms(1,2), where s = s and s' = s']
  have v: "typeMin (s, w) \<le> v" "v \<le> typeMax (s, w)" using inRange_type [OF pos(1)] assms(3) by auto
  have mx: "castTo ?c (typeMax (s, w)) = typeMax (s, w)" "castTo ?c (typeMax (s', w')) = typeMax (s', w')"
    using castTo_in [OF h(1)] h(2,3,4) typeMax_pos [OF pos(1), of s] typeMax_pos [OF pos(2), of s'] by auto
  show ?thesis
  proof (cases "s \<and> \<not> s' \<and> v < 0 \<and> 32 \<le> w' \<and> w \<le> w'")
    case True
    then have c: "?c = (False, w')" by (intro h(7)) auto
    have le: "(2 :: int) ^ (w - 1) \<le> 2 ^ w'" using True by (intro power_increasing) auto
    moreover have "- (2 ^ (w - 1)) \<le> v" using v True by simp
    ultimately have "0 \<le> v + 2 ^ w'" by linarith
    then have b: "v mod 2 ^ w' = v + 2 ^ w'" "typeMax (s, w) \<le> typeMax (s', w')"
      using True le mod_add_self2 [of v "2 ^ w'"] mod_pos_pos_trivial [of "v + 2 ^ w'" "2 ^ w'"]
      by (simp_all del: power_increasing_iff power_strict_increasing_iff)
    have "cmpLe (s, w) (typeMax (s, w)) (s', w') (typeMax (s', w'))" using b(2) mx by (simp only: cmpLe_def)
    moreover have "cmpLe (s', w') (typeMin (s', w')) (s, w) v"
      using True c common_sym [of "(s', w')"] by (simp add: cmpLe_def)
    ultimately show ?thesis using True b(1) by (simp add: convertInt_def inRange_def)
  next
    case False
    have cv: "castTo ?c v = v"
      using castTo_in [OF h(1), of v] v h(2,4,5) False by (cases "v < 0"; cases s) (auto simp del: typeMax.simps)
    note lo = lower_check [OF assms cv]
    have hi: "v \<le> typeMax (s', w') \<longleftrightarrow>
      (\<not> cmpLe (s, w) (typeMax (s, w)) (s', w') (typeMax (s', w')) \<longrightarrow> cmpLe (s, w) v (s', w') (typeMax (s', w')))"
      using v(2) mx cv unfolding cmpLe_def by auto
    show ?thesis unfolding convertInt_def fst_conv snd_conv lo [symmetric] hi [symmetric] inRange_type [OF pos(2)]
      using castTo_in [of "(s', w')" v] pos(2) False by (auto simp: guard_def)
  qed
qed

theorem integer_conversion_witness:
  "convertInt (False, 32) (True, 32) (- 1) = Inr 4294967295 \<and> convertInt (True, 16) (False, 32) 40000 = Inl Range_Error"
  using integer_conversion [of 32 32 True "- 1" False] integer_conversion [of 32 16 False 40000 True]
  by (simp add: width_def inRange_def)

section \<open>Truth values\<close>

text \<open>A lower-case word is found in any mixture of cases, and nothing of it is left.\<close>

lemma bool_str_cmp_append: "map tolower p = v \<Longrightarrow> bool_str_cmp (p @ rest) v = Some rest"
  by (induction p arbitrary: v) auto

lemma bool_str_cmp_suffix: "bool_str_cmp p v = Some rest \<Longrightarrow> \<exists>u. p = u @ rest \<and> map tolower u = v"
proof (induction p v rule: bool_str_cmp.induct)
  case (3 c p v vs)
  then obtain u where "p = u @ rest" "map tolower u = vs" "tolower c = v" by (auto split: if_splits)
  then show ?case by (intro exI [of _ "c # u"]) simp
qed auto

lemma boolDigits_suffix: "boolDigits r b = Inr (v, rest) \<Longrightarrow> \<exists>u. b = u @ rest \<and> list_all isdigit u"
proof (induction r b rule: boolDigits.induct)
  case (1 r c b)
  show ?case
  proof (cases "isdigit c")
    case True
    then obtain u where "b = u @ rest" "list_all isdigit u" using 1 by (auto simp: guard_eq_Inr)
    then show ?thesis using True by (intro exI [of _ "c # u"]) simp
  next
    case False
    then show ?thesis using 1(2) by (intro exI [of _ "[]"]) simp
  qed
qed simp

end
