(* ===== verification/Dynamic_Value.thy ===== *)
theory Dynamic_Value
  imports Number_Text
begin

unbundle bit_operations_syntax

text \<open>
  Dynamic values: \<^verbatim>\<open>src/raster/util/dynamic.h\<close>, \<^verbatim>\<open>dynamic-inl.h\<close> and \<^verbatim>\<open>dynamic.cpp\<close>, and the hashes
  of \<^verbatim>\<open>Hash.h\<close>. Floating point is a parameter: a type and a record of the operations
  that are used. An object is an \<^verbatim>\<open>std::unordered_map\<close>; it is the list of its pairs here,
  and whatever iterates over it does so in an order that is a parameter.
\<close>

section \<open>Hashes\<close>

definition mix32 :: "32 word \<Rightarrow> 32 word" where
  "mix32 h = h + (push_bit 1 h + push_bit 4 h + push_bit 7 h + push_bit 8 h + push_bit 24 h)"

definition mix64 :: "64 word \<Rightarrow> 64 word" where
  "mix64 h = h + (push_bit 1 h + push_bit 4 h + push_bit 5 h + push_bit 7 h + push_bit 8 h + push_bit 40 h)"

text \<open>\<^verbatim>\<open>hash ^= char_buf[i]\<close> extends the sign of the character.\<close>

definition charBits :: "char \<Rightarrow> 'a :: len word" where
  "charBits c = (let n = of_char c :: int in word_of_int (if n < 128 then n else n - 256))"

fun fnv32_buf :: "string \<Rightarrow> 32 word \<Rightarrow> 32 word" where
  "fnv32_buf [] h = h"
| "fnv32_buf (c # cs) h = fnv32_buf cs (mix32 h XOR charBits c)"

fun fnv64_buf :: "string \<Rightarrow> 64 word \<Rightarrow> 64 word" where
  "fnv64_buf [] h = h"
| "fnv64_buf (c # cs) h = fnv64_buf cs (mix64 h XOR charBits c)"

definition FNV_32_HASH_START :: "32 word" where "FNV_32_HASH_START = 2166136261"

definition FNV_64_HASH_START :: "64 word" where "FNV_64_HASH_START = 14695981039346656037"

section \<open>Values\<close>

datatype 'd dynamic =
    NULLT
  | ARRAY "'d dynamic list"
  | BOOL bool
  | DOUBLE 'd
  | INT64 int
  | OBJECT "('d dynamic \<times> 'd dynamic) list"
  | STRING string

type_synonym 'd items = "('d dynamic \<times> 'd dynamic) list"

record 'd dops =
  dEqual :: "'d \<Rightarrow> 'd \<Rightarrow> bool"
  dLess :: "'d \<Rightarrow> 'd \<Rightarrow> bool"
  dHash :: "'d \<Rightarrow> 64 word"
  ofInt :: "int \<Rightarrow> 'd"
  exactInt :: "int \<Rightarrow> bool"
  toInt :: "'d \<Rightarrow> int result"
  dText :: "'d \<Rightarrow> string"
  dRead :: "string \<Rightarrow> 'd result"

fun typeRank :: "'d dynamic \<Rightarrow> nat" where
  "typeRank NULLT = 0"
| "typeRank (ARRAY xs) = 1"
| "typeRank (BOOL b) = 2"
| "typeRank (DOUBLE d) = 3"
| "typeRank (INT64 i) = 4"
| "typeRank (OBJECT kvs) = 5"
| "typeRank (STRING s) = 6"

fun isNumber :: "'d dynamic \<Rightarrow> bool" where
  "isNumber (INT64 i) = True"
| "isNumber (DOUBLE d) = True"
| "isNumber _ = False"

fun dynHash :: "'d dops \<Rightarrow> 'd dynamic \<Rightarrow> 64 word result" where
  "dynHash ops (INT64 i) = Inr (word_of_int i)"
| "dynHash ops (DOUBLE d) = Inr (dHash ops d)"
| "dynHash ops (BOOL b) = Inr (if b then 1 else 0)"
| "dynHash ops (STRING s) = Inr (ucast (fnv32_buf s FNV_32_HASH_START))"
| "dynHash ops _ = Inl Type_Error"

section \<open>Conversions\<close>

text \<open>\<^verbatim>\<open>asImpl\<close>; \<open>junk\<close> is what the buffer for the digits holds.\<close>

fun asInt :: "'d dops \<Rightarrow> 'd dynamic \<Rightarrow> int result" where
  "asInt ops (INT64 i) = Inr i"
| "asInt ops (DOUBLE d) = toInt ops d"
| "asInt ops (BOOL b) = Inr (if b then 1 else 0)"
| "asInt ops (STRING s) = toIntegral True 64 s"
| "asInt ops _ = Inl Type_Error"

fun asDouble :: "'d dops \<Rightarrow> 'd dynamic \<Rightarrow> 'd result" where
  "asDouble ops (INT64 i) = guard (exactInt ops i) Range_Error (Inr (ofInt ops i))"
| "asDouble ops (DOUBLE d) = Inr d"
| "asDouble ops (BOOL b) = Inr (ofInt ops (if b then 1 else 0))"
| "asDouble ops (STRING s) = dRead ops s"
| "asDouble ops _ = Inl Type_Error"

fun asBool :: "'d dops \<Rightarrow> 'd dynamic \<Rightarrow> bool result" where
  "asBool ops (INT64 i) = guard (i \<le> 1) Range_Error (guard (i \<ge> 0) Range_Error (Inr (i \<noteq> 0)))"
| "asBool ops (DOUBLE d) =
     (let r = \<not> dEqual ops d (ofInt ops 0)
      in guard (dEqual ops d (ofInt ops (if r then 1 else 0))) Range_Error (Inr r))"
| "asBool ops (BOOL b) = Inr b"
| "asBool ops (STRING s) = toBool s"
| "asBool ops _ = Inl Type_Error"

fun asString :: "'d dops \<Rightarrow> string \<Rightarrow> 'd dynamic \<Rightarrow> string result" where
  "asString ops junk (INT64 i) = toText junk [Int_Arg True 64 i]"
| "asString ops junk (DOUBLE d) = Inr (dText ops d)"
| "asString ops junk (BOOL b) = toText junk [Int_Arg False 8 (if b then 1 else 0)]"
| "asString ops junk (STRING s) = Inr s"
| "asString ops junk _ = Inl Type_Error"

section \<open>Comparison\<close>

fun scalarEq :: "'d dops \<Rightarrow> 'd dynamic \<Rightarrow> 'd dynamic \<Rightarrow> bool" where
  "scalarEq ops NULLT NULLT = True"
| "scalarEq ops (BOOL a) (BOOL b) = (a = b)"
| "scalarEq ops (INT64 a) (INT64 b) = (a = b)"
| "scalarEq ops (DOUBLE a) (DOUBLE b) = dEqual ops a b"
| "scalarEq ops (STRING a) (STRING b) = (a = b)"
| "scalarEq ops (INT64 a) (DOUBLE b) = dEqual ops (ofInt ops a) b"
| "scalarEq ops (DOUBLE a) (INT64 b) = dEqual ops (ofInt ops b) a"
| "scalarEq ops _ _ = False"

text \<open>Two keys are the same for the map when their hashes and they are equal.\<close>

definition keyMatch :: "'d dops \<Rightarrow> 'd dynamic \<Rightarrow> 'd dynamic \<Rightarrow> bool" where
  "keyMatch ops k k' \<longleftrightarrow> dynHash ops k = dynHash ops k' \<and> scalarEq ops k k'"

primrec objFind :: "'d dops \<Rightarrow> 'd items \<Rightarrow> 'd dynamic \<Rightarrow> 'd dynamic option" where
  "objFind ops [] k = None"
| "objFind ops (kv # kvs) k = (if keyMatch ops (fst kv) k then Some (snd kv) else objFind ops kvs k)"

lemma size_elem: "x \<in> set xs \<Longrightarrow> size x < size (ARRAY xs)"
  by (induction xs) auto

lemma size_item: "(k, x) \<in> set kvs \<Longrightarrow> size k < size (OBJECT kvs) \<and> size x < size (OBJECT kvs)"
  by (induction kvs) auto

text \<open>\<^verbatim>\<open>operator==\<close>; the equality of two unordered maps looks every pair of the first up in the second.\<close>

function dynEq :: "'d dops \<Rightarrow> 'd dynamic \<Rightarrow> 'd dynamic \<Rightarrow> bool" where
  "dynEq ops a b =
     (case a of
        ARRAY xs \<Rightarrow> (case b of
            ARRAY ys \<Rightarrow> length xs = length ys \<and> list_all (\<lambda>(x, y). dynEq ops x y) (zip xs ys)
          | _ \<Rightarrow> False)
      | OBJECT xs \<Rightarrow> (case b of
            OBJECT ys \<Rightarrow> length xs = length ys \<and>
              list_all (\<lambda>(k, x). case objFind ops ys k of None \<Rightarrow> False | Some y \<Rightarrow> dynEq ops x y) xs
          | _ \<Rightarrow> False)
      | _ \<Rightarrow> scalarEq ops a b)"
  by pat_completeness auto
termination
  by (relation "measure (\<lambda>(ops, a, b). size a)") (auto dest!: set_zip_leftD dest: size_elem size_item)

declare dynEq.simps [simp del]

fun strLess :: "string \<Rightarrow> string \<Rightarrow> bool" where
  "strLess xs [] = False"
| "strLess [] (y # ys) = True"
| "strLess (x # xs) (y # ys) =
     ((of_char x :: nat) < of_char y \<or> (of_char x :: nat) = of_char y \<and> strLess xs ys)"

text \<open>\<^verbatim>\<open>operator<\<close>; arrays compare lexicographically, element by element in both directions.\<close>

function (sequential) dynLess :: "'d dops \<Rightarrow> 'd dynamic \<Rightarrow> 'd dynamic \<Rightarrow> bool result"
  and lexLess :: "'d dops \<Rightarrow> 'd dynamic list \<Rightarrow> 'd dynamic list \<Rightarrow> bool result" where
  "dynLess ops (OBJECT xs) b = Inl Type_Error"
| "dynLess ops a (OBJECT ys) = Inl Type_Error"
| "dynLess ops NULLT NULLT = Inr False"
| "dynLess ops (ARRAY xs) (ARRAY ys) = lexLess ops xs ys"
| "dynLess ops (BOOL x) (BOOL y) = Inr (\<not> x \<and> y)"
| "dynLess ops (DOUBLE x) (DOUBLE y) = Inr (dLess ops x y)"
| "dynLess ops (INT64 x) (INT64 y) = Inr (x < y)"
| "dynLess ops (STRING x) (STRING y) = Inr (strLess x y)"
| "dynLess ops a b = Inr (typeRank a < typeRank b)"
| "lexLess ops xs [] = Inr False"
| "lexLess ops [] (y # ys) = Inr True"
| "lexLess ops (x # xs) (y # ys) =
     res_bind (dynLess ops x y) (\<lambda>lt. if lt then Inr True
       else res_bind (dynLess ops y x) (\<lambda>gt. if gt then Inr False else lexLess ops xs ys))"
  by pat_completeness auto
termination
  by (relation "measure (case_sum (\<lambda>(ops, a, b). size a + size b) (\<lambda>(ops, xs, ys). size_list size xs + size_list size ys))") auto

section \<open>Objects\<close>

text \<open>
  \<^verbatim>\<open>obj.insert\<close> leaves a present key alone; \<open>objAssign\<close> is an insertion followed by an assignment
  through the iterator it returns, which is that of the new pair when there is one.
\<close>

definition objInsert :: "'d dops \<Rightarrow> 'd items \<Rightarrow> 'd dynamic \<Rightarrow> 'd dynamic \<Rightarrow> 'd items" where
  "objInsert ops kvs k v = (if objFind ops kvs k = None then kvs @ [(k, v)] else kvs)"

primrec objPut :: "'d dops \<Rightarrow> 'd items \<Rightarrow> 'd dynamic \<Rightarrow> 'd dynamic \<Rightarrow> 'd items" where
  "objPut ops [] k v = []"
| "objPut ops (kv # kvs) k v =
     (if keyMatch ops (fst kv) k then (fst kv, v) # kvs else kv # objPut ops kvs k v)"

definition objAssign :: "'d dops \<Rightarrow> 'd items \<Rightarrow> 'd dynamic \<Rightarrow> 'd dynamic \<Rightarrow> 'd items" where
  "objAssign ops kvs k v = (if objFind ops kvs k = None then objInsert ops kvs k v else objPut ops kvs k v)"

definition objErase :: "'d dops \<Rightarrow> 'd items \<Rightarrow> 'd dynamic \<Rightarrow> 'd items" where
  "objErase ops kvs k = filter (\<lambda>kv. \<not> keyMatch ops (fst kv) k) kvs"

text \<open>Every access by key hashes the key first.\<close>

definition hashed :: "'d dops \<Rightarrow> 'd dynamic \<Rightarrow> 'a result \<Rightarrow> 'a result" where
  "hashed ops k m = res_bind (dynHash ops k) (\<lambda>_. m)"

fun getObject :: "'d dynamic \<Rightarrow> 'd items result" where
  "getObject (OBJECT kvs) = Inr kvs"
| "getObject _ = Inl Type_Error"

fun getArray :: "'d dynamic \<Rightarrow> 'd dynamic list result" where
  "getArray (ARRAY xs) = Inr xs"
| "getArray _ = Inl Type_Error"

definition dynInsert :: "'d dops \<Rightarrow> 'd dynamic \<Rightarrow> 'd dynamic \<Rightarrow> 'd dynamic \<Rightarrow> 'd dynamic result" where
  "dynInsert ops this k v =
     res_bind (getObject this) (\<lambda>kvs. hashed ops k (Inr (OBJECT (objAssign ops kvs k v))))"

definition dynFind :: "'d dops \<Rightarrow> 'd dynamic \<Rightarrow> 'd dynamic \<Rightarrow> 'd dynamic option result" where
  "dynFind ops this k = res_bind (getObject this) (\<lambda>kvs. hashed ops k (Inr (objFind ops kvs k)))"

definition dynCount :: "'d dops \<Rightarrow> 'd dynamic \<Rightarrow> 'd dynamic \<Rightarrow> nat result" where
  "dynCount ops this k = res_bind (dynFind ops this k) (\<lambda>r. Inr (if r = None then 0 else 1))"

definition arrayIndex :: "'d dynamic list \<Rightarrow> 'd dynamic \<Rightarrow> nat option result" where
  "arrayIndex xs idx =
     (case idx of INT64 i \<Rightarrow> Inr (if i < 0 \<or> i \<ge> int (length xs) then None else Some (nat i))
      | _ \<Rightarrow> Inl Type_Error)"

fun getPtr :: "'d dops \<Rightarrow> 'd dynamic \<Rightarrow> 'd dynamic \<Rightarrow> 'd dynamic option result" where
  "getPtr ops (ARRAY xs) idx = res_bind (arrayIndex xs idx) (\<lambda>r. Inr (map_option (nth xs) r))"
| "getPtr ops (OBJECT kvs) idx = hashed ops idx (Inr (objFind ops kvs idx))"
| "getPtr ops _ idx = Inl Type_Error"

text \<open>The message of the exception for a missing key contains the key as a string.\<close>

fun dynAt :: "'d dops \<Rightarrow> string \<Rightarrow> 'd dynamic \<Rightarrow> 'd dynamic \<Rightarrow> 'd dynamic result" where
  "dynAt ops junk (ARRAY xs) idx =
     res_bind (arrayIndex xs idx) (\<lambda>r. case r of None \<Rightarrow> Inl Out_Of_Range | Some i \<Rightarrow> Inr (xs ! i))"
| "dynAt ops junk (OBJECT kvs) idx =
     hashed ops idx (case objFind ops kvs idx of
         Some v \<Rightarrow> Inr v
       | None \<Rightarrow> res_bind (asString ops junk idx) (\<lambda>_. Inl Out_Of_Range))"
| "dynAt ops junk _ idx = Inl Type_Error"

text \<open>\<^verbatim>\<open>operator[]\<close> of an lvalue, with the value that is assigned to what it refers to.\<close>

fun dynSetAt :: "'d dops \<Rightarrow> 'd dynamic \<Rightarrow> 'd dynamic \<Rightarrow> 'd dynamic \<Rightarrow> 'd dynamic result" where
  "dynSetAt ops (ARRAY xs) k v =
     res_bind (arrayIndex xs k) (\<lambda>r. case r of None \<Rightarrow> Inl Out_Of_Range | Some i \<Rightarrow> Inr (ARRAY (xs[i := v])))"
| "dynSetAt ops (OBJECT kvs) k v = hashed ops k (Inr (OBJECT (objAssign ops kvs k v)))"
| "dynSetAt ops _ k v = Inl Type_Error"

definition getDefault :: "'d dops \<Rightarrow> 'd dynamic \<Rightarrow> 'd dynamic \<Rightarrow> 'd dynamic \<Rightarrow> 'd dynamic result" where
  "getDefault ops this k v = res_bind (dynFind ops this k) (\<lambda>r. Inr (case r of None \<Rightarrow> v | Some x \<Rightarrow> x))"

definition setDefault :: "'d dops \<Rightarrow> 'd dynamic \<Rightarrow> 'd dynamic \<Rightarrow> 'd dynamic \<Rightarrow> 'd dynamic result" where
  "setDefault ops this k v =
     res_bind (getObject this) (\<lambda>kvs. hashed ops k (Inr (OBJECT (objInsert ops kvs k v))))"

fun dynSize :: "'d dynamic \<Rightarrow> nat result" where
  "dynSize (ARRAY xs) = Inr (length xs)"
| "dynSize (OBJECT kvs) = Inr (length kvs)"
| "dynSize (STRING s) = Inr (length s)"
| "dynSize _ = Inl Type_Error"

definition dynEmpty :: "'d dynamic \<Rightarrow> bool result" where
  "dynEmpty this = (if this = NULLT then Inr True else res_bind (dynSize this) (\<lambda>n. Inr (n = 0)))"

definition eraseKey :: "'d dops \<Rightarrow> 'd dynamic \<Rightarrow> 'd dynamic \<Rightarrow> ('d dynamic \<times> nat) result" where
  "eraseKey ops this k =
     res_bind (getObject this) (\<lambda>kvs. hashed ops k
       (Inr (OBJECT (objErase ops kvs k), length kvs - length (objErase ops kvs k))))"

text \<open>Iteration over the items of the other object, in the order \<open>iter\<close>.\<close>

fun updateLoop :: "'d dops \<Rightarrow> 'd dynamic \<Rightarrow> 'd items \<Rightarrow> 'd dynamic result" where
  "updateLoop ops this [] = Inr this"
| "updateLoop ops this (kv # kvs) =
     res_bind (dynSetAt ops this (fst kv) (snd kv)) (\<lambda>this1. updateLoop ops this1 kvs)"

definition dynUpdate :: "'d dops \<Rightarrow> ('d items \<Rightarrow> 'd items) \<Rightarrow> 'd dynamic \<Rightarrow> 'd dynamic \<Rightarrow> 'd dynamic result" where
  "dynUpdate ops iter this mergeObj =
     res_bind (getObject this) (\<lambda>_. res_bind (getObject mergeObj) (\<lambda>kvs. updateLoop ops this (iter kvs)))"

fun missingLoop :: "'d dops \<Rightarrow> 'd dynamic \<Rightarrow> 'd items \<Rightarrow> 'd dynamic result" where
  "missingLoop ops this [] = Inr this"
| "missingLoop ops this (kv # kvs) =
     res_bind (dynFind ops this (fst kv)) (\<lambda>r.
       res_bind (if r = None then dynSetAt ops this (fst kv) (snd kv) else Inr this) (\<lambda>this1.
         missingLoop ops this1 kvs))"

definition updateMissing :: "'d dops \<Rightarrow> ('d items \<Rightarrow> 'd items) \<Rightarrow> 'd dynamic \<Rightarrow> 'd dynamic \<Rightarrow> 'd dynamic result" where
  "updateMissing ops iter this mergeObj1 =
     res_bind (getObject this) (\<lambda>_. res_bind (getObject mergeObj1) (\<lambda>kvs. missingLoop ops this (iter kvs)))"

definition dynMerge :: "'d dops \<Rightarrow> ('d items \<Rightarrow> 'd items) \<Rightarrow> 'd dynamic \<Rightarrow> 'd dynamic \<Rightarrow> 'd dynamic result" where
  "dynMerge ops iter mergeObj1 mergeObj2 = updateMissing ops iter mergeObj2 mergeObj1"

section \<open>Arrays\<close>

definition pushBack :: "'d dynamic \<Rightarrow> 'd dynamic \<Rightarrow> 'd dynamic result" where
  "pushBack this v = res_bind (getArray this) (\<lambda>xs. Inr (ARRAY (xs @ [v])))"

definition popBack :: "'d dynamic \<Rightarrow> 'd dynamic result" where
  "popBack this = res_bind (getArray this) (\<lambda>xs. guard (xs \<noteq> []) Undefined (Inr (ARRAY (butlast xs))))"

definition dynResize :: "'d dynamic \<Rightarrow> nat \<Rightarrow> 'd dynamic \<Rightarrow> 'd dynamic result" where
  "dynResize this n c =
     res_bind (getArray this) (\<lambda>xs. Inr (ARRAY (take n xs @ replicate (n - length xs) c)))"

definition eraseRange :: "'d dynamic \<Rightarrow> nat \<Rightarrow> nat \<Rightarrow> 'd dynamic result" where
  "eraseRange this i j =
     res_bind (getArray this) (\<lambda>xs. guard (i \<le> j \<and> j \<le> length xs) Undefined
       (Inr (ARRAY (take i xs @ drop j xs))))"

section \<open>Arithmetic\<close>

text \<open>Signed 64-bit arithmetic; what does not fit is undefined.\<close>

definition int64 :: "int \<Rightarrow> int result" where
  "int64 i = guard (- (2 ^ 63) \<le> i \<and> i < 2 ^ 63) Undefined (Inr i)"

definition intPlus :: "int \<Rightarrow> int \<Rightarrow> int result" where "intPlus a b = int64 (a + b)"

definition intMinus :: "int \<Rightarrow> int \<Rightarrow> int result" where "intMinus a b = int64 (a - b)"

definition intTimes :: "int \<Rightarrow> int \<Rightarrow> int result" where "intTimes a b = int64 (a * b)"

definition quot :: "int \<Rightarrow> int \<Rightarrow> int" where
  "quot a b = sgn a * sgn b * (\<bar>a\<bar> div \<bar>b\<bar>)"

definition intDivides :: "int \<Rightarrow> int \<Rightarrow> int result" where
  "intDivides a b = guard (b \<noteq> 0) Undefined (int64 (quot a b))"

definition intModulus :: "int \<Rightarrow> int \<Rightarrow> int result" where
  "intModulus a b = guard (b \<noteq> 0) Undefined (res_bind (int64 (quot a b)) (\<lambda>q. Inr (a - b * q)))"

text \<open>\<^verbatim>\<open>numericOp\<close>: the operation on integers and on floating point numbers.\<close>

definition numericOp ::
  "'d dops \<Rightarrow> (int \<Rightarrow> int \<Rightarrow> int result) \<Rightarrow> ('d \<Rightarrow> 'd \<Rightarrow> 'd) \<Rightarrow> 'd dynamic \<Rightarrow> 'd dynamic \<Rightarrow> 'd dynamic result" where
  "numericOp ops opI opD a b =
     guard (isNumber a \<and> isNumber b) Type_Error
       (if typeRank a \<noteq> typeRank b
        then let integ = (case a of INT64 i \<Rightarrow> a | _ \<Rightarrow> b); nonint = (case a of INT64 i \<Rightarrow> b | _ \<Rightarrow> a)
             in res_bind (asInt ops integ) (\<lambda>i. guard (exactInt ops i) Range_Error
                  (res_bind (asDouble ops nonint) (\<lambda>d. Inr (DOUBLE (opD (ofInt ops i) d)))))
        else case a of
            DOUBLE x \<Rightarrow> res_bind (asDouble ops b) (\<lambda>y. Inr (DOUBLE (opD x y)))
          | _ \<Rightarrow> res_bind (asInt ops a) (\<lambda>x. res_bind (asInt ops b) (\<lambda>y. res_bind (opI x y) (\<lambda>r. Inr (INT64 r)))))"

definition plusAssign :: "'d dops \<Rightarrow> ('d \<Rightarrow> 'd \<Rightarrow> 'd) \<Rightarrow> 'd dynamic \<Rightarrow> 'd dynamic \<Rightarrow> 'd dynamic result" where
  "plusAssign ops dPlus a b =
     (case (a, b) of (STRING x, STRING y) \<Rightarrow> Inr (STRING (x @ y)) | _ \<Rightarrow> numericOp ops intPlus dPlus a b)"

definition minusAssign :: "'d dops \<Rightarrow> ('d \<Rightarrow> 'd \<Rightarrow> 'd) \<Rightarrow> 'd dynamic \<Rightarrow> 'd dynamic \<Rightarrow> 'd dynamic result" where
  "minusAssign ops dMinus a b = numericOp ops intMinus dMinus a b"

definition timesAssign :: "'d dops \<Rightarrow> ('d \<Rightarrow> 'd \<Rightarrow> 'd) \<Rightarrow> 'd dynamic \<Rightarrow> 'd dynamic \<Rightarrow> 'd dynamic result" where
  "timesAssign ops dTimes a b = numericOp ops intTimes dTimes a b"

definition dividesAssign :: "'d dops \<Rightarrow> ('d \<Rightarrow> 'd \<Rightarrow> 'd) \<Rightarrow> 'd dynamic \<Rightarrow> 'd dynamic \<Rightarrow> 'd dynamic result" where
  "dividesAssign ops dDivides a b = numericOp ops intDivides dDivides a b"

fun integerOp :: "(int \<Rightarrow> int \<Rightarrow> int result) \<Rightarrow> 'd dynamic \<Rightarrow> 'd dynamic \<Rightarrow> 'd dynamic result" where
  "integerOp f (INT64 x) (INT64 y) = res_bind (f x y) (\<lambda>r. Inr (INT64 r))"
| "integerOp f _ _ = Inl Type_Error"

definition modAssign :: "'d dynamic \<Rightarrow> 'd dynamic \<Rightarrow> 'd dynamic result" where
  "modAssign = integerOp intModulus"

definition orAssign :: "'d dynamic \<Rightarrow> 'd dynamic \<Rightarrow> 'd dynamic result" where
  "orAssign = integerOp (\<lambda>x y. Inr (x OR y))"

definition andAssign :: "'d dynamic \<Rightarrow> 'd dynamic \<Rightarrow> 'd dynamic result" where
  "andAssign = integerOp (\<lambda>x y. Inr (x AND y))"

definition xorAssign :: "'d dynamic \<Rightarrow> 'd dynamic \<Rightarrow> 'd dynamic result" where
  "xorAssign = integerOp (\<lambda>x y. Inr (x XOR y))"

fun increment :: "'d dynamic \<Rightarrow> 'd dynamic result" where
  "increment (INT64 i) = res_bind (intPlus i 1) (\<lambda>r. Inr (INT64 r))"
| "increment _ = Inl Type_Error"

fun decrement :: "'d dynamic \<Rightarrow> 'd dynamic result" where
  "decrement (INT64 i) = res_bind (intMinus i 1) (\<lambda>r. Inr (INT64 r))"
| "decrement _ = Inl Type_Error"

section \<open>The hash is that of Fowler, Noll and Vo\<close>

lemma mix_prime: "mix32 h = h * 16777619" "mix64 g = g * 1099511628211"
  by (simp_all add: mix32_def mix64_def push_bit_eq_mult algebra_simps)

lemma fnv_ascii:
  assumes "list_all (\<lambda>c. (of_char c :: nat) < 128) s"
  shows "fnv32_buf s h = foldl (\<lambda>h c. h * 16777619 XOR of_nat (of_char c)) h s"
    "fnv64_buf s g = foldl (\<lambda>h c. h * 1099511628211 XOR of_nat (of_char c)) g s"
proof -
  have c: "charBits c = (of_nat (of_char c) :: 'a :: len word)" if "(of_char c :: nat) < 128" for c
  proof -
    have e: "(of_char c :: int) = int (of_char c :: nat)" by (rule of_nat_of_char [symmetric])
    show ?thesis unfolding charBits_def Let_def e using that by (simp del: of_nat_of_char)
  qed
  show "fnv32_buf s h = foldl (\<lambda>h c. h * 16777619 XOR of_nat (of_char c)) h s"
    using assms by (induction s arbitrary: h) (simp_all add: mix_prime c)
  show "fnv64_buf s g = foldl (\<lambda>h c. h * 1099511628211 XOR of_nat (of_char c)) g s"
    using assms by (induction s arbitrary: g) (simp_all add: mix_prime c)
qed

section \<open>Objects as maps\<close>

text \<open>Stores of values under keys, and what follows for storing many of them.\<close>

locale kv_store =
  fixes inv :: "'s \<Rightarrow> bool" and key :: "'k \<Rightarrow> bool" and get :: "'s \<Rightarrow> 'k \<Rightarrow> 'v option"
    and put :: "'s \<Rightarrow> 'k \<Rightarrow> 'v \<Rightarrow> 's" and del :: "'s \<Rightarrow> 'k \<Rightarrow> 's"
  assumes inv_put: "inv s \<Longrightarrow> key k \<Longrightarrow> inv (put s k v)"
    and inv_del: "inv s \<Longrightarrow> key k \<Longrightarrow> inv (del s k)"
    and get_put: "inv s \<Longrightarrow> key k \<Longrightarrow> key k' \<Longrightarrow> get (put s k v) k' = (if k' = k then Some v else get s k')"
    and get_del: "inv s \<Longrightarrow> key k \<Longrightarrow> key k' \<Longrightarrow> get (del s k) k' = (if k' = k then None else get s k')"
begin

lemma puts_get:
  assumes "inv s" "list_all (\<lambda>kv. key (fst kv)) kvs" "distinct (map fst kvs)"
  shows "inv (foldl (\<lambda>s kv. put s (fst kv) (snd kv)) s kvs) \<and>
    (\<forall>k. key k \<longrightarrow> get (foldl (\<lambda>s kv. put s (fst kv) (snd kv)) s kvs) k =
      (case map_of kvs k of None \<Rightarrow> get s k | Some v \<Rightarrow> Some v))"
  using assms
proof (induction kvs arbitrary: s)
  case (Cons kv kvs)
  have "map_of kvs (fst kv) = None" using Cons.prems(3) by (simp add: map_of_eq_None_iff)
  moreover have "inv (put s (fst kv) (snd kv))" using Cons.prems by (simp add: inv_put)
  ultimately show ?case using Cons.IH [of "put s (fst kv) (snd kv)"] Cons.prems
    by (auto simp: get_put split: option.splits)
qed simp

lemma puts_missing:
  assumes "inv s" "list_all (\<lambda>kv. key (fst kv)) kvs" "distinct (map fst kvs)"
  shows "inv (foldl (\<lambda>s kv. if get s (fst kv) = None then put s (fst kv) (snd kv) else s) s kvs) \<and>
    (\<forall>k. key k \<longrightarrow> get (foldl (\<lambda>s kv. if get s (fst kv) = None then put s (fst kv) (snd kv) else s) s kvs) k =
      (case get s k of None \<Rightarrow> map_of kvs k | Some v \<Rightarrow> Some v))"
  using assms
proof (induction kvs arbitrary: s)
  case Nil
  then show ?case by (simp split: option.splits)
next
  case (Cons kv kvs)
  have "map_of kvs (fst kv) = None" using Cons.prems(3) by (simp add: map_of_eq_None_iff)
  moreover have "inv (put s (fst kv) (snd kv))" using Cons.prems by (simp add: inv_put)
  ultimately show ?case
    using Cons.IH [of "put s (fst kv) (snd kv)"] Cons.IH [of s] Cons.prems
    by (auto simp: get_put split: option.splits)
qed

end

text \<open>Keys other than floating point numbers, for which two that match are the same.\<close>

fun plainKey :: "'d dynamic \<Rightarrow> bool" where
  "plainKey (BOOL b) = True"
| "plainKey (INT64 i) = True"
| "plainKey (STRING s) = True"
| "plainKey _ = False"

definition plainObject :: "'d items \<Rightarrow> bool" where
  "plainObject kvs \<longleftrightarrow> distinct (map fst kvs) \<and> list_all (\<lambda>kv. plainKey (fst kv)) kvs"

lemma keyMatch_plain: "plainKey k \<Longrightarrow> plainKey k' \<Longrightarrow> keyMatch ops k k' \<longleftrightarrow> k = k'"
  by (cases k; cases k') (auto simp: keyMatch_def)

lemma hashed_plain: "plainKey k \<Longrightarrow> hashed ops k m = m"
  by (cases k) (simp_all add: hashed_def)

lemma objFind_plain: "plainObject kvs \<Longrightarrow> plainKey k \<Longrightarrow> objFind ops kvs k = map_of kvs k"
  by (induction kvs) (auto simp: plainObject_def keyMatch_plain)

lemma objPut_keys: "map fst (objPut ops kvs k v) = map fst kvs"
  by (induction kvs) auto

lemma objInsert_plain: "plainObject kvs \<Longrightarrow> plainKey k \<Longrightarrow> plainObject (objInsert ops kvs k v)"
  by (auto simp: objInsert_def objFind_plain plainObject_def map_of_eq_None_iff)

lemma objPut_plain: "plainObject kvs \<Longrightarrow> plainObject (objPut ops kvs k v)"
  using objPut_keys [of ops kvs k v] unfolding plainObject_def
  by (metis (no_types, lifting) list.pred_map comp_def list.pred_cong)

lemma objPut_get:
  "plainObject kvs \<Longrightarrow> plainKey k \<Longrightarrow> map_of (objPut ops kvs k v) = (if k \<in> fst ` set kvs then (map_of kvs)(k \<mapsto> v) else map_of kvs)"
  by (induction kvs) (auto simp: plainObject_def keyMatch_plain fun_eq_iff)

lemma objInsert_get:
  "plainObject kvs \<Longrightarrow> plainKey k \<Longrightarrow> map_of (objInsert ops kvs k v) = (if k \<in> fst ` set kvs then map_of kvs else (map_of kvs)(k \<mapsto> v))"
  using map_of_eq_None_iff [of kvs k] by (auto simp: objInsert_def objFind_plain fun_eq_iff map_add_def split: option.splits)

lemma objAssign_ok:
  assumes "plainObject kvs" "plainKey k"
  shows "plainObject (objAssign ops kvs k v)" "map_of (objAssign ops kvs k v) = (map_of kvs)(k \<mapsto> v)"
proof -
  show "plainObject (objAssign ops kvs k v)"
    using objInsert_plain [OF assms] objPut_plain [OF assms(1)] by (simp add: objAssign_def)
  have "objFind ops kvs k = None \<longleftrightarrow> k \<notin> fst ` set kvs" using assms by (simp add: objFind_plain map_of_eq_None_iff)
  then show "map_of (objAssign ops kvs k v) = (map_of kvs)(k \<mapsto> v)"
    unfolding objAssign_def using objPut_get [OF assms] objInsert_get [OF assms] by simp
qed

lemma objErase_ok:
  assumes "plainObject kvs" "plainKey k"
  shows "plainObject (objErase ops kvs k)" "map_of (objErase ops kvs k) = (map_of kvs)(k := None)"
proof -
  have f: "objErase ops kvs k = filter (\<lambda>kv. fst kv \<noteq> k) kvs"
    using assms unfolding objErase_def plainObject_def by (intro filter_cong) (auto simp: list_all_iff keyMatch_plain)
  show "plainObject (objErase ops kvs k)"
    using assms unfolding f plainObject_def by (auto simp: list_all_iff distinct_map intro: inj_on_subset)
  show "map_of (objErase ops kvs k) = (map_of kvs)(k := None)"
    unfolding f by (induction kvs) (auto simp: fun_eq_iff)
qed

interpretation objects: kv_store plainObject plainKey "objFind ops" "objAssign ops" "objErase ops" for ops
  by unfold_locales (simp_all add: objAssign_ok objErase_ok objFind_plain)

lemma updateLoop_eq:
  "plainObject a \<Longrightarrow> list_all (\<lambda>kv. plainKey (fst kv)) kvs \<Longrightarrow>
     updateLoop ops (OBJECT a) kvs = Inr (OBJECT (foldl (\<lambda>s kv. objAssign ops s (fst kv) (snd kv)) a kvs))"
proof (induction kvs arbitrary: a)
  case (Cons kv kvs)
  have "plainObject (objAssign ops a (fst kv) (snd kv))" using Cons.prems by (simp add: objAssign_ok)
  then show ?case using Cons by (simp add: hashed_plain)
qed simp

lemma missingLoop_eq:
  "plainObject a \<Longrightarrow> list_all (\<lambda>kv. plainKey (fst kv)) kvs \<Longrightarrow>
     missingLoop ops (OBJECT a) kvs =
       Inr (OBJECT (foldl (\<lambda>s kv. if objFind ops s (fst kv) = None then objAssign ops s (fst kv) (snd kv) else s) a kvs))"
proof (induction kvs arbitrary: a)
  case (Cons kv kvs)
  have "plainObject (objAssign ops a (fst kv) (snd kv))" using Cons.prems by (simp add: objAssign_ok)
  then show ?case using Cons by (auto simp: hashed_plain dynFind_def)
qed simp

lemma items_permuted:
  assumes "plainObject kvs" "mset (iter kvs) = mset kvs"
  shows "plainObject (iter kvs)" "map_of (iter kvs) = map_of kvs"
proof -
  have d: "distinct (map fst (iter kvs))" using assms by (metis plainObject_def mset_map mset_eq_imp_distinct_iff)
  have s: "set (iter kvs) = set kvs" using assms(2) by (rule mset_eq_setD)
  show "plainObject (iter kvs)" using assms(1) d s by (simp add: plainObject_def list_all_iff)
  show "map_of (iter kvs) = map_of kvs"
    using d s assms(1) by (intro ext) (metis plainObject_def map_of_eq_None_iff map_of_eq_Some_iff option.exhaust)
qed

text \<open>
  C40: Merging keeps objects maps: in the result of \<^verbatim>\<open>merge(a, b)\<close> the value of a key is the one it
  has in \<open>b\<close>, or else in \<open>a\<close>, in that of \<^verbatim>\<open>a.update(b)\<close> likewise, whatever the order in which
  the items are iterated over, and the keys stay distinct. Keys are truth values,
  integers or strings.
\<close>

theorem merge_overrides:
  assumes "plainObject a" "plainObject b" "mset (iter a) = mset a" "mset (iter b) = mset b"
  shows "\<exists>c d. dynMerge ops iter (OBJECT a) (OBJECT b) = Inr (OBJECT c) \<and> plainObject c \<and>
    dynUpdate ops iter (OBJECT a) (OBJECT b) = Inr (OBJECT d) \<and> plainObject d \<and>
    (\<forall>k. plainKey k \<longrightarrow>
       objFind ops c k = (case objFind ops b k of None \<Rightarrow> objFind ops a k | Some v \<Rightarrow> Some v) \<and>
       objFind ops d k = objFind ops c k)"
proof -
  note pa = items_permuted [of a iter, OF assms(1,3)] note pb = items_permuted [of b iter, OF assms(2,4)]
  let ?c = "foldl (\<lambda>s kv. if objFind ops s (fst kv) = None then objAssign ops s (fst kv) (snd kv) else s) b (iter a)"
  let ?d = "foldl (\<lambda>s kv. objAssign ops s (fst kv) (snd kv)) a (iter b)"
  have c: "dynMerge ops iter (OBJECT a) (OBJECT b) = Inr (OBJECT ?c)"
    using missingLoop_eq [OF assms(2)] pa(1) by (simp add: dynMerge_def updateMissing_def plainObject_def)
  have d: "dynUpdate ops iter (OBJECT a) (OBJECT b) = Inr (OBJECT ?d)"
    using updateLoop_eq [OF assms(1)] pb(1) by (simp add: dynUpdate_def plainObject_def)
  have "plainObject ?c \<and> (\<forall>k. plainKey k \<longrightarrow> objFind ops ?c k = (case objFind ops b k of None \<Rightarrow> map_of (iter a) k | Some v \<Rightarrow> Some v))"
    by (rule objects.puts_missing) (use assms pa in \<open>simp_all add: plainObject_def\<close>)
  moreover have "plainObject ?d \<and> (\<forall>k. plainKey k \<longrightarrow> objFind ops ?d k = (case map_of (iter b) k of None \<Rightarrow> objFind ops a k | Some v \<Rightarrow> Some v))"
    by (rule objects.puts_get) (use assms pb in \<open>simp_all add: plainObject_def\<close>)
  moreover have "objFind ops a k = map_of (iter a) k" "objFind ops b k = map_of (iter b) k" if "plainKey k" for k
    using that assms pa(2) pb(2) by (simp_all add: objFind_plain)
  ultimately have "\<forall>k. plainKey k \<longrightarrow>
       objFind ops ?c k = (case objFind ops b k of None \<Rightarrow> objFind ops a k | Some v \<Rightarrow> Some v) \<and>
       objFind ops ?d k = objFind ops ?c k" "plainObject ?c" "plainObject ?d" by (simp_all split: option.split)
  then show ?thesis using c d by blast
qed

definition unitOps :: "unit dops" where
  "unitOps = \<lparr>dEqual = (\<lambda>_ _. True), dLess = (\<lambda>_ _. False), dHash = (\<lambda>_. 0), ofInt = (\<lambda>_. ()),
     exactInt = (\<lambda>i. i = 0), toInt = (\<lambda>_. Inr 0), dText = (\<lambda>_. ''0.0''), dRead = (\<lambda>_. Inl Range_Error)\<rparr>"

theorem merge_overrides_witness:
  "\<exists>c. dynMerge unitOps rev (OBJECT [(STRING ''a'', INT64 1), (STRING ''b'', INT64 2)]) (OBJECT [(STRING ''a'', INT64 3)]) =
       Inr (OBJECT c) \<and> objFind unitOps c (STRING ''a'') = Some (INT64 3) \<and> objFind unitOps c (STRING ''b'') = Some (INT64 2)"
proof -
  let ?a = "[(STRING ''a'', INT64 1), (STRING ''b'', INT64 2)]" let ?b = "[(STRING ''a'', INT64 3)]"
  have p: "plainObject ?a" "plainObject ?b" by (simp_all add: plainObject_def)
  obtain c where "dynMerge unitOps rev (OBJECT ?a) (OBJECT ?b) = Inr (OBJECT c)"
    and "\<And>k. plainKey k \<Longrightarrow> objFind unitOps c k = (case objFind unitOps ?b k of None \<Rightarrow> objFind unitOps ?a k | Some v \<Rightarrow> Some v)"
    using merge_overrides [OF p, of rev unitOps] by auto
  then show ?thesis by (auto simp: keyMatch_plain)
qed

text \<open>
  Subtraction and division of a floating point number and an integer take the
  operands in the wrong order.
\<close>

lemma mixed_subtraction_swapped:
  assumes "exactInt ops i"
  shows "minusAssign ops dMinus (DOUBLE d) (INT64 i) = Inr (DOUBLE (dMinus (ofInt ops i) d)) \<and>
    minusAssign ops dMinus (INT64 i) (DOUBLE d) = Inr (DOUBLE (dMinus (ofInt ops i) d))"
  using assms by (simp add: minusAssign_def numericOp_def)

end
