(* ===== verification/Utf8_Text.thy ===== *)
theory Utf8_Text
  imports Prelude "HOL-Library.Sublist"
begin

unbundle bit_operations_syntax

text \<open>
  UTF-8: \<^verbatim>\<open>src/raster/util/Unicode.h\<close>, the encoder and the decoders of \<^verbatim>\<open>Unicode.cpp\<close> and the
  view of \<^verbatim>\<open>Utf8StringPiece.h\<close>. Bytes are 8-bit and code points 32-bit words. A decoder
  that gets a pair of pointers gets the list of the bytes between them here, and answers
  with how far it moved the first pointer; iterators are positions of a text. Reading
  behind the text is undefined. The character properties come from ICU and are left out.
\<close>

section \<open>Classes of bytes\<close>

definition u8CountTrailBytes :: "8 word \<Rightarrow> nat" where
  "u8CountTrailBytes c =
     (if c < 0xf0 then (if c \<ge> 0xc0 then 1 else 0) + (if c \<ge> 0xe0 then 1 else 0)
      else if c < 0xfe then 3 + (if c \<ge> 0xf8 then 1 else 0) + (if c \<ge> 0xfc then 1 else 0)
      else 0)"

definition u8CountTrailBytesUnsafe :: "8 word \<Rightarrow> nat" where
  "u8CountTrailBytesUnsafe c =
     (if c \<ge> 0xc0 then 1 else 0) + (if c \<ge> 0xe0 then 1 else 0) + (if c \<ge> 0xf0 then 1 else 0)"

definition u8IsSingle :: "8 word \<Rightarrow> bool" where
  "u8IsSingle c \<longleftrightarrow> c AND 0x80 = 0"

definition u8IsLead :: "8 word \<Rightarrow> bool" where
  "u8IsLead c \<longleftrightarrow> c - 0xc0 < 0x3e"

definition u8IsTrail :: "8 word \<Rightarrow> bool" where
  "u8IsTrail c \<longleftrightarrow> c AND 0xc0 = 0x80"

definition u8Length :: "32 word \<Rightarrow> nat" where
  "u8Length c =
     (if c \<le> 0x7f then 1 else if c \<le> 0x7ff then 2 else if c \<le> 0xd7ff then 3
      else if c \<le> 0xdfff \<or> c > 0x10ffff then 0 else if c \<le> 0xffff then 3 else 4)"

section \<open>Moving over a text\<close>

definition utf8CodePointLength :: "8 word list \<Rightarrow> nat result" where
  "utf8CodePointLength p = guard (p \<noteq> []) Undefined (Inr (1 + u8CountTrailBytesUnsafe (hd p)))"

definition utf8ForwardCodePoint :: "8 word list \<Rightarrow> nat \<Rightarrow> nat result" where
  "utf8ForwardCodePoint s p =
     guard (p < length s) Undefined (Inr (p + 1 + u8CountTrailBytesUnsafe (s ! p)))"

text \<open>\<^verbatim>\<open>while (count > 0 && U8_IS_TRAIL(*p))\<close>: the number of trail bytes passed.\<close>

fun trailLoop :: "nat \<Rightarrow> 8 word list \<Rightarrow> nat" where
  "trailLoop (Suc k) (c # cs) = (if u8IsTrail c then Suc (trailLoop k cs) else 0)"
| "trailLoop _ _ = 0"

text \<open>\<open>None\<close> is the null pointer.\<close>

definition utf8ForwardCodePointSafe :: "8 word list \<Rightarrow> nat option result" where
  "utf8ForwardCodePointSafe s =
     guard (s \<noteq> []) Undefined
       (if u8IsLead (hd s)
        then let k = u8CountTrailBytes (hd s)
             in if k > length (tl s) then Inr None
                else if trailLoop k (tl s) < k then Inr None
                else Inr (Some (1 + k))
        else Inr (Some 1))"

fun backLoop :: "8 word list \<Rightarrow> nat \<Rightarrow> nat result" where
  "backLoop s 0 = Inl Undefined"
| "backLoop s (Suc p) =
     guard (p < length s) Undefined (if u8IsTrail (s ! p) then backLoop s p else Inr p)"

definition utf8BackCodePoint :: "8 word list \<Rightarrow> nat \<Rightarrow> nat result" where
  "utf8BackCodePoint s p = backLoop s p"

fun backLoopSafe :: "8 word list \<Rightarrow> nat \<Rightarrow> nat" where
  "backLoopSafe s 0 = 0"
| "backLoopSafe s (Suc p) = (if u8IsTrail (s ! p) then backLoopSafe s p else p)"

definition utf8BackCodePointSafe :: "8 word list \<Rightarrow> nat \<Rightarrow> nat option result" where
  "utf8BackCodePointSafe s p =
     guard (p \<le> length s) Undefined
       (let q = backLoopSafe s p
        in guard (q < length s) Undefined (Inr (if u8IsTrail (s ! q) then None else Some q)))"

definition utf8StringEnd :: "8 word list \<Rightarrow> nat result" where
  "utf8StringEnd s =
     (if s = [] then Inr 0
      else res_bind (utf8BackCodePointSafe s (length s)) (\<lambda>r.
        case r of None \<Rightarrow> Inr (length s)
        | Some p \<Rightarrow> res_bind (utf8CodePointLength (drop p s)) (\<lambda>n.
            Inr (if length s - p = n then length s else p))))"

function utf8StringIsValid :: "8 word list \<Rightarrow> bool result" where
  "utf8StringIsValid s =
     (if s = [] then Inr True
      else case utf8ForwardCodePointSafe s of
        Inl e \<Rightarrow> Inl e
      | Inr None \<Rightarrow> Inr False
      | Inr (Some n) \<Rightarrow> utf8StringIsValid (drop n s))"
  by pat_completeness auto
termination
  by (relation "measure length")
    (auto simp: utf8ForwardCodePointSafe_def Let_def guard_def split: if_splits)

declare utf8StringIsValid.simps [simp del]

text \<open>
  \<^verbatim>\<open>utf8StringRemoveMalformed\<close> works in place: \<open>to1\<close> is where the next good bytes go,
  \<open>lead\<close> where the scan is. \<^verbatim>\<open>std::copy\<close> moves them front to back. The two nested loops
  are one recursion: the inner one ends at a lead byte or at the end of the text.
\<close>

primrec copyDown :: "nat \<Rightarrow> 8 word list \<Rightarrow> nat \<Rightarrow> nat \<Rightarrow> 8 word list" where
  "copyDown 0 buf a to1 = buf"
| "copyDown (Suc n) buf a to1 = copyDown n (buf[to1 := buf ! a]) (a + 1) (to1 + 1)"

lemma length_copyDown [simp]: "length (copyDown n buf a to1) = length buf"
  by (induction n arbitrary: buf a to1) simp_all

function malformedLoop :: "8 word list \<Rightarrow> nat \<Rightarrow> nat \<Rightarrow> 8 word list \<times> nat" where
  "malformedLoop buf to1 lead =
     (if lead \<ge> length buf then (buf, to1)
      else let c = buf ! lead
           in if u8IsSingle c then malformedLoop (copyDown 1 buf lead to1) (to1 + 1) (lead + 1)
              else if u8IsLead c
              then let k = u8CountTrailBytes c; n = trailLoop k (drop (lead + 1) buf); p = lead + 1 + n
                   in if k - n = 0 then malformedLoop (copyDown (1 + n) buf lead to1) (to1 + (1 + n)) p
                      else malformedLoop buf to1 p
              else malformedLoop buf to1 (lead + 1))"
  by pat_completeness auto
termination
  by (relation "measure (\<lambda>(buf, to1, lead). length buf - lead)") auto

declare malformedLoop.simps [simp del]

definition utf8StringRemoveMalformed :: "8 word list \<Rightarrow> 8 word list" where
  "utf8StringRemoveMalformed s = (case malformedLoop s 0 0 of (out, it) \<Rightarrow> take it out)"

section \<open>Encoding and decoding\<close>

text \<open>\<^verbatim>\<open>codePointToUtf8\<close>; the third branch masks after the cast.\<close>

definition codePointToUtf8 :: "32 word \<Rightarrow> 8 word list" where
  "codePointToUtf8 cp =
     (if cp \<le> 0x7f then [ucast cp]
      else if cp \<le> 0x7FF then [ucast (0xC0 OR drop_bit 6 cp), ucast (0x80 OR (0x3f AND cp))]
      else if cp \<le> 0xFFFF
      then [0xE0 OR ucast (drop_bit 12 cp), 0x80 OR ucast (0x3f AND drop_bit 6 cp), ucast (0x80 OR (0x3f AND cp))]
      else if cp \<le> 0x10FFFF
      then [ucast (0xF0 OR drop_bit 18 cp), ucast (0x80 OR (0x3f AND drop_bit 12 cp)),
            ucast (0x80 OR (0x3f AND drop_bit 6 cp)), ucast (0x80 OR (0x3f AND cp))]
      else [])"

definition bitMask :: "32 word list" where
  "bitMask = [2 ^ 7 - 1, 2 ^ 11 - 1, 2 ^ 16 - 1, 2 ^ 21 - 1]"

definition skipOr :: "bool \<Rightarrow> (32 word \<times> nat) result" where
  "skipOr skipOnError = (if skipOnError then Inr (0xfffd, 1) else Inl Runtime_Error)"

text \<open>The loop over the trail bytes, from byte \<open>i\<close> on; \<open>fst1\<close> is the shifted first byte.\<close>

function decodeLoop :: "bool \<Rightarrow> 8 word list \<Rightarrow> nat \<Rightarrow> 8 word \<Rightarrow> 32 word \<Rightarrow> (32 word \<times> nat) result" where
  "decodeLoop skipOnError p i fst1 d =
     (if i < 3 \<and> i < length p
      then let tmp = p ! i
           in if tmp AND 0xC0 \<noteq> 0x80 then skipOr skipOnError
              else let d1 = push_bit 6 d OR ucast (tmp AND 0x3F); fst2 = push_bit 1 fst1
                   in if fst2 AND 0x80 = 0
                      then let d2 = d1 AND bitMask ! i
                           in if d2 AND NOT (bitMask ! (i - 1)) = 0 then skipOr skipOnError
                              else if i = 2 \<and> (0xD800 \<le> d2 \<and> d2 \<le> 0xDFFF \<or> d2 > 0x10FFFF)
                              then skipOr skipOnError
                              else Inr (d2, i + 1)
                      else decodeLoop skipOnError p (i + 1) fst2 d1
      else skipOr skipOnError)"
  by pat_completeness auto
termination
  by (relation "measure (\<lambda>(skipOnError, p, i, fst1, d). 3 - i)") auto

declare decodeLoop.simps [simp del]

definition utf8ToCodePoint :: "bool \<Rightarrow> 8 word list \<Rightarrow> (32 word \<times> nat) result" where
  "utf8ToCodePoint skipOnError p =
     (if p = [] then skipOr skipOnError
      else if hd p AND 0x80 = 0 then Inr (ucast (hd p), 1)
      else if hd p AND 0xC0 \<noteq> 0xC0 then skipOr skipOnError
      else decodeLoop skipOnError p 1 (push_bit 1 (hd p)) (ucast (hd p)))"

definition readByte :: "8 word list \<Rightarrow> nat \<Rightarrow> 32 word result" where
  "readByte p i = guard (i < length p) Undefined (Inr (ucast (p ! i)))"

definition utf8ToCodePointUnsafe :: "8 word list \<Rightarrow> 32 word result" where
  "utf8ToCodePointUnsafe p =
     res_bind (readByte p 0) (\<lambda>cp.
       if cp < 0x80 then Inr cp
       else guard (u8IsLead (p ! 0)) Check_Failed
         (res_bind (readByte p 1) (\<lambda>b1.
            if cp < 0xe0 then Inr (push_bit 6 (cp AND 0x1f) OR (b1 AND 0x3f))
            else res_bind (readByte p 2) (\<lambda>b2.
              if cp < 0xf0
              then Inr (take_bit 16 (push_bit 12 cp OR push_bit 6 (b1 AND 0x3f) OR (b2 AND 0x3f)))
              else res_bind (readByte p 3) (\<lambda>b3.
                Inr (push_bit 18 (cp AND 7) OR push_bit 12 (b1 AND 0x3f) OR push_bit 6 (b2 AND 0x3f) OR (b3 AND 0x3f)))))))"

section \<open>Iterators and views\<close>

definition iterNext :: "8 word list \<Rightarrow> nat \<Rightarrow> nat result" where
  "iterNext s p = utf8ForwardCodePoint s p"

definition iterPrev :: "8 word list \<Rightarrow> nat \<Rightarrow> nat result" where
  "iterPrev s p = utf8BackCodePoint s p"

primrec iterForward :: "8 word list \<Rightarrow> nat \<Rightarrow> nat \<Rightarrow> nat result" where
  "iterForward s p 0 = Inr p"
| "iterForward s p (Suc n) = res_bind (iterNext s p) (\<lambda>q. iterForward s q n)"

primrec iterBackward :: "8 word list \<Rightarrow> nat \<Rightarrow> nat \<Rightarrow> nat result" where
  "iterBackward s p 0 = Inr p"
| "iterBackward s p (Suc n) = res_bind (iterPrev s p) (\<lambda>q. iterBackward s q n)"

definition iterPlus :: "8 word list \<Rightarrow> nat \<Rightarrow> int \<Rightarrow> nat result" where
  "iterPlus s p n = (if n > 0 then iterForward s p (nat n) else iterBackward s p (nat (- n)))"

definition iterDeref :: "8 word list \<Rightarrow> nat \<Rightarrow> 32 word result" where
  "iterDeref s p = utf8ToCodePointUnsafe (drop p s)"

definition iterPiece :: "8 word list \<Rightarrow> nat \<Rightarrow> 8 word list result" where
  "iterPiece s p = res_bind (utf8CodePointLength (drop p s)) (\<lambda>n. Inr (take n (drop p s)))"

text \<open>\<^verbatim>\<open>operator-\<close> of two iterators; one that passes its goal runs off the text.\<close>

function iterDistance :: "8 word list \<Rightarrow> nat \<Rightarrow> nat \<Rightarrow> nat result" where
  "iterDistance s it this1 =
     (if it = this1 then Inr 0
      else if it < length s
      then res_bind (iterDistance s (it + 1 + u8CountTrailBytesUnsafe (s ! it)) this1) (\<lambda>n. Inr (Suc n))
      else Inl Undefined)"
  by pat_completeness auto
termination
  by (relation "measure (\<lambda>(s, it, this1). length s - it)") auto

declare iterDistance.simps [simp del]

text \<open>UTF-16 lengths. The count is a \<^verbatim>\<open>size_t\<close>, so half a surrogate pair wraps around.\<close>

definition u16Width :: "32 word \<Rightarrow> nat" where
  "u16Width cp = (if cp > 0xFFFF then 2 else 1)"

function u16Advance :: "8 word list \<Rightarrow> nat \<Rightarrow> nat \<Rightarrow> nat option \<Rightarrow> nat result" where
  "u16Advance s it n last1 =
     (if n = 0 \<or> last1 = Some it then Inr it
      else if it < length s
      then res_bind (iterDeref s it) (\<lambda>cp.
             u16Advance s (it + 1 + u8CountTrailBytesUnsafe (s ! it)) ((n + 2 ^ 64 - u16Width cp) mod 2 ^ 64) last1)
      else Inl Undefined)"
  by pat_completeness auto
termination
  by (relation "measure (\<lambda>(s, it, n, last1). length s - it)") auto

declare u16Advance.simps [simp del]

definition u16AdvanceTo :: "8 word list \<Rightarrow> nat \<Rightarrow> nat result" where
  "u16AdvanceTo s n =
     res_bind (utf8StringEnd s) (\<lambda>end1. guard (end1 = length s) Check_Failed (u16Advance s 0 n (Some end1)))"

function u16DistanceLoop :: "8 word list \<Rightarrow> nat \<Rightarrow> nat \<Rightarrow> nat result" where
  "u16DistanceLoop s it end1 =
     (if it = end1 then Inr 0
      else if it < length s
      then res_bind (iterDeref s it) (\<lambda>cp.
             res_bind (u16DistanceLoop s (it + 1 + u8CountTrailBytesUnsafe (s ! it)) end1) (\<lambda>d. Inr (u16Width cp + d)))
      else Inl Undefined)"
  by pat_completeness auto
termination
  by (relation "measure (\<lambda>(s, it, end1). length s - it)") auto

declare u16DistanceLoop.simps [simp del]

definition u16Distance :: "8 word list \<Rightarrow> nat result" where
  "u16Distance s =
     res_bind (utf8StringEnd s) (\<lambda>end1. guard (end1 = length s) Check_Failed (u16DistanceLoop s 0 end1))"

text \<open>A view is a pair of positions of the text it looks at.\<close>

record view =
  vb :: nat
  ve :: nat

definition viewSize :: "view \<Rightarrow> nat result" where
  "viewSize v = guard (vb v \<le> ve v) Assert_Failed (Inr (ve v - vb v))"

definition viewLength :: "8 word list \<Rightarrow> view \<Rightarrow> nat result" where
  "viewLength s v = guard (vb v \<le> ve v) Assert_Failed (iterDistance s (vb v) (ve v))"

definition viewFront :: "8 word list \<Rightarrow> view \<Rightarrow> 32 word result" where
  "viewFront s v = guard (vb v < ve v) Assert_Failed (iterDeref s (vb v))"

definition viewBack :: "8 word list \<Rightarrow> view \<Rightarrow> 32 word result" where
  "viewBack s v = guard (vb v < ve v) Assert_Failed (res_bind (iterPrev s (ve v)) (iterDeref s))"

primrec viewAdvanceLoop :: "8 word list \<Rightarrow> nat \<Rightarrow> nat \<Rightarrow> nat \<Rightarrow> nat result" where
  "viewAdvanceLoop s i e 0 = Inr i"
| "viewAdvanceLoop s i e (Suc n) =
     (if i = e then Inl Out_Of_Range else res_bind (iterNext s i) (\<lambda>i1. viewAdvanceLoop s i1 e n))"

definition viewAdvance :: "8 word list \<Rightarrow> nat \<Rightarrow> view \<Rightarrow> view result" where
  "viewAdvance s n v = res_bind (viewAdvanceLoop s (vb v) (ve v) n) (\<lambda>i. Inr (v\<lparr>vb := i\<rparr>))"

primrec viewSubtractLoop :: "8 word list \<Rightarrow> nat \<Rightarrow> nat \<Rightarrow> nat \<Rightarrow> nat result" where
  "viewSubtractLoop s b i 0 = Inr i"
| "viewSubtractLoop s b i (Suc n) =
     (if b = i then Inl Out_Of_Range else res_bind (iterPrev s i) (\<lambda>i1. viewSubtractLoop s b i1 n))"

definition viewSubtract :: "8 word list \<Rightarrow> nat \<Rightarrow> view \<Rightarrow> view result" where
  "viewSubtract s n v = res_bind (viewSubtractLoop s (vb v) (ve v) n) (\<lambda>i. Inr (v\<lparr>ve := i\<rparr>))"

definition viewPopFront :: "8 word list \<Rightarrow> view \<Rightarrow> view result" where
  "viewPopFront s v = guard (vb v < ve v) Assert_Failed (res_bind (iterNext s (vb v)) (\<lambda>i. Inr (v\<lparr>vb := i\<rparr>)))"

definition viewPopBack :: "8 word list \<Rightarrow> view \<Rightarrow> view result" where
  "viewPopBack s v = guard (vb v < ve v) Assert_Failed (res_bind (iterPrev s (ve v)) (\<lambda>i. Inr (v\<lparr>ve := i\<rparr>)))"

section \<open>Bit operations as arithmetic\<close>

lemma or_shifted:
  fixes x y :: nat
  assumes "y < 2 ^ k"
  shows "x * 2 ^ k OR y = x * 2 ^ k + y"
proof -
  have "y = take_bit k y" using assms by (simp add: take_bit_eq_mod)
  then have b: "bit y n \<Longrightarrow> n < k" for n by (metis bit_take_bit_iff)
  have "push_bit k x AND y = 0" by (rule bit_eqI) (auto simp: bit_simps dest: b)
  then have "push_bit k x + y = push_bit k x OR y" by (rule disjunctive_add_eq_or)
  then show ?thesis by (simp add: push_bit_eq_mult)
qed

lemma and_low: "(x :: nat) AND (2 ^ k - 1) = x mod 2 ^ k"
  using take_bit_eq_mask [of k x] by (simp add: take_bit_eq_mod mask_eq_exp_minus_1)

lemma and_high: "(x :: nat) AND (m * 2 ^ k) = (x div 2 ^ k AND m) * 2 ^ k"
proof -
  have "x AND push_bit k m = push_bit k (drop_bit k x AND m)" by (rule bit_eqI) (auto simp: bit_simps)
  then show ?thesis by (simp add: push_bit_eq_mult drop_bit_eq_div)
qed

lemma and_bits:
  fixes x :: nat
  shows "x AND 63 = x mod 64" "x AND 31 = x mod 32" "x AND 7 = x mod 8"
    "x AND 128 = 128 * (x div 128 mod 2)" "x AND 192 = 64 * (x div 64 mod 4)"
    "63 AND x = x mod 64"
  using and_low [of x 6] and_low [of x 5] and_low [of x 3] and_high [of x 1 7] and_high [of x 3 6]
    and_low [of "x div 128" 1] and_low [of "x div 64" 2]
  by (simp_all add: ac_simps)

lemma or_bits:
  fixes y :: nat
  shows "y < 64 \<Longrightarrow> 128 OR y = 128 + y" "y < 32 \<Longrightarrow> 192 OR y = 192 + y" "y < 16 \<Longrightarrow> 224 OR y = 224 + y"
    "y < 8 \<Longrightarrow> 240 OR y = 240 + y" "y < 64 \<Longrightarrow> x * 64 OR y = x * 64 + y" "y < 4096 \<Longrightarrow> x * 4096 OR y = x * 4096 + y"
    "y < 262144 \<Longrightarrow> x * 262144 OR y = x * 262144 + y"
  using or_shifted [of y 6 2] or_shifted [of y 5 6] or_shifted [of y 4 14] or_shifted [of y 3 30]
    or_shifted [of y 6 x] or_shifted [of y 12 x] or_shifted [of y 18 x] by simp_all

lemma unat_drop: "unat (drop_bit k (w :: 'a :: len word)) = unat w div 2 ^ k"
proof -
  have "unat (drop_bit k w) = drop_bit k (take_bit LENGTH('a) (unat w))" by (rule unsigned_drop_bit_eq)
  moreover have "take_bit LENGTH('a) (unat w) = unat w" by (simp add: take_bit_eq_mod)
  ultimately show ?thesis by (simp only: drop_bit_eq_div)
qed

lemmas unat_bits = unsigned_and_eq unsigned_or_eq unsigned_ucast_eq unat_drop

lemma unat_push: "unat (push_bit k (w :: 'a :: len word)) = unat w * 2 ^ k mod 2 ^ LENGTH('a)"
proof -
  have "unat (push_bit k w) = take_bit LENGTH('a) (push_bit k (unat w))" by (rule unsigned_push_bit_eq)
  then show ?thesis by (simp only: take_bit_eq_mod push_bit_eq_mult)
qed

text \<open>The bytes of the encoding, as numbers.\<close>

lemma encoded_bytes:
  shows "unat cp < 0x80 \<Longrightarrow> map unat (codePointToUtf8 cp) = [unat cp]"
    "0x80 \<le> unat cp \<Longrightarrow> unat cp < 0x800 \<Longrightarrow>
       map unat (codePointToUtf8 cp) = [192 + unat cp div 64, 128 + unat cp mod 64]"
    "0x800 \<le> unat cp \<Longrightarrow> unat cp < 0x10000 \<Longrightarrow>
       map unat (codePointToUtf8 cp) = [224 + unat cp div 4096, 128 + unat cp div 64 mod 64, 128 + unat cp mod 64]"
    "0x10000 \<le> unat cp \<Longrightarrow> unat cp < 0x110000 \<Longrightarrow>
       map unat (codePointToUtf8 cp) =
         [240 + unat cp div 262144, 128 + unat cp div 4096 mod 64, 128 + unat cp div 64 mod 64, 128 + unat cp mod 64]"
  by (auto simp: codePointToUtf8_def word_le_nat_alt unat_bits and_bits or_bits take_bit_eq_mod mod_mod_cancel
      less_mult_imp_div_less)

section \<open>The shape of an encoded code point\<close>

lemma byte_classes:
  "u8IsTrail c \<longleftrightarrow> 128 \<le> unat c \<and> unat c < 192" "u8IsSingle c \<longleftrightarrow> unat c < 128"
  "u8IsLead c \<longleftrightarrow> 192 \<le> unat c \<and> unat c < 254"
proof -
  have "unat c < 2 ^ LENGTH(8)" by (rule unsigned_less)
  then have c: "unat c < 256" by simp
  have "u8IsTrail c \<longleftrightarrow> unat c div 64 mod 4 = 2"
    by (simp add: u8IsTrail_def word_unat_eq_iff unat_bits and_bits)
  moreover have "unat c div 64 < 4" using c by (simp add: less_mult_imp_div_less)
  ultimately have "u8IsTrail c \<longleftrightarrow> unat c div 64 = 2" by simp
  then show "u8IsTrail c \<longleftrightarrow> 128 \<le> unat c \<and> unat c < 192" by arith
  have "u8IsSingle c \<longleftrightarrow> unat c div 128 mod 2 = 0"
    by (simp add: u8IsSingle_def word_unat_eq_iff unat_bits and_bits)
  moreover have "unat c div 128 < 2" using c by (simp add: less_mult_imp_div_less)
  ultimately have "u8IsSingle c \<longleftrightarrow> unat c div 128 = 0" by simp
  then show "u8IsSingle c \<longleftrightarrow> unat c < 128" by arith
  show "u8IsLead c \<longleftrightarrow> 192 \<le> unat c \<and> unat c < 254"
    using c by (auto simp: u8IsLead_def word_less_nat_alt word_le_nat_alt unat_sub_if_size word_size)
qed

lemma trail_counts:
  "unat c < 128 \<Longrightarrow> u8CountTrailBytesUnsafe c = 0"
  "192 \<le> unat c \<Longrightarrow> unat c < 224 \<Longrightarrow> u8CountTrailBytesUnsafe c = 1 \<and> u8CountTrailBytes c = 1"
  "224 \<le> unat c \<Longrightarrow> unat c < 240 \<Longrightarrow> u8CountTrailBytesUnsafe c = 2 \<and> u8CountTrailBytes c = 2"
  "240 \<le> unat c \<Longrightarrow> unat c < 248 \<Longrightarrow> u8CountTrailBytesUnsafe c = 3 \<and> u8CountTrailBytes c = 3"
  by (simp_all add: u8CountTrailBytesUnsafe_def u8CountTrailBytes_def word_le_nat_alt word_less_nat_alt)

text \<open>A lead byte with as many trail bytes as it announces, or a single byte.\<close>

definition utf8Unit :: "8 word list \<Rightarrow> bool" where
  "utf8Unit u \<longleftrightarrow> (case u of [] \<Rightarrow> False
     | c # t \<Rightarrow> if t = [] then u8IsSingle c
       else u8IsLead c \<and> list_all u8IsTrail t \<and> length t = u8CountTrailBytes c)"

lemma code_point_cases:
  assumes "unat cp < 0x110000"
  obtains (one) c where "codePointToUtf8 cp = [c]" "unat c = unat cp" "unat cp < 128"
  | (two) c d where "codePointToUtf8 cp = [c, d]" "unat c = 192 + unat cp div 64" "unat d = 128 + unat cp mod 64"
      "128 \<le> unat cp" "unat cp < 2048"
  | (three) c d e where "codePointToUtf8 cp = [c, d, e]" "unat c = 224 + unat cp div 4096"
      "unat d = 128 + unat cp div 64 mod 64" "unat e = 128 + unat cp mod 64" "2048 \<le> unat cp" "unat cp < 65536"
  | (four) c d e f where "codePointToUtf8 cp = [c, d, e, f]" "unat c = 240 + unat cp div 262144"
      "unat d = 128 + unat cp div 4096 mod 64" "unat e = 128 + unat cp div 64 mod 64" "unat f = 128 + unat cp mod 64"
      "65536 \<le> unat cp"
proof -
  consider "unat cp < 128" | "128 \<le> unat cp" "unat cp < 2048" | "2048 \<le> unat cp" "unat cp < 65536" | "65536 \<le> unat cp"
    by linarith
  then show thesis
  proof cases
    case 1
    with encoded_bytes(1) [of cp] one show thesis by (auto simp: map_eq_Cons_conv)
  next
    case 2
    with encoded_bytes(2) [of cp] two show thesis by (auto simp: map_eq_Cons_conv)
  next
    case 3
    with encoded_bytes(3) [of cp] three show thesis by (auto simp: map_eq_Cons_conv)
  next
    case 4
    with encoded_bytes(4) [of cp] assms four show thesis by (auto simp: map_eq_Cons_conv)
  qed
qed

lemma encoded_unit:
  assumes "unat cp < 0x110000"
  shows "utf8Unit (codePointToUtf8 cp) \<and>
    length (codePointToUtf8 cp) = 1 + u8CountTrailBytesUnsafe (hd (codePointToUtf8 cp))"
  using assms
proof (cases cp rule: code_point_cases)
  case (one c)
  then show ?thesis using trail_counts(1) [of c] by (simp add: utf8Unit_def byte_classes)
next
  case (two c d)
  have "unat cp div 64 < 32" using two by (simp add: less_mult_imp_div_less)
  then show ?thesis using two trail_counts(2) [of c] by (simp add: utf8Unit_def byte_classes)
next
  case (three c d e)
  have "unat cp div 4096 < 16" using three by (simp add: less_mult_imp_div_less)
  then show ?thesis using three trail_counts(3) [of c] by (simp add: utf8Unit_def byte_classes)
next
  case (four c d e f)
  have "unat cp div 262144 < 8" using assms by (simp add: less_mult_imp_div_less)
  then show ?thesis using four trail_counts(4) [of c] by (simp add: utf8Unit_def byte_classes)
qed

section \<open>Decoding what was encoded\<close>

lemma join_bits:
  fixes x y z u :: "32 word"
  shows "unat (push_bit 6 (x AND 0x1f) OR (y AND 0x3f)) = unat x mod 32 * 64 + unat y mod 64"
    "unat (take_bit 16 (push_bit 12 x OR push_bit 6 (y AND 0x3f) OR (z AND 0x3f))) =
       (unat x * 4096 + unat y mod 64 * 64 + unat z mod 64) mod 65536"
    "unat (push_bit 18 (x AND 7) OR push_bit 12 (y AND 0x3f) OR push_bit 6 (z AND 0x3f) OR (u AND 0x3f)) =
       unat x mod 8 * 262144 + unat y mod 64 * 4096 + unat z mod 64 * 64 + unat u mod 64"
proof -
  have lt: "unat x mod 32 < 32" "unat y mod 64 < 64" "unat z mod 64 < 64" "unat u mod 64 < 64" "unat x mod 8 < 8" by simp_all
  show "unat (push_bit 6 (x AND 0x1f) OR (y AND 0x3f)) = unat x mod 32 * 64 + unat y mod 64"
  proof -
    have "unat x mod 32 * 64 < 2 ^ 32" using lt(1) by simp
    then show ?thesis unfolding unsigned_or_eq unat_push unsigned_and_eq by (simp add: and_bits or_bits)
  qed
  show "unat (take_bit 16 (push_bit 12 x OR push_bit 6 (y AND 0x3f) OR (z AND 0x3f))) =
       (unat x * 4096 + unat y mod 64 * 64 + unat z mod 64) mod 65536"
  proof -
    let ?p = "push_bit 12 x OR push_bit 6 (y AND 0x3f) OR (z AND 0x3f)"
    obtain a where a: "unat x * 4096 mod 2 ^ 32 = a * 4096"
      using dvd_mod [of 4096 "unat x * 4096" "2 ^ 32"] by (auto elim!: dvdE)
    have yy: "unat y mod 64 * 64 mod 2 ^ 32 = unat y mod 64 * 64" "unat y mod 64 * 64 < 4096" using lt(2) by simp_all
    have "unat ?p = a * 4096 OR (unat y mod 64 * 64 OR unat z mod 64)"
      using a yy unfolding unsigned_or_eq unat_push unsigned_and_eq by (simp add: and_bits)
    also have "\<dots> = a * 4096 OR (unat y mod 64 * 64 + unat z mod 64)" using or_bits(5) [OF lt(3)] by simp
    also have "\<dots> = a * 4096 + unat y mod 64 * 64 + unat z mod 64"
      using or_bits(6) [of "unat y mod 64 * 64 + unat z mod 64" a] lt(2,3) by simp
    finally have p: "unat ?p = unat x * 4096 mod 2 ^ 32 + unat y mod 64 * 64 + unat z mod 64" using a by simp
    have "unat (take_bit 16 ?p) = unat ?p mod 65536"
      unfolding unsigned_take_bit_eq by (simp add: take_bit_eq_mod)
    also have "\<dots> = (unat x * 4096 mod 2 ^ 32 mod 65536 + (unat y mod 64 * 64 + unat z mod 64)) mod 65536"
      unfolding p by (simp only: mod_add_left_eq add.assoc)
    also have "unat x * 4096 mod 2 ^ 32 mod 65536 = unat x * 4096 mod 65536" by (rule mod_mod_cancel) simp
    finally show ?thesis by (simp only: mod_add_left_eq add.assoc)
  qed
  show "unat (push_bit 18 (x AND 7) OR push_bit 12 (y AND 0x3f) OR push_bit 6 (z AND 0x3f) OR (u AND 0x3f)) =
       unat x mod 8 * 262144 + unat y mod 64 * 4096 + unat z mod 64 * 64 + unat u mod 64"
  proof -
    have yy: "unat y mod 64 * 4096 < 262144" "unat z mod 64 * 64 < 4096" "unat x mod 8 * 262144 < 2 ^ 32" using lt by simp_all
    have "unat (push_bit 18 (x AND 7) OR push_bit 12 (y AND 0x3f) OR push_bit 6 (z AND 0x3f) OR (u AND 0x3f)) =
      unat x mod 8 * 262144 OR (unat y mod 64 * 4096 OR (unat z mod 64 * 64 OR unat u mod 64))"
      using yy unfolding unsigned_or_eq unat_push unsigned_and_eq by (simp add: and_bits)
    also have "unat z mod 64 * 64 OR unat u mod 64 = unat z mod 64 * 64 + unat u mod 64" using or_bits(5) [OF lt(4)] by simp
    also have "unat y mod 64 * 4096 OR \<dots> = unat y mod 64 * 4096 + (unat z mod 64 * 64 + unat u mod 64)"
      by (rule or_bits(6)) (use lt(3,4) in linarith)
    also have "unat x mod 8 * 262144 OR \<dots> = unat x mod 8 * 262144 + (unat y mod 64 * 4096 + (unat z mod 64 * 64 + unat u mod 64))"
      by (rule or_bits(7)) (use lt(2,3,4) in linarith)
    also have "\<dots> = unat x mod 8 * 262144 + unat y mod 64 * 4096 + unat z mod 64 * 64 + unat u mod 64" by simp
    finally show ?thesis .
  qed
qed

lemma decode_arithmetic:
  fixes n :: nat
  shows "n < 2048 \<Longrightarrow> (192 + n div 64) mod 32 * 64 + (128 + n mod 64) mod 64 = n"
    "n < 65536 \<Longrightarrow> ((224 + n div 4096) * 4096 + (128 + n div 64 mod 64) mod 64 * 64 + (128 + n mod 64) mod 64) mod 65536 = n"
    "n < 1114112 \<Longrightarrow> (240 + n div 262144) mod 8 * 262144 + (128 + n div 4096 mod 64) mod 64 * 4096 +
       (128 + n div 64 mod 64) mod 64 * 64 + (128 + n mod 64) mod 64 = n"
proof -
  have m: "(128 + k mod 64) mod 64 = k mod 64" for k :: nat using mod_mult_self1 [of "k mod 64" 2 64] by (simp add: add.commute)
  have n: "n div 64 * 64 + n mod 64 = n" "n div 4096 * 64 + n div 64 mod 64 = n div 64"
    "n div 262144 * 64 + n div 4096 mod 64 = n div 4096"
    using div_mult_mod_eq [of n 64] div_mult_mod_eq [of "n div 64" 64] div_mult_mod_eq [of "n div 4096" 64]
    by (simp_all add: div_mult2_eq [symmetric])
  have three: "(224 + a) * 4096 + b * 64 + c = k + 14 * 65536" if "d * 64 + c = k" "a * 64 + b = d" for a b c d k :: nat
    unfolding that [symmetric] by simp
  have four: "a * 262144 + b * 4096 + c * 64 + d = k" if "f * 64 + d = k" "e * 64 + c = f" "a * 64 + b = e" for a b c d e f k :: nat
    unfolding that [symmetric] by simp
  show "(192 + n div 64) mod 32 * 64 + (128 + n mod 64) mod 64 = n" if "n < 2048"
  proof -
    have "n div 64 < 32" using that by (simp add: less_mult_imp_div_less)
    then have "(192 + n div 64) mod 32 = n div 64" using mod_mult_self1 [of "n div 64" 6 32] by (simp add: add.commute)
    then show ?thesis using m n by simp
  qed
  show "((224 + n div 4096) * 4096 + (128 + n div 64 mod 64) mod 64 * 64 + (128 + n mod 64) mod 64) mod 65536 = n"
    if "n < 65536"
  proof -
    have "(224 + n div 4096) * 4096 + n div 64 mod 64 * 64 + n mod 64 = n + 14 * 65536" by (rule three [OF n(1,2)])
    then show ?thesis unfolding m using that by (simp only: mod_mult_self1) simp
  qed
  show "(240 + n div 262144) mod 8 * 262144 + (128 + n div 4096 mod 64) mod 64 * 4096 +
       (128 + n div 64 mod 64) mod 64 * 64 + (128 + n mod 64) mod 64 = n" if "n < 1114112"
  proof -
    have "n div 262144 < 8" using that by (simp add: less_mult_imp_div_less)
    then have "(240 + n div 262144) mod 8 = n div 262144" using mod_mult_self1 [of "n div 262144" 30 8] by (simp add: add.commute)
    then show ?thesis unfolding m using four [OF n] by simp
  qed
qed

lemma unat_up: "unat (ucast (c :: 8 word) :: 32 word) = unat c"
  using unsigned_less [of c, where ?'a = nat] unfolding unsigned_ucast_eq by (simp add: take_bit_eq_mod)

lemma unsafe_eval:
  "unat c < 128 \<Longrightarrow> utf8ToCodePointUnsafe (c # t) = Inr (ucast c)"
  "192 \<le> unat c \<Longrightarrow> unat c < 224 \<Longrightarrow>
     utf8ToCodePointUnsafe (c # d # t) = Inr (push_bit 6 (ucast c AND 0x1f) OR (ucast d AND 0x3f))"
  "224 \<le> unat c \<Longrightarrow> unat c < 240 \<Longrightarrow> utf8ToCodePointUnsafe (c # d # e # t) =
     Inr (take_bit 16 (push_bit 12 (ucast c) OR push_bit 6 (ucast d AND 0x3f) OR (ucast e AND 0x3f)))"
  "240 \<le> unat c \<Longrightarrow> unat c < 248 \<Longrightarrow> utf8ToCodePointUnsafe (c # d # e # f # t) =
     Inr (push_bit 18 (ucast c AND 7) OR push_bit 12 (ucast d AND 0x3f) OR push_bit 6 (ucast e AND 0x3f) OR (ucast f AND 0x3f))"
  by (simp_all add: utf8ToCodePointUnsafe_def readByte_def word_less_nat_alt byte_classes unat_up
    del: push_bit_and take_bit_or)

lemma unsafe_decodes:
  assumes "unat cp < 0x110000"
  shows "utf8ToCodePointUnsafe (codePointToUtf8 cp @ rest) = Inr cp"
  using assms
proof (cases cp rule: code_point_cases)
  case (one c)
  then show ?thesis using unsafe_eval(1) [of c rest] by (simp add: word_unat_eq_iff unat_up)
next
  case (two c d)
  have "unat cp div 64 < 32" using two(5) by (simp add: less_mult_imp_div_less)
  then have "utf8ToCodePointUnsafe (c # d # rest) = Inr (push_bit 6 (ucast c AND 0x1f) OR (ucast d AND 0x3f))"
    by (intro unsafe_eval(2)) (simp_all add: two(2))
  moreover have "push_bit 6 (ucast c AND 0x1f) OR (ucast d AND 0x3f) = cp"
    unfolding word_unat_eq_iff join_bits unat_up two(2,3) by (rule decode_arithmetic(1) [OF two(5)])
  ultimately show ?thesis unfolding two(1) append.simps by (simp only:)
next
  case (three c d e)
  have "unat cp div 4096 < 16" using three(6) by (simp add: less_mult_imp_div_less)
  then have "utf8ToCodePointUnsafe (c # d # e # rest) =
      Inr (take_bit 16 (push_bit 12 (ucast c) OR push_bit 6 (ucast d AND 0x3f) OR (ucast e AND 0x3f)))"
    by (intro unsafe_eval(3)) (simp_all add: three(2))
  moreover have "take_bit 16 (push_bit 12 (ucast c) OR push_bit 6 (ucast d AND 0x3f) OR (ucast e AND 0x3f)) = cp"
    unfolding word_unat_eq_iff join_bits unat_up three(2,3,4) by (rule decode_arithmetic(2) [OF three(6)])
  ultimately show ?thesis unfolding three(1) append.simps by (simp only:)
next
  case (four c d e f)
  have lt: "unat cp < 1114112" using assms by simp
  then have "unat cp div 262144 < 8" by (simp add: less_mult_imp_div_less)
  then have "utf8ToCodePointUnsafe (c # d # e # f # rest) =
      Inr (push_bit 18 (ucast c AND 7) OR push_bit 12 (ucast d AND 0x3f) OR push_bit 6 (ucast e AND 0x3f) OR (ucast f AND 0x3f))"
    by (intro unsafe_eval(4)) (simp_all add: four(2))
  moreover have "push_bit 18 (ucast c AND 7) OR push_bit 12 (ucast d AND 0x3f) OR push_bit 6 (ucast e AND 0x3f) OR (ucast f AND 0x3f) = cp"
    unfolding word_unat_eq_iff join_bits unat_up four(2,3,4,5) by (rule decode_arithmetic(3) [OF lt])
  ultimately show ?thesis unfolding four(1) append.simps by (simp only:)
qed

lemma step_join:
  assumes "unat d < 2 ^ 26"
  shows "unat (push_bit 6 d OR ucast ((t :: 8 word) AND 0x3F) :: 32 word) = unat d * 64 + unat t mod 64"
proof -
  have "unat (ucast (t AND 0x3F) :: 32 word) = unat t mod 64" unfolding unat_up unsigned_and_eq by (simp add: and_bits)
  moreover have "unat (push_bit 6 d) = unat d * 64" unfolding unat_push using assms by simp
  ultimately show ?thesis unfolding unsigned_or_eq using or_bits(5) [of "unat t mod 64" "unat d"] by simp
qed

lemma mask_bits:
  "unat (x AND bitMask ! 1) = unat x mod 2048" "unat (x AND bitMask ! 2) = unat x mod 65536"
  using and_low [of "unat x" 11] and_low [of "unat x" 16] by (simp_all add: bitMask_def unsigned_and_eq)

lemma overlong_bits:
  "x AND NOT (bitMask ! 0) = 0 \<longleftrightarrow> unat x < 128" "x AND NOT (bitMask ! 1) = 0 \<longleftrightarrow> unat x < 2048"
proof -
  have *: "x AND NOT (mask k) = 0 \<longleftrightarrow> unat x < 2 ^ k" if "k < 32" for k
  proof -
    have "x AND NOT (mask k) = 0 \<longleftrightarrow> take_bit k x = x"
      by (auto simp: bit_eq_iff bit_simps)
    also have "\<dots> \<longleftrightarrow> unat x mod 2 ^ k = unat x"
      unfolding word_unat_eq_iff using unsigned_take_bit_eq [of k x, where ?'a = nat] take_bit_eq_mod [of k "unat x"]
      by (simp only:)
    also have "\<dots> \<longleftrightarrow> unat x < 2 ^ k" by (metis mod_less mod_less_divisor zero_less_numeral zero_less_power)
    finally show ?thesis .
  qed
  show "x AND NOT (bitMask ! 0) = 0 \<longleftrightarrow> unat x < 128" using * [of 7] by (simp add: bitMask_def mask_eq_exp_minus_1)
  show "x AND NOT (bitMask ! 1) = 0 \<longleftrightarrow> unat x < 2048" using * [of 11] by (simp add: bitMask_def mask_eq_exp_minus_1)
qed

lemma lead_shift:
  fixes f :: "8 word"
  shows "unat (push_bit 1 f) = unat f * 2 mod 256" "f AND 0x80 = 0 \<longleftrightarrow> unat f < 128"
    "f AND 0xC0 = 0xC0 \<longleftrightarrow> 192 \<le> unat f" "f AND 0xC0 = 0x80 \<longleftrightarrow> 128 \<le> unat f \<and> unat f < 192"
proof -
  have "unat f < 2 ^ LENGTH(8)" by (rule unsigned_less)
  then have f: "unat f div 64 < 4" "unat f < 256" by (simp_all add: less_mult_imp_div_less)
  show "unat (push_bit 1 f) = unat f * 2 mod 256" unfolding unat_push by simp
  show "f AND 0x80 = 0 \<longleftrightarrow> unat f < 128" using byte_classes(2) [of f] by (simp add: u8IsSingle_def)
  have "f AND 0xC0 = 0xC0 \<longleftrightarrow> unat f div 64 = 3" using f by (simp add: word_unat_eq_iff unsigned_and_eq and_bits)
  then show "f AND 0xC0 = 0xC0 \<longleftrightarrow> 192 \<le> unat f" using f by arith
  show "f AND 0xC0 = 0x80 \<longleftrightarrow> 128 \<le> unat f \<and> unat f < 192" using byte_classes(1) [of f] by (simp add: u8IsTrail_def)
qed

lemma shift_again:
  fixes f :: "8 word"
  shows "unat f = 192 + a \<Longrightarrow> a < 32 \<Longrightarrow> unat (push_bit 1 (push_bit 1 f)) = 4 * a"
    "unat f = 224 + a \<Longrightarrow> a < 16 \<Longrightarrow> unat (push_bit 1 (push_bit 1 f)) = 128 + 4 * a \<and>
       unat (push_bit 1 (push_bit 1 (push_bit 1 f))) = 8 * a"
    "unat f = 240 + a \<Longrightarrow> a < 8 \<Longrightarrow> unat (push_bit 1 (push_bit 1 f)) = 192 + 4 * a \<and>
       unat (push_bit 1 (push_bit 1 (push_bit 1 f))) = 128 + 8 * a"
proof -
  have high: "x * 2 mod 256 = x * 2 - 256" if "128 \<le> x" "x < 256" for x :: nat using that by (simp add: mod_if)
  show "unat (push_bit 1 (push_bit 1 f)) = 4 * a" if "unat f = 192 + a" "a < 32"
    unfolding lead_shift(1) that(1) using that(2) high [of "192 + a"] high [of "128 + 2 * a"] by simp
  show "unat (push_bit 1 (push_bit 1 f)) = 128 + 4 * a \<and> unat (push_bit 1 (push_bit 1 (push_bit 1 f))) = 8 * a"
    if "unat f = 224 + a" "a < 16"
    unfolding lead_shift(1) that(1)
    using that(2) high [of "224 + a"] high [of "192 + 2 * a"] high [of "128 + 4 * a"] by simp
  show "unat (push_bit 1 (push_bit 1 f)) = 192 + 4 * a \<and> unat (push_bit 1 (push_bit 1 (push_bit 1 f))) = 128 + 8 * a"
    if "unat f = 240 + a" "a < 8"
    unfolding lead_shift(1) that(1)
    using that(2) high [of "240 + a"] high [of "224 + 2 * a"] high [of "192 + 4 * a"] by simp
qed

lemma decode_step:
  assumes "i < 3" "i < length p" "128 \<le> unat (p ! i)" "unat (p ! i) < 192" "unat d < 2 ^ 26"
  obtains d1 where "unat d1 = unat d * 64 + unat (p ! i) mod 64" and
    "decodeLoop sk p i f d = (if unat (push_bit 1 f) < 128
       then let d2 = d1 AND bitMask ! i
            in if d2 AND NOT (bitMask ! (i - 1)) = 0 then skipOr sk
               else if i = 2 \<and> (0xD800 \<le> d2 \<and> d2 \<le> 0xDFFF \<or> d2 > 0x10FFFF) then skipOr sk
               else Inr (d2, i + 1)
       else decodeLoop sk p (i + 1) (push_bit 1 f) d1)"
proof -
  let ?d1 = "push_bit 6 d OR ucast (p ! i AND 0x3F)"
  have t: "p ! i AND 0xC0 = 0x80" using assms lead_shift(4) by blast
  show thesis
    by (rule that [of ?d1]) (simp_all only: step_join [OF assms(5)] decodeLoop.simps [of sk p i f d] assms(1,2) t
        lead_shift(2) [of "push_bit 1 f"] Let_def simp_thms if_True if_False not_True_eq_False)
qed

lemma decode_last:
  assumes "i < 3" "i < length p" "128 \<le> unat (p ! i)" "unat (p ! i) < 192" "unat d < 2 ^ 26" "unat (push_bit 1 f) < 128"
  obtains d1 where "unat d1 = unat d * 64 + unat (p ! i) mod 64" and
    "decodeLoop sk p i f d =
       (let d2 = d1 AND bitMask ! i
        in if d2 AND NOT (bitMask ! (i - 1)) = 0 then skipOr sk
           else if i = 2 \<and> (0xD800 \<le> d2 \<and> d2 \<le> 0xDFFF \<or> d2 > 0x10FFFF) then skipOr sk
           else Inr (d2, i + 1))"
  by (rule decode_step [OF assms(1-5), of sk f], rule that) (use assms(6) in \<open>simp_all only: if_True\<close>)

lemma decode_more:
  assumes "i < 3" "i < length p" "128 \<le> unat (p ! i)" "unat (p ! i) < 192" "unat d < 2 ^ 26" "\<not> unat (push_bit 1 f) < 128"
    "j = i + 1"
  obtains d1 where "unat d1 = unat d * 64 + unat (p ! i) mod 64" and
    "decodeLoop sk p i f d = decodeLoop sk p j (push_bit 1 f) d1"
  by (rule decode_step [OF assms(1-5), of sk f], rule that) (use assms(6,7) in \<open>simp_all only: if_False\<close>)

lemma safe_two:
  assumes two: "codePointToUtf8 cp = [c, d]" "unat c = 192 + unat cp div 64" "unat d = 128 + unat cp mod 64"
      "128 \<le> unat cp" "unat cp < 2048"
  shows "utf8ToCodePoint sk (codePointToUtf8 cp @ rest) = Inr (cp, 2)"
proof -
  let ?p = "codePointToUtf8 cp @ rest"
  have a: "unat cp div 64 < 32" using two by (simp add: less_mult_imp_div_less)
  have start: "utf8ToCodePoint sk ?p = decodeLoop sk ?p 1 (push_bit 1 c) (ucast c)"
    using two a by (simp add: utf8ToCodePoint_def lead_shift)
  obtain d1 where d1: "unat d1 = unat (ucast c :: 32 word) * 64 + unat (?p ! 1) mod 64" and
    step: "decodeLoop sk ?p 1 (push_bit 1 c) (ucast c) =
      (let d2 = d1 AND bitMask ! 1
       in if d2 AND NOT (bitMask ! (1 - 1)) = 0 then skipOr sk
          else if 1 = (2 :: nat) \<and> (0xD800 \<le> d2 \<and> d2 \<le> 0xDFFF \<or> d2 > 0x10FFFF) then skipOr sk
          else Inr (d2, 1 + 1))"
    by (rule decode_last [of 1 ?p "ucast c" "push_bit 1 c" sk]) (use two a shift_again(1) [OF two(2) a] in \<open>simp_all add: unat_up\<close>)
  have "unat d1 mod 2048 = unat cp"
  proof -
    have "(192 + unat cp div 64) mod 32 = unat cp div 64"
      using mod_mult_self1 [of "unat cp div 64" 6 32] a by (simp add: add.commute)
    then have "unat d1 = unat cp + 6 * 2048"
      using two d1 decode_arithmetic(1) [of "unat cp"] by (simp add: unat_up)
    then show ?thesis using two mod_mult_self1 [of "unat cp" 6 2048] by simp
  qed
  then have "d1 AND bitMask ! 1 = cp" by (simp only: word_unat_eq_iff mask_bits)
  then show ?thesis using start step two a shift_again(1) [OF two(2) a] overlong_bits(1) [of cp] by (simp add: Let_def)
qed

lemma safe_three:
  assumes three: "codePointToUtf8 cp = [c, d, e]" "unat c = 224 + unat cp div 4096"
      "unat d = 128 + unat cp div 64 mod 64" "unat e = 128 + unat cp mod 64" "2048 \<le> unat cp" "unat cp < 65536"
  shows "utf8ToCodePoint sk (codePointToUtf8 cp @ rest) = (if 0xD800 \<le> unat cp \<and> unat cp \<le> 0xDFFF then skipOr sk else Inr (cp, 3))"
proof -
  define p where "p = codePointToUtf8 cp @ rest"
  have small: "(1 :: nat) < 3" "(2 :: nat) < 3" "2 = 1 + (1 :: nat)" "3 = 2 + (1 :: nat)" by simp_all
  have p: "1 < length p" "p ! 1 = d" "2 < length p" "p ! 2 = e" using three(1) by (simp_all add: p_def)
  have a: "unat cp div 4096 < 16" using three by (simp add: less_mult_imp_div_less)
  have trail: "128 \<le> unat (p ! 1)" "unat (p ! 1) < 192" "128 \<le> unat (p ! 2)" "unat (p ! 2) < 192" using three p by simp_all
  have sh: "\<not> unat (push_bit 1 (push_bit 1 c)) < 128" "unat (push_bit 1 (push_bit 1 (push_bit 1 c))) < 128"
    using shift_again(2) [OF three(2) a] a by linarith+
  have start: "utf8ToCodePoint sk p = decodeLoop sk p 1 (push_bit 1 c) (ucast c)"
    using three a by (simp add: p_def utf8ToCodePoint_def lead_shift)
  have "unat (ucast c :: 32 word) < 2 ^ 26" using three(2) a by (simp add: unat_up)
  note more1 = decode_more [OF small(1) p(1) trail(1,2) this sh(1) small(3), of sk]
  obtain d1 where d1: "unat d1 = unat (ucast c :: 32 word) * 64 + unat (p ! 1) mod 64"
    and step: "decodeLoop sk p 1 (push_bit 1 c) (ucast c) = decodeLoop sk p 2 (push_bit 1 (push_bit 1 c)) d1" by (rule more1)
  have "unat d1 < 2 ^ 26" using d1 three(2) a by (simp add: unat_up)
  note last2 = decode_last [OF small(2) p(3) trail(3,4) this sh(2), of sk]
  obtain d2 where d2: "unat d2 = unat d1 * 64 + unat (p ! 2) mod 64" and
    step2: "decodeLoop sk p 2 (push_bit 1 (push_bit 1 c)) d1 =
      (let d3 = d2 AND bitMask ! 2
       in if d3 AND NOT (bitMask ! (2 - 1)) = 0 then skipOr sk
          else if 2 = (2 :: nat) \<and> (0xD800 \<le> d3 \<and> d3 \<le> 0xDFFF \<or> d3 > 0x10FFFF) then skipOr sk
          else Inr (d3, 2 + 1))" by (rule last2)
  have gen: "(x * 64 + y) * 64 + z = x * 4096 + y * 64 + z" for x y z :: nat by simp
  have "unat d2 = (224 + unat cp div 4096) * 4096 + (128 + unat cp div 64 mod 64) mod 64 * 64 + (128 + unat cp mod 64) mod 64"
    unfolding d2 d1 unat_up p(2,4) three(2,3,4) by (rule gen)
  then have "unat d2 mod 65536 = unat cp" by (simp only: decode_arithmetic(2) [OF three(6)])
  then have "d2 AND bitMask ! 2 = cp" by (simp only: word_unat_eq_iff mask_bits)
  then show ?thesis unfolding p_def [symmetric] start step step2 using three(5,6) overlong_bits(2) [of cp]
    by (simp add: Let_def word_le_nat_alt word_less_nat_alt)
qed

lemma safe_four:
  assumes four: "codePointToUtf8 cp = [c, d, e, f]" "unat c = 240 + unat cp div 262144"
      "unat d = 128 + unat cp div 4096 mod 64" "unat e = 128 + unat cp div 64 mod 64" "unat f = 128 + unat cp mod 64"
      "unat cp < 0x110000"
  shows "utf8ToCodePoint sk (codePointToUtf8 cp @ rest) = skipOr sk"
proof -
  define p where "p = codePointToUtf8 cp @ rest"
  have small: "(1 :: nat) < 3" "(2 :: nat) < 3" "2 = 1 + (1 :: nat)" "3 = 2 + (1 :: nat)" by simp_all
  have p: "1 < length p" "p ! 1 = d" "2 < length p" "p ! 2 = e" using four(1) by (simp_all add: p_def)
  have a: "unat cp div 262144 < 8" using four by (simp add: less_mult_imp_div_less)
  have trail: "128 \<le> unat (p ! 1)" "unat (p ! 1) < 192" "128 \<le> unat (p ! 2)" "unat (p ! 2) < 192" using four p by simp_all
  have sh: "\<not> unat (push_bit 1 (push_bit 1 c)) < 128" "\<not> unat (push_bit 1 (push_bit 1 (push_bit 1 c))) < 128"
    using shift_again(3) [OF four(2) a] by linarith+
  have start: "utf8ToCodePoint sk p = decodeLoop sk p 1 (push_bit 1 c) (ucast c)"
    using four a by (simp add: p_def utf8ToCodePoint_def lead_shift)
  have "unat (ucast c :: 32 word) < 2 ^ 26" using four(2) a by (simp add: unat_up)
  note more1 = decode_more [OF small(1) p(1) trail(1,2) this sh(1) small(3), of sk]
  obtain d1 where d1: "unat d1 = unat (ucast c :: 32 word) * 64 + unat (p ! 1) mod 64"
    and step: "decodeLoop sk p 1 (push_bit 1 c) (ucast c) = decodeLoop sk p 2 (push_bit 1 (push_bit 1 c)) d1" by (rule more1)
  have "unat d1 < 2 ^ 26" using d1 four(2) a by (simp add: unat_up)
  note more2 = decode_more [OF small(2) p(3) trail(3,4) this sh(2) small(4), of sk]
  obtain d2 where step2: "decodeLoop sk p 2 (push_bit 1 (push_bit 1 c)) d1 =
    decodeLoop sk p 3 (push_bit 1 (push_bit 1 (push_bit 1 c))) d2" by (rule more2)
  have "decodeLoop sk p 3 (push_bit 1 (push_bit 1 (push_bit 1 c))) d2 = skipOr sk" by (simp add: decodeLoop.simps)
  then show ?thesis unfolding p_def [symmetric] start step step2 .
qed

lemma safe_decodes:
  assumes "unat cp < 0x110000"
  shows "utf8ToCodePoint sk (codePointToUtf8 cp @ rest) =
    (if unat cp < 0x10000 \<and> \<not> (0xD800 \<le> unat cp \<and> unat cp \<le> 0xDFFF)
     then Inr (cp, length (codePointToUtf8 cp)) else skipOr sk)"
  using assms
proof (cases cp rule: code_point_cases)
  case (one c)
  have "ucast c = cp" using one by (simp add: word_unat_eq_iff unat_up)
  then show ?thesis using one by (simp add: utf8ToCodePoint_def lead_shift)
next
  case (two c d)
  then show ?thesis using safe_two [OF two] by simp
next
  case (three c d e)
  then show ?thesis using safe_three [OF three] by simp
next
  case (four c d e f)
  then show ?thesis using safe_four [OF four(1-5) assms] by simp
qed

section \<open>Whole texts\<close>

text \<open>What \<^verbatim>\<open>utf8StringRemoveMalformed\<close> leaves, as a function of the bytes alone.\<close>

function utf8Clean :: "8 word list \<Rightarrow> 8 word list" where
  "utf8Clean [] = []"
| "utf8Clean (c # cs) =
     (if u8IsSingle c then c # utf8Clean cs
      else if u8IsLead c
      then (if trailLoop (u8CountTrailBytes c) cs < u8CountTrailBytes c then []
            else c # take (trailLoop (u8CountTrailBytes c) cs) cs) @
           utf8Clean (drop (trailLoop (u8CountTrailBytes c) cs) cs)
      else utf8Clean cs)"
  by pat_completeness auto
termination
  by (relation "measure length") auto

declare utf8Clean.simps(2) [simp del]

lemma trailLoop_facts:
  "trailLoop k cs \<le> k" "trailLoop k cs \<le> length cs" "list_all u8IsTrail (take (trailLoop k cs) cs)"
  by (induction k cs rule: trailLoop.induct) auto

lemma trailLoop_all: "list_all u8IsTrail t \<Longrightarrow> trailLoop (length t) (t @ rest) = length t"
  by (induction t) auto

lemma copyDown_spec:
  "to1 \<le> a \<Longrightarrow> a + n \<le> length buf \<Longrightarrow>
     take (to1 + n) (copyDown n buf a to1) = take to1 buf @ take n (drop a buf) \<and>
     drop (a + n) (copyDown n buf a to1) = drop (a + n) buf"
proof (induction n arbitrary: buf a to1)
  case (Suc n)
  let ?b = "buf[to1 := buf ! a]"
  have IH: "take (to1 + 1 + n) (copyDown n ?b (a + 1) (to1 + 1)) = take (to1 + 1) ?b @ take n (drop (a + 1) ?b)"
    "drop (a + 1 + n) (copyDown n ?b (a + 1) (to1 + 1)) = drop (a + 1 + n) ?b"
    using Suc.IH [of "to1 + 1" "a + 1" ?b] Suc.prems by auto
  have "take (to1 + 1) ?b = take to1 buf @ [buf ! a]"
    using Suc.prems by (simp add: take_Suc_conv_app_nth)
  moreover have "drop (a + 1) ?b = drop (a + 1) buf" "drop (a + 1 + n) ?b = drop (a + 1 + n) buf"
    using Suc.prems by (simp_all add: drop_update_cancel)
  moreover have "drop a buf = buf ! a # drop (a + 1) buf" using Suc.prems by (simp add: Cons_nth_drop_Suc)
  ultimately show ?case using IH by simp
qed simp

lemma malformedLoop_spec:
  "to1 \<le> lead \<Longrightarrow> lead \<le> length buf \<Longrightarrow>
     (case malformedLoop buf to1 lead of (out, it) \<Rightarrow> take it out = take to1 buf @ utf8Clean (drop lead buf))"
proof (induction buf to1 lead rule: malformedLoop.induct)
  case (1 buf to1 lead)
  show ?case
  proof (cases "lead = length buf")
    case True
    then show ?thesis by (simp add: malformedLoop.simps)
  next
    case False
    then have lt: "lead < length buf" using 1(6) by simp
    then have dr: "drop lead buf = buf ! lead # drop (lead + 1) buf" by (simp add: Cons_nth_drop_Suc)
    let ?k = "u8CountTrailBytes (buf ! lead)" let ?n = "trailLoop ?k (drop (lead + 1) buf)"
    have n: "?n \<le> ?k" "lead + 1 + ?n \<le> length buf" using trailLoop_facts(1,2) [of ?k "drop (lead + 1) buf"] lt by auto
    consider "u8IsSingle (buf ! lead)" | "\<not> u8IsSingle (buf ! lead)" "u8IsLead (buf ! lead)" "?n = ?k"
      | "\<not> u8IsSingle (buf ! lead)" "u8IsLead (buf ! lead)" "?n < ?k"
      | "\<not> u8IsSingle (buf ! lead)" "\<not> u8IsLead (buf ! lead)" using n(1) by linarith
    then show ?thesis
    proof cases
      case 1
      have "malformedLoop buf to1 lead = malformedLoop (copyDown 1 buf lead to1) (to1 + 1) (lead + 1)"
        using 1 lt by (subst malformedLoop.simps) simp
      then show ?thesis
        using "1.IH"(1) [OF _ refl 1] lt "1.prems" copyDown_spec [of to1 lead 1 buf] dr 1
        by (simp add: utf8Clean.simps(2))
    next
      case 2
      have eq: "malformedLoop buf to1 lead = malformedLoop (copyDown (1 + ?n) buf lead to1) (to1 + (1 + ?n)) (lead + 1 + ?n)"
        using 2 lt by (subst malformedLoop.simps) (simp add: Let_def)
      have "case malformedLoop (copyDown (1 + ?n) buf lead to1) (to1 + (1 + ?n)) (lead + 1 + ?n) of (out, it) \<Rightarrow>
        take it out = take (to1 + (1 + ?n)) (copyDown (1 + ?n) buf lead to1) @
          utf8Clean (drop (lead + 1 + ?n) (copyDown (1 + ?n) buf lead to1))"
        by (rule "1.IH"(2) [OF _ refl 2(1,2) refl refl refl]) (use 2 lt n "1.prems" in auto)
      then show ?thesis
        using eq n "1.prems" copyDown_spec [of to1 lead "1 + ?n" buf] dr 2
        by (simp add: utf8Clean.simps(2) add.assoc add.commute)
    next
      case 3
      have eq: "malformedLoop buf to1 lead = malformedLoop buf to1 (lead + 1 + ?n)"
        using 3 lt by (subst malformedLoop.simps) (simp add: Let_def)
      have "case malformedLoop buf to1 (lead + 1 + ?n) of (out, it) \<Rightarrow>
        take it out = take to1 buf @ utf8Clean (drop (lead + 1 + ?n) buf)"
        by (rule "1.IH"(3) [OF _ refl 3(1,2) refl refl refl]) (use 3 lt n "1.prems" in auto)
      then show ?thesis using eq dr 3 by (simp add: utf8Clean.simps(2) add.assoc add.commute)
    next
      case 4
      have "malformedLoop buf to1 lead = malformedLoop buf to1 (lead + 1)"
        using 4 lt by (subst malformedLoop.simps) (simp add: Let_def)
      then show ?thesis using "1.IH"(4) [OF _ refl 4] lt "1.prems" dr 4 by (simp add: utf8Clean.simps(2))
    qed
  qed
qed

lemma removeMalformed_clean: "utf8StringRemoveMalformed s = utf8Clean s"
  using malformedLoop_spec [of 0 0 s] by (simp add: utf8StringRemoveMalformed_def split: prod.splits)

lemma unit_cases:
  assumes "utf8Unit u"
  obtains (single) c where "u = [c]" "u8IsSingle c"
  | (multi) c t where "u = c # t" "u8IsLead c" "\<not> u8IsSingle c" "list_all u8IsTrail t" "length t = u8CountTrailBytes c" "t \<noteq> []"
proof (cases u)
  case (Cons c t)
  show thesis
  proof (cases "t = []")
    case True
    then show thesis using Cons assms single by (simp add: utf8Unit_def)
  next
    case False
    then have "u8IsLead c" "list_all u8IsTrail t" "length t = u8CountTrailBytes c" using Cons assms by (auto simp: utf8Unit_def)
    moreover have "\<not> u8IsSingle c" using \<open>u8IsLead c\<close> by (simp add: byte_classes)
    ultimately show thesis using multi Cons False by blast
  qed
qed (use assms in \<open>simp add: utf8Unit_def\<close>)

lemma lead_count: "u8IsLead c \<Longrightarrow> u8CountTrailBytes c \<noteq> 0"
  by (auto simp: byte_classes(3) u8CountTrailBytes_def word_le_nat_alt word_less_nat_alt)

lemma clean_unit:
  assumes "utf8Unit u"
  shows "utf8Clean (u @ rest) = u @ utf8Clean rest"
  using assms
proof (cases u rule: unit_cases)
  case (single c)
  then show ?thesis by (simp add: utf8Clean.simps(2))
next
  case (multi c t)
  have "trailLoop (u8CountTrailBytes c) (t @ rest) = length t" using trailLoop_all [OF multi(4), of rest] multi(5) by simp
  then show ?thesis using multi by (simp add: utf8Clean.simps(2))
qed

lemma clean_concat: "list_all utf8Unit us \<Longrightarrow> utf8Clean (concat us) = concat us"
  by (induction us) (auto simp: clean_unit)

lemma clean_units: "\<exists>us. list_all utf8Unit us \<and> utf8Clean s = concat us \<and> subseq (utf8Clean s) s"
proof (induction s rule: utf8Clean.induct)
  case 1
  show ?case by (intro exI [of _ "[]"]) simp
next
  case (2 c cs)
  let ?k = "u8CountTrailBytes c" let ?n = "trailLoop ?k cs"
  consider "u8IsSingle c" | "\<not> u8IsSingle c" "u8IsLead c" "?n < ?k" | "\<not> u8IsSingle c" "u8IsLead c" "?n = ?k"
    | "\<not> u8IsSingle c" "\<not> u8IsLead c" using trailLoop_facts(1) [of ?k cs] by linarith
  then show ?case
  proof cases
    case 1
    then obtain us where "list_all utf8Unit us" "utf8Clean cs = concat us" "subseq (utf8Clean cs) cs" using "2.IH"(1) by blast
    moreover have "utf8Unit [c]" using 1 by (simp add: utf8Unit_def)
    ultimately show ?thesis using 1 by (intro exI [of _ "[c] # us"]) (simp add: utf8Clean.simps(2))
  next
    case 2
    then obtain us where us: "list_all utf8Unit us" "utf8Clean (drop ?n cs) = concat us" "subseq (utf8Clean (drop ?n cs)) (drop ?n cs)"
      using "2.IH"(2) by blast
    have "subseq (utf8Clean (drop ?n cs)) (c # cs)"
      using subseq_drop_many [OF us(3), of "c # take ?n cs"] by simp
    then show ?thesis using 2 us by (intro exI [of _ us]) (simp add: utf8Clean.simps(2))
  next
    case 3
    then obtain us where us: "list_all utf8Unit us" "utf8Clean (drop ?n cs) = concat us" "subseq (utf8Clean (drop ?n cs)) (drop ?n cs)"
      using "2.IH"(2) by blast
    have "length (take ?n cs) = ?k" using trailLoop_facts(2) [of ?k cs] 3 by simp
    then have "utf8Unit (c # take ?n cs)"
      using 3 lead_count [of c] trailLoop_facts(3) [of ?k cs] by (auto simp: utf8Unit_def)
    moreover have "subseq ((c # take ?n cs) @ utf8Clean (drop ?n cs)) ((c # take ?n cs) @ drop ?n cs)"
      by (rule list_emb_append_mono [OF subseq_order.refl us(3)])
    ultimately show ?thesis using 3 us by (intro exI [of _ "(c # take ?n cs) # us"]) (simp add: utf8Clean.simps(2))
  next
    case 4
    then obtain us where "list_all utf8Unit us" "utf8Clean cs = concat us" "subseq (utf8Clean cs) cs" using "2.IH"(3) by blast
    then show ?thesis using 4 by (intro exI [of _ us]) (simp add: utf8Clean.simps(2) list_emb_Cons)
  qed
qed

text \<open>A unit, or a byte that neither stands alone nor leads, as the validity check sees it.\<close>

definition acceptedPiece :: "8 word list \<Rightarrow> bool" where
  "acceptedPiece u \<longleftrightarrow> utf8Unit u \<or> length u = 1 \<and> \<not> u8IsLead (hd u)"

lemma trailLoop_full: "trailLoop k cs = k \<Longrightarrow> list_all u8IsTrail (take k cs) \<and> k \<le> length cs"
  using trailLoop_facts(2,3) [of k cs] by auto

lemma forwardSafe_accepts:
  assumes "acceptedPiece u"
  shows "u \<noteq> [] \<and> utf8ForwardCodePointSafe (u @ rest) = Inr (Some (length u))"
proof (cases "utf8Unit u")
  case True
  then show ?thesis
  proof (cases u rule: unit_cases)
    case (single c)
    then show ?thesis by (simp add: utf8ForwardCodePointSafe_def byte_classes guard_def)
  next
    case (multi c t)
    then show ?thesis using trailLoop_all [OF multi(4), of rest]
      by (simp add: utf8ForwardCodePointSafe_def guard_def Let_def)
  qed
next
  case False
  then obtain c where "u = [c]" "\<not> u8IsLead c" using assms by (cases u) (auto simp: acceptedPiece_def)
  then show ?thesis by (simp add: utf8ForwardCodePointSafe_def guard_def)
qed

lemma forwardSafe_cases:
  assumes "s \<noteq> []"
  obtains "utf8ForwardCodePointSafe s = Inr None"
  | n where "utf8ForwardCodePointSafe s = Inr (Some n)" "acceptedPiece (take n s)" "0 < n"
proof -
  obtain c cs where s: "s = c # cs" using assms by (cases s) auto
  let ?k = "u8CountTrailBytes c"
  show thesis
  proof (cases "u8IsLead c")
    case True
    show thesis
    proof (cases "trailLoop ?k cs = ?k")
      case full: True
      have "acceptedPiece (take (1 + ?k) s)"
        using trailLoop_full [OF full] lead_count [OF True] True s by (auto simp: acceptedPiece_def utf8Unit_def)
      moreover have "utf8ForwardCodePointSafe s = Inr (Some (1 + ?k))"
        using trailLoop_full [OF full] full True s by (simp add: utf8ForwardCodePointSafe_def guard_def Let_def)
      ultimately show thesis using that(2) by simp
    next
      case False
      then show thesis using that(1) trailLoop_facts(1) [of ?k cs] True s
        by (simp add: utf8ForwardCodePointSafe_def guard_def Let_def)
    qed
  next
    case False
    then show thesis using that(2) [of 1] s by (simp add: utf8ForwardCodePointSafe_def guard_def acceptedPiece_def)
  qed
qed

lemma isValid_spec: "utf8StringIsValid s = Inr (\<exists>us. s = concat us \<and> list_all acceptedPiece us)"
proof (induction s rule: utf8StringIsValid.induct)
  case (1 s)
  show ?case
  proof (cases "s = []")
    case True
    then show ?thesis by (auto simp: utf8StringIsValid.simps intro!: exI [of _ "[]"])
  next
    case False
    have split: "(\<exists>us. s = concat us \<and> list_all acceptedPiece us) \<longleftrightarrow>
      (\<exists>n. utf8ForwardCodePointSafe s = Inr (Some n) \<and> (\<exists>us. drop n s = concat us \<and> list_all acceptedPiece us))"
    proof
      assume "\<exists>us. s = concat us \<and> list_all acceptedPiece us"
      then obtain ws where ws: "s = concat ws" "list_all acceptedPiece ws" by blast
      then obtain u us where us: "s = u @ concat us" "acceptedPiece u" "list_all acceptedPiece us"
        using False by (cases ws) auto
      then show "\<exists>n. utf8ForwardCodePointSafe s = Inr (Some n) \<and> (\<exists>us. drop n s = concat us \<and> list_all acceptedPiece us)"
        using forwardSafe_accepts [OF us(2), of "concat us"] by auto
    next
      assume "\<exists>n. utf8ForwardCodePointSafe s = Inr (Some n) \<and> (\<exists>us. drop n s = concat us \<and> list_all acceptedPiece us)"
      then obtain n us where n: "utf8ForwardCodePointSafe s = Inr (Some n)" "drop n s = concat us" "list_all acceptedPiece us" by blast
      then have "acceptedPiece (take n s)" by (cases rule: forwardSafe_cases [OF False]) auto
      then show "\<exists>us. s = concat us \<and> list_all acceptedPiece us"
        using n append_take_drop_id [of n s] by (intro exI [of _ "take n s # us"]) simp
    qed
    show ?thesis
    proof (cases rule: forwardSafe_cases [OF False])
      case 1
      then show ?thesis using False split by (simp add: utf8StringIsValid.simps [of s])
    next
      case (2 n)
      then show ?thesis using 1 [OF False] False split by (simp add: utf8StringIsValid.simps [of s])
    qed
  qed
qed

section \<open>Texts of code points\<close>

definition encodeAll :: "32 word list \<Rightarrow> 8 word list" where
  "encodeAll cps = concat (map codePointToUtf8 cps)"

definition validCp :: "32 word \<Rightarrow> bool" where
  "validCp cp \<longleftrightarrow> unat cp < 0x110000"

lemma encodeAll_simps [simp]:
  "encodeAll [] = []" "encodeAll (cp # cps) = codePointToUtf8 cp @ encodeAll cps"
  "encodeAll (xs @ ys) = encodeAll xs @ encodeAll ys"
  by (simp_all add: encodeAll_def)

lemma encoded_head:
  assumes "validCp cp"
  shows "codePointToUtf8 cp \<noteq> []" "u8CountTrailBytesUnsafe (hd (codePointToUtf8 cp)) + 1 = length (codePointToUtf8 cp)"
  using encoded_unit [of cp] assms by (auto simp: validCp_def utf8Unit_def)

text \<open>One step of an iterator from the start of an encoded code point.\<close>

lemma next_encoded:
  assumes "validCp cp" "s = pre @ codePointToUtf8 cp @ post"
  shows "length pre < length s" "length pre + 1 + u8CountTrailBytesUnsafe (s ! length pre) = length (pre @ codePointToUtf8 cp)"
    "iterDeref s (length pre) = Inr cp"
proof -
  show "length pre < length s" using assms encoded_head [OF assms(1)] by simp
  have "s ! length pre = hd (codePointToUtf8 cp)" using assms encoded_head(1) [OF assms(1)]
    by (simp add: nth_append hd_conv_nth)
  then show "length pre + 1 + u8CountTrailBytesUnsafe (s ! length pre) = length (pre @ codePointToUtf8 cp)"
    using encoded_head(2) [OF assms(1)] by simp
  show "iterDeref s (length pre) = Inr cp"
    using assms unsafe_decodes [of cp post] by (simp add: iterDeref_def validCp_def)
qed

lemma forward_encoded:
  "list_all validCp cps \<Longrightarrow> s = pre @ encodeAll cps @ post \<Longrightarrow>
     iterForward s (length pre) (length cps) = Inr (length (pre @ encodeAll cps))"
proof (induction cps arbitrary: pre)
  case (Cons cp cps)
  then have v: "validCp cp" and s: "s = pre @ codePointToUtf8 cp @ (encodeAll cps @ post)" by auto
  have "iterForward s (length (pre @ codePointToUtf8 cp)) (length cps) = Inr (length ((pre @ codePointToUtf8 cp) @ encodeAll cps))"
    by (rule Cons.IH) (use Cons.prems in auto)
  moreover have "iterNext s (length pre) = Inr (length (pre @ codePointToUtf8 cp))"
    unfolding iterNext_def utf8ForwardCodePoint_def next_encoded(2) [OF v s] using next_encoded(1) [OF v s] by simp
  ultimately show ?case by simp
qed simp

lemma distance_encoded:
  "list_all validCp cps \<Longrightarrow> s = pre @ encodeAll cps @ post \<Longrightarrow>
     iterDistance s (length pre) (length (pre @ encodeAll cps)) = Inr (length cps) \<and>
     u16DistanceLoop s (length pre) (length (pre @ encodeAll cps)) = Inr (sum_list (map u16Width cps))"
proof (induction cps arbitrary: pre)
  case Nil
  then show ?case by (simp add: iterDistance.simps u16DistanceLoop.simps)
next
  case (Cons cp cps)
  then have v: "validCp cp" and s: "s = pre @ codePointToUtf8 cp @ (encodeAll cps @ post)" by auto
  note nx = next_encoded [OF v s]
  let ?q = "pre @ codePointToUtf8 cp" let ?e = "length (pre @ encodeAll (cp # cps))"
  have IH: "iterDistance s (length ?q) (length (?q @ encodeAll cps)) = Inr (length cps) \<and>
     u16DistanceLoop s (length ?q) (length (?q @ encodeAll cps)) = Inr (sum_list (map u16Width cps))"
    by (rule Cons.IH) (use Cons.prems in auto)
  have ne: "length pre \<noteq> ?e" using encoded_head(1) [OF v] by simp
  have e: "length (?q @ encodeAll cps) = ?e" by simp
  have "iterDistance s (length pre) ?e = Inr (length (cp # cps))"
    using IH by (subst iterDistance.simps) (simp only: nx ne e if_True if_False res_bind_Inr list.size add_Suc_right add_0_right)
  moreover have "u16DistanceLoop s (length pre) ?e = Inr (sum_list (map u16Width (cp # cps)))"
    using IH by (subst u16DistanceLoop.simps) (simp only: nx ne e if_True if_False res_bind_Inr list.map sum_list.Cons)
  ultimately show ?case ..
qed

lemma back_unit:
  assumes "list_all u8IsTrail t" "\<not> u8IsTrail c"
  shows "backLoop (pre @ c # t @ post) (length pre + 1 + length t) = Inr (length pre)"
  using assms(1)
proof (induction t arbitrary: post rule: rev_induct)
  case Nil
  then show ?case using assms(2) by (simp add: guard_def)
next
  case (snoc x t)
  have "backLoop (pre @ c # t @ (x # post)) (length pre + 1 + length t) = Inr (length pre)"
    by (rule snoc.IH) (use snoc.prems in simp)
  then show ?case using snoc.prems by (simp add: guard_def nth_append)
qed

lemma back_encoded:
  assumes "validCp cp"
  shows "iterPrev (pre @ codePointToUtf8 cp @ post) (length (pre @ codePointToUtf8 cp)) = Inr (length pre)"
proof -
  have "utf8Unit (codePointToUtf8 cp)" using encoded_unit assms by (simp add: validCp_def)
  then obtain c t where "codePointToUtf8 cp = c # t" "list_all u8IsTrail t" "\<not> u8IsTrail c"
    by (cases "codePointToUtf8 cp" rule: unit_cases) (auto simp: byte_classes)
  then show ?thesis using back_unit [of t c pre post] by (simp add: iterPrev_def utf8BackCodePoint_def)
qed

lemma backward_encoded:
  "list_all validCp cps \<Longrightarrow> iterBackward (pre @ encodeAll cps @ post) (length (pre @ encodeAll cps)) (length cps) = Inr (length pre)"
proof (induction cps arbitrary: post rule: rev_induct)
  case (snoc cp cps)
  have "iterPrev ((pre @ encodeAll cps) @ codePointToUtf8 cp @ post) (length ((pre @ encodeAll cps) @ codePointToUtf8 cp)) =
    Inr (length (pre @ encodeAll cps))"
    by (rule back_encoded) (use snoc.prems in simp)
  moreover have "iterBackward (pre @ encodeAll cps @ codePointToUtf8 cp @ post) (length (pre @ encodeAll cps)) (length cps) = Inr (length pre)"
    by (rule snoc.IH) (use snoc.prems in simp)
  ultimately show ?case by simp
qed simp

lemma backLoopSafe_backLoop:
  "backLoop s p = Inr q \<Longrightarrow> backLoopSafe s p = q \<and> q < length s \<and> \<not> u8IsTrail (s ! q)"
  by (induction p) (auto simp: guard_def split: if_splits)

lemma stringEnd_encoded:
  assumes "list_all validCp cps"
  shows "utf8StringEnd (encodeAll cps) = Inr (length (encodeAll cps))"
proof (cases cps rule: rev_cases)
  case Nil
  then show ?thesis by (simp add: utf8StringEnd_def)
next
  case (snoc cs cp)
  let ?u = "codePointToUtf8 cp" let ?p = "length (encodeAll cs)"
  have v: "validCp cp" using assms snoc by simp
  have "backLoop (encodeAll cs @ ?u) (length (encodeAll cs @ ?u)) = Inr ?p"
    using back_encoded [OF v, of "encodeAll cs" "[]"] by (simp add: iterPrev_def utf8BackCodePoint_def)
  then have "utf8BackCodePointSafe (encodeAll cs @ ?u) (length (encodeAll cs @ ?u)) = Inr (Some ?p)"
    using backLoopSafe_backLoop encoded_head(1) [OF v] by (simp add: utf8BackCodePointSafe_def Let_def guard_def)
  moreover have "utf8CodePointLength ?u = Inr (length ?u)"
    using encoded_head [OF v] by (simp add: utf8CodePointLength_def guard_def)
  ultimately show ?thesis using snoc encoded_head(1) [OF v] by (simp add: utf8StringEnd_def)
qed

lemma advance_encoded:
  "list_all validCp cps \<Longrightarrow> s = pre @ encodeAll cps @ post \<Longrightarrow>
     viewAdvanceLoop s (length pre) (length (pre @ encodeAll cps)) n =
       (if n \<le> length cps then Inr (length (pre @ encodeAll (take n cps))) else Inl Out_Of_Range)"
proof (induction cps arbitrary: pre n)
  case Nil
  then show ?case by (cases n) simp_all
next
  case (Cons cp cps)
  then have v: "validCp cp" and s: "s = pre @ codePointToUtf8 cp @ (encodeAll cps @ post)" by auto
  show ?case
  proof (cases n)
    case (Suc m)
    have "viewAdvanceLoop s (length (pre @ codePointToUtf8 cp)) (length ((pre @ codePointToUtf8 cp) @ encodeAll cps)) m =
       (if m \<le> length cps then Inr (length ((pre @ codePointToUtf8 cp) @ encodeAll (take m cps))) else Inl Out_Of_Range)"
      by (rule Cons.IH) (use Cons.prems in auto)
    moreover have "iterNext s (length pre) = Inr (length (pre @ codePointToUtf8 cp))"
      unfolding iterNext_def utf8ForwardCodePoint_def next_encoded(2) [OF v s] using next_encoded(1) [OF v s] by simp
    ultimately show ?thesis using Suc encoded_head(1) [OF v] by simp
  qed simp
qed

text \<open>
  C25: For every code point up to U+10FFFF, decoding the encoding of it with
  \<^verbatim>\<open>utf8ToCodePointUnsafe\<close> gives it back. The checked decoder \<^verbatim>\<open>utf8ToCodePoint\<close> does so up to
  U+FFFF and rejects encoded surrogates, but its loop stops before the fourth byte, so
  every code point above U+FFFF is rejected as malformed as well: it is replaced by U+FFFD
  and one byte is skipped, or \<^verbatim>\<open>std::runtime_error\<close> is thrown.
\<close>

theorem code_point_round_trip:
  assumes "unat cp < 0x110000"
  shows "utf8ToCodePointUnsafe (codePointToUtf8 cp @ rest) = Inr cp \<and>
    utf8ToCodePoint skipOnError (codePointToUtf8 cp @ rest) =
      (if unat cp < 0x10000 \<and> \<not> (0xD800 \<le> unat cp \<and> unat cp \<le> 0xDFFF)
       then Inr (cp, length (codePointToUtf8 cp))
       else if skipOnError then Inr (0xfffd, 1) else Inl Runtime_Error)"
  unfolding unsafe_decodes [OF assms] safe_decodes [OF assms] skipOr_def by (rule conjI [OF refl refl])

theorem code_point_round_trip_witness:
  "utf8ToCodePointUnsafe (codePointToUtf8 0x1F600 @ [0x41]) = Inr 0x1F600 \<and>
   utf8ToCodePoint True (codePointToUtf8 0x1F600 @ [0x41]) = Inr (0xfffd, 1)"
  using code_point_round_trip [of "0x1F600" "[0x41]" True] by simp

text \<open>
  C26: In the encoding of a sequence of code points, \<open>i\<close> steps of a \<^verbatim>\<open>Utf8Iterator\<close> from the
  start, or back from the end, come to the boundary in front of or behind as many code
  points, the iterator there yields the code point that was encoded, the distance of
  the ends is the number of code points, and \<^verbatim>\<open>u16::distance\<close> is their length in UTF-16.
\<close>

theorem utf8_iteration:
  assumes "list_all validCp cps" "i < length cps"
  shows "iterForward (encodeAll cps) 0 i = Inr (length (encodeAll (take i cps))) \<and>
    iterDeref (encodeAll cps) (length (encodeAll (take i cps))) = Inr (cps ! i) \<and>
    iterBackward (encodeAll cps) (length (encodeAll cps)) (length cps - i) = Inr (length (encodeAll (take i cps))) \<and>
    iterDistance (encodeAll cps) 0 (length (encodeAll cps)) = Inr (length cps) \<and>
    u16Distance (encodeAll cps) = Inr (sum_list (map u16Width cps))"
proof -
  have v: "list_all validCp (take i cps)" "list_all validCp (drop i cps)" "validCp (cps ! i)"
    using assms by (auto simp: list_all_iff dest: in_set_takeD in_set_dropD)
  have split: "encodeAll cps = encodeAll (take i cps) @ encodeAll (drop i cps)"
    by (metis append_take_drop_id encodeAll_simps(3))
  have "drop i cps = cps ! i # drop (Suc i) cps" using assms(2) by (simp add: Cons_nth_drop_Suc)
  then have at: "encodeAll cps = encodeAll (take i cps) @ codePointToUtf8 (cps ! i) @ encodeAll (drop (Suc i) cps)"
    using split by simp
  have "iterForward (encodeAll cps) 0 i = Inr (length (encodeAll (take i cps)))"
    using forward_encoded [OF v(1), of "encodeAll cps" "[]" "encodeAll (drop i cps)"] split assms(2) by simp
  moreover have "iterBackward (encodeAll cps) (length (encodeAll cps)) (length cps - i) = Inr (length (encodeAll (take i cps)))"
    using backward_encoded [OF v(2), of "encodeAll (take i cps)" "[]"] split by simp
  moreover have "iterDistance (encodeAll cps) 0 (length (encodeAll cps)) = Inr (length cps)"
    "u16Distance (encodeAll cps) = Inr (sum_list (map u16Width cps))"
    using distance_encoded [OF assms(1), of "encodeAll cps" "[]" "[]"] stringEnd_encoded [OF assms(1)]
    by (simp_all add: u16Distance_def)
  ultimately show ?thesis using next_encoded(3) [OF v(3) at] by simp
qed

theorem utf8_iteration_witness:
  "iterForward (encodeAll [0x48, 0xE9, 0x1F600]) 0 2 = Inr (length (encodeAll [0x48, 0xE9])) \<and>
   u16Distance (encodeAll [0x48, 0xE9, 0x1F600]) = Inr 4"
  using utf8_iteration [of "[0x48, 0xE9, 0x1F600]" 2] by (simp add: validCp_def u16Width_def)

text \<open>
  C27: \<^verbatim>\<open>utf8StringRemoveMalformed\<close> leaves a text of complete units, single bytes and lead
  bytes with as many trail bytes as they announce, that it took from the input in
  order; an input of complete units is left as it is.
\<close>

theorem remove_malformed_units:
  "(\<exists>us. list_all utf8Unit us \<and> utf8StringRemoveMalformed s = concat us \<and> subseq (utf8StringRemoveMalformed s) s) \<and>
   (\<forall>us. list_all utf8Unit us \<longrightarrow> utf8StringRemoveMalformed (concat us) = concat us)"
  using clean_units [of s] clean_concat by (simp add: removeMalformed_clean)

theorem remove_malformed_units_witness:
  "utf8StringRemoveMalformed (concat [[0x41], [0xC3, 0xA9]]) = [0x41, 0xC3, 0xA9]"
proof -
  have "list_all utf8Unit [[0x41], [0xC3, 0xA9]]"
    by (simp add: utf8Unit_def byte_classes u8CountTrailBytes_def)
  then have "utf8StringRemoveMalformed (concat [[0x41], [0xC3, 0xA9]]) = concat [[0x41], [0xC3, 0xA9]]"
    using remove_malformed_units by blast
  then show ?thesis by simp
qed

text \<open>The validity check accepts a trail byte that follows nothing, which the clean-up removes.\<close>

lemma valid_accepts_stray_trail:
  "utf8StringIsValid [0x80] = Inr True \<and> utf8StringRemoveMalformed [0x80] = []"
proof -
  have "acceptedPiece [0x80 :: 8 word]" by (simp add: acceptedPiece_def byte_classes)
  then have "\<exists>us. [0x80] = concat us \<and> list_all acceptedPiece us" by (intro exI [of _ "[[0x80]]"]) simp
  then have "utf8StringIsValid [0x80] = Inr True" using isValid_spec [of "[0x80]"] by simp
  moreover have "utf8StringRemoveMalformed [0x80] = []" by (simp add: removeMalformed_clean utf8Clean.simps(2) byte_classes)
  ultimately show ?thesis ..
qed

text \<open>
  \<^verbatim>\<open>u16::advance\<close> by one unit into a code point of two units wraps the count around,
  and without an end it runs off the text.
\<close>

lemma u16_advance_wraps:
  assumes "validCp cp" "unat cp > 0xFFFF"
  shows "u16Advance (codePointToUtf8 cp) 0 1 None = Inl Undefined"
proof -
  note nx = next_encoded [OF assms(1), of "codePointToUtf8 cp" "[]" "[]"]
  have "u16Width cp = 2" using assms(2) by (simp add: u16Width_def word_less_nat_alt)
  then have "u16Advance (codePointToUtf8 cp) 0 1 None = u16Advance (codePointToUtf8 cp) (length (codePointToUtf8 cp)) (2 ^ 64 - 1) None"
    using nx by (subst u16Advance.simps) simp
  also have "\<dots> = Inl Undefined" by (simp add: u16Advance.simps)
  finally show ?thesis .
qed

end
