(* ===== verification/Text_Split.thy ===== *)
theory Text_Split
  imports Text_Search "HOL-Library.Sublist"
begin

text \<open>
  Splitting, joining, trimming and hexadecimal text: \<^verbatim>\<open>src/raster/util/String-inl.h\<close> and the trimming
  functions of \<^verbatim>\<open>String.cpp\<close>. A delimiter is a character or a string; a string piece is
  the list of its characters. Positions are indices into the input, and a piece
  is c1 out of it by position and size as in the source.
\<close>

section \<open>Splitting\<close>

datatype delim = Chr char | Str string

definition delimSize :: "delim \<Rightarrow> nat" where
  "delimSize d = (case d of Chr c \<Rightarrow> 1 | Str s \<Rightarrow> length s)"

text \<open>\<^verbatim>\<open>memcmp\<close> at position \<open>i\<close>, where enough characters are left.\<close>

definition atDelim :: "string \<Rightarrow> nat \<Rightarrow> delim \<Rightarrow> bool" where
  "atDelim s i d = (case d of Chr c \<Rightarrow> s ! i = c | Str sp \<Rightarrow> take (length sp) (drop i s) = sp)"

definition delimFront :: "string \<Rightarrow> char result" where
  "delimFront s = guard (s \<noteq> []) Assert_Failed (Inr (hd s))"

definition piece :: "string \<Rightarrow> nat \<Rightarrow> nat \<Rightarrow> string" where
  "piece s start n = take n (drop start s)"

text \<open>
  \<^verbatim>\<open>for (size_t i = 0; i <= strSize - dSize; ++i)\<close>, where a match moves \<open>i\<close> behind the delimiter;
  it returns the tokens so far and \<^verbatim>\<open>tokenStartPos\<close>.
\<close>

fun splitLoop :: "nat \<Rightarrow> delim \<Rightarrow> string \<Rightarrow> bool \<Rightarrow> nat \<Rightarrow> nat \<Rightarrow> nat \<Rightarrow> string list \<Rightarrow> (string list \<times> nat) result" where
  "splitLoop 0 d s ignoreEmpty i start size1 out =
     (if i \<le> length s - delimSize d then Inl Diverges else Inr (out, start))"
| "splitLoop (Suc n) d s ignoreEmpty i start size1 out =
     (if i \<le> length s - delimSize d
      then if atDelim s i d
           then splitLoop n d s ignoreEmpty (i + delimSize d) (i + delimSize d) 0
                  (if \<not> ignoreEmpty \<or> size1 > 0 then out @ [piece s start size1] else out)
           else splitLoop n d s ignoreEmpty (i + 1) start (size1 + 1) out
      else Inr (out, start))"

definition splitFrom :: "delim \<Rightarrow> string \<Rightarrow> bool \<Rightarrow> string list result" where
  "splitFrom d s ignoreEmpty =
     res_bind (splitLoop (length s + 1) d s ignoreEmpty 0 0 0 []) (\<lambda>(out, start).
       let tokenSize = length s - start
       in Inr (if \<not> ignoreEmpty \<or> tokenSize > 0 then out @ [piece s start tokenSize] else out))"

definition internalSplit :: "delim \<Rightarrow> string \<Rightarrow> bool \<Rightarrow> string list result" where
  "internalSplit d s ignoreEmpty =
     (if delimSize d > length s \<or> delimSize d = 0
      then Inr (if \<not> ignoreEmpty \<or> length s > 0 then [s] else [])
      else case d of
        Str sp \<Rightarrow>
          if length sp = 1 then res_bind (delimFront sp) (\<lambda>c. splitFrom (Chr c) s ignoreEmpty)
          else splitFrom d s ignoreEmpty
      | Chr c \<Rightarrow> splitFrom d s ignoreEmpty)"

text \<open>
  Splitting into a fixed number of outputs: all of them are assigned, or none
  and the answer is false. Without \<^verbatim>\<open>exact\<close> the last output is the whole rest. The
  conversion of a piece to the type of its output is left to the caller.
\<close>

definition findDelim :: "string \<Rightarrow> delim \<Rightarrow> nat option result" where
  "findDelim s d = (case d of Chr c \<Rightarrow> Inr (findIndexFrom (\<lambda>x. x = c) 0 s) | Str sp \<Rightarrow> qfind (=) s sp)"

fun splitFixed :: "bool \<Rightarrow> delim \<Rightarrow> string \<Rightarrow> nat \<Rightarrow> string list option result" where
  "splitFixed exact d s 0 =
     (if exact then res_bind (findDelim s d) (\<lambda>c1. Inr (if c1 \<noteq> None then None else Some [s]))
      else Inr (Some [s]))"
| "splitFixed exact d s (Suc n) =
     res_bind (findDelim s d) (\<lambda>at. case at of
        None \<Rightarrow> Inr None
      | Some c1 \<Rightarrow> res_bind (splitFixed exact d (drop (c1 + delimSize d) s) n) (\<lambda>rest. case rest of
            None \<Rightarrow> Inr None
          | Some ts \<Rightarrow> Inr (Some (take c1 s # ts))))"

text \<open>\<^verbatim>\<open>splitAny\<close>: every character of the delimiter string separates.\<close>

definition delimAnySize :: "delim \<Rightarrow> nat" where
  "delimAnySize d = (case d of Chr c \<Rightarrow> 1 | Str s \<Rightarrow> min (length s) 1)"

definition atDelimAny :: "string \<Rightarrow> nat \<Rightarrow> delim \<Rightarrow> bool" where
  "atDelimAny s i d = (case d of Chr c \<Rightarrow> s ! i = c | Str sp \<Rightarrow> s ! i \<in> set sp)"

fun splitAnyLoop :: "nat \<Rightarrow> delim \<Rightarrow> string \<Rightarrow> bool \<Rightarrow> nat \<Rightarrow> nat \<Rightarrow> nat \<Rightarrow> string list \<Rightarrow> (string list \<times> nat) result" where
  "splitAnyLoop 0 d s ignoreEmpty i start size1 out =
     (if i < length s then Inl Diverges else Inr (out, start))"
| "splitAnyLoop (Suc n) d s ignoreEmpty i start size1 out =
     (if i < length s
      then if atDelimAny s i d
           then splitAnyLoop n d s ignoreEmpty (i + 1) (i + 1) 0
                  (if \<not> ignoreEmpty \<or> size1 > 0 then out @ [piece s start size1] else out)
           else splitAnyLoop n d s ignoreEmpty (i + 1) start (size1 + 1) out
      else Inr (out, start))"

definition internalSplitAny :: "delim \<Rightarrow> string \<Rightarrow> bool \<Rightarrow> string list result" where
  "internalSplitAny d s ignoreEmpty =
     (if length s = 0 \<or> delimAnySize d = 0
      then Inr (if \<not> ignoreEmpty \<or> length s > 0 then [s] else [])
      else res_bind (splitAnyLoop (length s) d s ignoreEmpty 0 0 0 []) (\<lambda>(out, start).
        let tokenSize = length s - start
        in Inr (if \<not> ignoreEmpty \<or> tokenSize > 0 then out @ [piece s start tokenSize] else out)))"

section \<open>Joining\<close>

definition delimText :: "delim \<Rightarrow> string" where
  "delimText d = (case d of Chr c \<Rightarrow> [c] | Str s \<Rightarrow> s)"

text \<open>\<^verbatim>\<open>while (++begin != end)\<close>: the delimiter, then the next piece.\<close>

fun joinRest :: "delim \<Rightarrow> string list \<Rightarrow> string \<Rightarrow> string" where
  "joinRest d [] output = output"
| "joinRest d (t # ts) output = joinRest d ts ((output @ delimText d) @ t)"

definition internalJoinAppend :: "delim \<Rightarrow> string list \<Rightarrow> string \<Rightarrow> string result" where
  "internalJoinAppend d ts output =
     (case ts of
        [] \<Rightarrow> Inl Assert_Failed
      | t # rest \<Rightarrow>
          (case d of
             Str sp \<Rightarrow>
               if delimSize d = 1 then res_bind (delimFront sp) (\<lambda>c. Inr (joinRest (Chr c) rest (output @ t)))
               else Inr (joinRest d rest (output @ t))
           | Chr c \<Rightarrow> Inr (joinRest d rest (output @ t))))"

definition internalJoin :: "delim \<Rightarrow> string list \<Rightarrow> string result" where
  "internalJoin d ts = (if ts = [] then Inr [] else internalJoinAppend d ts [])"

definition toAppendPair :: "delim \<Rightarrow> string \<times> string \<Rightarrow> string \<Rightarrow> string" where
  "toAppendPair d p output = ((output @ fst p) @ delimText d) @ snd p"

fun mapJoinRest :: "delim \<Rightarrow> delim \<Rightarrow> (string \<times> string) list \<Rightarrow> string \<Rightarrow> string" where
  "mapJoinRest d pd [] output = output"
| "mapJoinRest d pd (p # ps) output = mapJoinRest d pd ps (toAppendPair pd p (output @ delimText d))"

definition joinMap :: "delim \<Rightarrow> delim \<Rightarrow> (string \<times> string) list \<Rightarrow> string" where
  "joinMap d pd ps = (case ps of [] \<Rightarrow> [] | p # rest \<Rightarrow> mapJoinRest d pd rest (toAppendPair pd p []))"

section \<open>Trimming\<close>

definition is_oddspace :: "char \<Rightarrow> bool" where
  "is_oddspace c \<longleftrightarrow> c = CHR 0x0A \<or> c = CHR 0x09 \<or> c = CHR 0x0D"

text \<open>The inner loop over blanks, and the outer one over the other spaces.\<close>

function ltrimWhitespace :: "string \<Rightarrow> string" where
  "ltrimWhitespace sp =
     (let sp1 = dropWhile (\<lambda>c. c = CHR '' '') sp
      in if sp1 \<noteq> [] \<and> is_oddspace (hd sp1) then ltrimWhitespace (tl sp1) else sp1)"
  by pat_completeness auto
termination
proof (relation "measure length", goal_cases)
  case (2 sp sp1)
  then have "0 < length sp1" "length sp1 \<le> length sp"
    using length_dropWhile_le [of "\<lambda>c. c = CHR '' ''" sp] by (auto simp only: length_greater_0_conv simp_thms)
  then show ?case by (simp only: in_measure length_tl)
qed simp

function rtrimWhitespace :: "string \<Rightarrow> string" where
  "rtrimWhitespace sp =
     (let sp1 = rev (dropWhile (\<lambda>c. c = CHR '' '') (rev sp))
      in if sp1 \<noteq> [] \<and> is_oddspace (last sp1) then rtrimWhitespace (butlast sp1) else sp1)"
  by pat_completeness auto
termination
proof (relation "measure length", goal_cases)
  case (2 sp sp1)
  then have "0 < length sp1" "length sp1 \<le> length sp"
    using length_dropWhile_le [of "\<lambda>c. c = CHR '' ''" "rev sp"] by (auto simp only: length_greater_0_conv length_rev rev_is_Nil_conv simp_thms)
  then show ?case by (simp only: in_measure length_butlast)
qed simp

definition trimWhitespace :: "string \<Rightarrow> string" where
  "trimWhitespace sp = ltrimWhitespace (rtrimWhitespace sp)"

declare ltrimWhitespace.simps [simp del] rtrimWhitespace.simps [simp del]

section \<open>Hexadecimal text\<close>

definition hexValues :: "8 word list" where
  "hexValues = [48, 49, 50, 51, 52, 53, 54, 55, 56, 57, 97, 98, 99, 100, 101, 102]"

text \<open>The character is widened to \<^verbatim>\<open>int\<close> with its sign before it is shifted.\<close>

fun hexLoop :: "8 word list \<Rightarrow> 8 word list" where
  "hexLoop [] = []"
| "hexLoop (c # cs) =
     (let ch = (signed c :: 32 word)
      in hexValues ! unat (signed_drop_bit 4 ch AND 0xf) # hexValues ! unat (ch AND 0xf) # hexLoop cs)"

definition hexlify :: "8 word list \<Rightarrow> 8 word list \<Rightarrow> bool \<Rightarrow> bool \<times> 8 word list" where
  "hexlify input output append_output = (True, (if append_output then output else []) @ hexLoop input)"

definition unhex :: "8 word \<Rightarrow> int" where
  "unhex c =
     (if sint c \<ge> 48 \<and> sint c \<le> 57 then sint c - 48
      else if sint c \<ge> 65 \<and> sint c \<le> 70 then sint c - 65 + 10
      else if sint c \<ge> 97 \<and> sint c \<le> 102 then sint c - 97 + 10
      else -1)"

text \<open>The output has been given its final size before the loop, which stops at a bad digit.\<close>

fun unhexLoop :: "8 word list \<Rightarrow> nat \<Rightarrow> 8 word list \<Rightarrow> bool \<times> 8 word list" where
  "unhexLoop (h # l # rest) j output =
     (if unhex h < 0 \<or> unhex l < 0 then (False, output)
      else unhexLoop rest (j + 1) (output[j := word_of_int (unhex h * 16 + unhex l)]))"
| "unhexLoop rest j output = (True, output)"

definition unhexlify :: "8 word list \<Rightarrow> 8 word list \<Rightarrow> bool \<times> 8 word list" where
  "unhexlify input output =
     (if length input mod 2 \<noteq> 0 then (False, output)
      else let n = length input div 2
           in unhexLoop input 0 (take n output @ replicate (n - length output) 0))"

section \<open>The reference\<close>

text \<open>\<open>cur\<close> is the token so far; the leftmost occurrence of the delimiter ends it.\<close>

function tokens :: "string \<Rightarrow> string \<Rightarrow> string \<Rightarrow> string list" where
  "tokens d cur [] = [cur]"
| "tokens d cur (a # s) =
     (if d \<noteq> [] \<and> prefix d (a # s) then cur # tokens d [] (drop (length d) (a # s))
      else tokens d (cur @ [a]) s)"
  by pat_completeness auto
termination by (relation "measure (\<lambda>(d, cur, s). length s)") auto

lemma tokens_nonempty: "tokens d cur s \<noteq> []"
  by (induction d cur s rule: tokens.induct) auto

lemma tokens_short: "length s < length d \<Longrightarrow> tokens d cur s = [cur @ s]"
proof (induction s arbitrary: cur)
  case (Cons a s)
  then have "\<not> prefix d (a # s)" using prefix_length_le [of d "a # s"] by auto
  then show ?case using Cons by simp
qed simp

lemma atDelim_prefix:
  assumes "i + delimSize d \<le> length s"
  shows "atDelim s i d \<longleftrightarrow> prefix (delimText d) (drop i s)"
proof (cases d)
  case (Chr c)
  then show ?thesis using assms by (auto simp: atDelim_def delimText_def delimSize_def simp flip: Cons_nth_drop_Suc)
next
  case (Str sp)
  then show ?thesis by (auto simp: atDelim_def delimText_def prefix_def take_is_prefix)
    (metis append_take_drop_id)
qed


text \<open>Empty tokens are dropped on request.\<close>

definition kept :: "bool \<Rightarrow> string list \<Rightarrow> string list" where
  "kept ignoreEmpty ts = (if ignoreEmpty then filter (\<lambda>t. t \<noteq> []) ts else ts)"

lemma kept_Cons: "kept b (t # ts) = (if \<not> b \<or> t \<noteq> [] then t # kept b ts else kept b ts)"
  by (simp add: kept_def)

lemma piece_grow:
  assumes "start + k < length s"
  shows "piece s start (k + 1) = piece s start k @ [s ! (start + k)]" "piece s start k \<noteq> [] \<longleftrightarrow> 0 < k"
  using assms by (auto simp: piece_def take_Suc_conv_app_nth)

lemma kept_out:
  assumes "start + k < length s"
  shows "(if \<not> b \<or> 0 < k then out @ [piece s start k] else out) @ kept b ts = out @ kept b (piece s start k # ts)"
  using piece_grow(2) [OF assms] by (simp add: kept_Cons)

lemma piece_rest: "start + k \<le> length s \<Longrightarrow> piece s start k @ drop (start + k) s = drop start s"
  by (metis append_take_drop_id drop_drop piece_def add.commute)

lemma splitLoop_spec:
  assumes d: "0 < delimSize d" "delimSize d \<le> length s"
    and pos: "start + k \<le> length s" "length s - (start + k) \<le> n"
  shows "\<exists>out' start'. splitLoop n d s b (start + k) start k out = Inr (out', start') \<and> start' \<le> length s \<and>
    out' @ kept b [drop start' s] = out @ kept b (tokens (delimText d) (piece s start k) (drop (start + k) s))"
  using pos
proof (induction n arbitrary: start k out)
  case 0
  then have "start + k = length s" by simp
  then show ?case using 0 d piece_rest [of start k s] by auto
next
  case (Suc n)
  let ?i = "start + k" and ?dt = "delimText d"
  have dt: "length ?dt = delimSize d" by (cases d) (simp_all add: delimText_def delimSize_def)
  show ?case
  proof (cases "?i \<le> length s - delimSize d")
    case False
    then have "tokens ?dt (piece s start k) (drop ?i s) = [drop start s]"
      using tokens_short [of "drop ?i s" ?dt] d dt piece_rest Suc.prems by simp
    then show ?thesis using False Suc.prems by auto
  next
    case True
    then have i: "?i + delimSize d \<le> length s" "?i < length s" using d by auto
    have cons: "drop ?i s = s ! ?i # drop (?i + 1) s" using i by (simp add: Cons_nth_drop_Suc)
    have pre: "atDelim s ?i d \<longleftrightarrow> prefix ?dt (s ! ?i # drop (?i + 1) s)"
      using atDelim_prefix [OF i(1)] cons by simp
    show ?thesis
    proof (cases "atDelim s ?i d")
      case at: True
      let ?start = "?i + delimSize d"
      have "tokens ?dt (piece s start k) (drop ?i s) = piece s start k # tokens ?dt (piece s ?start 0) (drop ?start s)"
      proof -
        have "?dt \<noteq> [] \<and> prefix ?dt (s ! ?i # drop (?i + 1) s)" using at pre d dt by auto
        then have "tokens ?dt cur (s ! ?i # drop (?i + 1) s) = cur # tokens ?dt [] (drop (length ?dt) (drop ?i s))" for cur
          using cons by simp
        then show ?thesis using cons by (simp add: dt piece_def add.commute)
      qed
      then show ?thesis
        using Suc.IH [of ?start 0 "if \<not> b \<or> 0 < k then out @ [piece s start k] else out"] Suc.prems i d True at
          kept_out [OF i(2), of b out] by simp
    next
      case at: False
      have "tokens ?dt (piece s start k) (drop ?i s) = tokens ?dt (piece s start (k + 1)) (drop (start + (k + 1)) s)"
        using at pre piece_grow(1) [OF i(2)] unfolding cons by simp
      then show ?thesis using Suc.IH [of start "k + 1" out] Suc.prems i True at by auto
    qed
  qed
qed

lemma splitFrom_spec:
  assumes "0 < delimSize d" "delimSize d \<le> length s"
  shows "splitFrom d s b = Inr (kept b (tokens (delimText d) [] s))"
proof -
  obtain out start where "splitLoop (length s + 1) d s b 0 0 0 [] = Inr (out, start)" "start \<le> length s"
    and *: "out @ kept b [drop start s] = kept b (tokens (delimText d) [] s)"
    using splitLoop_spec [OF assms, of 0 0 "length s + 1" b "[]"] by (auto simp: piece_def)
  moreover have "(if \<not> b \<or> 0 < length s - start then out @ [piece s start (length s - start)] else out) =
    out @ kept b [drop start s]" using \<open>start \<le> length s\<close> by (auto simp: kept_def piece_def)
  ultimately show ?thesis by (simp add: splitFrom_def Let_def)
qed

text \<open>A delimiter that is empty or too long leaves the input in one piece, as the reference does.\<close>

lemma tokens_empty_delim: "tokens [] cur s = [cur @ s]"
  by (induction s arbitrary: cur) auto

lemma internalSplit_spec: "internalSplit d s b = Inr (kept b (tokens (delimText d) [] s))"
proof (cases "delimSize d > length s \<or> delimSize d = 0")
  case True
  have dt: "length (delimText d) = delimSize d" by (cases d) (simp_all add: delimText_def delimSize_def)
  then have "tokens (delimText d) [] s = [s]" using True tokens_short [of s "delimText d"] tokens_empty_delim by fastforce
  then show ?thesis using True by (auto simp: internalSplit_def kept_def)
next
  case False
  then have d: "0 < delimSize d" "delimSize d \<le> length s" by auto
  show ?thesis
  proof (cases d)
    case (Chr c)
    then show ?thesis using False splitFrom_spec [OF d] by (simp add: internalSplit_def)
  next
    case (Str sp)
    have "splitFrom (Chr (hd sp)) s b = Inr (kept b (tokens sp [] s))" if "length sp = 1"
    proof -
      have "1 \<le> length s" using that False Str by (simp add: delimSize_def Suc_le_eq)
      then show ?thesis using that splitFrom_spec [of "Chr (hd sp)" s b]
        by (cases sp) (auto simp: delimSize_def delimText_def)
    qed
    then show ?thesis using False Str splitFrom_spec [OF d]
      by (cases sp) (auto simp: internalSplit_def delimFront_def delimText_def Suc_le_eq)
  qed
qed

section \<open>Splitting at any of several characters\<close>

fun tokensBy :: "(char \<Rightarrow> bool) \<Rightarrow> string \<Rightarrow> string \<Rightarrow> string list" where
  "tokensBy P cur [] = [cur]"
| "tokensBy P cur (a # s) = (if P a then cur # tokensBy P [] s else tokensBy P (cur @ [a]) s)"

lemma tokens_char: "tokens [c] cur s = tokensBy (\<lambda>x. x = c) cur s"
  by (induction "\<lambda>x. x = c" cur s rule: tokensBy.induct) auto

definition anyOf :: "delim \<Rightarrow> char \<Rightarrow> bool" where
  "anyOf d x \<longleftrightarrow> (case d of Chr c \<Rightarrow> x = c | Str sp \<Rightarrow> x \<in> set sp)"

lemma splitAnyLoop_spec:
  assumes "start + k \<le> length s" "length s - (start + k) \<le> n"
  shows "\<exists>out' start'. splitAnyLoop n d s b (start + k) start k out = Inr (out', start') \<and> start' \<le> length s \<and>
    out' @ kept b [drop start' s] = out @ kept b (tokensBy (anyOf d) (piece s start k) (drop (start + k) s))"
  using assms
proof (induction n arbitrary: start k out)
  case 0
  then show ?case using piece_rest [of start k s] by auto
next
  case (Suc n)
  let ?i = "start + k"
  show ?case
  proof (cases "?i < length s")
    case False
    then show ?thesis using Suc.prems piece_rest [of start k s] by auto
  next
    case True
    have cons: "drop ?i s = s ! ?i # drop (?i + 1) s" using True by (simp add: Cons_nth_drop_Suc)
    have at: "atDelimAny s ?i d \<longleftrightarrow> anyOf d (s ! ?i)" by (simp add: atDelimAny_def anyOf_def)
    show ?thesis
    proof (cases "anyOf d (s ! ?i)")
      case hit: True
      have "tokensBy (anyOf d) (piece s start k) (drop ?i s) =
        piece s start k # tokensBy (anyOf d) (piece s (?i + 1) 0) (drop (?i + 1) s)"
        using hit cons by (simp add: piece_def)
      then show ?thesis
        using Suc.IH [of "?i + 1" 0 "if \<not> b \<or> 0 < k then out @ [piece s start k] else out"] Suc.prems True at hit
          kept_out [OF True, of b out] by simp
    next
      case miss: False
      have "tokensBy (anyOf d) (piece s start k) (drop ?i s) =
        tokensBy (anyOf d) (piece s start (k + 1)) (drop (start + (k + 1)) s)"
        using miss piece_grow(1) [OF True] cons by simp
      then show ?thesis using Suc.IH [of start "k + 1" out] Suc.prems True at miss by auto
    qed
  qed
qed

lemma tokensBy_none: "(\<And>x. \<not> P x) \<Longrightarrow> tokensBy P cur s = [cur @ s]"
  by (induction s arbitrary: cur) auto

lemma internalSplitAny_spec: "internalSplitAny d s b = Inr (kept b (tokensBy (anyOf d) [] s))"
proof (cases "length s = 0 \<or> delimAnySize d = 0")
  case True
  then have "tokensBy (anyOf d) [] s = [s]"
    using tokensBy_none [of "anyOf d" "[]" s] by (auto simp: delimAnySize_def anyOf_def min_def split: delim.splits if_splits)
  then show ?thesis using True by (auto simp: internalSplitAny_def kept_def)
next
  case False
  obtain out start where "splitAnyLoop (length s) d s b 0 0 0 [] = Inr (out, start)" "start \<le> length s"
    and "out @ kept b [drop start s] = kept b (tokensBy (anyOf d) [] s)"
    using splitAnyLoop_spec [of 0 0 s "length s" d b "[]"] by (auto simp: piece_def)
  moreover have "(if \<not> b \<or> 0 < length s - start then out @ [piece s start (length s - start)] else out) =
    out @ kept b [drop start s]" using \<open>start \<le> length s\<close> by (auto simp: kept_def piece_def)
  ultimately show ?thesis using False by (simp add: internalSplitAny_def Let_def)
qed

section \<open>Joining\<close>

fun joined :: "string \<Rightarrow> string list \<Rightarrow> string" where
  "joined d [] = []"
| "joined d [t] = t"
| "joined d (t # u # ts) = t @ d @ joined d (u # ts)"

lemma joinRest_eq: "joinRest d ts acc = acc @ concat (map ((@) (delimText d)) ts)"
  by (induction ts arbitrary: acc) auto

lemma joined_eq: "joined d (t # ts) = t @ concat (map ((@) d) ts)"
  by (induction ts arbitrary: t) auto

lemma internalJoin_spec: "internalJoin d ts = Inr (joined (delimText d) ts)"
proof (cases ts)
  case (Cons t rest)
  have "delimText (Chr (hd sp)) = sp \<and> sp \<noteq> []" if "length sp = 1" for sp
    using that by (cases sp) (auto simp: delimText_def)
  then show ?thesis using Cons
    by (cases d) (auto simp: internalJoin_def internalJoinAppend_def joinRest_eq joined_eq delimFront_def delimSize_def delimText_def)
qed (simp add: internalJoin_def)

lemma joined_tokens: "joined d (tokens d cur s) = cur @ s"
proof (induction d cur s rule: tokens.induct)
  case (2 d cur a s)
  show ?case
  proof (cases "d \<noteq> [] \<and> prefix d (a # s)")
    case True
    define ts where "ts = tokens d [] (drop (length d) (a # s))"
    have "ts \<noteq> []" by (simp add: ts_def tokens_nonempty)
    then have "joined d (cur # ts) = cur @ d @ joined d ts" by (cases ts) auto
    also have "\<dots> = cur @ a # s" using 2(1) True by (auto simp: ts_def prefix_def)
    finally show ?thesis using True by (simp add: ts_def)
  qed (use 2(2) in auto)
qed simp

text \<open>Tokens of a single character are free of it, and such tokens are found again.\<close>

lemma tokens_free: "c \<notin> set cur \<Longrightarrow> t \<in> set (tokensBy (\<lambda>x. x = c) cur s) \<Longrightarrow> c \<notin> set t"
  by (induction "\<lambda>x. x = c" cur s rule: tokensBy.induct) (auto split: if_splits)

lemma tokens_step: "c \<notin> set t \<Longrightarrow> tokensBy (\<lambda>x. x = c) cur (t @ c # s) = (cur @ t) # tokensBy (\<lambda>x. x = c) [] s"
  by (induction t arbitrary: cur) auto

lemma tokens_last: "c \<notin> set t \<Longrightarrow> tokensBy (\<lambda>x. x = c) cur t = [cur @ t]"
  by (induction t arbitrary: cur) auto

lemma tokens_joined: "ts \<noteq> [] \<Longrightarrow> \<forall>t \<in> set ts. c \<notin> set t \<Longrightarrow> tokens [c] [] (joined [c] ts) = ts"
  unfolding tokens_char by (induction "[c]" ts rule: joined.induct) (auto simp: tokens_step tokens_last)

section \<open>A fixed number of pieces\<close>

lemma occursAt_Cons:
  "occursAt (=) (a # s) d (Suc i) \<longleftrightarrow> occursAt (=) s d i" "occursAt (=) s d 0 \<longleftrightarrow> prefix d s"
proof -
  show "occursAt (=) (a # s) d (Suc i) \<longleftrightarrow> occursAt (=) s d i" by (auto simp: occursAt_def)
  have "prefix d s \<longleftrightarrow> length d \<le> length s \<and> take (length d) s = d"
    using prefix_length_le [of d s] by (metis append_eq_conv_conj prefixE take_is_prefix)
  also have "\<dots> \<longleftrightarrow> length d \<le> length s \<and> (\<forall>j < length d. s ! j = d ! j)"
    by (auto simp: list_eq_iff_nth_eq)
  finally show "occursAt (=) s d 0 \<longleftrightarrow> prefix d s" by (simp add: occursAt_def)
qed

lemma tokens_first:
  assumes "d \<noteq> []" "firstOccurrence (=) s d r"
  shows "tokens d cur s =
    (case r of None \<Rightarrow> [cur @ s] | Some i \<Rightarrow> (cur @ take i s) # tokens d [] (drop (i + length d) s))"
  using assms(2)
proof (induction s arbitrary: cur r)
  case Nil
  then show ?case using assms(1) by (cases r) (auto simp: firstOccurrence_def occursAt_def)
next
  case (Cons a s)
  show ?case
  proof (cases "prefix d (a # s)")
    case True
    then have "r = Some 0" using Cons.prems occursAt_Cons(2) [of "a # s" d]
      by (cases r) (auto simp: firstOccurrence_def)
    then show ?thesis using True assms(1) by simp
  next
    case False
    define r' where "r' = map_option (\<lambda>i. i - 1) r"
    have r: "r = map_option Suc r'"
      using Cons.prems False occursAt_Cons(2) [of "a # s" d]
      by (cases "(r, the r)" rule: prod.exhaust; cases r; cases "the r") (auto simp: r'_def firstOccurrence_def)
    have "firstOccurrence (=) s d r'"
    proof (cases r')
      case None
      then show ?thesis using Cons.prems r occursAt_Cons(1) [of a s d] by (auto simp: firstOccurrence_def)
    next
      case (Some i)
      then show ?thesis using Cons.prems r occursAt_Cons(1) [of a s d] by (auto simp: firstOccurrence_def)
    qed
    then show ?thesis using Cons.IH [of r' "cur @ [a]"] False r by (cases r') auto
  qed
qed

lemma findDelim_spec: "\<exists>r. findDelim s d = Inr r \<and> firstOccurrence (=) s (delimText d) r"
proof (cases d)
  case (Chr c)
  have "occursAt (=) s [c] i \<longleftrightarrow> i < length s \<and> s ! i = c" for i by (auto simp: occursAt_def)
  then show ?thesis using Chr findIndexFrom_spec [of "\<lambda>x. x = c" s]
    by (auto simp: findDelim_def delimText_def firstOccurrence_def firstWhere_def split: option.splits)
next
  case (Str sp)
  have "symp ((=) :: char \<Rightarrow> _)" "transp ((=) :: char \<Rightarrow> _)" by (auto intro: sympI transpI)
  then show ?thesis using Str qfind_spec [of "(=)" s sp] by (simp add: findDelim_def delimText_def)
qed

text \<open>
  With \<^verbatim>\<open>exact\<close> there must be as many tokens as outputs, otherwise at least as
  many, and the last output is the rest of the input, delimiters included.
\<close>

lemma splitFixed_spec:
  assumes "delimText d \<noteq> []"
  shows "splitFixed exact d s n = Inr (let ts = tokens (delimText d) [] s in
    if length ts = n + 1 \<or> (\<not> exact \<and> n < length ts) then Some (take n ts @ [joined (delimText d) (drop n ts)]) else None)"
proof (induction n arbitrary: s)
  case 0
  obtain r where r: "findDelim s d = Inr r" "firstOccurrence (=) s (delimText d) r" using findDelim_spec by blast
  have "joined (delimText d) (tokens (delimText d) [] s) = s" by (simp add: joined_tokens)
  then show ?case using r tokens_first [OF assms r(2), of "[]"] tokens_nonempty
    by (cases r) (auto simp: Let_def)
next
  case (Suc n)
  obtain r where r: "findDelim s d = Inr r" "firstOccurrence (=) s (delimText d) r" using findDelim_spec by blast
  have dt: "length (delimText d) = delimSize d" by (cases d) (simp_all add: delimText_def delimSize_def)
  show ?case using r tokens_first [OF assms r(2), of "[]"] Suc.IH
    by (cases r) (auto simp: Let_def dt)
qed

section \<open>Trimming\<close>

definition white :: "char \<Rightarrow> bool" where
  "white c \<longleftrightarrow> c = CHR '' '' \<or> is_oddspace c"

lemma dropWhile_white: "dropWhile white (dropWhile (\<lambda>c. c = CHR '' '') s) = dropWhile white s"
  by (induction s) (auto simp: white_def)

lemma ltrimWhitespace_spec: "ltrimWhitespace s = dropWhile white s"
proof (induction s rule: ltrimWhitespace.induct)
  case (1 s)
  let ?s = "dropWhile (\<lambda>c. c = CHR '' '') s"
  show ?case
  proof (cases ?s)
    case Nil
    have "dropWhile white s = []" using dropWhile_white [of s] unfolding Nil by simp
    then show ?thesis by (subst ltrimWhitespace.simps) (simp only: Nil Let_def, simp)
  next
    case (Cons a t)
    then have "a \<noteq> CHR '' ''" by (metis (full_types) hd_dropWhile list.distinct(1) list.sel(1))
    then have "white a \<longleftrightarrow> is_oddspace a" by (simp add: white_def)
    moreover have "dropWhile white s = dropWhile white (a # t)" using dropWhile_white [of s] unfolding Cons by simp
    ultimately show ?thesis using 1 Cons by (subst ltrimWhitespace.simps) (simp add: Let_def)
  qed
qed

lemma rtrimWhitespace_spec: "rtrimWhitespace s = rev (dropWhile white (rev s))"
proof (induction s rule: rtrimWhitespace.induct)
  case (1 s)
  let ?s = "dropWhile (\<lambda>c. c = CHR '' '') (rev s)"
  show ?case
  proof (cases ?s)
    case Nil
    have "dropWhile white (rev s) = []" using dropWhile_white [of "rev s"] unfolding Nil by simp
    then show ?thesis by (subst rtrimWhitespace.simps) (simp only: Nil Let_def, simp)
  next
    case (Cons a t)
    then have "a \<noteq> CHR '' ''" by (metis (full_types) hd_dropWhile list.distinct(1) list.sel(1))
    then have "white a \<longleftrightarrow> is_oddspace a" by (simp add: white_def)
    moreover have "dropWhile white (rev s) = dropWhile white (a # t)"
      using dropWhile_white [of "rev s"] unfolding Cons by simp
    ultimately show ?thesis using 1 Cons by (subst rtrimWhitespace.simps) (simp add: Let_def)
  qed
qed

section \<open>Hexadecimal text\<close>

lemma hexLoop_length: "length (hexLoop cs) = 2 * length cs"
  by (induction cs) (auto simp: Let_def)

text \<open>Both digits of a byte depend only on its eight bits, not on the sign extension.\<close>

lemma signed_nibbles:
  fixes c :: "8 word"
  shows "unat (signed_drop_bit 4 (signed c :: 32 word) AND 0xf) = unat c div 16"
    "unat ((signed c :: 32 word) AND 0xf) = unat c mod 16"
proof -
  have m: "bit (15 :: int) n \<longleftrightarrow> n < 4" "bit (15 :: nat) n \<longleftrightarrow> n < 4" for n
    using bit_mask_iff [of 4 n, where 'a = int] bit_mask_iff [of 4 n, where 'a = nat]
    by (simp_all add: mask_eq_exp_minus_1)
  have "signed_drop_bit 4 (signed c :: 32 word) AND 15 = (ucast (drop_bit 4 c) :: 32 word)"
  proof (rule bit_word_eqI)
    fix n
    assume "n < LENGTH(32)"
    show "bit (signed_drop_bit 4 (signed c :: 32 word) AND 15) n \<longleftrightarrow> bit (ucast (drop_bit 4 c) :: 32 word) n"
    proof (cases "n < 4")
      case True
      then consider "n = 0" | "n = 1" | "n = 2" | "n = 3" by linarith
      then show ?thesis by cases (simp_all add: m bit_simps)
    next
      case False
      then show ?thesis using bit_imp_le_length [of c "4 + n"] by (auto simp: m bit_simps)
    qed
  qed
  moreover have "unat (ucast (drop_bit 4 c) :: 32 word) = unat (drop_bit 4 c)"
    using byte_less [of "drop_bit 4 c"] by (simp add: unsigned_ucast_eq take_bit_nat_eq_self_iff)
  ultimately show "unat (signed_drop_bit 4 (signed c :: 32 word) AND 0xf) = unat c div 16"
    by (simp add: drop_bit_eq_div unat_div)
  have "(signed c :: 32 word) AND 15 = (ucast (take_bit 4 c) :: 32 word)"
    by (intro bit_word_eqI) (auto simp: m bit_simps min_def dest: bit_imp_le_length)
  moreover have "unat (ucast (take_bit 4 c) :: 32 word) = unat (take_bit 4 c)"
    using byte_less [of "take_bit 4 c"] by (simp add: unsigned_ucast_eq take_bit_nat_eq_self_iff)
  ultimately show "unat ((signed c :: 32 word) AND 0xf) = unat c mod 16"
    by (simp add: take_bit_eq_mod unat_mod)
qed

lemma unhex_hexValues:
  assumes "k < 16"
  shows "unhex (hexValues ! k) = int k"
proof -
  have "list_all (\<lambda>k. unhex (hexValues ! k) = int k) [0..<16]" by code_simp
  then show ?thesis using assms by (simp add: list_all_iff)
qed

lemma unhexLoop_hexLoop:
  "j + length cs \<le> length acc \<Longrightarrow>
     unhexLoop (hexLoop cs) j acc = (True, take j acc @ cs @ drop (j + length cs) acc)"
proof (induction cs arbitrary: j acc)
  case (Cons c cs)
  have n: "unat c div 16 < 16" "unat c mod 16 < 16" using byte_less [of c] by auto
  have "word_of_int (int (unat c div 16) * 16 + int (unat c mod 16)) = c"
  proof -
    have "int (unat c div 16) * 16 + int (unat c mod 16) = int (unat c div 16 * 16 + unat c mod 16)"
      by (simp only: of_nat_add of_nat_mult of_nat_numeral)
    also have "\<dots> = int (unat c)" by (simp only: div_mult_mod_eq)
    finally have "int (unat c div 16) * 16 + int (unat c mod 16) = int (unat c)" .
    then show ?thesis by (simp only: of_nat_unat word_of_int_uint)
  qed
  then have "unhexLoop (hexLoop (c # cs)) j acc = unhexLoop (hexLoop cs) (j + 1) (acc[j := c])"
    using unhex_hexValues [OF n(1)] unhex_hexValues [OF n(2)] by (simp add: Let_def signed_nibbles)
  then show ?case using Cons.IH [of "j + 1" "acc[j := c]"] Cons.prems by (simp add: take_Suc_conv_app_nth)
qed simp

lemma unhexlify_hexlify: "unhexlify (snd (hexlify input out False)) acc = (True, input)"
  using unhexLoop_hexLoop [of 0 input "take (length input) acc @ replicate (length input - length acc) 0"]
  by (simp add: unhexlify_def hexlify_def hexLoop_length Let_def min_def split: if_splits)

section \<open>The properties\<close>



end
