(* ===== verification/Json_Text.thy ===== *)
theory Json_Text
  imports Dynamic_Value Utf8_Text Text_Split
begin

unbundle bit_operations_syntax

text \<open>
  JSON: \<^verbatim>\<open>src/raster/util/json.h\<close> and \<^verbatim>\<open>json.cpp\<close>. The parser works on the rest of its input; what
  it returns is a value and the rest behind it. The line number of the input only
  appears in the message of a \<^verbatim>\<open>ParseError\<close>, which is a \<open>Runtime_Error\<close> here.
  Printing and reading floating point numbers is a parameter.
\<close>

section \<open>Options and environment\<close>

record serialization_opts =
  allow_non_string_keys :: bool
  javascript_safe :: bool
  pretty_formatting :: bool
  encode_non_ascii :: bool
  validate_utf8 :: bool
  allow_trailing_comma :: bool
  sort_keys :: bool
  skip_invalid_utf8 :: bool
  allow_nan_inf :: bool
  double_fallback :: bool
  parse_numbers_as_strings :: bool
  recursion_limit :: nat

definition defaultOpts :: serialization_opts where
  "defaultOpts = \<lparr>allow_non_string_keys = False, javascript_safe = False, pretty_formatting = False,
     encode_non_ascii = False, validate_utf8 = False, allow_trailing_comma = False, sort_keys = False,
     skip_invalid_utf8 = False, allow_nan_inf = False, double_fallback = False,
     parse_numbers_as_strings = False, recursion_limit = 100\<rparr>"

text \<open>The floating point operations, its special values, the buffer for digits and the order of iteration.\<close>

record 'd jenv =
  base :: "'d dops"
  nanInf :: "'d \<Rightarrow> bool"
  posInf :: 'd
  negInf :: 'd
  quietNan :: 'd
  buffer :: string
  iter :: "'d items \<Rightarrow> 'd items"

definition unitEnv :: "unit jenv" where
  "unitEnv = \<lparr>base = unitOps, nanInf = (\<lambda>_. False), posInf = (), negInf = (), quietNan = (),
     buffer = replicate 20 (CHR ''?''), iter = rev\<rparr>"

section \<open>Escaping\<close>

definition byteOf :: "char \<Rightarrow> 8 word" where
  "byteOf c = of_nat (of_char c)"

definition charOf :: "8 word \<Rightarrow> char" where
  "charOf w = char_of (unat w)"

text \<open>\<^verbatim>\<open>decodeUtf8\<close> is a copy of \<^verbatim>\<open>utf8ToCodePoint\<close>.\<close>

definition decodeUtf8 :: "bool \<Rightarrow> string \<Rightarrow> (32 word \<times> nat) result" where
  "decodeUtf8 skipOnError s = utf8ToCodePoint skipOnError (map byteOf s)"

definition hexDigit :: "nat \<Rightarrow> char" where
  "hexDigit n = char_of (if n < 10 then n + 48 else n - 10 + 97)"

text \<open>One byte that is not decoded.\<close>

definition escapeByte :: "char \<Rightarrow> string" where
  "escapeByte c =
     (let n = of_char c :: nat
      in if c = CHR 0x5C \<or> c = CHR 0x22 then [CHR 0x5C, c]
         else if n \<le> 0x1f
         then if n = 8 then [CHR 0x5C, CHR ''b'']
              else if n = 12 then [CHR 0x5C, CHR ''f'']
              else if n = 10 then [CHR 0x5C, CHR ''n'']
              else if n = 13 then [CHR 0x5C, CHR ''r'']
              else if n = 9 then [CHR 0x5C, CHR ''t'']
              else [CHR 0x5C, CHR ''u'', CHR ''0'', CHR ''0'', hexDigit (n div 16), hexDigit (n mod 16)]
         else [c])"

definition escapeCode :: "32 word \<Rightarrow> string" where
  "escapeCode v =
     [CHR 0x5C, CHR ''u'', hexDigit (unat (drop_bit 12 v)), hexDigit (unat (drop_bit 8 v AND 0x0f)),
      hexDigit (unat (drop_bit 4 v AND 0x0f)), hexDigit (unat (v AND 0x0f))]"

lemma decodeLoop_advance: "decodeLoop sk p i f d = Inr (v, n) \<Longrightarrow> 0 < n"
  by (induction sk p i f d rule: decodeLoop.induct)
    (subst (asm) (2) decodeLoop.simps, auto simp: skipOr_def Let_def split: if_splits)

lemma decode_advance: "utf8ToCodePoint sk p = Inr (v, n) \<Longrightarrow> 0 < n"
  using decodeLoop_advance by (fastforce simp: utf8ToCodePoint_def skipOr_def split: if_splits)

text \<open>
  The loop of \<^verbatim>\<open>escapeString\<close> over the bytes behind \<open>p\<close>; \<open>ahead\<close> is how far \<open>q\<close> is ahead of it.
\<close>

definition validates :: "serialization_opts \<Rightarrow> bool" where
  "validates opts \<longleftrightarrow> (validate_utf8 opts \<or> skip_invalid_utf8 opts) \<and> \<not> encode_non_ascii opts"

function escapeLoop :: "serialization_opts \<Rightarrow> nat \<Rightarrow> string \<Rightarrow> string result" where
  "escapeLoop opts ahead s =
     (if s = [] then Inr []
      else if validates opts \<and> ahead = 0
      then (case decodeUtf8 (skip_invalid_utf8 opts) s of
              Inl e \<Rightarrow> Inl e
            | Inr (v, n) \<Rightarrow>
                if skip_invalid_utf8 opts \<and> v = 0xfffd
                then res_bind (escapeLoop opts 0 (drop n s)) (\<lambda>out.
                       Inr (map charOf [0xEF, 0xBF, 0xBD] @ out))
                else res_bind (escapeLoop opts (n - 1) (tl s)) (\<lambda>out. Inr (escapeByte (hd s) @ out)))
      else if encode_non_ascii opts \<and> (of_char (hd s) :: nat) \<ge> 128
      then (case decodeUtf8 (skip_invalid_utf8 opts) s of
              Inl e \<Rightarrow> Inl e
            | Inr (v, n) \<Rightarrow> res_bind (escapeLoop opts ahead (drop n s)) (\<lambda>out. Inr (escapeCode v @ out)))
      else res_bind (escapeLoop opts (ahead - 1) (tl s)) (\<lambda>out. Inr (escapeByte (hd s) @ out)))"
  by pat_completeness auto
termination
  by (relation "measure (\<lambda>(opts, ahead, s). length s)") (auto simp: decodeUtf8_def dest: decode_advance)

declare escapeLoop.simps [simp del]

definition escapeString :: "serialization_opts \<Rightarrow> string \<Rightarrow> string result" where
  "escapeString opts s = res_bind (escapeLoop opts 0 s) (\<lambda>out. Inr ([CHR 0x22] @ out @ [CHR 0x22]))"

section \<open>Printing\<close>

text \<open>\<^verbatim>\<open>std::sort\<close> of the items; the keys of an object differ, so they decide.\<close>

definition keyLess :: "'d dops \<Rightarrow> 'd dynamic \<Rightarrow> 'd dynamic \<Rightarrow> bool" where
  "keyLess ops a b \<longleftrightarrow> dynLess ops a b = Inr True"

fun insertItem :: "'d dops \<Rightarrow> 'd dynamic \<times> 'd dynamic \<Rightarrow> 'd items \<Rightarrow> 'd items" where
  "insertItem ops x [] = [x]"
| "insertItem ops x (y # ys) = (if keyLess ops (fst y) (fst x) then y # insertItem ops x ys else x # y # ys)"

definition sortItems :: "'d dops \<Rightarrow> 'd items \<Rightarrow> 'd items" where
  "sortItems ops kvs = foldr (insertItem ops) kvs []"

text \<open>A value with the items of every object in the order in which they are printed.\<close>

function arrange :: "'d jenv \<Rightarrow> serialization_opts \<Rightarrow> 'd dynamic \<Rightarrow> 'd dynamic" where
  "arrange env opts v =
     (case v of
        ARRAY xs \<Rightarrow> ARRAY (map (\<lambda>x. arrange env opts x) xs)
      | OBJECT kvs \<Rightarrow>
          OBJECT ((if sort_keys opts then sortItems (base env) else iter env)
                    (map (\<lambda>(k, x). (k, arrange env opts x)) kvs))
      | _ \<Rightarrow> v)"
  by pat_completeness auto
termination
  by (relation "measure (\<lambda>(env, opts, v). size v)") (auto dest: size_elem size_item)

declare arrange.simps [simp del]

text \<open>The level of indentation is there when the output is to be pretty.\<close>

definition newline :: "nat option \<Rightarrow> string" where
  "newline lvl = (case lvl of None \<Rightarrow> [] | Some n \<Rightarrow> CHR 0x0A # replicate (n * 2) (CHR '' ''))"

definition mapColon :: "nat option \<Rightarrow> string" where
  "mapColon lvl = (if lvl = None then '':'' else '' : '')"

fun isString :: "'d dynamic \<Rightarrow> bool" where
  "isString (STRING s) = True"
| "isString _ = False"

function (sequential) printValue :: "'d jenv \<Rightarrow> serialization_opts \<Rightarrow> nat option \<Rightarrow> 'd dynamic \<Rightarrow> string result"
  and printElems :: "'d jenv \<Rightarrow> serialization_opts \<Rightarrow> nat option \<Rightarrow> 'd dynamic list \<Rightarrow> string result"
  and printKVPairs :: "'d jenv \<Rightarrow> serialization_opts \<Rightarrow> nat option \<Rightarrow> 'd items \<Rightarrow> string result" where
  "printValue env opts lvl (DOUBLE d) =
     guard (allow_nan_inf opts \<or> \<not> nanInf env d) Runtime_Error (Inr (dText (base env) d))"
| "printValue env opts lvl (INT64 i) =
     guard (javascript_safe opts \<longrightarrow> exactInt (base env) i) Range_Error (appendSigned (buffer env) i [])"
| "printValue env opts lvl (BOOL b) = Inr (if b then ''true'' else ''false'')"
| "printValue env opts lvl NULLT = Inr ''null''"
| "printValue env opts lvl (STRING s) = escapeString opts s"
| "printValue env opts lvl (OBJECT kvs) =
     (if kvs = [] then Inr ''{}''
      else let lvl1 = map_option Suc lvl
           in res_bind (printKVPairs env opts lvl1 kvs) (\<lambda>out. Inr (''{'' @ newline lvl1 @ out @ newline lvl @ ''}'')))"
| "printValue env opts lvl (ARRAY xs) =
     (if xs = [] then Inr ''[]''
      else let lvl1 = map_option Suc lvl
           in res_bind (printElems env opts lvl1 xs) (\<lambda>out. Inr (''['' @ newline lvl1 @ out @ newline lvl @ '']'')))"
| "printElems env opts lvl [] = Inr []"
| "printElems env opts lvl (x # xs) =
     res_bind (printValue env opts lvl x) (\<lambda>a.
       res_bind (printElems env opts lvl xs) (\<lambda>b.
         Inr (a @ (if xs = [] then [] else '','' @ newline lvl @ b))))"
| "printKVPairs env opts lvl [] = Inr []"
| "printKVPairs env opts lvl ((k, x) # kvs) =
     guard (allow_non_string_keys opts \<or> isString k) Runtime_Error
       (res_bind (printValue env opts lvl k) (\<lambda>a.
          res_bind (printValue env opts lvl x) (\<lambda>b.
            res_bind (printKVPairs env opts lvl kvs) (\<lambda>c.
              Inr (a @ mapColon lvl @ b @ (if kvs = [] then [] else '','' @ newline lvl @ c))))))"
  by pat_completeness auto
termination
  by (relation "measure (case_sum (\<lambda>(env, opts, lvl, v). size v)
      (case_sum (\<lambda>(env, opts, lvl, xs). size_list size xs)
        (\<lambda>(env, opts, lvl, kvs). size_list (size_prod size size) kvs)))") auto

definition serialize :: "'d jenv \<Rightarrow> serialization_opts \<Rightarrow> 'd dynamic \<Rightarrow> string result" where
  "serialize env opts v =
     printValue env opts (if pretty_formatting opts then Some 0 else None) (arrange env opts v)"

section \<open>The input\<close>

text \<open>\<^verbatim>\<open>Input\<close> is the rest of the text; \<^verbatim>\<open>*in\<close> is compared with characters below 128 only.\<close>

definition startsChar :: "char \<Rightarrow> string \<Rightarrow> bool" where
  "startsChar c s \<longleftrightarrow> s \<noteq> [] \<and> hd s = c"

definition expect :: "char \<Rightarrow> string \<Rightarrow> string result" where
  "expect c s = guard (startsChar c s) Runtime_Error (Inr (tl s))"

definition consume :: "string \<Rightarrow> string \<Rightarrow> string option" where
  "consume w s = (if take (length w) s = w then Some (drop (length w) s) else None)"

definition skipMinusAndDigits :: "string \<Rightarrow> string \<times> string" where
  "skipMinusAndDigits s =
     (if startsChar (CHR ''-'') s then (CHR ''-'' # takeWhile isdigit (tl s), dropWhile isdigit (tl s))
      else (takeWhile isdigit s, dropWhile isdigit s))"

section \<open>Strings\<close>

definition hexVal :: "char \<Rightarrow> nat result" where
  "hexVal c =
     (let n = of_char c :: nat
      in if 48 \<le> n \<and> n \<le> 57 then Inr (n - 48)
         else if 97 \<le> n \<and> n \<le> 102 then Inr (n - 97 + 10)
         else if 65 \<le> n \<and> n \<le> 70 then Inr (n - 65 + 10)
         else Inl Runtime_Error)"

definition readHex :: "string \<Rightarrow> (nat \<times> string) result" where
  "readHex s =
     guard (4 \<le> length s) Runtime_Error
       (res_bind (hexVal (s ! 0)) (\<lambda>a. res_bind (hexVal (s ! 1)) (\<lambda>b.
          res_bind (hexVal (s ! 2)) (\<lambda>c. res_bind (hexVal (s ! 3)) (\<lambda>d.
            Inr (a * 4096 + b * 256 + c * 16 + d, drop 4 s))))))"

definition decodeUnicodeEscape :: "string \<Rightarrow> (string \<times> string) result" where
  "decodeUnicodeEscape s =
     res_bind (readHex s) (\<lambda>(codePoint, s1).
       res_bind
         (if 0xd800 \<le> codePoint \<and> codePoint \<le> 0xdbff
          then (case consume [CHR 0x5C, CHR ''u''] s1 of
                  None \<Rightarrow> Inl Runtime_Error
                | Some s2 \<Rightarrow> res_bind (readHex s2) (\<lambda>(second, s3).
                    guard (0xdc00 \<le> second \<and> second \<le> 0xdfff) Runtime_Error
                      (Inr (0x10000 + push_bit 10 (of_nat codePoint AND 0x3ff) + (of_nat second AND 0x3ff), s3))))
          else guard (\<not> (0xdc00 \<le> codePoint \<and> codePoint \<le> 0xdfff)) Runtime_Error (Inr (of_nat codePoint, s1)))
         (\<lambda>(cp, rest). Inr (map charOf (codePointToUtf8 cp), rest)))"

definition simpleEscape :: "char \<Rightarrow> char option" where
  "simpleEscape c =
     (if c = CHR 0x22 \<or> c = CHR 0x5C \<or> c = CHR ''/'' then Some c
      else if c = CHR ''b'' then Some (CHR 0x08)
      else if c = CHR ''f'' then Some (CHR 0x0C)
      else if c = CHR ''n'' then Some (CHR 0x0A)
      else if c = CHR ''r'' then Some (CHR 0x0D)
      else if c = CHR ''t'' then Some (CHR 0x09)
      else None)"

definition ordinary :: "char \<Rightarrow> bool" where
  "ordinary c \<longleftrightarrow> c \<noteq> CHR 0x22 \<and> c \<noteq> CHR 0x5C"

lemma readHex_shorter: "readHex s = Inr (n, t) \<Longrightarrow> length t < length s"
  by (auto simp: readHex_def guard_eq_Inr res_bind_eq_Inr)

lemma consume_shorter: "consume w s = Some t \<Longrightarrow> length t \<le> length s"
  by (auto simp: consume_def split: if_splits)

lemma decodeUnicodeEscape_shorter:
  assumes "decodeUnicodeEscape s = Inr (bs, t)"
  shows "length t < length s"
proof -
  obtain cp s1 cp1 where 1: "readHex s = Inr (cp, s1)" "cp1 = cp" using assms
    by (auto simp: decodeUnicodeEscape_def res_bind_eq_Inr)
  then have "length t \<le> length s1" using assms
    by (auto simp: decodeUnicodeEscape_def res_bind_eq_Inr guard_eq_Inr split: if_splits option.splits
        dest!: readHex_shorter consume_shorter)
  then show ?thesis using readHex_shorter [OF 1(1)] by simp
qed

text \<open>The loop of \<^verbatim>\<open>parseString\<close>, behind the opening quote.\<close>

function stringLoop :: "string \<Rightarrow> string \<Rightarrow> (string \<times> string) result" where
  "stringLoop ret s =
     (let ret1 = ret @ takeWhile ordinary s; s1 = dropWhile ordinary s
      in if startsChar (CHR 0x22) s1 then Inr (ret1, tl s1)
         else if startsChar (CHR 0x5C) s1
         then (case tl s1 of
                 [] \<Rightarrow> Inl Runtime_Error
               | c # s2 \<Rightarrow>
                   (case simpleEscape c of
                      Some d \<Rightarrow> stringLoop (ret1 @ [d]) s2
                    | None \<Rightarrow>
                        if c = CHR ''u''
                        then (case decodeUnicodeEscape s2 of
                                Inl e \<Rightarrow> Inl e
                              | Inr (bs, s3) \<Rightarrow> stringLoop (ret1 @ bs) s3)
                        else Inl Runtime_Error))
         else if s1 = [] then Inl Runtime_Error
         else if hd s1 = CHR 0x00 then Inl Runtime_Error
         else stringLoop (ret1 @ [hd s1]) (tl s1))"
  by pat_completeness auto
termination
proof (relation "measure (\<lambda>(ret, s). length s)", goal_cases)
  case (2 ret s ret1 s1 c s2 p bs s3)
  have "length s1 \<le> length s" unfolding 2 by (rule length_dropWhile_le)
  moreover have "length s3 < length s2" using 2 decodeUnicodeEscape_shorter by auto
  ultimately show ?case using 2(5) by (cases s1) auto
next
  case (3 ret s ret1 s1 c s2 d)
  have "length s1 \<le> length s" unfolding 3 by (rule length_dropWhile_le)
  then show ?case using 3(5) by (cases s1) auto
next
  case (4 ret s ret1 s1)
  have "length s1 \<le> length s" unfolding 4 by (rule length_dropWhile_le)
  then show ?case using 4(5) by (cases s1) auto
qed simp

declare stringLoop.simps [simp del]

definition parseString :: "string \<Rightarrow> (string \<times> string) result" where
  "parseString s = guard (startsChar (CHR 0x22) s) Assert_Failed (stringLoop [] (tl s))"

section \<open>Numbers\<close>

text \<open>What follows the digits before the point: the text of the number behind them, and the rest.\<close>

definition skipFraction :: "string \<Rightarrow> string \<times> string" where
  "skipFraction s =
     (if startsChar (CHR ''.'') s then (CHR ''.'' # takeWhile isdigit (tl s), dropWhile isdigit (tl s)) else ([], s))"

definition skipExponent :: "string \<Rightarrow> string \<times> string" where
  "skipExponent s =
     (if startsChar (CHR ''e'') s \<or> startsChar (CHR ''E'') s
      then let s1 = tl s;
               sg = (if startsChar (CHR ''+'') s1 \<or> startsChar (CHR ''-'') s1 then [hd s1] else []);
               s2 = drop (length sg) s1
           in (hd s # sg @ takeWhile isdigit s2, dropWhile isdigit s2)
      else ([], s))"

definition fitsInt :: "bool \<Rightarrow> string \<Rightarrow> bool" where
  "fitsInt negative integral \<longleftrightarrow>
     length integral < 19 \<or>
     \<not> negative \<and> length integral = 19 \<and> strLe integral ''9223372036854775807'' \<or>
     negative \<and> length integral = 20 \<and> strLe integral ''-9223372036854775808''"

definition parseNumber :: "'d jenv \<Rightarrow> serialization_opts \<Rightarrow> string \<Rightarrow> ('d dynamic \<times> string) result" where
  "parseNumber env opts s =
     (let negative = startsChar (CHR ''-'') s
      in case (if negative then consume ''-Infinity'' s else None) of
           Some s1 \<Rightarrow> Inr (if parse_numbers_as_strings opts then STRING ''-Infinity'' else DOUBLE (negInf env), s1)
         | None \<Rightarrow>
             (let integral = fst (skipMinusAndDigits s); s1 = snd (skipMinusAndDigits s)
              in guard (negative \<longrightarrow> 2 \<le> length integral) Runtime_Error
                (if \<not> startsChar (CHR ''.'') s1 \<and> \<not> startsChar (CHR ''e'') s1 \<and> \<not> startsChar (CHR ''E'') s1
                 then if parse_numbers_as_strings opts then Inr (STRING integral, s1)
                      else if \<not> double_fallback opts \<or> fitsInt negative integral
                      then res_bind (toIntegral True 64 integral) (\<lambda>val. Inr (INT64 val, ltrimWhitespace s1))
                      else res_bind (dRead (base env) integral) (\<lambda>val. Inr (DOUBLE val, ltrimWhitespace s1))
                 else let frac = fst (skipFraction s1); s2 = snd (skipFraction s1);
                          fullNum = integral @ frac @ fst (skipExponent s2); s3 = snd (skipExponent s2)
                      in if parse_numbers_as_strings opts then Inr (STRING fullNum, s3)
                         else res_bind (dRead (base env) fullNum) (\<lambda>val. Inr (DOUBLE val, s3)))))"

section \<open>Values\<close>

definition pushed :: "string \<Rightarrow> 'd \<Rightarrow> serialization_opts \<Rightarrow> 'd dynamic" where
  "pushed w d opts = (if parse_numbers_as_strings opts then STRING w else DOUBLE d)"

text \<open>The last alternatives of \<^verbatim>\<open>parseValue\<close>.\<close>

definition parseWord :: "'d jenv \<Rightarrow> serialization_opts \<Rightarrow> string \<Rightarrow> ('d dynamic \<times> string) result" where
  "parseWord env opts s =
     (case consume ''true'' s of Some t \<Rightarrow> Inr (BOOL True, t) | None \<Rightarrow>
      case consume ''false'' s of Some t \<Rightarrow> Inr (BOOL False, t) | None \<Rightarrow>
      case consume ''null'' s of Some t \<Rightarrow> Inr (NULLT, t) | None \<Rightarrow>
      case consume ''Infinity'' s of Some t \<Rightarrow> Inr (pushed ''Infinity'' (posInf env) opts, t) | None \<Rightarrow>
      case consume ''NaN'' s of Some t \<Rightarrow> Inr (pushed ''NaN'' (quietNan env) opts, t) | None \<Rightarrow> Inl Runtime_Error)"

text \<open>
  \<^verbatim>\<open>parseValue\<close>, with the heads of \<^verbatim>\<open>parseArray\<close> and \<^verbatim>\<open>parseObject\<close>, and their loops. The first
  number is the fuel, the second the level of recursion.
\<close>

fun parseValue :: "'d jenv \<Rightarrow> serialization_opts \<Rightarrow> nat \<Rightarrow> nat \<Rightarrow> string \<Rightarrow> ('d dynamic \<times> string) result"
  and arrayLoop :: "'d jenv \<Rightarrow> serialization_opts \<Rightarrow> nat \<Rightarrow> nat \<Rightarrow> 'd dynamic \<Rightarrow> string \<Rightarrow> ('d dynamic \<times> string) result"
  and objectLoop :: "'d jenv \<Rightarrow> serialization_opts \<Rightarrow> nat \<Rightarrow> nat \<Rightarrow> 'd dynamic \<Rightarrow> string \<Rightarrow> ('d dynamic \<times> string) result" where
  "parseValue env opts 0 level s = Inl Diverges"
| "parseValue env opts (Suc fuel) level s =
     guard (level \<le> recursion_limit opts) Runtime_Error
       (let s1 = ltrimWhitespace s
        in if startsChar (CHR ''['') s1
           then let s2 = ltrimWhitespace (tl s1)
                in if startsChar (CHR '']'') s2 then Inr (ARRAY [], tl s2)
                   else arrayLoop env opts fuel (Suc level) (ARRAY []) s2
           else if startsChar (CHR ''{'') s1
           then let s2 = ltrimWhitespace (tl s1)
                in if startsChar (CHR ''}'') s2 then Inr (OBJECT [], tl s2)
                   else objectLoop env opts fuel (Suc level) (OBJECT []) s2
           else if startsChar (CHR 0x22) s1
           then res_bind (parseString s1) (\<lambda>(w, t). Inr (STRING w, t))
           else if startsChar (CHR ''-'') s1 \<or> s1 \<noteq> [] \<and> isdigit (hd s1) then parseNumber env opts s1
           else parseWord env opts s1)"
| "arrayLoop env opts 0 level ret s = Inl Diverges"
| "arrayLoop env opts (Suc fuel) level ret s =
     (if allow_trailing_comma opts \<and> startsChar (CHR '']'') s
      then res_bind (expect (CHR '']'') s) (\<lambda>t. Inr (ret, t))
      else res_bind (parseValue env opts fuel level s) (\<lambda>(v, s1).
        res_bind (pushBack ret v) (\<lambda>ret1.
          let s2 = ltrimWhitespace s1
          in if startsChar (CHR '','') s2 then arrayLoop env opts fuel level ret1 (ltrimWhitespace (tl s2))
             else res_bind (expect (CHR '']'') s2) (\<lambda>t. Inr (ret1, t)))))"
| "objectLoop env opts 0 level ret s = Inl Diverges"
| "objectLoop env opts (Suc fuel) level ret s =
     (if allow_trailing_comma opts \<and> startsChar (CHR ''}'') s
      then res_bind (expect (CHR ''}'') s) (\<lambda>t. Inr (ret, t))
      else res_bind
        (if startsChar (CHR 0x22) s then res_bind (parseString s) (\<lambda>(w, s1). Inr (STRING w, s1))
         else guard (allow_non_string_keys opts) Runtime_Error (parseValue env opts fuel level s)) (\<lambda>(k, s1).
          res_bind (expect (CHR '':'') (ltrimWhitespace s1)) (\<lambda>s2.
            res_bind (parseValue env opts fuel level (ltrimWhitespace s2)) (\<lambda>(v, s3).
              res_bind (dynInsert (base env) ret k v) (\<lambda>ret1.
                let s4 = ltrimWhitespace s3
                in if startsChar (CHR '','') s4 then objectLoop env opts fuel level ret1 (ltrimWhitespace (tl s4))
                   else res_bind (expect (CHR ''}'') s4) (\<lambda>t. Inr (ret1, t)))))))"

definition parseJson :: "'d jenv \<Rightarrow> serialization_opts \<Rightarrow> string \<Rightarrow> 'd dynamic result" where
  "parseJson env opts s =
     res_bind (parseValue env opts (2 * length s + 1) 0 s) (\<lambda>(v, t).
       let t1 = ltrimWhitespace t
       in guard (t1 = [] \<or> hd t1 = CHR 0x00) Runtime_Error (Inr v))"

section \<open>Comments\<close>

datatype commentState = None_State | InString | InlineComment | LineComment

definition startsWith :: "string \<Rightarrow> string \<Rightarrow> bool" where
  "startsWith w s \<longleftrightarrow> take (length w) s = w"

function (sequential) stripLoop :: "commentState \<Rightarrow> string \<Rightarrow> string result" where
  "stripLoop st [] = Inr []"
| "stripLoop None_State (c # s) =
     (if startsWith ''/*'' (c # s) then stripLoop InlineComment (tl s)
      else if startsWith ''//'' (c # s) then stripLoop LineComment (tl s)
      else res_bind (stripLoop (if c = CHR 0x22 then InString else None_State) s) (\<lambda>out. Inr (c # out)))"
| "stripLoop InString (c # s) =
     (if c = CHR 0x5C
      then guard (s \<noteq> []) Logic_Error (res_bind (stripLoop InString (tl s)) (\<lambda>out. Inr (c # hd s # out)))
      else res_bind (stripLoop (if c = CHR 0x22 then None_State else InString) s) (\<lambda>out. Inr (c # out)))"
| "stripLoop InlineComment (c # s) =
     (if startsWith ''*/'' (c # s) then stripLoop None_State (tl s) else stripLoop InlineComment s)"
| "stripLoop LineComment (c # s) =
     (if c = CHR 0x0A then stripLoop None_State s else stripLoop LineComment s)"
  by pat_completeness auto
termination
  by (relation "measure (\<lambda>(st, s). length s)") auto

definition stripComments :: "string \<Rightarrow> string result" where
  "stripComments jsonC = stripLoop None_State jsonC"

section \<open>Shorthands\<close>

definition toJson :: "'d jenv \<Rightarrow> 'd dynamic \<Rightarrow> string result" where
  "toJson env v = serialize env defaultOpts v"

definition toPrettyJson :: "'d jenv \<Rightarrow> 'd dynamic \<Rightarrow> string result" where
  "toPrettyJson env v = serialize env (defaultOpts\<lparr>pretty_formatting := True\<rparr>) v"

definition print_as_pseudo_json :: "'d jenv \<Rightarrow> 'd dynamic \<Rightarrow> string result" where
  "print_as_pseudo_json env v = serialize env (defaultOpts\<lparr>allow_non_string_keys := True, allow_nan_inf := True\<rparr>) v"

definition PrintTo :: "'d jenv \<Rightarrow> 'd dynamic \<Rightarrow> string result" where
  "PrintTo env v = serialize env
     (defaultOpts\<lparr>allow_non_string_keys := True, allow_nan_inf := True, pretty_formatting := True, sort_keys := True\<rparr>) v"

definition jtoInteger :: "'d dops \<Rightarrow> bool \<Rightarrow> nat \<Rightarrow> 'd dynamic \<Rightarrow> int result" where
  "jtoInteger ops signed1 w j = res_bind (asInt ops j) (\<lambda>i. Inr (castTo (signed1, w) i))"

definition jsonGet :: "('d dynamic \<Rightarrow> 'a result) \<Rightarrow> 'd dops \<Rightarrow> 'd dynamic \<Rightarrow> string \<Rightarrow> 'd dynamic \<Rightarrow> 'a result" where
  "jsonGet jto ops j key dflt = res_bind (getDefault ops j (STRING key) dflt) jto"

fun jtoAll :: "('d dynamic \<Rightarrow> 'a result) \<Rightarrow> 'd dynamic list \<Rightarrow> 'a list result" where
  "jtoAll jto [] = Inr []"
| "jtoAll jto (i # is) = res_bind (jto i) (\<lambda>x. res_bind (jtoAll jto is) (\<lambda>xs. Inr (x # xs)))"

definition jsonGetArray :: "('d dynamic \<Rightarrow> 'a result) \<Rightarrow> 'd dops \<Rightarrow> string \<Rightarrow> 'd dynamic \<Rightarrow> string \<Rightarrow> 'a list result" where
  "jsonGetArray jto ops junk j key =
     res_bind (dynAt ops junk j (STRING key)) (\<lambda>a. res_bind (getArray a) (jtoAll jto))"

fun resolveLoop :: "'d dops \<Rightarrow> string \<Rightarrow> 'd dynamic \<Rightarrow> string list \<Rightarrow> 'd dynamic result" where
  "resolveLoop ops junk j [] = Inr j"
| "resolveLoop ops junk j (k # ks) = res_bind (dynAt ops junk j (STRING k)) (\<lambda>j1. resolveLoop ops junk j1 ks)"

definition resolve :: "'d dops \<Rightarrow> string \<Rightarrow> 'd dynamic \<Rightarrow> string \<Rightarrow> 'd dynamic result" where
  "resolve ops junk j path = res_bind (internalSplit (Chr (CHR ''.'')) path False) (resolveLoop ops junk j)"

text \<open>A path of keys without points is followed key by key.\<close>

lemma resolve_path:
  "ks \<noteq> [] \<Longrightarrow> \<forall>k \<in> set ks. CHR ''.'' \<notin> set k \<Longrightarrow> resolve ops junk j (joined ''.'' ks) = resolveLoop ops junk j ks"
  by (simp add: resolve_def internalSplit_spec kept_def delimText_def tokens_joined)

section \<open>The fuel is enough\<close>

lemma ltrim_shorter: "length (ltrimWhitespace s) \<le> length s"
  unfolding ltrimWhitespace_spec by (rule length_dropWhile_le)

lemma startsChar_tl: "startsChar c s \<Longrightarrow> length (tl s) < length s"
  by (cases s) (auto simp: startsChar_def)

lemma expect_shorter: "expect c s = Inr t \<Longrightarrow> length t < length s"
  by (auto simp: expect_def guard_eq_Inr dest: startsChar_tl)

lemma expect_fault: "expect c s \<noteq> Inl Diverges"
  by (simp add: expect_def guard_def)

lemma readHex_fault: "readHex s \<noteq> Inl Diverges"
  by (auto simp: readHex_def guard_def res_bind_eq_Inl hexVal_def Let_def split: if_splits)

lemma decodeUnicodeEscape_fault: "decodeUnicodeEscape s \<noteq> Inl Diverges"
  by (auto simp: decodeUnicodeEscape_def guard_def res_bind_eq_Inl readHex_fault split: if_splits option.splits)

lemma stringLoop_fault: "stringLoop ret s \<noteq> Inl Diverges"
proof (induction ret s rule: stringLoop.induct)
  case (1 ret s)
  show ?case
    by (subst stringLoop.simps)
      (use 1 decodeUnicodeEscape_fault in \<open>auto simp: Let_def split: list.split option.split sum.split\<close>)
qed

text \<open>The test for a null byte is never reached.\<close>

lemma only_special:
  assumes "\<not> startsChar (CHR 0x22) (dropWhile ordinary s)" "\<not> startsChar (CHR 0x5C) (dropWhile ordinary s)"
  shows "dropWhile ordinary s = []"
  using assms hd_dropWhile [of ordinary s] by (auto simp: startsChar_def ordinary_def)

lemma stringLoop_shorter: "stringLoop ret s = Inr (w, t) \<Longrightarrow> length t < length s"
proof (induction ret s arbitrary: w t rule: stringLoop.induct)
  case (1 ret s)
  have le: "length (dropWhile ordinary s) \<le> length s" by (rule length_dropWhile_le)
  note eq = "1.prems" [unfolded stringLoop.simps [of ret s] Let_def]
  show ?case
  proof (cases "startsChar (CHR 0x22) (dropWhile ordinary s)")
    case True
    then show ?thesis using eq le startsChar_tl [OF True] by simp
  next
    case q: False
    show ?thesis
    proof (cases "startsChar (CHR 0x5C) (dropWhile ordinary s)")
      case True
      then obtain c s2 where s1: "tl (dropWhile ordinary s) = c # s2"
        using eq q by (cases "tl (dropWhile ordinary s)") simp_all
      have "length s2 < length s" using s1 le startsChar_tl [OF True] by simp
      moreover have "length t < length s2"
      proof (cases "simpleEscape c")
        case (Some d)
        then show ?thesis using eq q True s1 "1.IH"(2) [OF refl refl q True s1 Some] by simp
      next
        case None
        then have c: "c = CHR ''u''" using eq q True s1 by (simp split: if_splits)
        obtain bs s3 where d: "decodeUnicodeEscape s2 = Inr (bs, s3)"
          using eq q True s1 None c by (cases "decodeUnicodeEscape s2") auto
        then show ?thesis
          using eq q True s1 None c "1.IH"(1) [OF refl refl q True s1 None c d refl] decodeUnicodeEscape_shorter [OF d]
          by simp
      qed
      ultimately show ?thesis by simp
    next
      case False
      then have "dropWhile ordinary s = []" by (rule only_special [OF q])
      then show ?thesis using eq by (simp add: startsChar_def del: dropWhile_eq_Nil_conv)
    qed
  qed
qed

lemma parseString_shorter: "parseString s = Inr (w, t) \<Longrightarrow> length t < length s"
  by (auto simp: parseString_def guard_eq_Inr dest!: stringLoop_shorter startsChar_tl)

lemma parseString_fault: "parseString s \<noteq> Inl Diverges"
  by (simp add: parseString_def guard_def stringLoop_fault)

lemma skipFraction_shorter: "length (snd (skipFraction s)) \<le> length s"
  using length_dropWhile_le [of isdigit "tl s"] by (auto simp: skipFraction_def dest: startsChar_tl)

lemma skipExponent_shorter: "length (snd (skipExponent s)) \<le> length s"
proof -
  have "length (dropWhile isdigit (drop n (tl s))) \<le> length s" for n
    using length_dropWhile_le [of isdigit "drop n (tl s)"] by simp
  then show ?thesis by (simp add: skipExponent_def Let_def)
qed

lemma skipMinusAndDigits_shorter:
  assumes "startsChar (CHR ''-'') s \<or> s \<noteq> [] \<and> isdigit (hd s)"
  shows "length (snd (skipMinusAndDigits s)) < length s"
proof -
  obtain c t where s: "s = c # t" using assms by (cases s) (auto simp: startsChar_def)
  show ?thesis using assms length_dropWhile_le [of isdigit t] by (auto simp: s skipMinusAndDigits_def startsChar_def)
qed

lemma consume_less: "consume w s = Some t \<Longrightarrow> w \<noteq> [] \<Longrightarrow> length t < length s"
  by (cases s; cases w) (auto simp: consume_def split: if_splits)

lemma parseNumber_shorter:
  assumes "startsChar (CHR ''-'') s \<or> s \<noteq> [] \<and> isdigit (hd s)" "parseNumber env opts s = Inr (v, t)"
  shows "length t < length s"
proof (cases "if startsChar (CHR ''-'') s then consume ''-Infinity'' s else None")
  case (Some s1)
  then have "t = s1" using assms(2) by (simp add: parseNumber_def Let_def)
  then show ?thesis using Some by (auto split: if_splits dest: consume_less)
next
  case None
  let ?s1 = "snd (skipMinusAndDigits s)" and ?s2 = "snd (skipFraction (snd (skipMinusAndDigits s)))"
  have "t \<in> {?s1, ltrimWhitespace ?s1, snd (skipExponent ?s2)}"
    using assms(2) None by (auto simp: parseNumber_def Let_def guard_eq_Inr res_bind_eq_Inr split: if_splits)
  then have "length t \<le> length ?s1"
    using skipFraction_shorter [of ?s1] skipExponent_shorter [of ?s2] by (auto intro: order_trans ltrim_shorter)
  then show ?thesis using skipMinusAndDigits_shorter [OF assms(1)] by simp
qed

lemma parseWord_shorter: "parseWord env opts s = Inr (v, t) \<Longrightarrow> length t < length s"
  by (auto simp: parseWord_def dest: consume_less split: option.splits)

text \<open>How a turn of the loops returns.\<close>

lemma arrayLoop_InrE:
  assumes "arrayLoop env opts (Suc fuel) level ret s = Inr (v, t)"
  obtains (closed) "expect (CHR '']'') s = Inr t" "v = ret"
  | (elem) u s1 ret1 where "parseValue env opts fuel level s = Inr (u, s1)" "pushBack ret u = Inr ret1"
      "startsChar (CHR '','') (ltrimWhitespace s1) \<and>
         arrayLoop env opts fuel level ret1 (ltrimWhitespace (tl (ltrimWhitespace s1))) = Inr (v, t) \<or>
       expect (CHR '']'') (ltrimWhitespace s1) = Inr t \<and> ret1 = v"
  using assms by (auto simp: res_bind_eq_Inr Let_def split: if_splits)

lemma objectLoop_InrE:
  assumes "objectLoop env opts (Suc fuel) level ret s = Inr (v, t)"
  obtains (closed) "expect (CHR ''}'') s = Inr t" "v = ret"
  | (item) k s1 s2 u s3 ret1 where
      "(\<exists>w. parseString s = Inr (w, s1) \<and> k = STRING w) \<or> parseValue env opts fuel level s = Inr (k, s1)"
      "expect (CHR '':'') (ltrimWhitespace s1) = Inr s2" "parseValue env opts fuel level (ltrimWhitespace s2) = Inr (u, s3)"
      "dynInsert (base env) ret k u = Inr ret1"
      "startsChar (CHR '','') (ltrimWhitespace s3) \<and>
         objectLoop env opts fuel level ret1 (ltrimWhitespace (tl (ltrimWhitespace s3))) = Inr (v, t) \<or>
       expect (CHR ''}'') (ltrimWhitespace s3) = Inr t \<and> ret1 = v"
proof (cases "allow_trailing_comma opts \<and> startsChar (CHR ''}'') s")
  case True
  then show ?thesis using assms closed by (auto simp: res_bind_eq_Inr)
next
  case False
  let ?m = "if startsChar (CHR 0x22) s then res_bind (parseString s) (\<lambda>(w, s1). Inr (STRING w, s1))
        else guard (allow_non_string_keys opts) Runtime_Error (parseValue env opts fuel level s)"
  note a = assms [unfolded objectLoop.simps if_not_P [OF False]]
  obtain k s1 where k: "?m = Inr (k, s1)" using a by (cases ?m) auto
  have key: "(\<exists>w. parseString s = Inr (w, s1) \<and> k = STRING w) \<or> parseValue env opts fuel level s = Inr (k, s1)"
    using k by (auto simp: res_bind_eq_Inr guard_eq_Inr split: if_splits)
  obtain s2 u s3 ret1 where "expect (CHR '':'') (ltrimWhitespace s1) = Inr s2"
    "parseValue env opts fuel level (ltrimWhitespace s2) = Inr (u, s3)" "dynInsert (base env) ret k u = Inr ret1"
    "startsChar (CHR '','') (ltrimWhitespace s3) \<and>
       objectLoop env opts fuel level ret1 (ltrimWhitespace (tl (ltrimWhitespace s3))) = Inr (v, t) \<or>
     expect (CHR ''}'') (ltrimWhitespace s3) = Inr t \<and> ret1 = v"
    using a unfolding k by (auto simp: res_bind_eq_Inr Let_def split: if_splits)
  then show ?thesis by (rule item [OF key])
qed

lemma ltrim_tl: "startsChar c (ltrimWhitespace s) \<Longrightarrow> length (ltrimWhitespace (tl (ltrimWhitespace s))) < length s"
  using startsChar_tl [of c "ltrimWhitespace s"] ltrim_shorter [of s] ltrim_shorter [of "tl (ltrimWhitespace s)"] by linarith

lemma parseValue_shorter:
  assumes "parseValue env opts (Suc fuel) level s = Inr (v, t)"
    and "\<And>ret s. arrayLoop env opts fuel (Suc level) ret s = Inr (v, t) \<or> objectLoop env opts fuel (Suc level) ret s = Inr (v, t) \<Longrightarrow>
      length t < length s"
  shows "length t < length s"
proof -
  let ?s1 = "ltrimWhitespace s"
  have "length t < length ?s1 \<or> (\<exists>c. startsChar c ?s1 \<and> length t < length (ltrimWhitespace (tl ?s1)))"
    using assms parseNumber_shorter [of ?s1 env opts v t] unfolding parseValue.simps Let_def guard_eq_Inr
    by (auto simp: res_bind_eq_Inr split: if_splits
        dest: parseString_shorter parseNumber_shorter parseWord_shorter startsChar_tl)
  then show ?thesis using ltrim_tl ltrim_shorter [of s] by (meson less_trans less_le_trans)
qed

lemma parse_shorter:
  "(parseValue env opts fuel level s = Inr (v, t) \<longrightarrow> length t < length s) \<and>
   (arrayLoop env opts fuel level ret s = Inr (v, t) \<longrightarrow> length t < length s) \<and>
   (objectLoop env opts fuel level ret s = Inr (v, t) \<longrightarrow> length t < length s)"
proof (induction fuel arbitrary: level ret s v t)
  case (Suc fuel)
  note pv = Suc [THEN conjunct1, rule_format] note al = Suc [THEN conjunct2, THEN conjunct1, rule_format]
  note ol = Suc [THEN conjunct2, THEN conjunct2, rule_format]
  have 1: "length t < length s" if "parseValue env opts (Suc fuel) level s = Inr (v, t)"
    by (rule parseValue_shorter [OF that]) (use al ol in blast)
  have 2: "length t < length s" if a: "arrayLoop env opts (Suc fuel) level ret s = Inr (v, t)"
    using a
  proof (cases rule: arrayLoop_InrE)
    case (elem u s1 ret1)
    then have "length t \<le> length s1" using ltrim_tl [of "CHR '',''" s1] ltrim_shorter [of s1] by (auto dest!: al expect_shorter)
    then show ?thesis using pv [OF elem(1)] by simp
  qed (rule expect_shorter)
  have 3: "length t < length s" if a: "objectLoop env opts (Suc fuel) level ret s = Inr (v, t)"
    using a
  proof (cases rule: objectLoop_InrE)
    case (item k s1 s2 u s3 ret1)
    have "length s1 < length s" using item(1) by (auto dest: parseString_shorter pv)
    moreover have "length t \<le> length s3"
      using item(5) ltrim_tl [of "CHR '',''" s3] ltrim_shorter [of s3] by (auto dest!: ol expect_shorter)
    ultimately show ?thesis
      using expect_shorter [OF item(2)] pv [OF item(3)] ltrim_shorter [of s1] ltrim_shorter [of s2] by linarith
  qed (rule expect_shorter)
  show ?case using 1 2 3 by blast
qed simp

lemma startsChar_hd: "startsChar c s \<Longrightarrow> s = c # tl s"
  by (cases s) (auto simp: startsChar_def)

lemma toIntegral_fault:
  assumes "list_all isdigit ds" "ds \<noteq> []" "sg \<in> {'''', ''-''}"
  shows "toIntegral True 64 (sg @ ds) \<noteq> Inl Diverges"
  using toIntegral_spec [of 64 sg True "[]" "[]" ds] assms by (auto simp: width_def split: if_splits)

lemma takeWhile_all: "list_all P (takeWhile P xs)"
  by (induction xs) auto

lemma parseNumber_fault:
  assumes s: "startsChar (CHR ''-'') s \<or> s \<noteq> [] \<and> isdigit (hd s)" and r: "\<And>w. dRead (base env) w \<noteq> Inl Diverges"
  shows "parseNumber env opts s \<noteq> Inl Diverges"
proof -
  have "toIntegral True 64 (fst (skipMinusAndDigits s)) \<noteq> Inl Diverges"
    if "startsChar (CHR ''-'') s \<longrightarrow> 2 \<le> length (fst (skipMinusAndDigits s))"
  proof (cases "startsChar (CHR ''-'') s")
    case True
    then have "takeWhile isdigit (tl s) \<noteq> []" using that by (auto simp: skipMinusAndDigits_def)
    then show ?thesis using True toIntegral_fault [OF takeWhile_all, of "tl s" "''-''"]
      by (simp add: skipMinusAndDigits_def)
  next
    case False
    then show ?thesis using s toIntegral_fault [OF takeWhile_all, of s "''''"]
      by (cases s) (auto simp: skipMinusAndDigits_def)
  qed
  then show ?thesis using r
    by (simp add: parseNumber_def Let_def guard_def res_bind_eq_Inl split: option.split)
qed

lemma parseWord_fault: "parseWord env opts s \<noteq> Inl Diverges"
  by (simp add: parseWord_def split: option.split)

lemma insert_fault: "dynInsert ops ret k v \<noteq> Inl Diverges" "pushBack ret v \<noteq> Inl Diverges"
  by (cases ret; cases k; simp add: dynInsert_def hashed_def pushBack_def)+

lemma bind_fault:
  "m \<noteq> Inl e \<Longrightarrow> (\<And>x. m = Inr x \<Longrightarrow> f x \<noteq> Inl e) \<Longrightarrow> res_bind m f \<noteq> Inl e"
  by (cases m) auto

lemmas value_shorter = parse_shorter [THEN conjunct1, rule_format]

lemma objectLoop_returns:
  assumes f: "2 * length s + 2 \<le> Suc fuel"
    and pv: "\<And>s1. length s1 \<le> length s \<Longrightarrow> parseValue env opts fuel level s1 \<noteq> Inl Diverges"
    and ol: "\<And>ret1 s1. length s1 < length s \<Longrightarrow> objectLoop env opts fuel level ret1 s1 \<noteq> Inl Diverges"
  shows "objectLoop env opts (Suc fuel) level ret s \<noteq> Inl Diverges"
proof (cases "allow_trailing_comma opts \<and> startsChar (CHR ''}'') s")
  case True
  then show ?thesis by (simp add: expect_fault res_bind_eq_Inl)
next
  case False
  let ?m = "if startsChar (CHR 0x22) s then res_bind (parseString s) (\<lambda>(w, s1). Inr (STRING w, s1))
        else guard (allow_non_string_keys opts) Runtime_Error (parseValue env opts fuel level s)"
  have m: "?m \<noteq> Inl Diverges" using pv [of s] by (simp add: parseString_fault guard_def res_bind_eq_Inl)
  have m1: "length s1 < length s" if "?m = Inr (k, s1)" for k s1
    using that by (cases "startsChar (CHR 0x22) s")
      (auto simp: res_bind_eq_Inr guard_eq_Inr dest: parseString_shorter value_shorter)
  have v: "parseValue env opts fuel level (ltrimWhitespace s2) \<noteq> Inl Diverges \<and> length (ltrimWhitespace s2) < length s"
    if "?m = Inr (k, s1)" "expect (CHR '':'') (ltrimWhitespace s1) = Inr s2" for k s1 s2
    using pv [of "ltrimWhitespace s2"] m1 [OF that(1)] expect_shorter [OF that(2)] ltrim_shorter [of s1] ltrim_shorter [of s2] by linarith
  have l: "objectLoop env opts fuel level ret1 (ltrimWhitespace (tl (ltrimWhitespace s3))) \<noteq> Inl Diverges"
    if "?m = Inr (k, s1)" "expect (CHR '':'') (ltrimWhitespace s1) = Inr s2"
      "parseValue env opts fuel level (ltrimWhitespace s2) = Inr (u, s3)" "startsChar (CHR '','') (ltrimWhitespace s3)" for k s1 s2 u s3 ret1
    using ltrim_tl [OF that(4)] v [OF that(1,2)] value_shorter [OF that(3)] by (intro ol) linarith
  show ?thesis unfolding objectLoop.simps if_not_P [OF False] Let_def
    by (rule bind_fault [OF m]) (use v l in \<open>clarsimp simp: expect_fault res_bind_eq_Inl insert_fault split: if_split_asm\<close>)
qed

lemma arrayLoop_returns:
  assumes pv: "parseValue env opts fuel level s \<noteq> Inl Diverges"
    and al: "\<And>ret1 s1. length s1 < length s \<Longrightarrow> arrayLoop env opts fuel level ret1 s1 \<noteq> Inl Diverges"
  shows "arrayLoop env opts (Suc fuel) level ret s \<noteq> Inl Diverges"
proof (cases "parseValue env opts fuel level s")
  case (Inl e)
  then show ?thesis using pv by (simp add: expect_fault res_bind_eq_Inl)
next
  case (Inr us)
  obtain u s1 where us: "us = (u, s1)" by (cases us)
  have "arrayLoop env opts fuel level ret1 (ltrimWhitespace (tl (ltrimWhitespace s1))) \<noteq> Inl Diverges"
    if "startsChar (CHR '','') (ltrimWhitespace s1)" for ret1
    using ltrim_tl [OF that] value_shorter Inr us by (intro al) (blast intro: less_trans)
  then show ?thesis using Inr us by (auto simp: expect_fault res_bind_eq_Inl insert_fault Let_def)
qed

lemma parse_returns:
  assumes r: "\<And>w. dRead (base env) w \<noteq> Inl Diverges"
  shows "(2 * length s + 1 \<le> fuel \<longrightarrow> parseValue env opts fuel level s \<noteq> Inl Diverges) \<and>
   (2 * length s + 2 \<le> fuel \<longrightarrow> arrayLoop env opts fuel level ret s \<noteq> Inl Diverges) \<and>
   (2 * length s + 2 \<le> fuel \<longrightarrow> objectLoop env opts fuel level ret s \<noteq> Inl Diverges)"
proof (induction fuel arbitrary: level ret s)
  case (Suc fuel)
  note pv = Suc [THEN conjunct1, rule_format] note al = Suc [THEN conjunct2, THEN conjunct1, rule_format]
  note ol = Suc [THEN conjunct2, THEN conjunct2, rule_format]
  have 1: "parseValue env opts (Suc fuel) level s \<noteq> Inl Diverges" if "2 * length s + 1 \<le> Suc fuel"
  proof -
    have t: "arrayLoop env opts fuel (Suc level) (ARRAY []) (ltrimWhitespace (tl (ltrimWhitespace s))) \<noteq> Inl Diverges"
      "objectLoop env opts fuel (Suc level) (OBJECT []) (ltrimWhitespace (tl (ltrimWhitespace s))) \<noteq> Inl Diverges"
      if "startsChar c (ltrimWhitespace s)" for c
      using ltrim_tl [OF that] \<open>2 * length s + 1 \<le> Suc fuel\<close> by (intro al ol; linarith)+
    show ?thesis unfolding parseValue.simps guard_def Let_def
      by (simp add: res_bind_eq_Inl parseString_fault parseNumber_fault [OF _ r] parseWord_fault t)
  qed
  have 2: "arrayLoop env opts (Suc fuel) level ret s \<noteq> Inl Diverges" if "2 * length s + 2 \<le> Suc fuel"
    by (rule arrayLoop_returns; rule pv al) (use that in linarith)+
  have 3: "objectLoop env opts (Suc fuel) level ret s \<noteq> Inl Diverges" if "2 * length s + 2 \<le> Suc fuel"
    by (rule objectLoop_returns [OF that]; rule pv ol) (use that in linarith)+
  show ?case using 1 2 3 by blast
qed simp

section \<open>Nesting is bounded\<close>

text \<open>How deep arrays and objects are nested; empty ones do not count.\<close>

function depth :: "'d dynamic \<Rightarrow> nat" where
  "depth v =
     (case v of
        ARRAY xs \<Rightarrow> foldr (\<lambda>x n. max (Suc (depth x)) n) xs 0
      | OBJECT kvs \<Rightarrow> foldr (\<lambda>(k, x) n. max (Suc (depth x)) n) kvs 0
      | _ \<Rightarrow> 0)"
  by pat_completeness auto
termination
  by (relation "measure size") (auto dest: size_elem size_item)

declare depth.simps [simp del]

lemma depth_elem: "x \<in> set xs \<Longrightarrow> depth x < depth (ARRAY xs)"
proof -
  have "x \<in> set xs \<Longrightarrow> depth x < foldr (\<lambda>x n. max (Suc (depth x)) n) xs 0"
    by (induction xs) auto
  then show "x \<in> set xs \<Longrightarrow> depth x < depth (ARRAY xs)" by (subst depth.simps) simp
qed

lemma depth_item: "(k, x) \<in> set kvs \<Longrightarrow> depth x < depth (OBJECT kvs)"
proof -
  have "(k, x) \<in> set kvs \<Longrightarrow> depth x < foldr (\<lambda>(k, x) n. max (Suc (depth x)) n) kvs 0"
    by (induction kvs) auto
  then show "(k, x) \<in> set kvs \<Longrightarrow> depth x < depth (OBJECT kvs)" by (subst depth.simps) simp
qed

lemma depth_le:
  "(\<And>x. x \<in> set xs \<Longrightarrow> depth x < m) \<Longrightarrow> depth (ARRAY xs) \<le> m"
  "(\<And>kx. kx \<in> set kvs \<Longrightarrow> depth (snd kx) < m) \<Longrightarrow> depth (OBJECT kvs) \<le> m"
proof -
  have "(\<And>x. x \<in> set xs \<Longrightarrow> depth x < m) \<Longrightarrow> foldr (\<lambda>x n. max (Suc (depth x)) n) xs 0 \<le> m"
    by (induction xs) (auto simp: Suc_le_eq)
  then show "(\<And>x. x \<in> set xs \<Longrightarrow> depth x < m) \<Longrightarrow> depth (ARRAY xs) \<le> m" by (subst depth.simps) simp
  have "(\<And>kx. kx \<in> set kvs \<Longrightarrow> depth (snd kx) < m) \<Longrightarrow> foldr (\<lambda>(k, x) n. max (Suc (depth x)) n) kvs 0 \<le> m"
    by (induction kvs) (auto simp: Suc_le_eq, blast)
  then show "(\<And>kx. kx \<in> set kvs \<Longrightarrow> depth (snd kx) < m) \<Longrightarrow> depth (OBJECT kvs) \<le> m" by (subst depth.simps) simp
qed

text \<open>The contents of an array or object are nested at most so deep.\<close>

fun within :: "nat \<Rightarrow> nat \<Rightarrow> 'd dynamic \<Rightarrow> bool" where
  "within limit level (ARRAY xs) = list_all (\<lambda>x. level + depth x \<le> limit) xs"
| "within limit level (OBJECT kvs) = list_all (\<lambda>kx. level + depth (snd kx) \<le> limit) kvs"
| "within limit level _ = False"

lemma within_depth: "within limit (Suc level) v \<Longrightarrow> level \<le> limit \<Longrightarrow> level + depth v \<le> limit"
  using depth_le(1) [of _ "limit - level"] depth_le(2) [of _ "limit - level"]
  by (cases v) (fastforce simp: list_all_iff)+

lemma within_push: "pushBack ret u = Inr ret1 \<Longrightarrow> within limit level ret \<Longrightarrow> level + depth u \<le> limit \<Longrightarrow> within limit level ret1"
  by (cases ret) (auto simp: pushBack_def)

lemma objPut_all: "list_all P (map snd kvs) \<Longrightarrow> P v \<Longrightarrow> list_all P (map snd (objPut ops kvs k v))"
  by (induction kvs) auto

lemma within_insert:
  assumes "dynInsert ops ret k u = Inr ret1" "within limit level ret" "level + depth u \<le> limit"
  shows "within limit level ret1"
proof -
  let ?P = "\<lambda>x. level + depth x \<le> limit"
  obtain kvs where r: "ret = OBJECT kvs" "ret1 = OBJECT (objAssign ops kvs k u)"
    using assms(1) by (cases ret) (auto simp: dynInsert_def hashed_def res_bind_eq_Inr)
  have "list_all ?P (map snd kvs)" using assms(2) by (simp add: r list.pred_map comp_def)
  then have "list_all ?P (map snd (objAssign ops kvs k u))"
    using objPut_all [of ?P kvs u ops k] assms(3) by (simp add: objAssign_def objInsert_def)
  then show ?thesis by (simp add: r list.pred_map comp_def)
qed

lemma depth_flat: "(\<And>xs. w \<noteq> ARRAY xs) \<Longrightarrow> (\<And>kvs. w \<noteq> OBJECT kvs) \<Longrightarrow> depth w = 0"
  by (subst depth.simps) (cases w; auto)

lemma scalars_flat:
  "parseNumber env opts s = Inr (w, t) \<Longrightarrow> depth w = 0" "parseWord env opts s = Inr (w, t) \<Longrightarrow> depth w = 0" "depth (STRING u) = 0"
  by (rule depth_flat; auto simp: parseNumber_def parseWord_def pushed_def Let_def guard_eq_Inr res_bind_eq_Inr
      split: if_splits option.splits)+

lemma parse_depth:
  "(parseValue env opts fuel level s = Inr (v, t) \<longrightarrow> level + depth v \<le> recursion_limit opts) \<and>
   (arrayLoop env opts fuel level ret s = Inr (v, t) \<longrightarrow> within (recursion_limit opts) level ret \<longrightarrow> within (recursion_limit opts) level v) \<and>
   (objectLoop env opts fuel level ret s = Inr (v, t) \<longrightarrow> within (recursion_limit opts) level ret \<longrightarrow> within (recursion_limit opts) level v)"
proof (induction fuel arbitrary: level ret s v t)
  case (Suc fuel)
  note pv = Suc [THEN conjunct1, rule_format] note al = Suc [THEN conjunct2, THEN conjunct1, rule_format]
  note ol = Suc [THEN conjunct2, THEN conjunct2, rule_format]
  have 1: "level + depth v \<le> recursion_limit opts" if p: "parseValue env opts (Suc fuel) level s = Inr (v, t)"
  proof -
    have l: "level \<le> recursion_limit opts" using p by (simp add: guard_eq_Inr)
    have e: "within (recursion_limit opts) (Suc level) (ARRAY [])" "within (recursion_limit opts) (Suc level) (OBJECT [])" by simp_all
    have "within (recursion_limit opts) (Suc level) v \<or> depth v = 0"
      using p unfolding parseValue.simps Let_def guard_eq_Inr
      by (auto simp: res_bind_eq_Inr scalars_flat(3) depth_flat split: if_splits
          dest: al [OF _ e(1)] ol [OF _ e(2)] scalars_flat(1,2))
    then show ?thesis using l within_depth by auto
  qed
  have 2: "within (recursion_limit opts) level v"
    if a: "arrayLoop env opts (Suc fuel) level ret s = Inr (v, t)" and w: "within (recursion_limit opts) level ret"
    using a
  proof (cases rule: arrayLoop_InrE)
    case (elem u s1 ret1)
    have "within (recursion_limit opts) level ret1" by (rule within_push [OF elem(2) w pv [OF elem(1)]])
    then show ?thesis using elem(3) al by blast
  qed (use w in simp)
  have 3: "within (recursion_limit opts) level v"
    if a: "objectLoop env opts (Suc fuel) level ret s = Inr (v, t)" and w: "within (recursion_limit opts) level ret"
    using a
  proof (cases rule: objectLoop_InrE)
    case (item k s1 s2 u s3 ret1)
    have "within (recursion_limit opts) level ret1" by (rule within_insert [OF item(4) w pv [OF item(3)]])
    then show ?thesis using item(5) ol by blast
  qed (use w in simp)
  show ?case using 1 2 3 by blast
qed simp

text \<open>
  C19: \<^verbatim>\<open>parseJson\<close> ends on every text, with a value or an exception, and the arrays and objects
  of a value it accepts are nested no deeper than \<^verbatim>\<open>recursion_limit\<close>; reading a floating
  point number is assumed to end.
\<close>

theorem parse_bounded:
  assumes "\<And>w. dRead (base env) w \<noteq> Inl Diverges"
  shows "parseJson env opts s \<noteq> Inl Diverges \<and> (\<forall>v. parseJson env opts s = Inr v \<longrightarrow> depth v \<le> recursion_limit opts)"
proof -
  have "parseValue env opts (2 * length s + 1) 0 s \<noteq> Inl Diverges"
    by (rule parse_returns [OF assms, THEN conjunct1, rule_format]) simp
  then have "parseJson env opts s \<noteq> Inl Diverges"
    unfolding parseJson_def by (rule bind_fault) (simp add: Let_def guard_def split: prod.split del: parseValue.simps)
  moreover have "depth v \<le> recursion_limit opts" if p: "parseJson env opts s = Inr v" for v
  proof -
    obtain t where "parseValue env opts (2 * length s + 1) 0 s = Inr (v, t)"
      using p by (auto simp: parseJson_def res_bind_eq_Inr Let_def guard_eq_Inr simp del: parseValue.simps)
    then show ?thesis using parse_depth [of env opts "2 * length s + 1" 0 s v t, THEN conjunct1] by simp
  qed
  ultimately show ?thesis by blast
qed

theorem parse_bounded_witness:
  "parseJson unitEnv defaultOpts ''[[], true ]'' = Inr (ARRAY [ARRAY [], BOOL True]) \<and>
     depth (ARRAY [ARRAY [], BOOL True :: unit dynamic]) \<le> 100"
proof -
  have p: "parseJson unitEnv defaultOpts ''[[], true ]'' = Inr (ARRAY [ARRAY [], BOOL True])"
    by (simp add: parseJson_def defaultOpts_def ltrimWhitespace_spec white_def is_oddspace_def startsChar_def isdigit_def
        parseWord_def consume_def pushBack_def expect_def eval_nat_numeral)
  have "depth (ARRAY [ARRAY [], BOOL True :: unit dynamic]) \<le> recursion_limit defaultOpts"
    using parse_bounded [of unitEnv defaultOpts "''[[], true ]''"] p by (simp add: unitEnv_def unitOps_def)
  then show ?thesis using p by (simp add: defaultOpts_def)
qed

section \<open>Texts without comments\<close>

text \<open>A text that \<^verbatim>\<open>stripComments\<close> copies, outside a string and inside of one.\<close>

definition neutral :: "string \<Rightarrow> bool" where
  "neutral t \<longleftrightarrow> (\<forall>rest. stripLoop None_State (t @ rest) = res_bind (stripLoop None_State rest) (\<lambda>out. Inr (t @ out)))"

definition inside :: "string \<Rightarrow> bool" where
  "inside t \<longleftrightarrow> (\<forall>rest. stripLoop InString (t @ rest) = res_bind (stripLoop InString rest) (\<lambda>out. Inr (t @ out)))"

lemma neutral_append: "neutral s \<Longrightarrow> neutral t \<Longrightarrow> neutral (s @ t)"
  by (simp add: neutral_def res_bind_assoc)

lemma inside_append: "inside s \<Longrightarrow> inside t \<Longrightarrow> inside (s @ t)"
  by (simp add: inside_def res_bind_assoc)

lemma res_bind_same: "res_bind m Inr = m"
  by (cases m) simp_all

lemma neutral_Nil [simp]: "neutral []" "inside []"
  by (simp_all add: neutral_def inside_def res_bind_same)

lemma neutral_chars: "list_all (\<lambda>c. c \<noteq> CHR ''/'' \<and> c \<noteq> CHR 0x22) t \<Longrightarrow> neutral t"
proof (induction t)
  case (Cons c t)
  then have "neutral [c]" by (auto simp: neutral_def startsWith_def)
  then show ?case using Cons neutral_append [of "[c]" t] by simp
qed simp

lemma inside_chars: "list_all ordinary t \<Longrightarrow> inside t"
proof (induction t)
  case (Cons c t)
  then have "inside [c]" by (auto simp: inside_def ordinary_def)
  then show ?case using Cons inside_append [of "[c]" t] by simp
qed simp

lemma inside_escape: "inside t \<Longrightarrow> inside (CHR 0x5C # c # t)"
  by (simp add: inside_def res_bind_assoc)

lemma neutral_string: "inside t \<Longrightarrow> neutral (CHR 0x22 # t @ [CHR 0x22])"
  by (auto simp: neutral_def inside_def startsWith_def res_bind_assoc)

lemma neutral_strips: "neutral t \<Longrightarrow> stripComments t = Inr t"
  unfolding neutral_def stripComments_def by (metis append_Nil2 res_bind_Inr stripLoop.simps(1))

section \<open>Strings survive\<close>

lemma hexDigit_val: "n < 16 \<Longrightarrow> hexVal (hexDigit n) = Inr n"
  by (auto simp: hexVal_def hexDigit_def Let_def of_char_of)

lemma charOf_code: "n < 128 \<Longrightarrow> map charOf (codePointToUtf8 (of_nat n)) = [char_of n]"
proof -
  assume "n < 128"
  then have "unat (of_nat n :: 32 word) = n" by (simp add: unat_of_nat take_bit_nat_eq_self)
  then have "map unat (codePointToUtf8 (of_nat n)) = [n]" using encoded_bytes(1) [of "of_nat n"] \<open>n < 128\<close> by simp
  then have "map char_of (map unat (codePointToUtf8 (of_nat n))) = [char_of n]" by simp
  then show ?thesis by (simp add: charOf_def [abs_def] comp_def)
qed

lemma read_control:
  assumes "n < 32"
  shows "decodeUnicodeEscape ([CHR ''0'', CHR ''0'', hexDigit (n div 16), hexDigit (n mod 16)] @ rest) = Inr ([char_of n], rest)"
proof -
  have h: "hexVal (CHR ''0'') = Inr 0" by (simp add: hexVal_def)
  have d: "hexVal (hexDigit (n div 16)) = Inr (n div 16)" "hexVal (hexDigit (n mod 16)) = Inr (n mod 16)"
    using assms by (auto intro!: hexDigit_val)
  have "readHex ([CHR ''0'', CHR ''0'', hexDigit (n div 16), hexDigit (n mod 16)] @ rest) = Inr (n, rest)"
    by (simp add: readHex_def h d nth_Cons' )
  then show ?thesis using assms charOf_code [of n] by (simp add: decodeUnicodeEscape_def)
qed

definition escapeText :: "string \<Rightarrow> string" where
  "escapeText s = concat (map escapeByte s)"

lemma stringLoop_plain:
  "ordinary c \<Longrightarrow> stringLoop ret (c # s) = stringLoop (ret @ [c]) s"
  by (subst (1 2) stringLoop.simps) simp

lemma stringLoop_escape:
  "simpleEscape c = Some d \<Longrightarrow> stringLoop ret (CHR 0x5C # c # s) = stringLoop (ret @ [d]) s"
  by (subst stringLoop.simps) (simp add: ordinary_def startsChar_def)

lemma stringLoop_unicode:
  "decodeUnicodeEscape s = Inr (bs, t) \<Longrightarrow> stringLoop ret (CHR 0x5C # CHR ''u'' # s) = stringLoop (ret @ bs) t"
  by (subst stringLoop.simps) (simp add: ordinary_def startsChar_def simpleEscape_def)

lemma stringLoop_quote: "stringLoop ret (CHR 0x22 # s) = Inr (ret, s)"
  by (subst stringLoop.simps) (simp add: ordinary_def startsChar_def)

lemma control_chars:
  "(of_char c :: nat) = 8 \<longleftrightarrow> c = CHR 0x08" "(of_char c :: nat) = 12 \<longleftrightarrow> c = CHR 0x0C"
  "(of_char c :: nat) = 10 \<longleftrightarrow> c = CHR 0x0A" "(of_char c :: nat) = 13 \<longleftrightarrow> c = CHR 0x0D"
  "(of_char c :: nat) = 9 \<longleftrightarrow> c = CHR 0x09"
  using of_char_eq_iff [of c "CHR 0x08", where ?'a = nat] of_char_eq_iff [of c "CHR 0x0C", where ?'a = nat]
    of_char_eq_iff [of c "CHR 0x0A", where ?'a = nat] of_char_eq_iff [of c "CHR 0x0D", where ?'a = nat]
    of_char_eq_iff [of c "CHR 0x09", where ?'a = nat] by simp_all

lemma stringLoop_byte: "stringLoop ret (escapeByte c @ s) = stringLoop (ret @ [c]) s"
proof (cases "c = CHR 0x5C \<or> c = CHR 0x22")
  case True
  then show ?thesis by (auto simp: escapeByte_def Let_def intro!: stringLoop_escape simp: simpleEscape_def)
next
  case q: False
  show ?thesis
  proof (cases "(of_char c :: nat) \<le> 31")
    case False
    then show ?thesis using q by (simp add: escapeByte_def Let_def stringLoop_plain ordinary_def)
  next
    case True
    have u: "stringLoop ret ([CHR 0x5C, CHR ''u'', CHR ''0'', CHR ''0'', hexDigit (of_char c div 16), hexDigit (of_char c mod 16)] @ s) =
        stringLoop (ret @ [c]) s"
      using stringLoop_unicode [OF read_control [of "of_char c" s], of ret] True by simp
    note e = stringLoop_escape [of "CHR ''b''" "CHR 0x08" ret s] stringLoop_escape [of "CHR ''f''" "CHR 0x0C" ret s]
      stringLoop_escape [of "CHR ''n''" "CHR 0x0A" ret s] stringLoop_escape [of "CHR ''r''" "CHR 0x0D" ret s]
      stringLoop_escape [of "CHR ''t''" "CHR 0x09" ret s]
    show ?thesis
    proof (cases "c \<in> {CHR 0x08, CHR 0x0C, CHR 0x0A, CHR 0x0D, CHR 0x09}")
      case True
      then show ?thesis using e by (auto simp: escapeByte_def simpleEscape_def)
    next
      case False
      then show ?thesis using q \<open>of_char c \<le> 31\<close> u by (simp add: escapeByte_def Let_def control_chars)
    qed
  qed
qed

text \<open>Texts of code points of the basic plane, and what is printed for one of them.\<close>

definition bmp :: "32 word \<Rightarrow> bool" where
  "bmp cp \<longleftrightarrow> unat cp < 0x10000 \<and> \<not> (0xD800 \<le> unat cp \<and> unat cp \<le> 0xDFFF)"

definition utf8 :: "32 word \<Rightarrow> string" where
  "utf8 cp = map charOf (codePointToUtf8 cp)"

definition jsonPoint :: "serialization_opts \<Rightarrow> 32 word \<Rightarrow> string" where
  "jsonPoint opts cp = (if encode_non_ascii opts \<and> 128 \<le> unat cp then escapeCode cp else escapeText (utf8 cp))"

lemma byteOf_charOf [simp]: "byteOf (charOf w) = w"
proof -
  have "unat w < 2 ^ LENGTH(8)" by (rule unsigned_less)
  then show ?thesis by (simp add: byteOf_def charOf_def of_char_of)
qed

lemma charOf_val: "(of_char (charOf w) :: nat) = unat w"
proof -
  have "unat w < 2 ^ LENGTH(8)" by (rule unsigned_less)
  then show ?thesis by (simp add: charOf_def of_char_of)
qed

lemma decode_utf8:
  assumes "bmp cp"
  shows "decodeUtf8 sk (utf8 cp @ s) = Inr (cp, length (utf8 cp))"
  using assms safe_decodes [of cp sk "map byteOf s"] by (simp add: decodeUtf8_def utf8_def bmp_def comp_def)

lemma utf8_first:
  assumes "bmp cp"
  shows "utf8 cp \<noteq> []" "(of_char (hd (utf8 cp)) :: nat) \<ge> 128 \<longleftrightarrow> 128 \<le> unat cp" "unat cp < 128 \<Longrightarrow> length (utf8 cp) = 1"
proof -
  have "unat cp < 0x110000" using assms by (simp add: bmp_def)
  then have "utf8 cp \<noteq> [] \<and> ((of_char (hd (utf8 cp)) :: nat) \<ge> 128 \<longleftrightarrow> 128 \<le> unat cp) \<and>
      (unat cp < 128 \<longrightarrow> length (utf8 cp) = 1)"
    by (cases cp rule: code_point_cases) (simp_all add: utf8_def charOf_val)
  then show "utf8 cp \<noteq> []" "(of_char (hd (utf8 cp)) :: nat) \<ge> 128 \<longleftrightarrow> 128 \<le> unat cp" "unat cp < 128 \<Longrightarrow> length (utf8 cp) = 1"
    by blast+
qed

lemma hex_digits:
  fixes n :: nat
  assumes "n < 0x10000"
  shows "n div 4096 * 4096 + n div 256 mod 16 * 256 + n div 16 mod 16 * 16 + n mod 16 = n" "n div 4096 < 16"
proof -
  have d: "n div 256 = n div 16 div 16" "n div 4096 = n div 16 div 16 div 16" by (simp_all add: div_mult2_eq)
  show "n div 4096 * 4096 + n div 256 mod 16 * 256 + n div 16 mod 16 * 16 + n mod 16 = n"
    using div_mult_mod_eq [of n 16] div_mult_mod_eq [of "n div 16" 16] div_mult_mod_eq [of "n div 16 div 16" 16]
    unfolding d by linarith
  show "n div 4096 < 16" using assms by (simp add: less_mult_imp_div_less)
qed

lemma escapeCode_read:
  assumes "bmp cp"
  shows "stringLoop ret (escapeCode cp @ s) = stringLoop (ret @ utf8 cp) s"
proof -
  let ?n = "unat cp"
  have n: "?n < 0x10000" using assms by (simp add: bmp_def)
  have low: "x AND 15 = x mod 16" for x :: nat using and_low [of x 4] by simp
  have e: "escapeCode cp = [CHR 0x5C, CHR ''u'', hexDigit (?n div 4096), hexDigit (?n div 256 mod 16),
      hexDigit (?n div 16 mod 16), hexDigit (?n mod 16)]"
    by (simp add: escapeCode_def unat_bits low)
  have h: "hexVal (hexDigit (?n div 4096)) = Inr (?n div 4096)" "hexVal (hexDigit (k mod 16)) = Inr (k mod 16)" for k
    using hex_digits(2) [OF n] by (auto intro!: hexDigit_val)
  have "readHex (drop 2 (escapeCode cp) @ s) = Inr (?n, s)"
    unfolding e using hex_digits(1) [OF n] by (simp add: readHex_def h)
  then have "decodeUnicodeEscape (drop 2 (escapeCode cp) @ s) = Inr (utf8 cp, s)"
    using assms by (auto simp: decodeUnicodeEscape_def bmp_def utf8_def)
  from stringLoop_unicode [OF this, of ret] show ?thesis by (simp add: e)
qed

lemma escapeLoop_ahead:
  assumes "\<not> encode_non_ascii opts" "escapeLoop opts 0 s = Inr t"
  shows "escapeLoop opts (length bs) (bs @ s) = Inr (escapeText bs @ t)"
  using assms(2) by (induction bs) (simp_all add: escapeText_def, subst escapeLoop.simps, simp add: assms(1))

lemma escapeLoop_copied:
  "\<not> validates opts \<Longrightarrow> \<not> encode_non_ascii opts \<Longrightarrow> escapeLoop opts n s = Inr (escapeText s)"
  by (induction s arbitrary: n) (subst escapeLoop.simps, simp add: escapeText_def)+

lemma escapeByte_high: "128 \<le> unat w \<Longrightarrow> escapeByte (charOf w) = [charOf w]"
  using charOf_val [of w] by (auto simp: escapeByte_def Let_def)

lemma escapeLoop_unit:
  assumes "bmp cp" "escapeLoop opts 0 s = Inr t"
  shows "escapeLoop opts 0 (utf8 cp @ s) = Inr (jsonPoint opts cp @ t)"
proof -
  obtain b bs where u: "utf8 cp = b # bs" using utf8_first(1) [OF assms(1)] by (cases "utf8 cp") auto
  note d = decode_utf8 [OF assms(1), of _ s, unfolded u, simplified]
  show ?thesis
  proof (cases "encode_non_ascii opts")
    case True
    show ?thesis
    proof (cases "128 \<le> unat cp")
      case True
      then show ?thesis using \<open>encode_non_ascii opts\<close> assms(2) d utf8_first(2) [OF assms(1)]
        by (subst escapeLoop.simps) (simp add: u validates_def jsonPoint_def)
    next
      case False
      then have "bs = []" "\<not> (of_char b :: nat) \<ge> 128" using utf8_first(2,3) [OF assms(1)] u by auto
      then show ?thesis using \<open>encode_non_ascii opts\<close> assms(2) False
        by (subst escapeLoop.simps) (simp add: u validates_def jsonPoint_def escapeText_def)
    qed
  next
    case False
    note rest = escapeLoop_ahead [OF False assms(2), of bs]
    have p: "jsonPoint opts cp = escapeByte b @ escapeText bs" using False by (simp add: jsonPoint_def u escapeText_def)
    show ?thesis
    proof (cases "validates opts")
      case True
      show ?thesis
      proof (cases "skip_invalid_utf8 opts \<and> cp = 0xfffd")
        case True
        have "codePointToUtf8 0xfffd = [0xEF, 0xBF, 0xBD]" by code_simp
        then have b: "utf8 cp = [charOf 0xEF, charOf 0xBF, charOf 0xBD]" using True by (simp add: utf8_def)
        moreover have "jsonPoint opts cp = [charOf 0xEF, charOf 0xBF, charOf 0xBD]"
          using \<open>\<not> encode_non_ascii opts\<close> by (simp add: jsonPoint_def b escapeText_def escapeByte_high)
        ultimately have "jsonPoint opts cp @ t = map charOf [0xEF, 0xBF, 0xBD] @ t" by simp
        then show ?thesis using True \<open>validates opts\<close> assms(2) d
          unfolding u append_Cons by (subst escapeLoop.simps) simp
      next
        case False
        then show ?thesis using \<open>validates opts\<close> d rest
          by (subst escapeLoop.simps) (auto simp: u p)
      qed
    next
      case False
      then show ?thesis using assms(2) \<open>\<not> encode_non_ascii opts\<close>
        by (simp add: escapeLoop_copied jsonPoint_def escapeText_def)
    qed
  qed
qed

lemma hexDigit_ordinary: "n < 16 \<Longrightarrow> ordinary (hexDigit n)"
  using hexDigit_val [of n] by (auto simp: ordinary_def hexVal_def)

lemma inside_byte: "inside (escapeByte c)"
proof (cases "(of_char c :: nat) \<le> 31 \<or> c = CHR 0x5C \<or> c = CHR 0x22")
  case True
  then have "\<exists>d t. escapeByte c = CHR 0x5C # d # t \<and> list_all ordinary t"
    by (auto simp: escapeByte_def Let_def hexDigit_ordinary) (simp_all add: ordinary_def)
  then show ?thesis using inside_escape inside_chars by metis
next
  case False
  then show ?thesis by (auto simp: escapeByte_def Let_def ordinary_def intro: inside_chars)
qed

lemma inside_text: "inside (escapeText s)"
  by (induction s) (simp_all add: escapeText_def inside_byte inside_append)

lemma inside_point: "bmp cp \<Longrightarrow> inside (jsonPoint opts cp)"
proof -
  assume "bmp cp"
  have low: "x AND 15 = x mod 16" for x :: nat using and_low [of x 4] by simp
  have "unat cp < 0x10000" using \<open>bmp cp\<close> by (simp add: bmp_def)
  then have "list_all ordinary (drop 2 (escapeCode cp))"
    by (simp add: escapeCode_def unat_bits low hexDigit_ordinary less_mult_imp_div_less)
  then have "inside (escapeCode cp)" using inside_escape [OF inside_chars] by (simp add: escapeCode_def)
  then show ?thesis by (simp add: jsonPoint_def inside_text)
qed

text \<open>Strings that are printed and read back.\<close>

definition plainText :: "serialization_opts \<Rightarrow> string \<Rightarrow> bool" where
  "plainText opts s \<longleftrightarrow>
     \<not> validates opts \<and> \<not> encode_non_ascii opts \<or> (\<exists>cps. list_all bmp cps \<and> s = concat (map utf8 cps))"

lemma stringLoop_text: "stringLoop ret (escapeText s @ t) = stringLoop (ret @ s) t"
  by (induction s arbitrary: ret) (simp_all add: escapeText_def stringLoop_byte)

lemma stringLoop_point: "bmp cp \<Longrightarrow> stringLoop ret (jsonPoint opts cp @ s) = stringLoop (ret @ utf8 cp) s"
  by (simp add: jsonPoint_def escapeCode_read stringLoop_text)

lemma string_round_trip:
  assumes "plainText opts s"
  obtains t where "escapeString opts s = Inr ([CHR 0x22] @ t)" "\<And>rest. parseString ([CHR 0x22] @ t @ rest) = Inr (s, rest)"
    "neutral ([CHR 0x22] @ t)"
proof -
  have "\<exists>t. escapeLoop opts 0 s = Inr t \<and> inside t \<and> (\<forall>ret rest. stringLoop ret (t @ rest) = stringLoop (ret @ s) rest)"
  proof (cases "\<not> validates opts \<and> \<not> encode_non_ascii opts")
    case True
    then show ?thesis by (auto simp: escapeLoop_copied stringLoop_text inside_text)
  next
    case False
    then obtain cps where c: "list_all bmp cps" "s = concat (map utf8 cps)" using assms by (auto simp: plainText_def)
    have "\<exists>t. escapeLoop opts 0 (concat (map utf8 cps)) = Inr t \<and> inside t \<and>
        (\<forall>ret rest. stringLoop ret (t @ rest) = stringLoop (ret @ concat (map utf8 cps)) rest)" using c(1)
    proof (induction cps)
      case (Cons cp cps)
      then obtain t where "escapeLoop opts 0 (concat (map utf8 cps)) = Inr t" "inside t"
        "\<And>ret rest. stringLoop ret (t @ rest) = stringLoop (ret @ concat (map utf8 cps)) rest" by auto
      then show ?case using Cons.prems escapeLoop_unit [of cp opts] by (auto simp: stringLoop_point inside_append inside_point)
    qed (simp add: escapeLoop.simps)
    then show ?thesis using c(2) by simp
  qed
  then obtain t where t: "escapeLoop opts 0 s = Inr t" "inside t" "\<And>ret rest. stringLoop ret (t @ rest) = stringLoop (ret @ s) rest" by blast
  show ?thesis
    by (rule that [of "t @ [CHR 0x22]"]) (simp_all add: escapeString_def t parseString_def startsChar_def stringLoop_quote neutral_string)
qed

section \<open>Values survive\<close>

text \<open>
  A text that is read as the value, whatever follows it that does not continue a
  number, and that has no comments.
\<close>

definition delim :: "string \<Rightarrow> bool" where
  "delim s \<longleftrightarrow> s = [] \<or> \<not> isdigit (hd s) \<and> hd s \<notin> {CHR ''.'', CHR ''e'', CHR ''E''}"

definition readsAs :: "'d jenv \<Rightarrow> serialization_opts \<Rightarrow> 'd dynamic \<Rightarrow> string \<Rightarrow> bool" where
  "readsAs env opts v t \<longleftrightarrow>
     t \<noteq> [] \<and> \<not> white (hd t) \<and> hd t \<notin> {CHR '']'', CHR ''}''} \<and> neutral t \<and>
     (\<forall>fuel level rest. 2 * length t + 1 \<le> fuel \<longrightarrow> level + depth v \<le> recursion_limit opts \<longrightarrow> delim rest \<longrightarrow>
        (\<exists>r. parseValue env opts fuel level (t @ rest) = Inr (v, r) \<and> ltrimWhitespace r = ltrimWhitespace rest))"

lemma joined_Cons [simp]: "joined sep (t # ts) = t @ (if ts = [] then [] else sep @ joined sep ts)"
  by (cases ts) simp_all

declare joined.simps(2,3) [simp del]

lemma neutral_joined: "list_all neutral ts \<Longrightarrow> neutral sep \<Longrightarrow> neutral (joined sep ts)"
  by (induction ts) (auto intro!: neutral_append)

lemma neutral_white: "list_all white w \<Longrightarrow> neutral w"
  by (rule neutral_chars, erule list.pred_mono_strong) (auto simp: white_def is_oddspace_def)

lemma neutral_sep: "list_all white w \<Longrightarrow> neutral ('','' @ w)"
  by (intro neutral_append neutral_white neutral_chars) simp_all

lemma ltrim_white: "list_all white w \<Longrightarrow> ltrimWhitespace (w @ s) = ltrimWhitespace s"
  by (induction w) (auto simp: ltrimWhitespace_spec)

lemma ltrim_hd: "s \<noteq> [] \<Longrightarrow> \<not> white (hd s) \<Longrightarrow> ltrimWhitespace s = s"
  by (cases s) (auto simp: ltrimWhitespace_spec)

lemma ltrim_Cons: "\<not> white c \<Longrightarrow> ltrimWhitespace (c # s) = c # s"
  by (simp add: ltrimWhitespace_spec)

lemma not_white: "\<not> white (CHR ''['')" "\<not> white (CHR '']'')" "\<not> white (CHR ''{'')" "\<not> white (CHR ''}'')"
  "\<not> white (CHR '','')" "\<not> white (CHR '':'')" "\<not> white (CHR 0x22)"
  by (simp_all add: white_def is_oddspace_def)

lemma delim_white: "white c \<Longrightarrow> delim (c # s)"
  by (auto simp: delim_def white_def is_oddspace_def isdigit_def)

lemma delim_close: "list_all white w \<Longrightarrow> c \<in> {CHR '']'', CHR ''}'', CHR '',''} \<Longrightarrow> delim (w @ c # s)"
  by (cases w) (auto simp: delim_white, auto simp: delim_def isdigit_def)

lemma readsAs_value:
  assumes "readsAs env opts v t" "2 * length t + 1 \<le> fuel" "level + depth v \<le> recursion_limit opts" "delim rest"
  obtains r where "parseValue env opts fuel level (t @ rest) = Inr (v, r)" "ltrimWhitespace r = ltrimWhitespace rest"
  using assms unfolding readsAs_def by blast

lemma arrayLoop_reads:
  assumes "list_all2 (readsAs env opts) xs ts" "xs \<noteq> []" "list_all white w" "list_all white w'"
    "2 * length (joined ('','' @ w) ts) + 2 \<le> fuel" "\<And>x. x \<in> set xs \<Longrightarrow> level + depth x \<le> recursion_limit opts"
  shows "arrayLoop env opts fuel level (ARRAY acc) (joined ('','' @ w) ts @ w' @ '']'' @ rest) = Inr (ARRAY (acc @ xs), rest)"
  using assms
proof (induction xs arbitrary: ts fuel acc)
  case (Cons x xs)
  then obtain t ts1 fuel1 where ts: "ts = t # ts1" and r: "readsAs env opts x t" "list_all2 (readsAs env opts) xs ts1"
    and f: "fuel = Suc fuel1" by (cases ts; cases fuel) auto
  define tail1 where "tail1 = (if ts1 = [] then w' @ '']'' @ rest else '','' @ w @ joined ('','' @ w) ts1 @ w' @ '']'' @ rest)"
  have tx: "joined ('','' @ w) ts @ w' @ '']'' @ rest = t @ tail1" by (simp add: ts tail1_def)
  have dl: "delim tail1" using delim_close [OF Cons.prems(4), of "CHR '']''" rest] by (simp add: tail1_def delim_def isdigit_def)
  have hd: "t \<noteq> []" "hd t \<noteq> CHR '']''" using r(1) by (simp_all add: readsAs_def)
  obtain s1 where p: "parseValue env opts fuel1 level (t @ tail1) = Inr (x, s1)" "ltrimWhitespace s1 = ltrimWhitespace tail1"
    by (rule readsAs_value [OF r(1) _ _ dl, of fuel1 level]) (use Cons.prems(5,6) in \<open>auto simp: ts f\<close>)
  have e: "arrayLoop env opts fuel level (ARRAY acc) (t @ tail1) =
      (if startsChar (CHR '','') (ltrimWhitespace tail1)
       then arrayLoop env opts fuel1 level (ARRAY (acc @ [x])) (ltrimWhitespace (tl (ltrimWhitespace tail1)))
       else res_bind (expect (CHR '']'') (ltrimWhitespace tail1)) (\<lambda>t. Inr (ARRAY (acc @ [x]), t)))"
    using p hd by (simp add: f startsChar_def pushBack_def Let_def)
  show ?case
  proof (cases "ts1 = []")
    case True
    then have "ltrimWhitespace tail1 = '']'' @ rest"
      using ltrim_white [OF Cons.prems(4)] by (simp add: tail1_def ltrim_Cons not_white)
    then show ?thesis using True r(2) unfolding tx e by (simp add: startsChar_def expect_def)
  next
    case False
    have h: "ltrimWhitespace (joined ('','' @ w) ts1 @ w' @ '']'' @ rest) = joined ('','' @ w) ts1 @ w' @ '']'' @ rest"
      using r(2) False by (cases ts1; cases xs) (auto intro!: ltrim_hd simp: readsAs_def)
    have "ltrimWhitespace tail1 = '','' @ w @ joined ('','' @ w) ts1 @ w' @ '']'' @ rest"
      using False by (simp add: tail1_def ltrim_Cons not_white)
    then show ?thesis unfolding tx e
      using Cons.IH [OF r(2), of fuel1 "acc @ [x]"] False r(2) Cons.prems ltrim_white [OF Cons.prems(3)] h
      by (auto simp: startsChar_def ts f)
  qed
qed simp

text \<open>The text of a key and value.\<close>

definition keyReads :: "string \<Rightarrow> string \<Rightarrow> bool" where
  "keyReads k t \<longleftrightarrow> t \<noteq> [] \<and> hd t = CHR 0x22 \<and> neutral t \<and> (\<forall>rest. parseString (t @ rest) = Inr (k, rest))"

definition itemReads :: "'d jenv \<Rightarrow> serialization_opts \<Rightarrow> string \<Rightarrow> 'd dynamic \<times> 'd dynamic \<Rightarrow> string \<Rightarrow> bool" where
  "itemReads env opts colon kv t \<longleftrightarrow>
     (\<exists>k kt vt. fst kv = STRING k \<and> keyReads k kt \<and> readsAs env opts (snd kv) vt \<and> t = kt @ colon @ vt)"

lemma objAssign_new:
  assumes "plainObject (kvs @ [(k, v)])"
  shows "objAssign ops kvs k v = kvs @ [(k, v)]"
proof -
  have p: "plainObject kvs" "plainKey k" "k \<notin> fst ` set kvs" using assms by (auto simp: plainObject_def)
  then have "objFind ops kvs k = None" by (simp add: objFind_plain map_of_eq_None_iff)
  then show ?thesis by (simp add: objAssign_def objInsert_def)
qed

lemma objectLoop_item:
  assumes kv: "itemReads env opts colon (k, v) t" and c: "colon = '':'' \<or> colon = '' : ''" and d: "delim tail1"
    and f: "2 * length t + 1 \<le> fuel" and l: "level + depth v \<le> recursion_limit opts" and p: "plainObject (acc @ [(k, v)])"
  shows "objectLoop env opts (Suc fuel) level (OBJECT acc) (t @ tail1) =
      (if startsChar (CHR '','') (ltrimWhitespace tail1)
       then objectLoop env opts fuel level (OBJECT (acc @ [(k, v)])) (ltrimWhitespace (tl (ltrimWhitespace tail1)))
       else res_bind (expect (CHR ''}'') (ltrimWhitespace tail1)) (\<lambda>t. Inr (OBJECT (acc @ [(k, v)]), t)))"
proof -
  obtain s kt vt where k: "k = STRING s" and kt: "keyReads s kt" and vt: "readsAs env opts v vt" and t: "t = kt @ colon @ vt"
    using kv by (auto simp: itemReads_def)
  have ps: "parseString (t @ tail1) = Inr (s, colon @ vt @ tail1)" using kt by (simp add: t keyReads_def)
  have q: "startsChar (CHR 0x22) (t @ tail1)" using kt by (auto simp: t keyReads_def startsChar_def)
  have x: "expect (CHR '':'') (ltrimWhitespace (colon @ vt @ tail1)) = Inr ((if colon = '':'' then [] else '' '') @ vt @ tail1)"
    using c ltrim_white [of "'' ''" "'': '' @ vt @ tail1"]
    by (auto simp: ltrim_Cons expect_def startsChar_def white_def is_oddspace_def)
  have n: "ltrimWhitespace ((if colon = '':'' then [] else '' '') @ vt @ tail1) = vt @ tail1"
    using ltrim_white [of "if colon = '':'' then [] else '' ''" "vt @ tail1"] vt
    by (auto simp: white_def readsAs_def intro!: ltrim_hd)
  obtain s3 where v: "parseValue env opts fuel level (vt @ tail1) = Inr (v, s3)" "ltrimWhitespace s3 = ltrimWhitespace tail1"
    by (rule readsAs_value [OF vt _ l d, of fuel]) (use f in \<open>simp add: t\<close>)
  have i: "dynInsert (base env) (OBJECT acc) k v = Inr (OBJECT (acc @ [(k, v)]))"
    using objAssign_new [OF p] by (simp add: dynInsert_def hashed_def k)
  have b: "\<not> startsChar (CHR ''}'') (t @ tail1)" using q by (simp add: startsChar_def)
  show ?thesis using b q ps x n v i by (simp add: k Let_def)
qed

lemma objectLoop_reads:
  assumes "list_all2 (itemReads env opts colon) kvs ts" "kvs \<noteq> []" "list_all white w" "list_all white w'"
    "2 * length (joined ('','' @ w) ts) + 2 \<le> fuel" "\<And>k x. (k, x) \<in> set kvs \<Longrightarrow> level + depth x \<le> recursion_limit opts"
    "plainObject (acc @ kvs)" "colon = '':'' \<or> colon = '' : ''"
  shows "objectLoop env opts fuel level (OBJECT acc) (joined ('','' @ w) ts @ w' @ ''}'' @ rest) = Inr (OBJECT (acc @ kvs), rest)"
  using assms
proof (induction kvs arbitrary: ts fuel acc)
  case (Cons kv kvs)
  obtain k x where kv: "kv = (k, x)" by (cases kv)
  obtain t ts1 fuel1 where ts: "ts = t # ts1" and r: "itemReads env opts colon (k, x) t" "list_all2 (itemReads env opts colon) kvs ts1"
    and f: "fuel = Suc fuel1" using Cons.prems(1,5) kv by (cases ts; cases fuel) auto
  define tail1 where "tail1 = (if ts1 = [] then w' @ ''}'' @ rest else '','' @ w @ joined ('','' @ w) ts1 @ w' @ ''}'' @ rest)"
  have tx: "joined ('','' @ w) ts @ w' @ ''}'' @ rest = t @ tail1" by (simp add: ts tail1_def)
  have dl: "delim tail1" using delim_close [OF Cons.prems(4), of "CHR ''}''" rest] by (simp add: tail1_def delim_def isdigit_def)
  have pl: "plainObject (acc @ [(k, x)])" using Cons.prems(7) by (auto simp: plainObject_def kv)
  note e = objectLoop_item [OF r(1) Cons.prems(8) dl _ _ pl, of fuel1 level]
  have e: "objectLoop env opts fuel level (OBJECT acc) (t @ tail1) =
      (if startsChar (CHR '','') (ltrimWhitespace tail1)
       then objectLoop env opts fuel1 level (OBJECT (acc @ [(k, x)])) (ltrimWhitespace (tl (ltrimWhitespace tail1)))
       else res_bind (expect (CHR ''}'') (ltrimWhitespace tail1)) (\<lambda>t. Inr (OBJECT (acc @ [(k, x)]), t)))"
    unfolding f by (rule e) (use Cons.prems(5,6) in \<open>auto simp: ts f kv\<close>)
  show ?case
  proof (cases "ts1 = []")
    case True
    then have "ltrimWhitespace tail1 = ''}'' @ rest"
      using ltrim_white [OF Cons.prems(4)] by (simp add: tail1_def ltrim_Cons not_white)
    then show ?thesis using True r(2) unfolding tx e by (simp add: startsChar_def expect_def kv)
  next
    case False
    have h: "ltrimWhitespace (joined ('','' @ w) ts1 @ w' @ ''}'' @ rest) = joined ('','' @ w) ts1 @ w' @ ''}'' @ rest"
      using r(2) False by (cases ts1; cases kvs) (auto intro!: ltrim_hd simp: itemReads_def keyReads_def not_white)
    have "ltrimWhitespace tail1 = '','' @ w @ joined ('','' @ w) ts1 @ w' @ ''}'' @ rest"
      using False by (simp add: tail1_def ltrim_Cons not_white)
    then show ?thesis unfolding tx e
      using Cons.IH [OF r(2), of fuel1 "acc @ [(k, x)]"] False r(2) Cons.prems ltrim_white [OF Cons.prems(3)] h
      by (auto simp: startsChar_def ts f kv)
  qed
qed simp

section \<open>Scalars\<close>

lemma parseValue_other:
  assumes "s \<noteq> []" "\<not> white (hd s)" "level \<le> recursion_limit opts" "hd s \<noteq> CHR ''[''" "hd s \<noteq> CHR ''{''" "hd s \<noteq> CHR 0x22" "0 < fuel"
  shows "parseValue env opts fuel level s =
    (if startsChar (CHR ''-'') s \<or> isdigit (hd s) then parseNumber env opts s else parseWord env opts s)"
  using assms by (cases fuel) (auto simp: ltrim_hd startsChar_def)

lemma digit_not: "isdigit c \<Longrightarrow> \<not> white c \<and> c \<notin> {CHR ''['', CHR '']'', CHR ''{'', CHR ''}'', CHR 0x22, CHR ''-'', CHR ''.'', CHR ''e'', CHR ''E''}"
  by (auto simp: isdigit_def white_def is_oddspace_def)

lemma parseNumber_integral:
  assumes ds: "list_all isdigit ds" "ds \<noteq> []" and sg: "sg = [] \<or> sg = ''-''" and s: "\<not> isdigit (hd s) \<or> s = []"
  shows "startsChar (CHR ''-'') (sg @ ds @ s) \<longleftrightarrow> sg = ''-''" "consume ''-Infinity'' (sg @ ds @ s) = None"
    "skipMinusAndDigits (sg @ ds @ s) = (sg @ ds, s)"
proof -
  obtain d ds1 where d: "ds = d # ds1" "isdigit d" using ds by (cases ds) auto
  show m: "startsChar (CHR ''-'') (sg @ ds @ s) \<longleftrightarrow> sg = ''-''" using sg digit_not [OF d(2)] by (auto simp: startsChar_def d(1))
  show "consume ''-Infinity'' (sg @ ds @ s) = None" using sg d by (auto simp: consume_def isdigit_def)
  have "takeWhile isdigit (ds @ s) = ds" "dropWhile isdigit (ds @ s) = s"
    using ds(1) s by (cases s; auto simp: takeWhile_append2 dropWhile_append2 list_all_iff)+
  then show "skipMinusAndDigits (sg @ ds @ s) = (sg @ ds, s)" using sg m by (auto simp: skipMinusAndDigits_def)
qed

text \<open>
  The text of a floating point number has a decimal point or an exponent, and is read back; or
  it is that of an integer, which is then read as one.
\<close>

definition floatText :: "string \<Rightarrow> bool" where
  "floatText t \<longleftrightarrow>
     (\<exists>sg ds fr ex. t = sg @ ds @ fr @ ex \<and> (sg = [] \<or> sg = ''-'') \<and> list_all isdigit ds \<and> ds \<noteq> [] \<and>
        (fr = [] \<or> (\<exists>fs. fr = CHR ''.'' # fs \<and> list_all isdigit fs)) \<and>
        (ex = [] \<or> (\<exists>g es. ex = CHR ''E'' # g @ es \<and> (g = [] \<or> g = ''-'' \<or> g = ''+'') \<and> list_all isdigit es \<and> es \<noteq> [])) \<and>
        fr @ ex \<noteq> [])"

definition doubleOk :: "'d jenv \<Rightarrow> serialization_opts \<Rightarrow> 'd \<Rightarrow> bool" where
  "doubleOk env opts d \<longleftrightarrow> (allow_nan_inf opts \<or> \<not> nanInf env d) \<and>
     (floatText (dText (base env) d) \<and> dRead (base env) (dText (base env) d) = Inr d \<and> dEqual (base env) d d \<or>
      (\<exists>i. - (2 ^ 63) \<le> i \<and> i < 2 ^ 63 \<and> dText (base env) d = showInt i \<and>
         (javascript_safe opts \<longrightarrow> exactInt (base env) i) \<and> dEqual (base env) (ofInt (base env) i) d))"

definition exactOpts :: "serialization_opts \<Rightarrow> bool" where
  "exactOpts opts \<longleftrightarrow> \<not> double_fallback opts \<and> \<not> parse_numbers_as_strings opts"

lemma sign_not: "sg = [] \<or> sg = ''-'' \<Longrightarrow> list_all isdigit ds \<Longrightarrow> ds \<noteq> [] \<Longrightarrow>
  \<not> white (hd (sg @ ds @ s)) \<and> hd (sg @ ds @ s) \<notin> {CHR ''['', CHR '']'', CHR ''{'', CHR ''}'', CHR 0x22} \<and>
  (startsChar (CHR ''-'') (sg @ ds @ s) \<or> isdigit (hd (sg @ ds @ s)))"
  using digit_not [of "hd ds"] by (cases ds) (auto simp: white_def is_oddspace_def startsChar_def)

lemma neutral_digits: "list_all isdigit ds \<Longrightarrow> neutral ds"
  by (rule neutral_chars, erule list.pred_mono_strong) (auto simp: isdigit_def)

lemma neutral_sign: "sg = [] \<or> sg = ''-'' \<Longrightarrow> neutral sg"
  by (rule neutral_chars) auto

lemma int_reads:
  assumes "exactOpts opts" "- (2 ^ 63) \<le> i" "i < 2 ^ 63"
  shows "readsAs env opts (INT64 i) (showInt i)"
proof -
  define sg ds where "sg = (if i < 0 then ''-'' else '''')" and "ds = decimal (nat \<bar>i\<bar>)"
  have t: "showInt i = sg @ ds" by (simp add: showInt_def sg_def ds_def)
  have ds: "list_all isdigit ds" "ds \<noteq> []" by (simp_all add: ds_def decimal_val decimal_nonempty)
  have sg: "sg = [] \<or> sg = ''-''" by (simp add: sg_def)
  have i: "toIntegral True 64 (showInt i) = Inr i"
    using decimal_read [of 64 True i "[]" "[]"] assms by (simp add: width_def inRange_def)
  have p: "parseNumber env opts (showInt i @ rest) = Inr (INT64 i, ltrimWhitespace rest)" if "delim rest" for rest
  proof -
    have r: "\<not> isdigit (hd rest) \<or> rest = []" using that by (auto simp: delim_def)
    have "sg = ''-'' \<longrightarrow> 2 \<le> length (sg @ ds)" using ds(2) by (cases ds) auto
    moreover have "\<not> startsChar (CHR ''.'') rest \<and> \<not> startsChar (CHR ''e'') rest \<and> \<not> startsChar (CHR ''E'') rest"
      using that by (auto simp: delim_def startsChar_def)
    ultimately show ?thesis using parseNumber_integral [OF ds sg r] i assms(1)
      by (auto simp: parseNumber_def Let_def t exactOpts_def)
  qed
  show ?thesis unfolding readsAs_def
  proof (intro conjI allI impI)
    show "showInt i \<noteq> []" "\<not> white (hd (showInt i))" "hd (showInt i) \<notin> {CHR '']'', CHR ''}''}"
      using sign_not [OF sg ds, of "[]"] ds(2) by (auto simp: t)
    show "neutral (showInt i)" unfolding t by (intro neutral_append neutral_digits [OF ds(1)] neutral_sign [OF sg])
    fix fuel level rest
    assume a: "2 * length (showInt i) + 1 \<le> fuel" "level + depth (INT64 i) \<le> recursion_limit opts" "delim rest"
    have "parseValue env opts fuel level (showInt i @ rest) = parseNumber env opts (showInt i @ rest)"
      using sign_not [OF sg ds, of rest] ds(2) a by (subst parseValue_other) (auto simp: t)
    then show "\<exists>r. parseValue env opts fuel level (showInt i @ rest) = Inr (INT64 i, r) \<and> ltrimWhitespace r = ltrimWhitespace rest"
      using p [OF a(3)] by (simp add: ltrimWhitespace_spec)
  qed
qed

lemma double_reads:
  assumes "exactOpts opts" "floatText (dText (base env) d)" "dRead (base env) (dText (base env) d) = Inr d"
  shows "readsAs env opts (DOUBLE d) (dText (base env) d)"
proof -
  let ?t = "dText (base env) d"
  obtain sg ds fr ex where t: "?t = sg @ ds @ fr @ ex" and sg: "sg = [] \<or> sg = ''-''" and ds: "list_all isdigit ds" "ds \<noteq> []"
    and fr: "fr = [] \<or> (\<exists>fs. fr = CHR ''.'' # fs \<and> list_all isdigit fs)"
    and ex: "ex = [] \<or> (\<exists>g es. ex = CHR ''E'' # g @ es \<and> (g = [] \<or> g = ''-'' \<or> g = ''+'') \<and> list_all isdigit es \<and> es \<noteq> [])"
    and ne: "fr @ ex \<noteq> []" using assms(2) unfolding floatText_def by blast
  have digits: "takeWhile isdigit (xs @ w) = xs" "dropWhile isdigit (xs @ w) = w"
    if "list_all isdigit xs" "w = [] \<or> \<not> isdigit (hd w)" for xs w
    using that by (cases w; auto simp: takeWhile_append2 dropWhile_append2 list_all_iff)+
  have p: "parseNumber env opts (?t @ rest) = Inr (DOUBLE d, rest)" if "delim rest" for rest
  proof -
    have r: "\<not> isdigit (hd (fr @ ex @ rest)) \<or> fr @ ex @ rest = []" using fr ex ne by (auto simp: isdigit_def)
    have h: "ex @ rest = [] \<or> \<not> isdigit (hd (ex @ rest)) \<and> hd (ex @ rest) \<noteq> CHR ''.''"
      using ex that by (auto simp: isdigit_def delim_def)
    have "skipFraction (fr @ ex @ rest) = (fr, ex @ rest)"
      using fr h digits [of _ "ex @ rest"] by (auto simp: skipFraction_def startsChar_def)
    moreover have "skipExponent (ex @ rest) = (ex, rest)"
    proof (cases "ex = []")
      case True
      with that show ?thesis by (auto simp: skipExponent_def delim_def startsChar_def)
    next
      case False
      then obtain g es where e: "ex = CHR ''E'' # g @ es" "g = [] \<or> g = ''-'' \<or> g = ''+''" "list_all isdigit es" "es \<noteq> []"
        using ex by blast
      have "hd (es @ rest) \<noteq> CHR ''+''" "hd (es @ rest) \<noteq> CHR ''-''" using e(3,4) by (cases es; auto simp: isdigit_def)+
      moreover have "takeWhile isdigit (es @ rest) = es" "dropWhile isdigit (es @ rest) = rest"
        using digits [OF e(3)] that by (auto simp: delim_def)
      ultimately show ?thesis using e(2) by (auto simp: skipExponent_def startsChar_def e(1))
    qed
    moreover have "startsChar (CHR ''.'') (fr @ ex @ rest) \<or> startsChar (CHR ''e'') (fr @ ex @ rest) \<or> startsChar (CHR ''E'') (fr @ ex @ rest)"
      using fr ex ne by (auto simp: startsChar_def)
    moreover have "sg = ''-'' \<longrightarrow> 2 \<le> length (sg @ ds)" using ds(2) by (cases ds) auto
    moreover have "dRead (base env) (sg @ ds @ fr @ ex) = Inr d" using assms(3) t by simp
    ultimately show ?thesis using parseNumber_integral [OF ds sg r] assms(1)
      by (auto simp: parseNumber_def Let_def t exactOpts_def)
  qed
  show ?thesis unfolding readsAs_def
  proof (intro conjI allI impI)
    show "?t \<noteq> []" "\<not> white (hd ?t)" "hd ?t \<notin> {CHR '']'', CHR ''}''}"
      using sign_not [OF sg ds, of "fr @ ex"] ds(2) by (auto simp: t)
    have "list_all (\<lambda>c. c \<noteq> CHR ''/'' \<and> c \<noteq> CHR 0x22) xs" if "list_all isdigit xs" for xs
      using that by (rule list.pred_mono_strong) (auto simp: isdigit_def)
    then have "neutral fr" "neutral ex" using fr ex by (auto intro!: neutral_chars)
    then show "neutral ?t" unfolding t
      by (intro neutral_append neutral_digits [OF ds(1)] neutral_sign [OF sg])
    fix fuel level rest
    assume a: "2 * length ?t + 1 \<le> fuel" "level + depth (DOUBLE d) \<le> recursion_limit opts" "delim rest"
    have "parseValue env opts fuel level (?t @ rest) = parseNumber env opts (?t @ rest)"
      using sign_not [OF sg ds, of "fr @ ex @ rest"] ds(2) a by (subst parseValue_other) (auto simp: t)
    then show "\<exists>r. parseValue env opts fuel level (?t @ rest) = Inr (DOUBLE d, r) \<and> ltrimWhitespace r = ltrimWhitespace rest"
      using p [OF a(3)] by simp
  qed
qed

lemma word_reads:
  assumes w: "w = ''true'' \<and> v = BOOL True \<or> w = ''false'' \<and> v = BOOL False \<or> w = ''null'' \<and> v = NULLT"
  shows "readsAs env opts v w"
proof -
  have p: "parseWord env opts (w @ rest) = Inr (v, rest)" for rest using w by (auto simp: parseWord_def consume_def)
  have h: "w \<noteq> []" "\<not> white (hd w)" "hd w \<notin> {CHR '']'', CHR ''}'', CHR ''['', CHR ''{'', CHR 0x22, CHR ''-''}" "\<not> isdigit (hd w)"
    using w by (auto simp: white_def is_oddspace_def isdigit_def)
  have "parseValue env opts fuel level (w @ rest) = Inr (v, rest)" if "0 < fuel" "level \<le> recursion_limit opts" for fuel level rest
    using p h that by (subst parseValue_other) (auto simp: startsChar_def)
  moreover have "neutral w" using w by (intro neutral_chars) auto
  ultimately show ?thesis using h by (auto simp: readsAs_def)
qed

lemma string_reads:
  assumes "plainText opts s"
  obtains t where "escapeString opts s = Inr t" "readsAs env opts (STRING s) t" "keyReads s t"
proof -
  obtain t where t: "escapeString opts s = Inr ([CHR 0x22] @ t)" "\<And>rest. parseString ([CHR 0x22] @ t @ rest) = Inr (s, rest)"
    "neutral ([CHR 0x22] @ t)" using string_round_trip [OF assms] by metis
  have "parseValue env opts fuel level (([CHR 0x22] @ t) @ rest) = Inr (STRING s, rest)"
    if "0 < fuel" "level \<le> recursion_limit opts" for fuel level rest
    using that t(2) [of rest] by (cases fuel) (simp_all add: ltrim_Cons not_white startsChar_def)
  then show ?thesis
    by (intro that [OF t(1)]) (use t(3) in \<open>auto simp: readsAs_def keyReads_def not_white t(2) [simplified]\<close>)
qed

lemma empty_reads: "readsAs env opts (ARRAY []) ''[]''" "readsAs env opts (OBJECT []) ''{}''"
proof -
  have "parseValue env opts fuel level (''[]'' @ rest) = Inr (ARRAY [], rest)"
    "parseValue env opts fuel level (''{}'' @ rest) = Inr (OBJECT [], rest)"
    if "0 < fuel" "level \<le> recursion_limit opts" for fuel level rest
    using that by (cases fuel; simp add: ltrim_Cons not_white startsChar_def Let_def)+
  then show "readsAs env opts (ARRAY []) ''[]''" "readsAs env opts (OBJECT []) ''{}''"
    by (auto simp: readsAs_def not_white intro!: neutral_chars)
qed

lemma array_reads:
  assumes "list_all2 (readsAs env opts) xs ts" "xs \<noteq> []" "list_all white w" "list_all white w'"
  shows "readsAs env opts (ARRAY xs) (''['' @ w @ joined ('','' @ w) ts @ w' @ '']'')"
proof -
  have h: "joined ('','' @ w) ts \<noteq> []" "\<not> white (hd (joined ('','' @ w) ts))" "hd (joined ('','' @ w) ts) \<noteq> CHR '']''"
    using assms(1,2) by (cases ts; cases xs; auto simp: readsAs_def)+
  have "parseValue env opts fuel level ((''['' @ w @ joined ('','' @ w) ts @ w' @ '']'') @ rest) = Inr (ARRAY xs, rest)"
    if f: "2 * length (''['' @ w @ joined ('','' @ w) ts @ w' @ '']'') + 1 \<le> fuel" and l: "level + depth (ARRAY xs) \<le> recursion_limit opts"
    for fuel level rest
  proof -
    obtain fuel1 where fuel: "fuel = Suc fuel1" using f by (cases fuel) auto
    have "ltrimWhitespace (w @ joined ('','' @ w) ts @ w' @ '']'' @ rest) = joined ('','' @ w) ts @ w' @ '']'' @ rest"
      unfolding ltrim_white [OF assms(3)] using h by (intro ltrim_hd) auto
    moreover have "arrayLoop env opts fuel1 (Suc level) (ARRAY []) (joined ('','' @ w) ts @ w' @ '']'' @ rest) = Inr (ARRAY ([] @ xs), rest)"
      by (rule arrayLoop_reads [OF assms]) (use f l depth_elem [of _ xs] in \<open>fastforce simp: fuel\<close>)+
    ultimately show ?thesis using h l by (simp add: fuel ltrim_Cons not_white startsChar_def Let_def)
  qed
  moreover have "list_all neutral ts" using assms(1) by (induction rule: list_all2_induct) (auto simp: readsAs_def)
  then have "neutral (''['' @ w @ joined ('','' @ w) ts @ w' @ '']'')"
    by (intro neutral_append neutral_white neutral_joined neutral_sep assms(3,4) neutral_chars) simp_all
  ultimately show ?thesis by (auto simp: readsAs_def not_white)
qed

lemma object_reads:
  assumes "list_all2 (itemReads env opts colon) kvs ts" "kvs \<noteq> []" "list_all white w" "list_all white w'"
    "plainObject kvs" "colon = '':'' \<or> colon = '' : ''"
  shows "readsAs env opts (OBJECT kvs) (''{'' @ w @ joined ('','' @ w) ts @ w' @ ''}'')"
proof -
  have h: "joined ('','' @ w) ts \<noteq> []" "\<not> white (hd (joined ('','' @ w) ts))" "hd (joined ('','' @ w) ts) \<noteq> CHR ''}''"
    using assms(1,2) by (cases ts; cases kvs; auto simp: itemReads_def keyReads_def not_white)+
  have "parseValue env opts fuel level ((''{'' @ w @ joined ('','' @ w) ts @ w' @ ''}'') @ rest) = Inr (OBJECT kvs, rest)"
    if f: "2 * length (''{'' @ w @ joined ('','' @ w) ts @ w' @ ''}'') + 1 \<le> fuel" and l: "level + depth (OBJECT kvs) \<le> recursion_limit opts"
    for fuel level rest
  proof -
    obtain fuel1 where fuel: "fuel = Suc fuel1" using f by (cases fuel) auto
    have "ltrimWhitespace (w @ joined ('','' @ w) ts @ w' @ ''}'' @ rest) = joined ('','' @ w) ts @ w' @ ''}'' @ rest"
      unfolding ltrim_white [OF assms(3)] using h by (intro ltrim_hd) auto
    moreover have "objectLoop env opts fuel1 (Suc level) (OBJECT []) (joined ('','' @ w) ts @ w' @ ''}'' @ rest) = Inr (OBJECT ([] @ kvs), rest)"
      by (rule objectLoop_reads [OF assms(1-4) _ _ _ assms(6)]) (use f l assms(5) depth_item [of _ _ kvs] in \<open>fastforce simp: fuel\<close>)+
    ultimately show ?thesis using h l by (simp add: fuel ltrim_Cons not_white startsChar_def Let_def)
  qed
  moreover have "neutral colon" using assms(6) by (intro neutral_chars) auto
  with assms(1) have "list_all neutral ts"
    by (induction rule: list_all2_induct) (auto simp: itemReads_def readsAs_def keyReads_def intro!: neutral_append)
  then have "neutral (''{'' @ w @ joined ('','' @ w) ts @ w' @ ''}'')"
    by (intro neutral_append neutral_white neutral_joined neutral_sep assms(3,4) neutral_chars) simp_all
  ultimately show ?thesis by (auto simp: readsAs_def not_white)
qed

text \<open>The values that are printed and read back.\<close>

function jsonable :: "'d jenv \<Rightarrow> serialization_opts \<Rightarrow> 'd dynamic \<Rightarrow> bool" where
  "jsonable env opts v =
     (case v of
        NULLT \<Rightarrow> True
      | BOOL b \<Rightarrow> True
      | INT64 i \<Rightarrow> - (2 ^ 63) \<le> i \<and> i < 2 ^ 63 \<and> (javascript_safe opts \<longrightarrow> exactInt (base env) i)
      | DOUBLE d \<Rightarrow> doubleOk env opts d
      | STRING s \<Rightarrow> plainText opts s
      | ARRAY xs \<Rightarrow> list_all (\<lambda>x. jsonable env opts x) xs
      | OBJECT kvs \<Rightarrow> distinct (map fst kvs) \<and>
          list_all (\<lambda>(k, x). (\<exists>s. k = STRING s \<and> plainText opts s) \<and> jsonable env opts x) kvs)"
  by pat_completeness auto
termination
  by (relation "measure (\<lambda>(env, opts, v). size v)") (auto dest: size_elem size_item)

declare jsonable.simps [simp del]

lemma jsonable_array: "jsonable env opts (ARRAY xs) \<longleftrightarrow> list_all (jsonable env opts) xs"
  by (subst jsonable.simps) simp

lemma jsonable_object: "jsonable env opts (OBJECT kvs) \<longleftrightarrow> distinct (map fst kvs) \<and>
    list_all (\<lambda>(k, x). (\<exists>s. k = STRING s \<and> plainText opts s) \<and> jsonable env opts x) kvs"
  by (subst jsonable.simps) simp

lemma jsonable_plain: "jsonable env opts (OBJECT kvs) \<Longrightarrow> plainObject kvs"
  by (auto simp: jsonable_object plainObject_def list_all_iff)

lemma newline_white: "list_all white (newline lvl)"
  by (auto simp: newline_def white_def is_oddspace_def list_all_iff split: option.split)

lemma printElems_joined:
  "list_all2 (\<lambda>x t. printValue env opts lvl x = Inr t) xs ts \<Longrightarrow> printElems env opts lvl xs = Inr (joined ('','' @ newline lvl) ts)"
  by (induction xs ts rule: list_all2_induct) (auto dest: list_all2_lengthD)

lemma printKVPairs_joined:
  "list_all2 (\<lambda>(k, x) t. \<exists>kt vt. isString k \<and> printValue env opts lvl k = Inr kt \<and> printValue env opts lvl x = Inr vt \<and> t = kt @ mapColon lvl @ vt) kvs ts
    \<Longrightarrow> printKVPairs env opts lvl kvs = Inr (joined ('','' @ newline lvl) ts)"
  by (induction kvs ts rule: list_all2_induct) (auto dest: list_all2_lengthD)

lemma list_choice:
  assumes "\<And>x. x \<in> set xs \<Longrightarrow> \<exists>t. P x t"
  obtains ts where "list_all2 P xs ts"
  using assms by (metis (no_types, lifting) list_all2_conv_all_nth length_map nth_map nth_mem)

lemma printed_array:
  assumes "\<And>x. x \<in> set xs \<Longrightarrow> \<exists>t. printValue env opts (map_option Suc lvl) x = Inr t \<and> readsAs env opts x t" "xs \<noteq> []"
  shows "\<exists>t. printValue env opts lvl (ARRAY xs) = Inr t \<and> readsAs env opts (ARRAY xs) t"
proof -
  let ?l = "map_option Suc lvl"
  obtain ts where "list_all2 (\<lambda>x t. printValue env opts ?l x = Inr t \<and> readsAs env opts x t) xs ts"
    by (rule list_choice) (rule assms(1))
  then have ts: "list_all2 (\<lambda>x t. printValue env opts ?l x = Inr t) xs ts" "list_all2 (readsAs env opts) xs ts"
    by (auto elim!: list_all2_mono)
  show ?thesis using array_reads [OF ts(2) assms(2) newline_white newline_white, of ?l lvl] printElems_joined [OF ts(1)] assms(2)
    by (simp add: Let_def)
qed

lemma printed_object:
  assumes it: "\<And>k x. (k, x) \<in> set kvs \<Longrightarrow> \<exists>s vt. k = STRING s \<and> plainText opts s \<and>
      printValue env opts (map_option Suc lvl) x = Inr vt \<and> readsAs env opts x vt"
    and "kvs \<noteq> []" "plainObject kvs"
  shows "\<exists>t. printValue env opts lvl (OBJECT kvs) = Inr t \<and> readsAs env opts (OBJECT kvs) t"
proof -
  let ?l = "map_option Suc lvl" and ?c = "mapColon (map_option Suc lvl)"
  have "\<exists>t. (\<exists>kt vt. isString (fst kv) \<and> printValue env opts ?l (fst kv) = Inr kt \<and> printValue env opts ?l (snd kv) = Inr vt \<and>
      t = kt @ ?c @ vt) \<and> itemReads env opts ?c kv t" if kv: "kv \<in> set kvs" for kv
  proof -
    obtain k x s vt where k: "kv = (k, x)" "k = STRING s" "plainText opts s" and "printValue env opts ?l x = Inr vt" "readsAs env opts x vt"
      using it kv by (cases kv) blast
    moreover obtain kt where "printValue env opts ?l k = Inr kt" "keyReads s kt"
      using string_reads [OF k(3)] k(2) by (metis printValue.simps(5))
    ultimately show ?thesis using k by (auto simp: itemReads_def)
  qed
  then obtain ts where "list_all2 (\<lambda>kv t. (\<exists>kt vt. isString (fst kv) \<and> printValue env opts ?l (fst kv) = Inr kt \<and>
      printValue env opts ?l (snd kv) = Inr vt \<and> t = kt @ ?c @ vt) \<and> itemReads env opts ?c kv t) kvs ts"
    by (rule list_choice)
  then have ts: "list_all2 (\<lambda>(k, x) t. \<exists>kt vt. isString k \<and> printValue env opts ?l k = Inr kt \<and>
      printValue env opts ?l x = Inr vt \<and> t = kt @ ?c @ vt) kvs ts" "list_all2 (itemReads env opts ?c) kvs ts"
    by (auto elim!: list_all2_mono)
  have "readsAs env opts (OBJECT kvs) (''{'' @ newline ?l @ joined ('','' @ newline ?l) ts @ newline lvl @ ''}'')"
    by (rule object_reads [OF ts(2) assms(2) newline_white newline_white assms(3)]) (auto simp: mapColon_def)
  then show ?thesis using printKVPairs_joined [OF ts(1)] assms(2) by (simp add: Let_def)
qed

text \<open>What is read for a value: a floating point number whose text is that of an integer is one.\<close>

definition asRead :: "'d jenv \<Rightarrow> 'd \<Rightarrow> 'd dynamic" where
  "asRead env d = (case toIntegral True 64 (dText (base env) d) of
     Inl e \<Rightarrow> DOUBLE d
   | Inr i \<Rightarrow> if dText (base env) d = showInt i then INT64 i else DOUBLE d)"

function readBack :: "'d jenv \<Rightarrow> 'd dynamic \<Rightarrow> 'd dynamic" where
  "readBack env v =
     (case v of
        DOUBLE d \<Rightarrow> asRead env d
      | ARRAY xs \<Rightarrow> ARRAY (map (\<lambda>x. readBack env x) xs)
      | OBJECT kvs \<Rightarrow> OBJECT (map (\<lambda>(k, x). (k, readBack env x)) kvs)
      | _ \<Rightarrow> v)"
  by pat_completeness auto
termination
  by (relation "measure (\<lambda>(env, v). size v)") (auto dest: size_elem size_item)

declare readBack.simps [simp del]

lemma readBack_simps [simp]:
  "readBack env (DOUBLE d) = asRead env d"
  "readBack env (ARRAY xs) = ARRAY (map (readBack env) xs)"
  "readBack env (OBJECT kvs) = OBJECT (map (\<lambda>(k, x). (k, readBack env x)) kvs)"
  "readBack env NULLT = NULLT" "readBack env (BOOL b) = BOOL b" "readBack env (INT64 i) = INT64 i"
  "readBack env (STRING s) = STRING s"
  by (subst readBack.simps; simp)+

lemma toIntegral_showInt: "- (2 ^ 63) \<le> i \<Longrightarrow> i < 2 ^ 63 \<Longrightarrow> toIntegral True 64 (showInt i) = Inr i"
  using decimal_read [of 64 True i "[]" "[]"] by (simp add: width_def inRange_def)

lemma floatText_not_int: "floatText t \<Longrightarrow> t \<noteq> showInt i"
proof
  assume f: "floatText t" and t: "t = showInt i"
  have "list_all isdigit (decimal (nat \<bar>i\<bar>))" by (simp add: decimal_val)
  then have "\<forall>c \<in> set t. c = CHR ''-'' \<or> isdigit c" by (auto simp: t showInt_def list_all_iff)
  moreover from f have "CHR ''.'' \<in> set t \<or> CHR ''E'' \<in> set t" by (auto simp: floatText_def)
  moreover have "\<not> isdigit (CHR ''.'')" "\<not> isdigit (CHR ''E'')" "CHR ''.'' \<noteq> CHR ''-''" "CHR ''E'' \<noteq> CHR ''-''"
    by (simp_all add: isdigit_def)
  ultimately show False by blast
qed

lemma asRead_cases:
  assumes "doubleOk env opts d"
  obtains "asRead env d = DOUBLE d" "floatText (dText (base env) d)" "dRead (base env) (dText (base env) d) = Inr d"
      "dEqual (base env) d d"
  | i where "asRead env d = INT64 i" "- (2 ^ 63) \<le> i" "i < 2 ^ 63" "dText (base env) d = showInt i"
      "javascript_safe opts \<longrightarrow> exactInt (base env) i" "dEqual (base env) (ofInt (base env) i) d"
proof (cases "floatText (dText (base env) d)")
  case True
  have "asRead env d = DOUBLE d" using floatText_not_int [OF True] by (auto simp: asRead_def split: sum.split)
  moreover have "dRead (base env) (dText (base env) d) = Inr d \<and> dEqual (base env) d d"
    using assms floatText_not_int [OF True] unfolding doubleOk_def by blast
  ultimately show thesis using True by (intro that(1)) simp_all
next
  case False
  then obtain i where i: "- (2 ^ 63) \<le> i" "i < 2 ^ 63" "dText (base env) d = showInt i"
    "javascript_safe opts \<longrightarrow> exactInt (base env) i" "dEqual (base env) (ofInt (base env) i) d"
    using assms by (auto simp: doubleOk_def)
  then show thesis using that(2) [of i] toIntegral_showInt by (simp add: asRead_def)
qed

lemma printElems_cong:
  "\<forall>x \<in> set xs. printValue env opts lvl (f x) = printValue env opts lvl x \<Longrightarrow>
   printElems env opts lvl (map f xs) = printElems env opts lvl xs"
  by (induction xs) auto

lemma printKVPairs_cong:
  "\<forall>(k, x) \<in> set kvs. printValue env opts lvl (f x) = printValue env opts lvl x \<Longrightarrow>
   printKVPairs env opts lvl (map (\<lambda>(k, x). (k, f x)) kvs) = printKVPairs env opts lvl kvs"
  by (induction kvs) auto

lemma readBack_prints:
  assumes "length (buffer env) = 20"
  shows "jsonable env opts v \<Longrightarrow> printValue env opts lvl (readBack env v) = printValue env opts lvl v"
proof (induction v arbitrary: lvl rule: measure_induct_rule [of size])
  case (less v)
  show ?case
  proof (cases v)
    case (DOUBLE d)
    then have ok: "doubleOk env opts d" using less.prems by (simp add: jsonable.simps)
    then have "allow_nan_inf opts \<or> \<not> nanInf env d" by (simp add: doubleOk_def)
    then show ?thesis using appendSigned_spec [OF _ _ assms, of _ "[]"] unfolding DOUBLE readBack_simps
      by (cases rule: asRead_cases [OF ok]) simp_all
  next
    case (ARRAY xs)
    have "\<forall>x \<in> set xs. printValue env opts l (readBack env x) = printValue env opts l x" for l
      using less size_elem [of _ xs] by (simp add: ARRAY jsonable_array list_all_iff)
    from printElems_cong [OF this] show ?thesis by (simp add: ARRAY)
  next
    case (OBJECT kvs)
    have "\<forall>(k, x) \<in> set kvs. printValue env opts l (readBack env x) = printValue env opts l x" for l
      using less size_item [of _ _ kvs] by (fastforce simp: OBJECT jsonable_object list_all_iff)
    from printKVPairs_cong [OF this] show ?thesis by (simp add: OBJECT)
  qed simp_all
qed

lemma readBack_jsonable: "jsonable env opts v \<Longrightarrow> jsonable env opts (readBack env v)"
proof (induction v rule: measure_induct_rule [of size])
  case (less v)
  show ?case
  proof (cases v)
    case (DOUBLE d)
    then have ok: "doubleOk env opts d" using less.prems by (simp add: jsonable.simps)
    then show ?thesis unfolding DOUBLE readBack_simps by (cases rule: asRead_cases [OF ok]) (use ok in \<open>simp_all add: jsonable.simps\<close>)
  next
    case (ARRAY xs)
    then show ?thesis using less size_elem [of _ xs] by (simp add: jsonable_array list_all_iff)
  next
    case (OBJECT kvs)
    have "map fst (map (\<lambda>(k, x). (k, readBack env x)) kvs) = map fst kvs" by (induction kvs) auto
    then have "distinct (map fst (map (\<lambda>(k, x). (k, readBack env x)) kvs))"
      using less.prems unfolding OBJECT jsonable_object by metis
    moreover have "(\<exists>s. k = STRING s \<and> plainText opts s) \<and> jsonable env opts (readBack env x)" if "(k, x) \<in> set kvs" for k x
      using that less.prems less.IH [of x] size_item [OF that] by (auto simp: OBJECT jsonable_object list_all_iff)
    ultimately show ?thesis unfolding OBJECT readBack_simps jsonable_object by (auto simp: list_all_iff)
  qed (use less.prems in simp_all)
qed

lemma readBack_depth: "depth (readBack env v) = depth v"
proof (induction v rule: measure_induct_rule [of size])
  case (less v)
  show ?case
  proof (cases v)
    case (DOUBLE d)
    then show ?thesis by (auto simp: asRead_def depth.simps split: sum.split)
  next
    case (ARRAY xs)
    have "foldr (\<lambda>x n. max (Suc (depth x)) n) (map (readBack env) xs) 0 = foldr (\<lambda>x n. max (Suc (depth x)) n) xs 0"
      unfolding foldr_map comp_def by (rule foldr_cong) (use less size_elem [of _ xs] in \<open>simp_all add: ARRAY\<close>)
    then show ?thesis by (simp add: ARRAY depth.simps)
  next
    case (OBJECT kvs)
    have "foldr (\<lambda>(k, x) n. max (Suc (depth x)) n) (map (\<lambda>(k, x). (k, readBack env x)) kvs) 0
        = foldr (\<lambda>(k, x) n. max (Suc (depth x)) n) kvs 0"
      unfolding foldr_map comp_def by (rule foldr_cong) (use less size_item [of _ _ kvs] in \<open>auto simp: OBJECT fun_eq_iff\<close>)
    then show ?thesis by (simp add: OBJECT depth.simps)
  qed simp_all
qed

lemma printed_reads:
  assumes "length (buffer env) = 20" "exactOpts opts" "jsonable env opts v"
  shows "\<exists>t. printValue env opts lvl (readBack env v) = Inr t \<and> readsAs env opts (readBack env v) t"
  using assms(3)
proof (induction v arbitrary: lvl rule: measure_induct_rule [of size])
  case (less v)
  have int: "\<exists>t. printValue env opts lvl (INT64 i) = Inr t \<and> readsAs env opts (INT64 i) t"
    if i: "- (2 ^ 63) \<le> i" "i < 2 ^ 63" "javascript_safe opts \<longrightarrow> exactInt (base env) i" for i
    using i int_reads [OF assms(2) i(1,2)] appendSigned_spec [OF i(1,2) assms(1), of "[]"] by simp
  show ?case
  proof (cases v)
    case (INT64 i)
    then show ?thesis using less.prems int [of i] by (simp add: jsonable.simps)
  next
    case (DOUBLE d)
    then have ok: "doubleOk env opts d" using less.prems by (simp add: jsonable.simps)
    then have "allow_nan_inf opts \<or> \<not> nanInf env d" by (simp add: doubleOk_def)
    then show ?thesis using double_reads [OF assms(2)] int unfolding DOUBLE readBack_simps
      by (cases rule: asRead_cases [OF ok]) auto
  next
    case (STRING s)
    then have "plainText opts s" using less.prems by (simp add: jsonable.simps)
    then show ?thesis using string_reads [of opts s env] unfolding STRING readBack_simps by (metis printValue.simps(5))
  next
    case (ARRAY xs)
    let ?xs = "map (readBack env) xs"
    have "\<exists>t. printValue env opts (map_option Suc lvl) x = Inr t \<and> readsAs env opts x t" if "x \<in> set ?xs" for x
      using that less.IH less.prems size_elem [of _ xs] by (auto simp: ARRAY jsonable_array list_all_iff)
    then have "\<exists>t. printValue env opts lvl (ARRAY ?xs) = Inr t \<and> readsAs env opts (ARRAY ?xs) t" if "?xs \<noteq> []"
      using that by (rule printed_array)
    then show ?thesis using empty_reads(1) unfolding ARRAY readBack_simps by (cases "xs = []") simp_all
  next
    case (OBJECT kvs)
    let ?kvs = "map (\<lambda>(k, x). (k, readBack env x)) kvs"
    have "\<exists>s vt. k = STRING s \<and> plainText opts s \<and> printValue env opts (map_option Suc lvl) x = Inr vt \<and> readsAs env opts x vt"
      if "(k, x) \<in> set ?kvs" for k x
    proof -
      from that obtain x0 where kx: "(k, x0) \<in> set kvs" "x = readBack env x0" by auto
      then show ?thesis using less.IH [of x0] less.prems size_item [OF kx(1)] by (fastforce simp: OBJECT jsonable_object list_all_iff)
    qed
    moreover have "plainObject ?kvs" using readBack_jsonable [OF less.prems] jsonable_plain unfolding OBJECT readBack_simps by blast
    ultimately have "\<exists>t. printValue env opts lvl (OBJECT ?kvs) = Inr t \<and> readsAs env opts (OBJECT ?kvs) t" if "?kvs \<noteq> []"
      using that by (intro printed_object)
    then show ?thesis using empty_reads(2) unfolding OBJECT readBack_simps by (cases "kvs = []") simp_all
  qed (use word_reads [of _ _ env opts] in auto)
qed

section \<open>The order of the items\<close>

lemma insertItem_mset: "mset (insertItem ops x ys) = mset (x # ys)"
  by (induction ys) auto

lemma sortItems_mset: "mset (sortItems ops kvs) = mset kvs"
  by (induction kvs) (simp_all add: sortItems_def insertItem_mset)

lemma arrange_array: "arrange env opts (ARRAY xs) = ARRAY (map (arrange env opts) xs)"
  by (subst arrange.simps) simp

lemma arrange_object:
  assumes "\<And>kvs. mset (iter env kvs) = mset kvs"
  obtains items where "arrange env opts (OBJECT kvs) = OBJECT items"
    "mset items = mset (map (\<lambda>(k, x). (k, arrange env opts x)) kvs)"
  by (rule that [OF arrange.simps [of env opts "OBJECT kvs", simplified]]) (simp add: assms sortItems_mset)

lemma arrange_scalar: "(\<And>xs. v \<noteq> ARRAY xs) \<Longrightarrow> (\<And>kvs. v \<noteq> OBJECT kvs) \<Longrightarrow> arrange env opts v = v"
  by (subst arrange.simps) (cases v; auto)

lemma fst_arranged: "map fst (map (\<lambda>(k, x). (k, f x)) kvs) = map fst kvs"
  by (induction kvs) auto

lemma arrange_jsonable:
  assumes it: "\<And>kvs. mset (iter env kvs) = mset kvs"
  shows "jsonable env opts v \<Longrightarrow> jsonable env opts (arrange env opts v)"
proof (induction v rule: measure_induct_rule [of size])
  case (less v)
  consider (arr) xs where "v = ARRAY xs" | (obj) kvs where "v = OBJECT kvs" | (sc) "arrange env opts v = v"
    using arrange_scalar by metis
  then show ?case
  proof cases
    case arr
    then show ?thesis using less size_elem by (auto simp: arrange_array jsonable_array list_all_iff)
  next
    case obj
    obtain items where i: "arrange env opts v = OBJECT items" "mset items = mset (map (\<lambda>(k, x). (k, arrange env opts x)) kvs)"
      unfolding obj by (rule arrange_object [OF it])
    have "mset (map fst items) = mset (map fst (map (\<lambda>(k, x). (k, arrange env opts x)) kvs))"
      unfolding mset_map i(2) [unfolded mset_map] ..
    from mset_eq_imp_distinct_iff [OF this] have "distinct (map fst items)"
      using less.prems unfolding fst_arranged by (simp add: obj jsonable_object)
    moreover have "set items = (\<lambda>(k, x). (k, arrange env opts x)) ` set kvs" using mset_eq_setD [OF i(2)] by simp
    moreover have "(\<exists>s. k = STRING s \<and> plainText opts s) \<and> jsonable env opts (arrange env opts x)" if "(k, x) \<in> set kvs" for k x
      using that less.prems less.IH [of x] size_item [OF that] by (auto simp: obj jsonable_object list_all_iff)
    ultimately show ?thesis by (auto simp: i jsonable_object list_all_iff)
  qed (use less.prems in simp)
qed

lemma arrange_depth:
  assumes it: "\<And>kvs. mset (iter env kvs) = mset kvs"
  shows "depth (arrange env opts v) = depth v"
proof (induction v rule: measure_induct_rule [of size])
  case (less v)
  consider (arr) xs where "v = ARRAY xs" | (obj) kvs where "v = OBJECT kvs" | (sc) "arrange env opts v = v"
    using arrange_scalar by metis
  then show ?case
  proof cases
    case arr
    have "foldr (\<lambda>x n. max (Suc (depth x)) n) (map (arrange env opts) xs) 0 = foldr (\<lambda>x n. max (Suc (depth x)) n) xs 0"
      unfolding foldr_map comp_def by (rule foldr_cong) (use less size_elem [of _ xs] in \<open>simp_all add: arr\<close>)
    then show ?thesis by (simp add: arr arrange_array depth.simps)
  next
    case obj
    obtain items where i: "arrange env opts v = OBJECT items" "mset items = mset (map (\<lambda>(k, x). (k, arrange env opts x)) kvs)"
      unfolding obj by (rule arrange_object [OF it])
    have d: "depth (OBJECT zs) = Max (insert 0 (set (map (\<lambda>(k, x). Suc (depth x)) zs)))" for zs :: "'a items"
    proof -
      have "foldr (\<lambda>(k, x) n. max (Suc (depth x)) n) zs 0 = Max (insert 0 (set (map (\<lambda>(k, x). Suc (depth x)) zs)))"
      proof (induction zs)
        case (Cons z zs)
        let ?A = "set (map (\<lambda>(k, x). Suc (depth x)) zs)"
        have "Max (insert (Suc (depth (snd z))) (insert 0 ?A)) = max (Suc (depth (snd z))) (Max (insert 0 ?A))"
          by (rule Max_insert) auto
        then show ?case using Cons.IH by (cases z) (simp only: foldr.simps comp_def prod.case snd_conv list.map list.set insert_commute [of 0])
      qed simp
      then show ?thesis by (subst depth.simps) simp
    qed
    have "depth (arrange env opts x) = depth x" if "(k, x) \<in> set kvs" for k x
      using less [of x] size_item [OF that] by (simp add: obj)
    then have "(\<lambda>kx. Suc (depth (arrange env opts (snd kx)))) ` set kvs = (\<lambda>kx. Suc (depth (snd kx))) ` set kvs"
      by (intro image_cong) auto
    moreover have "set items = (\<lambda>(k, x). (k, arrange env opts x)) ` set kvs" using mset_eq_setD [OF i(2)] by simp
    ultimately have "set (map (\<lambda>(k, x). Suc (depth x)) items) = set (map (\<lambda>(k, x). Suc (depth x)) kvs)"
      by (simp add: image_image case_prod_beta)
    then show ?thesis unfolding i(1) unfolding obj d by simp
  qed simp
qed

text \<open>What is read back, in whatever order it was printed, is equal to the value.\<close>

lemma arrange_equal:
  assumes it: "\<And>kvs. mset (iter env kvs) = mset kvs"
  shows "jsonable env opts v \<Longrightarrow> dynEq (base env) v (readBack env (arrange env opts v))"
proof (induction v rule: measure_induct_rule [of size])
  case (less v)
  let ?f = "\<lambda>x. readBack env (arrange env opts x)"
  consider (arr) xs where "v = ARRAY xs" | (obj) kvs where "v = OBJECT kvs" | (dbl) d where "v = DOUBLE d"
    | (sc) "arrange env opts v = v" "\<And>xs. v \<noteq> ARRAY xs" "\<And>xs. v \<noteq> OBJECT xs" "\<And>d. v \<noteq> DOUBLE d"
    using arrange_scalar by metis
  then show ?case
  proof cases
    case arr
    have "dynEq (base env) x (?f x)" if "x \<in> set xs" for x
      using that less size_elem [OF that] by (simp add: arr jsonable_array list_all_iff)
    then show ?thesis by (subst dynEq.simps) (auto simp: arr arrange_array list_all_iff in_set_zip)
  next
    case obj
    obtain items where i: "arrange env opts v = OBJECT items" "mset items = mset (map (\<lambda>(k, x). (k, arrange env opts x)) kvs)"
      unfolding obj by (rule arrange_object [OF it])
    let ?items = "map (\<lambda>(k, x). (k, readBack env x)) items"
    have p: "plainObject ?items"
      using readBack_jsonable [OF arrange_jsonable [OF it less.prems]] jsonable_plain unfolding i readBack_simps by blast
    have "length ?items = length kvs" using arg_cong [OF i(2), of size] by simp
    moreover have "objFind (base env) ?items k = Some (?f x) \<and> dynEq (base env) x (?f x)"
      if kx: "(k, x) \<in> set kvs" for k x
    proof -
      have "(k, arrange env opts x) \<in> set items" using kx mset_eq_setD [OF i(2)] by force
      then have "(k, ?f x) \<in> set ?items" by force
      then have "map_of ?items k = Some (?f x)" using p by (simp add: plainObject_def del: set_map)
      moreover have "plainKey k" using kx less.prems by (auto simp: obj jsonable_object list_all_iff)
      ultimately show ?thesis using objFind_plain [OF p] less.IH [of x] less.prems size_item [OF kx] kx
        by (auto simp: obj jsonable_object list_all_iff)
    qed
    ultimately show ?thesis unfolding i readBack_simps unfolding obj by (subst dynEq.simps) (auto simp: list_all_iff)
  next
    case dbl
    then have ok: "doubleOk env opts d" using less.prems by (simp add: jsonable.simps)
    have "arrange env opts v = v" using dbl by (simp add: arrange_scalar)
    then show ?thesis unfolding dbl
      by (cases rule: asRead_cases [OF ok]) (simp_all add: dynEq.simps)
  next
    case sc
    then show ?thesis by (subst dynEq.simps) (cases v; auto)
  qed
qed

text \<open>
  C18: what \<^verbatim>\<open>toJson\<close> prints, \<^verbatim>\<open>parseJson\<close> reads back, for values whose object keys are
  distinct strings; whose integers have 64 bits (and fit a floating point number when
  \<^verbatim>\<open>javascript_safe\<close> is set); whose floating point numbers are finite (or allowed not to be) and have a text with a decimal
  point or an exponent that the conversion reads as the same number, or the text of a 64-bit integer of
  the same value; whose strings are either copied or valid texts of code points of the
  basic plane; and which are nested no deeper than \<^verbatim>\<open>recursion_limit\<close>. Under every choice of the printing options,
  and whatever the order in which the items of objects are visited, the value read is equal to the one
  printed (a floating point number with an integer's text is read as the integer), and no
  comment is seen in the text. The options \<^verbatim>\<open>double_fallback\<close> and \<^verbatim>\<open>parse_numbers_as_strings\<close> are off.
\<close>

theorem json_round_trip:
  assumes "length (buffer env) = 20" "\<And>kvs. mset (iter env kvs) = mset kvs"
    "\<not> double_fallback opts" "\<not> parse_numbers_as_strings opts" "jsonable env opts v" "depth v \<le> recursion_limit opts"
  shows "\<exists>t w. serialize env opts v = Inr t \<and> parseJson env opts t = Inr w \<and> dynEq (base env) v w \<and>
    stripComments t = Inr t"
proof -
  let ?v = "arrange env opts v" let ?w = "readBack env ?v" let ?l = "if pretty_formatting opts then Some 0 else None"
  have o: "exactOpts opts" using assms by (simp add: exactOpts_def)
  have j: "jsonable env opts ?v" by (rule arrange_jsonable) fact+
  obtain t where t: "printValue env opts ?l ?v = Inr t" "readsAs env opts ?w t"
    using printed_reads [OF assms(1) o j] readBack_prints [OF assms(1) j] by metis
  obtain r where r: "parseValue env opts (2 * length t + 1) 0 (t @ []) = Inr (?w, r)" "ltrimWhitespace r = ltrimWhitespace []"
    by (rule readsAs_value [OF t(2) order_refl, of 0 "[]"])
      (use assms(6) arrange_depth [where env = env and opts = opts, OF assms(2)] in \<open>simp_all add: delim_def readBack_depth\<close>)
  have "parseJson env opts t = Inr ?w" using r unfolding parseJson_def append_Nil2 by (simp add: ltrimWhitespace_spec)
  then show ?thesis using t(1) arrange_equal [where env = env and opts = opts, OF assms(2,5)] t(2)
    by (auto simp: serialize_def readsAs_def neutral_strips)
qed

text \<open>Two floating point numbers: one half, and two, whose shortest text is that of the integer.\<close>

definition halfEnv :: "bool jenv" where
  "halfEnv = \<lparr>base = \<lparr>dEqual = (=), dLess = (<), dHash = (\<lambda>_. 0), ofInt = (\<lambda>i. i = 2), exactInt = (\<lambda>i. i = 2),
       toInt = (\<lambda>d. if d then Inr 2 else Inl Range_Error), dText = (\<lambda>d. if d then ''2'' else ''0.5''),
       dRead = (\<lambda>w. if w = ''0.5'' then Inr False else if w = ''2'' then Inr True else Inl Range_Error)\<rparr>,
     nanInf = (\<lambda>_. False), posInf = True, negInf = True, quietNan = True, buffer = replicate 20 (CHR ''?''), iter = rev\<rparr>"

lemma halfEnv_ok: "doubleOk halfEnv defaultOpts False" "doubleOk halfEnv defaultOpts True"
proof -
  have "floatText ''0.5''" unfolding floatText_def
    by (intro exI [of _ "[]"] exI [of _ "''0''"] exI [of _ "''.5''"]) (simp add: isdigit_def)
  then show "doubleOk halfEnv defaultOpts False" by (simp add: doubleOk_def halfEnv_def defaultOpts_def)
  have "showInt 2 = ''2''" by code_simp
  then show "doubleOk halfEnv defaultOpts True"
    unfolding doubleOk_def by (auto simp: halfEnv_def defaultOpts_def intro!: exI [of _ 2])
qed

theorem json_round_trip_witness:
  "\<exists>t w. serialize halfEnv defaultOpts (OBJECT [(STRING ''a'', ARRAY [INT64 (- 5), DOUBLE False, DOUBLE True]), (STRING ''b'', STRING [CHR ''x'', CHR 0x22])]) = Inr t \<and>
     parseJson halfEnv defaultOpts t = Inr w \<and>
     dynEq (base halfEnv) (OBJECT [(STRING ''a'', ARRAY [INT64 (- 5), DOUBLE False, DOUBLE True]), (STRING ''b'', STRING [CHR ''x'', CHR 0x22])]) w \<and> stripComments t = Inr t"
  by (rule json_round_trip)
    (simp_all add: halfEnv_ok jsonable.simps plainText_def validates_def depth.simps, simp_all add: halfEnv_def defaultOpts_def)

text \<open>
  With \<^verbatim>\<open>double_fallback\<close>, a negative integer of 18 digits is read as a floating point number
  although it fits, for its sign is counted; and a null byte in a string is accepted.
\<close>

lemma fallback_misses_negative: "\<not> fitsInt True ''-100000000000000000'' \<and> fitsInt False ''100000000000000000''"
  by (simp add: fitsInt_def)

lemma null_byte_accepted: "parseString [CHR 0x22, CHR 0x00, CHR 0x22] = Inr ([CHR 0x00], [])"
proof -
  have "ordinary (CHR 0x00)" by (simp add: ordinary_def)
  then show ?thesis using stringLoop_plain [of "CHR 0x00" "[]"] stringLoop_quote by (simp add: parseString_def startsChar_def)
qed

end
