(* ===== verification/Binary_Serializer.thy ===== *)
theory Binary_Serializer
  imports Buffer_Writer
begin

text \<open>
  The binary serializer: \<^verbatim>\<open>src/raster/serializer/Serializer.h\<close>. The overloads of \<^verbatim>\<open>serialize\<close> and
  \<^verbatim>\<open>unserialize\<close> are chosen by the compiler from the type, which is data here. A number is
  its bytes in memory, read as a little-endian natural. \<^verbatim>\<open>Out\<close> is anything with \<^verbatim>\<open>append\<close>. Reading
  does not check the bounds of the input; a read outside is \<open>Undefined\<close>.
\<close>

section \<open>Types and values\<close>

datatype styp =
    Arith_T nat
  | String_T
  | Vector_T styp
  | Set_T styp
  | Map_T styp styp
  | Pair_T styp styp
  | Struct_T "styp list"

datatype sval =
    Arith nat nat
  | Str "byte list"
  | Vec "sval list"
  | SetV "sval list"
  | MapV "(sval \<times> sval) list"
  | PairV sval sval
  | StructV "sval list"

section \<open>Writing\<close>

definition stringAppend :: "byte list \<Rightarrow> byte list \<Rightarrow> byte list result" where
  "stringAppend out p = Inr (out @ p)"

text \<open>\<^verbatim>\<open>IOBufOuter::append\<close>, which drops the count that \<^verbatim>\<open>pushAtMost\<close> returns.\<close>

definition outerAppend :: "appender \<Rightarrow> byte list \<Rightarrow> appender result" where
  "outerAppend a p = res_bind (pushAtMost a p) (\<lambda>(a1, n). Inr a1)"

text \<open>The size of a container is written as a \<^verbatim>\<open>uint32_t\<close>.\<close>

definition serializeCount :: "('o \<Rightarrow> byte list \<Rightarrow> 'o result) \<Rightarrow> nat \<Rightarrow> 'o \<Rightarrow> 'o result" where
  "serializeCount append1 n out = append1 out (toLE 4 (n mod 2 ^ 32))"

function (sequential) serialize :: "('o \<Rightarrow> byte list \<Rightarrow> 'o result) \<Rightarrow> sval \<Rightarrow> 'o \<Rightarrow> 'o result"
  and serializeAll :: "('o \<Rightarrow> byte list \<Rightarrow> 'o result) \<Rightarrow> sval list \<Rightarrow> 'o \<Rightarrow> 'o result"
  and serializeItems :: "('o \<Rightarrow> byte list \<Rightarrow> 'o result) \<Rightarrow> (sval \<times> sval) list \<Rightarrow> 'o \<Rightarrow> 'o result" where
  "serialize append1 (Arith n x) out = append1 out (toLE n x)"
| "serialize append1 (Str s) out = res_bind (serializeCount append1 (length s) out) (\<lambda>out1. append1 out1 s)"
| "serialize append1 (Vec xs) out = res_bind (serializeCount append1 (length xs) out) (serializeAll append1 xs)"
| "serialize append1 (SetV xs) out = res_bind (serializeCount append1 (length xs) out) (serializeAll append1 xs)"
| "serialize append1 (MapV kvs) out = res_bind (serializeCount append1 (length kvs) out) (serializeItems append1 kvs)"
| "serialize append1 (PairV a b) out = res_bind (serialize append1 a out) (serialize append1 b)"
| "serialize append1 (StructV xs) out = serializeAll append1 xs out"
| "serializeAll append1 [] out = Inr out"
| "serializeAll append1 (x # xs) out = res_bind (serialize append1 x out) (serializeAll append1 xs)"
| "serializeItems append1 [] out = Inr out"
| "serializeItems append1 ((k, v) # kvs) out =
     res_bind (serialize append1 k out) (\<lambda>out1. res_bind (serialize append1 v out1) (serializeItems append1 kvs))"
  by pat_completeness auto
termination
  by (relation "measure (case_sum (\<lambda>(a, v, out). size v)
      (case_sum (\<lambda>(a, xs, out). size_list size xs) (\<lambda>(a, kvs, out). size_list (size_prod size size) kvs)))") auto

section \<open>Reading\<close>

definition add32 :: "nat \<Rightarrow> nat \<Rightarrow> nat" where
  "add32 a b = (a + b) mod 2 ^ 32"

definition sub32 :: "nat \<Rightarrow> nat \<Rightarrow> nat" where
  "sub32 a b = (a + (2 ^ 32 - b)) mod 2 ^ 32"

definition readBytes :: "byte list \<Rightarrow> nat \<Rightarrow> nat \<Rightarrow> byte list result" where
  "readBytes inp pos n = guard (pos + n \<le> length inp) Undefined (Inr (take n (drop pos inp)))"

definition readCount :: "byte list \<Rightarrow> nat \<Rightarrow> nat result" where
  "readCount inp pos = res_bind (readBytes inp pos 4) (\<lambda>bs. Inr (fromLE bs))"

text \<open>Insertion into the ordered containers; an equivalent element stays.\<close>

primrec setInsert :: "(sval \<Rightarrow> sval \<Rightarrow> bool) \<Rightarrow> sval \<Rightarrow> sval list \<Rightarrow> sval list" where
  "setInsert lt x [] = [x]"
| "setInsert lt x (y # ys) =
     (if lt x y then x # y # ys else if lt y x then y # setInsert lt x ys else y # ys)"

primrec mapEmplace :: "(sval \<Rightarrow> sval \<Rightarrow> bool) \<Rightarrow> sval \<times> sval \<Rightarrow> (sval \<times> sval) list \<Rightarrow> (sval \<times> sval) list" where
  "mapEmplace lt x [] = [x]"
| "mapEmplace lt x (y # ys) =
     (if lt (fst x) (fst y) then x # y # ys
      else if lt (fst y) (fst x) then y # mapEmplace lt x ys else y # ys)"

text \<open>The loop over \<open>n\<close> elements from position \<open>p\<close>: the container and the position behind.\<close>

primrec readLoop ::
  "(nat \<Rightarrow> ('e \<times> nat) result) \<Rightarrow> ('e \<Rightarrow> 'e list \<Rightarrow> 'e list) \<Rightarrow> nat \<Rightarrow> nat \<Rightarrow> 'e list \<Rightarrow> ('e list \<times> nat) result" where
  "readLoop f put 0 p acc = Inr (acc, p)"
| "readLoop f put (Suc n) p acc = res_bind (f p) (\<lambda>(v, k). readLoop f put n (add32 p k) (put v acc))"

definition pushElem :: "'e \<Rightarrow> 'e list \<Rightarrow> 'e list" where
  "pushElem v acc = acc @ [v]"

text \<open>The memory that \<^verbatim>\<open>value.reserve(n)\<close> asks for is taken to be there.\<close>

function (sequential) unserialize :: "(sval \<Rightarrow> sval \<Rightarrow> bool) \<Rightarrow> styp \<Rightarrow> byte list \<Rightarrow> nat \<Rightarrow> (sval \<times> nat) result"
  and unserializeFields :: "(sval \<Rightarrow> sval \<Rightarrow> bool) \<Rightarrow> styp list \<Rightarrow> byte list \<Rightarrow> nat \<Rightarrow> (sval list \<times> nat) result" where
  "unserialize lt (Arith_T n) inp pos =
     res_bind (readBytes inp pos n) (\<lambda>bs. Inr (Arith n (fromLE bs), n))"
| "unserialize lt String_T inp pos =
     res_bind (readCount inp pos) (\<lambda>n.
       res_bind (readBytes inp (add32 pos 4) n) (\<lambda>bs. Inr (Str bs, add32 n 4)))"
| "unserialize lt (Vector_T t) inp pos =
     res_bind (readCount inp pos) (\<lambda>n.
       res_bind (readLoop (\<lambda>q. unserialize lt t inp q) pushElem n (add32 pos 4) []) (\<lambda>(xs, p). Inr (Vec xs, sub32 p pos)))"
| "unserialize lt (Set_T t) inp pos =
     res_bind (readCount inp pos) (\<lambda>n.
       res_bind (readLoop (\<lambda>q. unserialize lt t inp q) (setInsert lt) n (add32 pos 4) []) (\<lambda>(xs, p). Inr (SetV xs, sub32 p pos)))"
| "unserialize lt (Map_T tk tv) inp pos =
     res_bind (readCount inp pos) (\<lambda>n.
       res_bind (readLoop (\<lambda>q. res_bind (unserialize lt tk inp q) (\<lambda>(k, i).
           res_bind (unserialize lt tv inp (add32 q i)) (\<lambda>(v, j). Inr ((k, v), add32 i j))))
         (mapEmplace lt) n (add32 pos 4) []) (\<lambda>(kvs, p). Inr (MapV kvs, sub32 p pos)))"
| "unserialize lt (Pair_T t u) inp pos =
     res_bind (unserialize lt t inp pos) (\<lambda>(a, i).
       res_bind (unserialize lt u inp (add32 pos i)) (\<lambda>(b, j). Inr (PairV a b, sub32 (add32 (add32 pos i) j) pos)))"
| "unserialize lt (Struct_T ts) inp pos =
     res_bind (unserializeFields lt ts inp pos) (\<lambda>(xs, p). Inr (StructV xs, sub32 p pos))"
| "unserializeFields lt [] inp p = Inr ([], p)"
| "unserializeFields lt (t # ts) inp p =
     res_bind (unserialize lt t inp p) (\<lambda>(x, k).
       res_bind (unserializeFields lt ts inp (add32 p k)) (\<lambda>(xs, q). Inr (x # xs, q)))"
  by pat_completeness auto
termination
  by (relation "measure (case_sum (\<lambda>(lt, t, inp, pos). size t) (\<lambda>(lt, ts, inp, pos). size_list size ts))") auto

section \<open>The bytes of a value\<close>

function (sequential) image1 :: "sval \<Rightarrow> byte list" where
  "image1 (Arith n x) = toLE n x"
| "image1 (Str s) = toLE 4 (length s mod 2 ^ 32) @ s"
| "image1 (Vec xs) = toLE 4 (length xs mod 2 ^ 32) @ concat (map image1 xs)"
| "image1 (SetV xs) = toLE 4 (length xs mod 2 ^ 32) @ concat (map image1 xs)"
| "image1 (MapV kvs) = toLE 4 (length kvs mod 2 ^ 32) @ concat (map (\<lambda>(k, v). image1 k @ image1 v) kvs)"
| "image1 (PairV a b) = image1 a @ image1 b"
| "image1 (StructV xs) = concat (map image1 xs)"
  by pat_completeness auto
termination
proof (relation "measure size", goal_cases)
  case (4 kvs p k v)
  then have "size k + size v < Suc (size_list (size_prod size size) kvs)" by (induction kvs) auto
  then show ?case by simp
next
  case (5 kvs p k v)
  then have "size k + size v < Suc (size_list (size_prod size size) kvs)" by (induction kvs) auto
  then show ?case by simp
qed (auto simp: less_Suc_eq_le dest: size_list_estimation' [OF _ order_refl])

locale byte_sink =
  fixes append1 :: "'o \<Rightarrow> byte list \<Rightarrow> 'o result" and content :: "'o \<Rightarrow> byte list" and valid :: "'o \<Rightarrow> bool"
  assumes append_ok: "valid out \<Longrightarrow> \<exists>out1. append1 out p = Inr out1 \<and> valid out1 \<and> content out1 = content out @ p"
begin

lemma appends_bind:
  assumes "\<exists>out1. m = Inr out1 \<and> valid out1 \<and> content out1 = c @ p"
    and "\<And>out1. valid out1 \<Longrightarrow> \<exists>out2. f out1 = Inr out2 \<and> valid out2 \<and> content out2 = content out1 @ q"
  shows "\<exists>out2. res_bind m f = Inr out2 \<and> valid out2 \<and> content out2 = c @ p @ q"
proof -
  obtain out1 where o: "m = Inr out1" "valid out1" "content out1 = c @ p" using assms(1) by blast
  then show ?thesis using assms(2) [OF o(2)] by auto
qed

lemma serializeAll_appends:
  assumes "\<And>x out. x \<in> set xs \<Longrightarrow> valid out \<Longrightarrow>
    \<exists>out1. serialize append1 x out = Inr out1 \<and> valid out1 \<and> content out1 = content out @ image1 x" "valid out"
  shows "\<exists>out1. serializeAll append1 xs out = Inr out1 \<and> valid out1 \<and> content out1 = content out @ concat (map image1 xs)"
  using assms
proof (induction xs arbitrary: out)
  case (Cons x xs)
  show ?case unfolding serializeAll.simps list.map concat.simps
    by (rule appends_bind) (use Cons in auto)
qed simp

lemma serializeItems_appends:
  assumes "\<And>k v out. (k, v) \<in> set kvs \<Longrightarrow> valid out \<Longrightarrow>
    (\<exists>out1. serialize append1 k out = Inr out1 \<and> valid out1 \<and> content out1 = content out @ image1 k) \<and>
    (\<exists>out1. serialize append1 v out = Inr out1 \<and> valid out1 \<and> content out1 = content out @ image1 v)" "valid out"
  shows "\<exists>out1. serializeItems append1 kvs out = Inr out1 \<and> valid out1 \<and>
    content out1 = content out @ concat (map (\<lambda>(k, v). image1 k @ image1 v) kvs)"
  using assms
proof (induction kvs arbitrary: out)
  case (Cons kv kvs)
  obtain k v where kv: "kv = (k, v)" by (cases kv)
  have s: "\<exists>out1. serialize append1 w out = Inr out1 \<and> valid out1 \<and> content out1 = content out @ image1 w"
    if "valid out" "w = k \<or> w = v" for w out using Cons.prems(1) [of k v out] that kv by auto
  have r: "\<exists>out1. serializeItems append1 kvs out = Inr out1 \<and> valid out1 \<and>
      content out1 = content out @ concat (map (\<lambda>(k, v). image1 k @ image1 v) kvs)" if "valid out" for out
    by (rule Cons.IH [OF _ that], rule Cons.prems(1)) simp_all
  show ?case unfolding kv serializeItems.simps list.map concat.simps prod.case append_assoc
    by (intro appends_bind s r Cons.prems(2)) simp_all
qed simp

lemma count_appends:
  "valid out \<Longrightarrow> \<exists>out1. serializeCount append1 n out = Inr out1 \<and> valid out1 \<and> content out1 = content out @ toLE 4 (n mod 2 ^ 32)"
  using append_ok by (simp add: serializeCount_def)

text \<open>Whatever the output, what is written is the bytes of the value.\<close>

lemma serialize_appends:
  "valid out \<Longrightarrow> \<exists>out1. serialize append1 v out = Inr out1 \<and> valid out1 \<and> content out1 = content out @ image1 v"
proof (induction v arbitrary: out)
  case (MapV kvs)
  show ?case unfolding serialize.simps image1.simps
    by (rule appends_bind [OF count_appends [OF MapV.prems]], rule serializeItems_appends)
      (use MapV.IH in \<open>auto simp: fsts.simps snds.simps\<close>)
qed (auto simp del: res_bind_eq_Inr intro!: appends_bind count_appends [simplified] append_ok serializeAll_appends)

end

interpretation text_out: byte_sink stringAppend "\<lambda>out. out" "\<lambda>_. True"
  by unfold_locales (simp add: stringAppend_def)

lemma writeTail_growth: "writeTail a d = Inr a1 \<Longrightarrow> growth a1 = growth a"
  by (auto simp: writeTail_def appAppend_def Let_def res_bind_eq_Inr)

lemma growBy_growth: "growth (growBy a n) = growth a"
  by (simp add: growBy_def split: prod.split)

lemma pushLoop_growth: "pushLoop n a d c = Inr (a1, k) \<Longrightarrow> growth a1 = growth a"
proof (induction n arbitrary: a d c)
  case (Suc n)
  then show ?case
    by (auto simp: Let_def res_bind_eq_Inr tryGrowChain_def growBy_growth split: if_splits dest!: Suc.IH writeTail_growth)
qed simp

interpretation buffer_out: byte_sink outerAppend appContent "\<lambda>a. appender_ok S a \<and> growth a \<noteq> 0" for S
proof
  fix out p assume v: "appender_ok S out \<and> growth out \<noteq> 0"
  then obtain a1 where a: "pushAtMost out p = Inr (a1, length p)" "appender_ok S a1" "appContent a1 = appContent out @ p"
    using pushAtMost_ok [of S out p] by auto
  then show "\<exists>out1. outerAppend out p = Inr out1 \<and> (appender_ok S out1 \<and> growth out1 \<noteq> 0) \<and> appContent out1 = appContent out @ p"
    using v pushLoop_growth [of "length p + 1" out p 0 a1 "length p"] by (simp add: outerAppend_def pushAtMost_def)
qed

section \<open>Reading inverts writing\<close>

text \<open>A reader that finds a value in its bytes, wherever they are, and runs off the input when they are cut.\<close>

definition decodes :: "(byte list \<Rightarrow> nat \<Rightarrow> ('e \<times> nat) result) \<Rightarrow> byte list \<Rightarrow> 'e \<Rightarrow> bool" where
  "decodes f img v \<longleftrightarrow>
     (\<forall>pre post. length pre + length img + length post < 2 ^ 32 \<longrightarrow> f (pre @ img @ post) (length pre) = Inr (v, length img)) \<and>
     (\<forall>pre k. k < length img \<longrightarrow> length pre + k < 2 ^ 32 \<longrightarrow> f (pre @ take k img) (length pre) = Inl Undefined)"

lemma decodesD:
  assumes "decodes f img v"
  shows "length pre + length img + length post < 2 ^ 32 \<Longrightarrow> f (pre @ img @ post) (length pre) = Inr (v, length img)"
    "k < length img \<Longrightarrow> length pre + k < 2 ^ 32 \<Longrightarrow> f (pre @ take k img) (length pre) = Inl Undefined"
  using assms by (simp_all add: decodes_def)

lemma arith32:
  "a + b < 2 ^ 32 \<Longrightarrow> add32 a b = a + b" "a + b < 2 ^ 32 \<Longrightarrow> sub32 (a + b) a = b"
  by (simp_all add: add32_def sub32_def)

text \<open>One value behind another.\<close>

lemma decodes_seq:
  assumes f: "decodes f a x" and g: "decodes g b y"
    and h: "\<And>inp q. h inp q = res_bind (f inp q) (\<lambda>(x, i). res_bind (g inp (add32 q i)) (\<lambda>(y, j). r q i j x y))"
    and r: "\<And>q. q + length a + length b < 2 ^ 32 \<Longrightarrow> r q (length a) (length b) x y = Inr (z, length a + length b)"
  shows "decodes h (a @ b) z"
  unfolding decodes_def
proof (intro conjI allI impI)
  fix pre post :: "byte list" assume l: "length pre + length (a @ b) + length post < 2 ^ 32"
  have "f (pre @ a @ b @ post) (length pre) = Inr (x, length a)" using l by (intro decodesD(1) [OF f]) simp
  moreover have "g ((pre @ a) @ b @ post) (length (pre @ a)) = Inr (y, length b)" using l by (intro decodesD(1) [OF g]) simp
  ultimately show "h (pre @ (a @ b) @ post) (length pre) = Inr (z, length (a @ b))"
    using l r [of "length pre"] by (simp add: h arith32)
next
  fix pre :: "byte list" and k assume k: "k < length (a @ b)" and l: "length pre + k < 2 ^ 32"
  show "h (pre @ take k (a @ b)) (length pre) = Inl Undefined"
  proof (cases "k < length a")
    case True
    then show ?thesis using decodesD(2) [OF f True l] by (simp add: h)
  next
    case False
    have "f (pre @ a @ take (k - length a) b) (length pre) = Inr (x, length a)"
      using l False k by (intro decodesD(1) [OF f]) simp
    moreover have "g ((pre @ a) @ take (k - length a) b) (length (pre @ a)) = Inl Undefined"
      using l False k by (intro decodesD(2) [OF g]) simp_all
    ultimately show ?thesis using False k l by (simp add: h arith32)
  qed
qed

lemma readBytes_decodes: "decodes (\<lambda>inp pos. res_bind (readBytes inp pos (length bs)) (\<lambda>bs. Inr (bs, length bs))) bs bs"
  by (simp add: decodes_def readBytes_def)

text \<open>Many values, behind each other.\<close>

lemma readLoop_full:
  assumes "list_all2 (decodes f) imgs xs" "length pre + length (concat imgs) + length post < 2 ^ 32"
  shows "readLoop (f (pre @ concat imgs @ post)) put (length xs) (length pre) acc =
    Inr (foldl (\<lambda>acc x. put x acc) acc xs, length pre + length (concat imgs))"
  using assms
proof (induction imgs xs arbitrary: pre acc rule: list_all2_induct)
  case (Cons img imgs x xs)
  have "f (pre @ img @ concat imgs @ post) (length pre) = Inr (x, length img)"
    using Cons.prems by (intro decodesD(1) [OF Cons.hyps(1)]) simp
  then show ?case using Cons.IH [of "pre @ img"] Cons.prems by (simp add: arith32)
qed simp

lemma readLoop_cut:
  assumes "list_all2 (decodes f) imgs xs" "k < length (concat imgs)" "length pre + k < 2 ^ 32"
  shows "readLoop (f (pre @ take k (concat imgs))) put (length xs) (length pre) acc = Inl Undefined"
  using assms
proof (induction imgs xs arbitrary: pre acc k rule: list_all2_induct)
  case (Cons img imgs x xs)
  show ?case
  proof (cases "k < length img")
    case True
    then show ?thesis using decodesD(2) [OF Cons.hyps(1) True Cons.prems(2)] by simp
  next
    case False
    have "f (pre @ img @ take (k - length img) (concat imgs)) (length pre) = Inr (x, length img)"
      using Cons.prems False by (intro decodesD(1) [OF Cons.hyps(1)]) simp
    then show ?thesis using Cons.IH [of "k - length img" "pre @ img"] Cons.prems False by (simp add: arith32)
  qed
qed simp

lemma readCount_at:
  assumes "n < 2 ^ 32"
  shows "readCount (pre @ toLE 4 (n mod 2 ^ 32) @ post) (length pre) = Inr n"
  using assms from_toLE [of 4 n] by (simp add: readCount_def readBytes_def)

lemma readCount_cut: "k < 4 \<Longrightarrow> readCount (pre @ take k (toLE 4 n @ post)) (length pre) = Inl Undefined"
  by (simp add: readCount_def readBytes_def)

lemma decodes_container:
  assumes fs: "list_all2 (decodes f) imgs xs" and n: "length xs < 2 ^ 32" and p: "foldl (\<lambda>acc x. put x acc) [] xs = xs"
    and h: "\<And>inp pos. h inp pos = res_bind (readCount inp pos) (\<lambda>n.
      res_bind (readLoop (f inp) put n (add32 pos 4) []) (\<lambda>(xs, p). Inr (C xs, sub32 p pos)))"
  shows "decodes h (toLE 4 (length xs mod 2 ^ 32) @ concat imgs) (C xs)"
  unfolding decodes_def
proof (intro conjI allI impI)
  let ?c = "toLE 4 (length xs mod 2 ^ 32)"
  fix pre post :: "byte list" assume l: "length pre + length (?c @ concat imgs) + length post < 2 ^ 32"
  have "readLoop (f ((pre @ ?c) @ concat imgs @ post)) put (length xs) (length (pre @ ?c)) [] =
      Inr (xs, length (pre @ ?c) + length (concat imgs))"
    using readLoop_full [OF fs, of "pre @ ?c" post put "[]"] l p by simp
  then show "h (pre @ (?c @ concat imgs) @ post) (length pre) = Inr (C xs, length (?c @ concat imgs))"
    using readCount_at [OF n, of pre "concat imgs @ post"] l arith32(2) [of "length pre" "4 + length (concat imgs)"]
    by (simp add: h arith32(1) add.assoc)
next
  let ?c = "toLE 4 (length xs mod 2 ^ 32)"
  fix pre :: "byte list" and k assume k: "k < length (?c @ concat imgs)" and l: "length pre + k < 2 ^ 32"
  show "h (pre @ take k (?c @ concat imgs)) (length pre) = Inl Undefined"
  proof (cases "k < 4")
    case True
    then show ?thesis using readCount_cut [OF True] by (simp add: h)
  next
    case False
    have "readLoop (f ((pre @ ?c) @ take (k - 4) (concat imgs))) put (length xs) (length (pre @ ?c)) [] = Inl Undefined"
      using k l False by (intro readLoop_cut [OF fs]) simp_all
    then show ?thesis using readCount_at [OF n, of pre "take (k - 4) (concat imgs)"] False l by (simp add: h arith32(1))
  qed
qed

lemma decodes_string:
  assumes "length s < 2 ^ 32"
  shows "decodes (unserialize lt String_T) (toLE 4 (length s mod 2 ^ 32) @ s) (Str s)"
  unfolding decodes_def
proof (intro conjI allI impI)
  let ?c = "toLE 4 (length s mod 2 ^ 32)"
  fix pre post :: "byte list" assume l: "length pre + length (?c @ s) + length post < 2 ^ 32"
  then show "unserialize lt String_T (pre @ (?c @ s) @ post) (length pre) = Inr (Str s, length (?c @ s))"
    using readCount_at [OF assms, of pre "s @ post"] by (simp add: arith32(1) readBytes_def)
next
  let ?c = "toLE 4 (length s mod 2 ^ 32)"
  fix pre :: "byte list" and k assume k: "k < length (?c @ s)" and l: "length pre + k < 2 ^ 32"
  show "unserialize lt String_T (pre @ take k (?c @ s)) (length pre) = Inl Undefined"
  proof (cases "k < 4")
    case True
    then show ?thesis using readCount_cut [OF True] by simp
  next
    case False
    then show ?thesis using readCount_at [OF assms, of pre "take (k - 4) s"] k l by (simp add: arith32(1) readBytes_def)
  qed
qed

lemma decodes_fields:
  assumes "list_all2 (\<lambda>t x. decodes (unserialize lt t) (image1 x) x) ts xs"
  shows "decodes (unserialize lt (Struct_T ts)) (concat (map image1 xs)) (StructV xs)"
proof -
  have full: "unserializeFields lt ts (pre @ concat (map image1 xs) @ post) (length pre) = Inr (xs, length pre + length (concat (map image1 xs)))"
    if "length pre + length (concat (map image1 xs)) + length post < 2 ^ 32" for pre post
    using assms that
  proof (induction ts xs arbitrary: pre rule: list_all2_induct)
    case (Cons t ts x xs)
    have "unserialize lt t (pre @ image1 x @ concat (map image1 xs) @ post) (length pre) = Inr (x, length (image1 x))"
      using Cons.prems by (intro decodesD(1) [OF Cons.hyps(1)]) simp
    then show ?case using Cons.IH [of "pre @ image1 x"] Cons.prems by (simp add: arith32)
  qed simp
  have cut: "unserializeFields lt ts (pre @ take k (concat (map image1 xs))) (length pre) = Inl Undefined"
    if "k < length (concat (map image1 xs))" "length pre + k < 2 ^ 32" for pre k
    using assms that
  proof (induction ts xs arbitrary: pre k rule: list_all2_induct)
    case (Cons t ts x xs)
    show ?case
    proof (cases "k < length (image1 x)")
      case True
      then show ?thesis using decodesD(2) [OF Cons.hyps(1) True Cons.prems(2)] by simp
    next
      case False
      have "unserialize lt t (pre @ image1 x @ take (k - length (image1 x)) (concat (map image1 xs))) (length pre) = Inr (x, length (image1 x))"
        using Cons.prems False by (intro decodesD(1) [OF Cons.hyps(1)]) simp
      then show ?thesis using Cons.IH [of "k - length (image1 x)" "pre @ image1 x"] Cons.prems False by (simp add: arith32)
    qed
  qed simp
  show ?thesis unfolding decodes_def using full cut by (simp add: arith32)
qed

section \<open>Typed values\<close>

text \<open>The values of a type; the elements of sets and the keys of maps are in order.\<close>

fun hasType :: "(sval \<Rightarrow> sval \<Rightarrow> bool) \<Rightarrow> styp \<Rightarrow> sval \<Rightarrow> bool" where
  "hasType lt (Arith_T n) (Arith m x) = (m = n \<and> x < 256 ^ n)"
| "hasType lt String_T (Str s) = (length s < 2 ^ 32)"
| "hasType lt (Vector_T t) (Vec xs) = (length xs < 2 ^ 32 \<and> list_all (\<lambda>x. hasType lt t x) xs)"
| "hasType lt (Set_T t) (SetV xs) = (length xs < 2 ^ 32 \<and> sorted_wrt lt xs \<and> list_all (\<lambda>x. hasType lt t x) xs)"
| "hasType lt (Map_T tk tv) (MapV kvs) =
     (length kvs < 2 ^ 32 \<and> sorted_wrt lt (map fst kvs) \<and> list_all (\<lambda>(k, v). hasType lt tk k \<and> hasType lt tv v) kvs)"
| "hasType lt (Pair_T t u) (PairV a b) = (hasType lt t a \<and> hasType lt u b)"
| "hasType lt (Struct_T []) (StructV []) = True"
| "hasType lt (Struct_T (t # ts)) (StructV (x # xs)) = (hasType lt t x \<and> hasType lt (Struct_T ts) (StructV xs))"
| "hasType lt _ _ = False"

lemma push_all: "foldl (\<lambda>acc x. pushElem x acc) acc xs = acc @ xs"
  by (induction xs arbitrary: acc) (simp_all add: pushElem_def)

lemma setInsert_last: "\<forall>y \<in> set ys. lt y x \<Longrightarrow> (\<And>x y. lt x y \<Longrightarrow> \<not> lt y x) \<Longrightarrow> setInsert lt x ys = ys @ [x]"
  by (induction ys) auto

lemma set_all:
  assumes "\<And>x y. lt x y \<Longrightarrow> \<not> lt y x" "sorted_wrt lt (acc @ xs)"
  shows "foldl (\<lambda>acc x. setInsert lt x acc) acc xs = acc @ xs"
  using assms(2)
proof (induction xs arbitrary: acc)
  case (Cons x xs)
  have "setInsert lt x acc = acc @ [x]"
    by (rule setInsert_last) (use Cons.prems assms(1) in \<open>auto simp: sorted_wrt_append\<close>)
  then show ?case using Cons.IH [of "acc @ [x]"] Cons.prems by simp
qed simp

lemma mapEmplace_last: "\<forall>y \<in> set ys. lt (fst y) (fst x) \<Longrightarrow> (\<And>x y. lt x y \<Longrightarrow> \<not> lt y x) \<Longrightarrow> mapEmplace lt x ys = ys @ [x]"
  by (induction ys) auto

lemma map_all:
  assumes "\<And>x y. lt x y \<Longrightarrow> \<not> lt y x" "sorted_wrt lt (map fst (acc @ xs))"
  shows "foldl (\<lambda>acc x. mapEmplace lt x acc) acc xs = acc @ xs"
  using assms(2)
proof (induction xs arbitrary: acc)
  case (Cons x xs)
  have "mapEmplace lt x acc = acc @ [x]"
    by (rule mapEmplace_last) (use Cons.prems assms(1) in \<open>auto simp: sorted_wrt_append\<close>)
  then show ?case using Cons.IH [of "acc @ [x]"] Cons.prems by simp
qed simp

lemma hasType_struct: "hasType lt (Struct_T ts) v \<Longrightarrow> \<exists>xs. v = StructV xs \<and> list_all2 (hasType lt) ts xs"
  by (induction lt "Struct_T ts" v arbitrary: ts rule: hasType.induct) auto

lemma elements_decode:
  "(\<And>x. hasType lt t x \<Longrightarrow> decodes (unserialize lt t) (image1 x) x) \<Longrightarrow> list_all (\<lambda>x. hasType lt t x) xs \<Longrightarrow>
   list_all2 (decodes (unserialize lt t)) (map image1 xs) xs"
  by (induction xs) auto

lemma items_decode:
  assumes k: "\<And>k. hasType lt tk k \<Longrightarrow> decodes (unserialize lt tk) (image1 k) k"
    and v: "\<And>v. hasType lt tv v \<Longrightarrow> decodes (unserialize lt tv) (image1 v) v"
    and "list_all (\<lambda>(k, v). hasType lt tk k \<and> hasType lt tv v) kvs"
  shows "list_all2 (decodes (\<lambda>inp q. res_bind (unserialize lt tk inp q) (\<lambda>(k, i).
      res_bind (unserialize lt tv inp (add32 q i)) (\<lambda>(v, j). Inr ((k, v), add32 i j)))))
    (map (\<lambda>(k, v). image1 k @ image1 v) kvs) kvs"
  using assms(3)
proof (induction kvs)
  case (Cons kv kvs)
  obtain a b where kv: "kv = (a, b)" by (cases kv)
  have "decodes (\<lambda>inp q. res_bind (unserialize lt tk inp q) (\<lambda>(k, i).
      res_bind (unserialize lt tv inp (add32 q i)) (\<lambda>(v, j). Inr ((k, v), add32 i j)))) (image1 a @ image1 b) (a, b)"
    by (rule decodes_seq [OF k v, where r = "\<lambda>q i j x y. Inr ((x, y), add32 i j)"])
      (use Cons.prems kv in \<open>simp_all add: arith32\<close>)
  then show ?case using Cons kv by simp
qed simp

lemma typed_decodes:
  assumes lt: "\<And>x y. lt x y \<Longrightarrow> \<not> lt y x"
  shows "hasType lt t v \<Longrightarrow> decodes (unserialize lt t) (image1 v) v"
proof (induction t arbitrary: v)
  case (Arith_T n)
  then obtain x where "v = Arith n x" "x < 256 ^ n" by (cases v) auto
  then show ?case by (simp add: decodes_def readBytes_def from_toLE)
next
  case String_T
  then obtain s where v: "v = Str s" and n: "length s < 2 ^ 32" by (cases v) auto
  show ?case unfolding v image1.simps by (rule decodes_string [OF n])
next
  case (Vector_T t)
  then obtain xs where v: "v = Vec xs" and n: "length xs < 2 ^ 32" and xs: "list_all (\<lambda>x. hasType lt t x) xs" by (cases v) auto
  show ?case unfolding v image1.simps
    by (rule decodes_container [OF elements_decode [OF Vector_T.IH xs] n]) (simp_all add: push_all)
next
  case (Set_T t)
  then obtain xs where v: "v = SetV xs" and n: "length xs < 2 ^ 32" and so: "sorted_wrt lt xs"
    and xs: "list_all (\<lambda>x. hasType lt t x) xs" by (cases v) auto
  show ?case unfolding v image1.simps
    by (rule decodes_container [OF elements_decode [OF Set_T.IH xs] n]) (simp_all add: set_all [OF lt] so)
next
  case (Map_T tk tv)
  then obtain kvs where v: "v = MapV kvs" and n: "length kvs < 2 ^ 32" and so: "sorted_wrt lt (map fst kvs)"
    and xs: "list_all (\<lambda>(k, v). hasType lt tk k \<and> hasType lt tv v) kvs" by (cases v) auto
  show ?case unfolding v image1.simps
    by (rule decodes_container [OF items_decode [OF Map_T.IH xs] n]) (simp_all add: map_all [OF lt] so)
next
  case (Pair_T t u)
  then obtain a b where v: "v = PairV a b" and ab: "hasType lt t a" "hasType lt u b" by (cases v) auto
  show ?case unfolding v image1.simps
    by (rule decodes_seq [OF Pair_T.IH(1) [OF ab(1)] Pair_T.IH(2) [OF ab(2)],
          where r = "\<lambda>q i j x y. Inr (PairV x y, sub32 (add32 (add32 q i) j) q)"])
      (simp_all add: arith32 add.assoc)
next
  case (Struct_T ts)
  then obtain xs where v: "v = StructV xs" and xs: "list_all2 (hasType lt) ts xs" using hasType_struct by blast
  have "list_all2 (\<lambda>t x. decodes (unserialize lt t) (image1 x) x) ts xs"
    using xs Struct_T.IH by (auto simp: list_all2_conv_all_nth)
  then show ?case unfolding v image1.simps by (rule decodes_fields)
qed

section \<open>Properties\<close>

text \<open>
  C20: The binary serializer. What is written of a value, to a string or through a growing
  buffer chain, is the same bytes behind what was there; they are read back as the
  value, from any position, as long as input and containers have fewer than \<open>2\<^sup>3\<^sup>2\<close> bytes
  and elements and the order of sets and maps is asymmetric. Of an input that is cut
  short the reader reads past the end.
\<close>

theorem serialize_round_trip:
  assumes "hasType lt t v" "\<And>x y. lt x y \<Longrightarrow> \<not> lt y x" "length pre + length (image1 v) + length post < 2 ^ 32"
    "appender_ok S a" "growth a \<noteq> 0"
  shows "serialize stringAppend v pre = Inr (pre @ image1 v) \<and>
    (\<exists>a1. serialize outerAppend v a = Inr a1 \<and> appender_ok S a1 \<and> appContent a1 = appContent a @ image1 v) \<and>
    unserialize lt t (pre @ image1 v @ post) (length pre) = Inr (v, length (image1 v)) \<and>
    (\<forall>k. k < length (image1 v) \<longrightarrow> unserialize lt t (pre @ take k (image1 v)) (length pre) = Inl Undefined)"
proof -
  have d: "decodes (unserialize lt t) (image1 v) v" by (rule typed_decodes [OF assms(2,1)])
  have "serialize stringAppend v pre = Inr (pre @ image1 v)" using text_out.serialize_appends [of v pre] by simp
  moreover have "\<exists>a1. serialize outerAppend v a = Inr a1 \<and> appender_ok S a1 \<and> appContent a1 = appContent a @ image1 v"
    using buffer_out.serialize_appends [OF conjI [OF assms(4,5)], of v] by blast
  moreover have "unserialize lt t (pre @ image1 v @ post) (length pre) = Inr (v, length (image1 v))"
    by (rule decodesD(1) [OF d assms(3)])
  moreover have "unserialize lt t (pre @ take k (image1 v)) (length pre) = Inl Undefined" if "k < length (image1 v)" for k
    by (rule decodesD(2) [OF d that]) (use that assms(3) in simp)
  ultimately show ?thesis by blast
qed

definition demoAppender :: appender where
  "demoAppender = \<lparr>aheap = demoHeap\<lparr>blocks := [0 \<mapsto> \<lparr>cells = [7, 8, 9, 7],
     info = Some \<lparr>refcount = 1, freeFn = Malloced\<rparr>\<rparr>]\<rparr>, achain = [demoBuf], growth = 2\<rparr>"

lemma toLE_small:
  "toLE 2 x = [of_nat (x mod 256), of_nat (x div 256 mod 256)]"
  "toLE 4 x = [of_nat (x mod 256), of_nat (x div 256 mod 256), of_nat (x div 256 div 256 mod 256), of_nat (x div 256 div 256 div 256 mod 256)]"
proof -
  have n: "2 = Suc (Suc 0)" "4 = Suc (Suc (Suc (Suc 0)))" by simp_all
  show "toLE 2 x = [of_nat (x mod 256), of_nat (x div 256 mod 256)]" unfolding n(1) by (simp only: toLE.simps)
  show "toLE 4 x = [of_nat (x mod 256), of_nat (x div 256 mod 256), of_nat (x div 256 div 256 mod 256),
      of_nat (x div 256 div 256 div 256 mod 256)]" unfolding n(2) by (simp only: toLE.simps)
qed

theorem serialize_round_trip_witness:
  "(\<exists>a1. serialize outerAppend (PairV (Str [65, 66]) (Vec [Arith 2 258])) demoAppender = Inr a1 \<and>
      appContent a1 = appContent demoAppender @ [2, 0, 0, 0, 65, 66, 1, 0, 0, 0, 2, 1]) \<and>
   unserialize (\<lambda>_ _. False) (Pair_T String_T (Vector_T (Arith_T 2))) [9, 2, 0, 0, 0, 65, 66, 1, 0, 0, 0, 2, 1, 7] 1 =
     Inr (PairV (Str [65, 66]) (Vec [Arith 2 258]), 12) \<and>
   unserialize (\<lambda>_ _. False) (Pair_T String_T (Vector_T (Arith_T 2))) [9, 2, 0, 0, 0, 65] 1 = Inl Undefined"
proof -
  let ?v = "PairV (Str [65, 66]) (Vec [Arith 2 258])" and ?t = "Pair_T String_T (Vector_T (Arith_T 2))"
  have i: "image1 ?v = [2, 0, 0, 0, 65, 66, 1, 0, 0, 0, 2, 1]" by (simp add: toLE_small)
  have a: "appender_ok {#} demoAppender" unfolding demoAppender_def by (rule demo_appender)
  note r = serialize_round_trip [of "\<lambda>_ _. False" ?t ?v "[9]" "[7]" "{#}" demoAppender, OF _ _ _ a, unfolded i]
  show ?thesis using r by (auto simp: demoAppender_def dest!: spec [of _ "5 :: nat"])
qed

text \<open>A container of \<open>2\<^sup>3\<^sup>2\<close> elements is written with the count 0.\<close>

lemma count_wraps: "serializeCount stringAppend (2 ^ 32) out = Inr (out @ [0, 0, 0, 0])"
  by (simp add: serializeCount_def stringAppend_def toLE_small)

end
