(* ===== verification/Spec2Isabelle.thy ===== *)
theory Spec2Isabelle
  imports Wait_Group Job_Scheduler Event_Loop Wire_Protocol Chain_Links Evicting_Cache Generators
    Producer_Consumer Spin_Locks Base64_Codec Json_Text Binary_Serializer
begin

text \<open>
  A verification development for the raster service framework (\<^verbatim>\<open>src/raster\<close>), a C++
  library for asynchronous network services.

  \<^bold>\<open>The program.\<close> An event loop (\<^verbatim>\<open>io/event\<close>) polls sockets and drives every connection
  through a state machine of events; deadlines of idle connections sit in a
  timed heap (\<^verbatim>\<open>util/TimedHeap.h\<close>). What has been read is handed to an actor, which runs
  tasks on thread pools; tasks that depend on each other form a graph
  (\<^verbatim>\<open>parallel\<close>), possibly built from the names of registered jobs, and tasks that
  wait for several answers are counted in groups. Bytes travel in chains of
  reference-counted buffers (\<^verbatim>\<open>io/IOBuf\<close>), read and written through cursors
  (\<^verbatim>\<open>io/Cursor.h\<close>). Around this core are containers and utilities: push-style
  generators (\<^verbatim>\<open>gen\<close>), an evicting cache, a lock-free queue, spinning locks, a Base64
  codec, strings, numbers as text, UTF-8, dynamic values and JSON (\<^verbatim>\<open>util\<close>), and a
  binary serializer (\<^verbatim>\<open>serializer\<close>).

  \<^bold>\<open>Conventions.\<close> A class is a record, an enumeration a datatype, a method a function
  of the same name (suffixed or prefixed where the name is taken) from the old
  state to the new one. \<^verbatim>\<open>Prelude\<close> defines \<open>result\<close>: \<open>Inr\<close> is a normal return, \<open>Inl\<close> a
  fault, that is an exception, a failed assertion or check, a null dereference,
  undefined behaviour, or a loop that does not end (\<open>Diverges\<close>). Loops whose bound
  is not structural carry a counter; the theorems show that the counter the
  code's data gives (elements left in the list or chain, bytes left plus one,
  size of the ring) is enough, so \<open>Diverges\<close> never hides a result. Numbers are of
  the width of the source where the width matters: \<open>32 word\<close> and \<open>8 word\<close> for locks and
  Base64, naturals modulo \<open>2\<^sup>6\<^sup>4\<close> for \<^verbatim>\<open>size_t\<close> in buffers and deadlines. Code that is
  not in the repository is a parameter: the top of a standard heap, the results
  of system calls, hash orders, the random generator, callbacks of the user.
  Concurrency is interleaving: every access to shared data is a step, and the
  theorems quantify over all schedules; blocks under a lock are one step.

  \<^bold>\<open>Theories.\<close>
  \<^item> \<^verbatim>\<open>Prelude\<close>: faults and results, lemmas on lists, counts, and finite relations.
  \<^item> \<^verbatim>\<open>Wait_Group\<close> (\<^verbatim>\<open>parallel/Group.h\<close>): the pool of group keys. An interpreted locale
    gives the barrier property: the last member of a group, and no other, is told
    that the group is finished.
  \<^item> \<^verbatim>\<open>Task_Graph\<close>, \<^verbatim>\<open>Task_Run\<close> (\<^verbatim>\<open>parallel/DAG.h\<close>): building a graph, Kahn's cycle check, and the
    run, both as the recursion the code makes on one thread and as a step relation
    for a pool, in which an executor fires the edges of all nodes it was added as. The check decides
    acyclicity; when every node has an executor of its own, a run starts every node once, after
    its predecessors, and ends with the sink, in every interleaving.
  \<^item> \<^verbatim>\<open>Job_Scheduler\<close> (\<^verbatim>\<open>parallel/Graph.h\<close>, \<^verbatim>\<open>Scheduler.h\<close>, \<^verbatim>\<open>JobExecutor.h\<close>, \<^verbatim>\<open>util/ReflectObject.h\<close>): named graphs
    and the scheduler that resolves the names and starts the graph.
  \<^item> \<^verbatim>\<open>Timed_Heap\<close> (\<^verbatim>\<open>util/TimedHeap.h\<close>, \<^verbatim>\<open>Time.h\<close>): the heap with lazy deletion refines a map of
    armed deadlines.
  \<^item> \<^verbatim>\<open>Event_Loop\<close> (\<^verbatim>\<open>io/event/Event\<close>, \<^verbatim>\<open>EventLoop\<close>, \<^verbatim>\<open>EventHandler\<close>, \<^verbatim>\<open>Poll\<close>): events live in an explicit store, so
    that use after delete is a fault. No handler and no turn of the loop faults
    or leaves a dangling registration, except for the forwarded client event,
    which is shown to be used after its deletion. A check of the deadlines closes or puts back
    every event that is due.
  \<^item> \<^verbatim>\<open>Buffer_Cursor\<close>, \<^verbatim>\<open>Buffer_Writer\<close> (\<^verbatim>\<open>io/Cursor.h\<close>): reading, writing and cloning over chains depend on
    the bytes only, not on how they are split; integers written are read back.
    \<^verbatim>\<open>Writable\<close> is a locale, interpreted on the appender.
  \<^item> \<^verbatim>\<open>IO_Buffer\<close> (\<^verbatim>\<open>io/IOBuf.h\<close>, \<^verbatim>\<open>IOBuf.cpp\<close>): blocks, reference counts and chains as lists. Clones
    outlive their originals, unsharing isolates, reserving gives room, and
    coalescing keeps the bytes; every released block is released once.
    Memory is always available, sizes satisfy \<open>n + 31 < 2\<^sup>6\<^sup>4\<close>, and fewer than \<open>2\<^sup>3\<^sup>2\<close>
    buffers share a block.
  \<^item> \<^verbatim>\<open>Chain_Links\<close> (the same files): the ring of \<^verbatim>\<open>next_\<close> and \<^verbatim>\<open>prev_\<close> implements those lists.
  \<^item> \<^verbatim>\<open>Wire_Protocol\<close> (\<^verbatim>\<open>net/Protocol.h\<close>, \<^verbatim>\<open>Protocol.cpp\<close>, \<^verbatim>\<open>protocol/binary\<close>, \<^verbatim>\<open>io/TypedIOBuf.h\<close>): from the
    socket, a parameter with the guarantees of a byte stream, to messages and
    back, over the buffers above. A frame is received whole whatever the pieces it
    arrives in, and sent once and in order; the delimiter read is shown to use a
    released buffer when the data outgrows the first one.
  \<^item> \<^verbatim>\<open>Evicting_Cache\<close> (\<^verbatim>\<open>util/EvictingCacheMap.h\<close>): index and list refine a list of entries in
    order of use, within the limit.
  \<^item> \<^verbatim>\<open>Generators\<close> (\<^verbatim>\<open>gen/Core-inl.h\<close>, \<^verbatim>\<open>Base-inl.h\<close>, \<^verbatim>\<open>Combine-inl.h\<close>): a generator is a function of the answers of its
    handler; a locale states the contract of \<^verbatim>\<open>apply\<close>, and the operators are the list
    functions they are named for. The operators that break the contract are stated as such.
  \<^item> \<^verbatim>\<open>Producer_Consumer\<close> (\<^verbatim>\<open>util/ProducerConsumerQueue.h\<close>): first in, first out under every
    interleaving of the two threads.
  \<^item> \<^verbatim>\<open>Spin_Locks\<close> (\<^verbatim>\<open>util/SpinLock.h\<close>, \<^verbatim>\<open>RWSpinLock.h\<close>): mutual exclusion under every schedule. The
    interface of a lock taken by trying is a locale.
  \<^item> \<^verbatim>\<open>Base64_Codec\<close> (\<^verbatim>\<open>util/Base64.h\<close>, \<^verbatim>\<open>Base64-inl.h\<close>): decoding inverts encoding, in bounds.
  \<^item> \<^verbatim>\<open>Text_Case\<close> (\<^verbatim>\<open>util/String.cpp\<close>): lower-casing by machine words equals lower-casing by
    characters.
  \<^item> \<^verbatim>\<open>Text_Search\<close> (\<^verbatim>\<open>util/Range.h\<close>, \<^verbatim>\<open>Range.cpp\<close>): the skipping search finds the first occurrence,
    and the byte set works on uninitialised memory.
  \<^item> \<^verbatim>\<open>Text_Split\<close> (\<^verbatim>\<open>util/String-inl.h\<close>, \<^verbatim>\<open>String.cpp\<close>): splitting equals a reference tokeniser and is
    undone by joining; trimming and hexadecimal text.
  \<^item> \<^verbatim>\<open>Number_Text\<close> (\<^verbatim>\<open>util/Conv.h\<close>, \<^verbatim>\<open>Conv.cpp\<close>): integers survive the trip through text, which
    texts are accepted as integers, and where the checked conversions fail to check.
  \<^item> \<^verbatim>\<open>Utf8_Text\<close> (\<^verbatim>\<open>util/Unicode.h\<close>, \<^verbatim>\<open>Unicode.cpp\<close>, \<^verbatim>\<open>Utf8StringPiece.h\<close>): decoding inverts encoding
    as far as it does, iterators visit the code points of a text, and the clean-up of
    malformed text leaves well-formed units.
  \<^item> \<^verbatim>\<open>Dynamic_Value\<close> (\<^verbatim>\<open>util/dynamic.h\<close>, \<^verbatim>\<open>dynamic-inl.h\<close>, \<^verbatim>\<open>dynamic.cpp\<close>, \<^verbatim>\<open>Hash.h\<close>): values with a
    dynamic type, their hash, comparison, arithmetic and conversions. Objects
    interpret a locale of key-value stores; merging is the override of maps.
  \<^item> \<^verbatim>\<open>Json_Text\<close> (\<^verbatim>\<open>util/json.h\<close>, \<^verbatim>\<open>json.cpp\<close>): what is printed is parsed back, for values whose
    strings and numbers have a text that can be read, parsing ends on
    every text (the fuel of twice the length plus one is enough), and nesting is
    bounded.
  \<^item> \<^verbatim>\<open>Binary_Serializer\<close> (\<^verbatim>\<open>serializer/Serializer.h\<close>): the output is a locale, interpreted on
    strings and on the appenders of \<^verbatim>\<open>Buffer_Writer\<close>; reading inverts writing, and
    reads past the end of an input that is cut short.

  \<^bold>\<open>Not modelled.\<close> Actors, services and the clients behind the event loop's
  hand-over; sockets and name resolution (their results are parameters of the
  event loop); the adapters to thrift, protobuf and an HTTP parser; thread
  pools and coroutines, that is threads and machine stacks; floating point,
  character sets and character properties, which are left to libraries or are
  tables; memory mapping, compression and cryptography, which are calls of system
  libraries; configuration and monitoring; vendored and generated code, examples and plugins.
  Weak memory orders are not modelled beyond interleaving, and allocation never
  fails.
\<close>

end
